(* ===== verification/Crt_Prelude.thy ===== *)
theory Crt_Prelude
  imports Main "HOL-Library.Word" "HOL-Library.Log_Nat" "HOL-Library.Signed_Division"
begin

unbundle bit_operations_syntax

text \<open>
  The types, the C operators and the generic word lemmas that every component of the
  library shares. The integer types are those of \<^verbatim>\<open>lib/int_types.h\<close>; as
  \<^verbatim>\<open>lib/int_lib.h\<close> assumes (two's complement, arithmetic right shift of negative
  values), signed and unsigned integers of one width are the same words, and the operators
  (\<open><s\<close>, \<open>signed_drop_bit\<close>, \<open>sint\<close>) carry the signedness.

  What C leaves undefined is not given a value of our choice: a shift by a count outside the
  width, \<^verbatim>\<open>__builtin_clz(0)\<close> and a division by zero yield whatever the parameter
  \<open>ub\<close> says, and every theorem about code that can get there is for all \<open>ub\<close>.
\<close>

section \<open>Types\<close>

type_synonym si_int = "32 word"
type_synonym su_int = "32 word"
type_synonym di_int = "64 word"
type_synonym du_int = "64 word"
type_synonym ti_int = "128 word"
type_synonym tu_int = "128 word"

text \<open>The only error the integer routines raise: \<^verbatim>\<open>compilerrt_abort()\<close>, which names the
  function it is called in and does not return.\<close>

datatype crt_error = Abort string

text \<open>The operations C leaves undefined, and the target's answer to them: the operation, the width
  of its first operand, the operand's value and the count or second operand give some integer.\<close>

datatype ub_op = Shl_range | Lshr_range | Ashr_range | Clz_zero | Ctz_zero | Div_zero | Mod_zero | Sdiv_undef

type_synonym ub = "ub_op \<Rightarrow> nat \<Rightarrow> int \<Rightarrow> int \<Rightarrow> int"

named_theorems c_ops \<comment> \<open>the C operators at operands where C defines them\<close>
named_theorems word_nat \<comment> \<open>words as naturals\<close>

section \<open>C operators\<close>

text \<open>Shifts by a variable count; the count is a C \<^verbatim>\<open>int\<close> or \<^verbatim>\<open>unsigned\<close>, so a negative count
  is one beyond every width.\<close>

definition c_shl :: "ub \<Rightarrow> 'a::len word \<Rightarrow> su_int \<Rightarrow> 'a word" where
  "c_shl u x n = (if unat n < LENGTH('a) then push_bit (unat n) x
                  else word_of_int (u Shl_range LENGTH('a) (uint x) (uint n)))"

definition c_lshr :: "ub \<Rightarrow> 'a::len word \<Rightarrow> su_int \<Rightarrow> 'a word" where
  "c_lshr u x n = (if unat n < LENGTH('a) then drop_bit (unat n) x
                   else word_of_int (u Lshr_range LENGTH('a) (uint x) (uint n)))"

definition c_ashr :: "ub \<Rightarrow> 'a::len word \<Rightarrow> su_int \<Rightarrow> 'a word" where
  "c_ashr u x n = (if unat n < LENGTH('a) then signed_drop_bit (unat n) x
                   else word_of_int (u Ashr_range LENGTH('a) (uint x) (uint n)))"

text \<open>Unsigned \<^verbatim>\<open>/\<close> and \<^verbatim>\<open>%\<close> of the language.\<close>

definition c_udiv :: "ub \<Rightarrow> 'a::len word \<Rightarrow> 'a word \<Rightarrow> 'a word" where
  "c_udiv u x y = (if y \<noteq> 0 then x div y else word_of_int (u Div_zero LENGTH('a) (uint x) 0))"

definition c_umod :: "ub \<Rightarrow> 'a::len word \<Rightarrow> 'a word \<Rightarrow> 'a word" where
  "c_umod u x y = (if y \<noteq> 0 then x mod y else word_of_int (u Mod_zero LENGTH('a) (uint x) 0))"

text \<open>Signed \<^verbatim>\<open>/\<close> truncates; beside division by zero, the quotient of the least number by -1 is
  undefined.\<close>

definition c_sdiv :: "ub \<Rightarrow> 'a::len word \<Rightarrow> 'a word \<Rightarrow> 'a word" where
  "c_sdiv u x y =
    (if y \<noteq> 0 \<and> \<not> (sint x = - (2 ^ (LENGTH('a) - 1)) \<and> y = - 1) then word_of_int (sint x sdiv sint y)
     else word_of_int (u Sdiv_undef LENGTH('a) (sint x) (sint y)))"

text \<open>The values a signed integer of \<open>n\<close> bits has.\<close>

definition sfits :: "nat \<Rightarrow> int \<Rightarrow> bool" where
  "sfits n v \<longleftrightarrow> - (2 ^ (n - 1)) \<le> v \<and> v < 2 ^ (n - 1)"

text \<open>A C comparison used as a number.\<close>

definition c_bool :: "bool \<Rightarrow> 'a::len word" where
  "c_bool b = (if b then 1 else 0)"

text \<open>Leading and trailing zeros, and the compiler builtins that count them.\<close>

definition nlz :: "'a::len word \<Rightarrow> nat" where
  "nlz x = LENGTH('a) - floorlog 2 (unat x)"

fun ntz_nat :: "nat \<Rightarrow> nat" where
  "ntz_nat n = (if n = 0 \<or> odd n then 0 else Suc (ntz_nat (n div 2)))"

declare ntz_nat.simps [simp del]

definition ntz :: "'a::len word \<Rightarrow> nat" where
  "ntz x = (if x = 0 then LENGTH('a) else ntz_nat (unat x))"

definition builtin_clz :: "ub \<Rightarrow> 'a::len word \<Rightarrow> si_int" where
  "builtin_clz u x = (if x \<noteq> 0 then of_nat (nlz x) else word_of_int (u Clz_zero LENGTH('a) 0 0))"

definition builtin_ctz :: "ub \<Rightarrow> 'a::len word \<Rightarrow> si_int" where
  "builtin_ctz u x = (if x \<noteq> 0 then of_nat (ntz x) else word_of_int (u Ctz_zero LENGTH('a) 0 0))"

section \<open>The operators where C defines them\<close>

lemma c_shl_in [c_ops]: "unat n < LENGTH('a) \<Longrightarrow> c_shl u (x::'a::len word) n = push_bit (unat n) x"
  by (simp add: c_shl_def)

lemma c_lshr_in [c_ops]: "unat n < LENGTH('a) \<Longrightarrow> c_lshr u (x::'a::len word) n = drop_bit (unat n) x"
  by (simp add: c_lshr_def)

lemma c_ashr_in [c_ops]:
  "unat n < LENGTH('a) \<Longrightarrow> c_ashr u (x::'a::len word) n = signed_drop_bit (unat n) x"
  by (simp add: c_ashr_def)

lemma c_udiv_in [c_ops]: "y \<noteq> 0 \<Longrightarrow> c_udiv u x y = x div y"
  by (simp add: c_udiv_def)

lemma c_umod_in [c_ops]: "y \<noteq> 0 \<Longrightarrow> c_umod u x y = x mod y"
  by (simp add: c_umod_def)

lemma c_bool_simps [simp]: "c_bool True = 1" "c_bool False = 0"
  by (simp_all add: c_bool_def)

section \<open>Words as naturals\<close>

lemma unat_push_bit [word_nat]:
  "unat (push_bit n (x::'a::len word)) = (unat x * 2 ^ n) mod 2 ^ LENGTH('a)"
  unfolding unsigned_push_bit_eq take_bit_eq_mod by (simp add: push_bit_eq_mult)

lemma unat_drop_bit [word_nat]: "unat (drop_bit n (x::'a::len word)) = unat x div 2 ^ n"
  unfolding unat_drop_bit_eq by (rule drop_bit_eq_div)

lemma unat_and_mask [word_nat]: "unat (x AND mask n) = unat x mod 2 ^ n"
  unfolding take_bit_eq_mask [symmetric] unsigned_take_bit_eq by (rule take_bit_eq_mod)

lemma unat_add_below: "unat x + unat y < 2 ^ LENGTH('a) \<Longrightarrow> unat (x + y) = unat x + unat (y :: 'a::len word)"
  by (simp add: unat_word_ariths)

lemma unat_mult_below: "unat x * unat y < 2 ^ LENGTH('a) \<Longrightarrow> unat (x * y) = unat x * unat (y :: 'a::len word)"
  by (simp add: unat_word_ariths)

lemma unat_sub_below: "unat y \<le> unat x \<Longrightarrow> unat (x - y) = unat x - unat (y :: 'a::len word)"
  by (simp add: unat_sub word_le_nat_alt)

lemma unat_push_below: "unat x * 2 ^ n < 2 ^ LENGTH('a) \<Longrightarrow> unat (push_bit n (x :: 'a::len word)) = unat x * 2 ^ n"
  by (simp add: unat_push_bit)

lemma unat_or_disjoint:
  fixes x y :: "'a::len word"
  assumes "x AND y = 0"
  shows "unat (x OR y) = unat x + unat y"
proof -
  have "unat x AND unat y = 0"
    using assms by (metis unsigned_and_eq unsigned_0)
  then show ?thesis by (simp add: unsigned_or_eq disjunctive_add_eq_or)
qed

lemma or_disjoint_add: "x AND y = 0 \<Longrightarrow> x OR y = x + (y::'a::len word)"
  by (simp add: disjunctive_add_eq_or)

lemma bit_imp_unat_ge: "bit (y :: 'a::len word) m \<Longrightarrow> 2 ^ m \<le> unat y"
proof -
  assume "bit y m"
  then have "bit (unat y) m" by (simp add: bit_unsigned_iff)
  then have "odd (unat y div 2 ^ m)" by (simp add: bit_iff_odd)
  then have "unat y div 2 ^ m \<noteq> 0" by (rule contrapos_pn) simp
  then show ?thesis by (simp add: div_eq_0_iff)
qed

lemma top_bit_iff: "unat (x :: 'a::len word) < 2 * 2 ^ k \<Longrightarrow> bit x k \<longleftrightarrow> 2 ^ k \<le> unat x"
proof
  assume "unat x < 2 * 2 ^ k" "2 ^ k \<le> unat x"
  then have "unat x div 2 ^ k = 1" by (intro div_nat_eqI) simp_all
  then have "bit (unat x) k" by (simp add: bit_iff_odd)
  then show "bit x k" by (simp add: bit_unsigned_iff)
qed (rule bit_imp_unat_ge)

lemma and_top_bit_iff:
  "unat (x :: 'a::len word) < 2 * 2 ^ k \<Longrightarrow> x AND push_bit k 1 \<noteq> 0 \<longleftrightarrow> 2 ^ k \<le> unat x"
  by (simp add: and_exp_eq_0_iff_not_bit top_bit_iff)

lemma clear_bit:
  assumes "bit (x :: 'a::len word) k"
  shows "unat (x XOR push_bit k 1) = unat x - 2 ^ k"
proof -
  let ?e = "push_bit k 1 :: 'a word"
  have k: "k < LENGTH('a)" using assms by (rule bit_imp_le_length)
  have "(x XOR ?e) AND ?e = 0"
    using assms by (intro bit_word_eqI) (auto simp: bit_and_iff bit_xor_iff bit_exp_iff)
  moreover have "(x XOR ?e) OR ?e = x"
    using assms by (intro bit_word_eqI) (auto simp: bit_or_iff bit_xor_iff bit_exp_iff)
  ultimately have "unat x = unat (x XOR ?e) + unat ?e" by (metis unat_or_disjoint)
  moreover have "unat ?e = 2 ^ k" unfolding unat_push_bit using k by simp
  ultimately show ?thesis by simp
qed

text \<open>The range test \<^verbatim>\<open>x - 1 >= m - 1\<close>: zero wraps around to the top.\<close>

lemma minus_one_range:
  fixes x m :: "'a::len word"
  assumes "m \<noteq> 0"
  shows "x - 1 \<ge> m - 1 \<longleftrightarrow> x = 0 \<or> m \<le> x"
proof (cases "x = 0")
  case False
  have pos: "0 < unat x" "0 < unat m" using assms False by (simp_all add: unat_gt_0)
  then have "unat (x - 1) = unat x - 1" "unat (m - 1) = unat m - 1"
    by (subst unat_sub_below; simp)+
  then show ?thesis using False pos by (simp add: word_le_nat_alt) linarith
qed simp

text \<open>Two more range tests by a single comparison of wrapped differences.\<close>

lemma range_test:
  fixes x lo hi :: "'a::len word"
  assumes "lo \<le> hi"
  shows "x - lo < hi - lo \<longleftrightarrow> lo \<le> x \<and> x < hi"
proof -
  define N :: nat where "N = 2 ^ LENGTH('a)"
  have "unat x < N" "unat hi < N" unfolding N_def by (rule unsigned_less)+
  then show ?thesis
    using assms unfolding word_less_nat_alt word_le_nat_alt unat_sub_if' N_def [symmetric] by auto
qed

lemma range_test_below:
  fixes x lo hi :: "'a::len word"
  assumes "lo < hi"
  shows "x - lo < x - hi \<longleftrightarrow> lo \<le> x \<and> x < hi"
proof -
  define N :: nat where "N = 2 ^ LENGTH('a)"
  have "unat x < N" "unat hi < N" unfolding N_def by (rule unsigned_less)+
  then show ?thesis
    using assms unfolding word_less_nat_alt word_le_nat_alt unat_sub_if' N_def [symmetric] by auto
qed

lemma push_disjoint:
  fixes x y :: "'a::len word"
  assumes "unat y < 2 ^ n"
  shows "push_bit n x AND y = 0"
proof (rule bit_word_eqI)
  fix m
  have "m < n" if "bit y m"
    using less_le_trans [of "2 ^ m" "Suc (unat y)" "2 ^ n"] bit_imp_unat_ge [OF that] assms
    by (simp add: less_Suc_eq_le)
  then show "bit (push_bit n x AND y) m = bit 0 m"
    by (auto simp: bit_and_iff bit_push_bit_iff)
qed

lemma unat_push_or:
  "unat y < 2 ^ n \<Longrightarrow> unat (push_bit n x OR y) = unat x * 2 ^ n mod 2 ^ LENGTH('a) + unat (y :: 'a::len word)"
  unfolding unat_or_disjoint [OF push_disjoint] unat_push_bit ..

lemma word_lt_2: "unat (c :: 'a::len word) < 2 \<Longrightarrow> c = 0 \<or> c = 1"
proof -
  assume "unat c < 2"
  then have "unat c = unat (0 :: 'a word) \<or> unat c = unat (1 :: 'a word)" by auto
  then show ?thesis using unsigned_word_eqI by blast
qed

lemma sign_mask_bits:
  "signed_drop_bit (LENGTH('a) - 1) (x::'a::len word) = (if bit x (LENGTH('a) - 1) then - 1 else 0)"
  by (rule bit_word_eqI) (auto simp: bit_signed_drop_bit_iff not_less_eq_eq)

lemma sign_mask: "signed_drop_bit (LENGTH('a) - 1) (x::'a::len word) = (if x <s 0 then - 1 else 0)"
  using sign_mask_bits [of x] by (simp add: word_sless_alt bit_last_iff)

lemma sint_uint_cases:
  "sint (x::'a::len word) = (if bit x (LENGTH('a) - 1) then uint x - 2 ^ LENGTH('a) else uint x)"
proof -
  have "take_bit LENGTH('a) (uint x) = uint x" by (rule take_bit_int_eq_self) simp_all
  then show ?thesis by (simp add: sint_uint signed_take_bit_eq_take_bit_minus bit_uint_iff)
qed

lemma unat_minus_word: "unat (- x) = (if x = 0 then 0 else 2 ^ LENGTH('a) - unat (x::'a::len word))"
proof (cases "x = 0")
  case False
  have "uint (- x) = (- uint x) mod 2 ^ LENGTH('a)" by (rule uint_word_ariths)
  also have "\<dots> = 2 ^ LENGTH('a) - uint x"
    using False by (simp add: zmod_zminus1_eq_if uint_0_iff)
  finally have "int (unat (- x)) = 2 ^ LENGTH('a) - int (unat x)" by simp
  then have "int (unat (- x)) + int (unat x) = int (2 ^ LENGTH('a))" by simp
  then have "unat (- x) + unat x = 2 ^ LENGTH('a)" unfolding of_nat_add [symmetric] of_nat_eq_iff .
  with False show ?thesis by simp
qed simp

section \<open>Words as integers\<close>

lemma unat_word_of_int:
  assumes "0 \<le> i" "i < 2 ^ LENGTH('a)"
  shows "unat (word_of_int i :: 'a::len word) = nat i"
proof -
  have "uint (word_of_int i :: 'a word) = i" using assms by (simp add: uint_word_of_int)
  then have "int (unat (word_of_int i :: 'a word)) = i" by simp
  then show ?thesis by linarith
qed

lemma uint_pos: "x \<noteq> 0 \<Longrightarrow> 0 < uint x"
  using uint_ge_0 [of x] by (metis order_less_le uint_0_iff)

lemma sfits_sint [simp, intro]: "sfits LENGTH('a) (sint (x::'a::len word))"
  using sint_ge [of x] sint_lt [of x] by (simp add: sfits_def)

lemma sint_of_int: "sfits LENGTH('a) v \<Longrightarrow> sint (word_of_int v :: 'a::len word) = v"
  unfolding sfits_def sint_sbintrunc' by (rule signed_take_bit_int_eq_self) auto

lemma two_power_length: "(2::int) ^ LENGTH('a::len) = 2 * 2 ^ (LENGTH('a) - 1)"
  by (simp flip: power_Suc)

text \<open>An integer at most one period outside the range wraps once.\<close>

lemma sint_of_int_wrap:
  assumes "- (3 * 2 ^ (LENGTH('a) - 1)) \<le> v" and "v < 3 * 2 ^ (LENGTH('a) - 1)"
  shows "sint (word_of_int v :: 'a::len word) =
    (if sfits LENGTH('a) v then v else if v < 0 then v + 2 ^ LENGTH('a) else v - 2 ^ LENGTH('a))"
proof -
  have e: "(word_of_int (v + 2 ^ LENGTH('a)) :: 'a word) = word_of_int v"
    "(word_of_int (v - 2 ^ LENGTH('a)) :: 'a word) = word_of_int v"
    by (simp_all add: word_of_int_eq_iff take_bit_eq_mod)
  show ?thesis
  proof (cases "sfits LENGTH('a) v")
    case False
    then consider "v < - (2 ^ (LENGTH('a) - 1))" | "2 ^ (LENGTH('a) - 1) \<le> v"
      by (auto simp: sfits_def)
    then show ?thesis
    proof cases
      case 1
      then have "sfits LENGTH('a) (v + 2 ^ LENGTH('a))"
        using assms by (simp add: sfits_def two_power_length)
      moreover have "v < 0" using 1 by (smt (verit) zero_less_power)
      ultimately show ?thesis using sint_of_int [of "v + 2 ^ LENGTH('a)", where ?'a = 'a] False e by simp
    next
      case 2
      then have "sfits LENGTH('a) (v - 2 ^ LENGTH('a))"
        using assms by (simp add: sfits_def two_power_length)
      moreover have "\<not> v < 0" using 2 by (smt (verit) zero_less_power)
      ultimately show ?thesis using sint_of_int [of "v - 2 ^ LENGTH('a)", where ?'a = 'a] False e by simp
    qed
  qed (simp add: sint_of_int)
qed

lemma sadd_of_int: "a + b = word_of_int (sint a + sint (b::'a::len word))"
  and ssub_of_int: "a - b = word_of_int (sint a - sint (b::'a::len word))"
  and smul_of_int: "a * b = word_of_int (sint a * sint (b::'a::len word))"
  and sneg_of_int: "- a = word_of_int (- sint (a::'a::len word))"
  by simp_all

lemma c_sdiv_in [c_ops]:
  "y \<noteq> 0 \<Longrightarrow> y \<noteq> - 1 \<Longrightarrow> c_sdiv u x y = word_of_int (sint x sdiv sint y)"
  by (simp add: c_sdiv_def)

section \<open>Leading and trailing zeros\<close>

lemma nlz_bounds:
  fixes x :: "'a::len word"
  assumes "x \<noteq> 0"
  shows "nlz x < LENGTH('a)" and "2 ^ (LENGTH('a) - 1 - nlz x) \<le> unat x"
    and "unat x < 2 ^ (LENGTH('a) - nlz x)"
proof -
  let ?f = "floorlog 2 (unat x)"
  have pos: "0 < unat x" using assms by (simp add: unat_gt_0)
  from floorlog_bounds [OF this, of 2] have b: "2 ^ (?f - 1) \<le> unat x" "unat x < 2 ^ ?f"
    by auto
  have le: "?f \<le> LENGTH('a)" by (simp add: floorlog_leI)
  have f0: "0 < ?f" using b(2) pos by (cases ?f) auto
  show "nlz x < LENGTH('a)" using f0 le by (simp add: nlz_def)
  have e: "LENGTH('a) - nlz x = ?f" using le by (simp add: nlz_def)
  show "unat x < 2 ^ (LENGTH('a) - nlz x)" using b(2) e by simp
  have "LENGTH('a) - 1 - nlz x = ?f - 1" using e by simp
  then show "2 ^ (LENGTH('a) - 1 - nlz x) \<le> unat x" using b(1) by simp
qed

lemma nlz_eqI:
  fixes x :: "'a::len word"
  assumes "k < LENGTH('a)" and "2 ^ (LENGTH('a) - 1 - k) \<le> unat x" and "unat x < 2 ^ (LENGTH('a) - k)"
  shows "nlz x = k"
proof -
  have pos: "0 < unat x" using assms(2) by (metis less_le_trans zero_less_numeral zero_less_power)
  then have nz: "x \<noteq> 0" by auto
  have "2 ^ (LENGTH('a) - 1 - k) < (2::nat) ^ (LENGTH('a) - nlz x)"
    using assms(2) nlz_bounds(3) [OF nz] by linarith
  then have 1: "nlz x \<le> k" using assms(1) nlz_bounds(1) [OF nz] by simp
  have "2 ^ (LENGTH('a) - 1 - nlz x) < (2::nat) ^ (LENGTH('a) - k)"
    using assms(3) nlz_bounds(2) [OF nz] by linarith
  then have "k \<le> nlz x" using assms(1) nlz_bounds(1) [OF nz] by simp
  with 1 show ?thesis by simp
qed

lemma nlz_exp: "k < LENGTH('a) \<Longrightarrow> unat x = 2 ^ k \<Longrightarrow> nlz (x :: 'a::len word) = LENGTH('a) - 1 - k"
  by (rule nlz_eqI) auto

text \<open>The shift that brings the leading digit of a smaller number to place \<open>k\<close>.\<close>

lemma nlz_shift:
  fixes x :: "'a::len word"
  assumes x: "x \<noteq> 0" "unat x < 2 ^ k" and k: "k < LENGTH('a)"
  obtains n where "nlz x = LENGTH('a) - 1 - k + n" "0 < n" "n \<le> k"
    "2 ^ k \<le> unat x * 2 ^ n" "unat x * 2 ^ n < 2 * 2 ^ k"
proof -
  note b = nlz_bounds [OF x(1)]
  have lo: "LENGTH('a) - k \<le> nlz x"
  proof (rule ccontr)
    assume "\<not> ?thesis"
    then have "k \<le> LENGTH('a) - 1 - nlz x" by simp
    then have "(2::nat) ^ k \<le> 2 ^ (LENGTH('a) - 1 - nlz x)" by (intro power_increasing) simp_all
    with b(2) x(2) show False by linarith
  qed
  define n where "n = nlz x - (LENGTH('a) - 1 - k)"
  have e: "LENGTH('a) - 1 - nlz x + n = k" "LENGTH('a) - nlz x + n = k + 1"
    using lo b(1) k by (auto simp: n_def)
  have "2 ^ k \<le> unat x * 2 ^ n" "unat x * 2 ^ n < 2 * 2 ^ k"
    using mult_le_mono1 [OF b(2), of "2 ^ n"] mult_strict_right_mono [OF b(3), of "2 ^ n"]
    unfolding power_add [symmetric] e by simp_all
  then show ?thesis using that [of n] lo b(1) k by (auto simp: n_def)
qed

text \<open>The number of leading zeros is what its name says: the highest set bit lies just below them.\<close>

lemma nlz_bit:
  fixes x :: "'a::len word"
  assumes "x \<noteq> 0"
  shows "bit x (LENGTH('a) - 1 - nlz x)" and "LENGTH('a) - 1 - nlz x < m \<Longrightarrow> \<not> bit x m"
proof -
  note b = nlz_bounds [OF assms]
  let ?k = "LENGTH('a) - 1 - nlz x"
  have u: "unat x < 2 * 2 ^ ?k"
    using b(1,3) by (metis Suc_diff_Suc diff_Suc_eq_diff_pred power_Suc)
  have "unat x div 2 ^ ?k = 1"
    using b(2) u by (simp add: div_nat_eqI)
  then have "bit (unat x) ?k" by (simp add: bit_iff_odd)
  then show "bit x ?k" by (simp add: bit_unsigned_iff)
  show "\<not> bit x m" if "?k < m"
  proof -
    have "(2::nat) * 2 ^ ?k \<le> 2 ^ m"
      using that by (metis Suc_leI one_le_numeral power_Suc power_increasing)
    with u have "unat x div 2 ^ m = 0" by simp
    then have "\<not> bit (unat x) m" by (simp add: bit_iff_odd)
    then show ?thesis by (auto simp: bit_unsigned_iff dest: bit_imp_le_length)
  qed
qed

lemma ntz_nat_spec: "0 < n \<Longrightarrow> bit n (ntz_nat n) \<and> (\<forall>m < ntz_nat n. \<not> bit n m)"
proof (induction n rule: ntz_nat.induct)
  case (1 n)
  show ?case
  proof (cases "odd n")
    case True
    then show ?thesis by (simp add: ntz_nat.simps [of n] bit_0)
  next
    case False
    with 1 have IH: "bit (n div 2) (ntz_nat (n div 2)) \<and> (\<forall>m < ntz_nat (n div 2). \<not> bit (n div 2) m)"
      by auto
    have e: "ntz_nat n = Suc (ntz_nat (n div 2))" using False 1 by (simp add: ntz_nat.simps [of n])
    show ?thesis
      using IH False unfolding e by (auto simp: bit_Suc less_Suc_eq_0_disj bit_0)
  qed
qed

lemma ntz_bit:
  fixes x :: "'a::len word"
  assumes "x \<noteq> 0"
  shows "bit x (ntz x)" and "m < ntz x \<Longrightarrow> \<not> bit x m" and "ntz x < LENGTH('a)"
proof -
  have "0 < unat x" using assms by (simp add: unat_gt_0)
  from ntz_nat_spec [OF this] have *: "bit (unat x) (ntz x)" "\<And>m. m < ntz x \<Longrightarrow> \<not> bit (unat x) m"
    using assms by (auto simp: ntz_def)
  show b: "bit x (ntz x)" using *(1) by (simp add: bit_unsigned_iff)
  then show "ntz x < LENGTH('a)" by (rule bit_imp_le_length)
  show "\<not> bit x m" if "m < ntz x"
    using *(2) [OF that] by (auto simp: bit_unsigned_iff dest: bit_imp_le_length)
qed

lemma ntz_eqI:
  fixes x :: "'a::len word"
  assumes "bit x k" and "\<And>m. m < k \<Longrightarrow> \<not> bit x m"
  shows "ntz x = k"
proof -
  have nz: "x \<noteq> 0" using assms(1) by auto
  show ?thesis
    using assms ntz_bit [OF nz] by (meson linorder_neqE_nat)
qed

end
