(* ===== verification/Halves.thy ===== *)
theory Halves
  imports Crt_Prelude
begin

unbundle bit_operations_syntax

text \<open>
  The unions \<^verbatim>\<open>dwords\<close>, \<^verbatim>\<open>udwords\<close>, \<^verbatim>\<open>twords\<close> and \<^verbatim>\<open>utwords\<close> of
  \<^verbatim>\<open>lib/int_types.h\<close>: a wide integer seen as its two halves. The header orders the
  fields by the byte order of the target, so that \<^verbatim>\<open>high\<close> is the more significant half on
  every target; a \<open>halves\<close> record is the union's \<^verbatim>\<open>s\<close> view, \<open>union_all\<close> and
  \<open>union_s\<close> change the view.

  The locale \<open>halves_view\<close> is the interface the routines that work half by half rest on;
  it is interpreted at the two sizes of the header.
\<close>

record 'a halves =
  s_high :: 'a
  s_low :: 'a

type_synonym dwords = "su_int halves"
type_synonym twords = "du_int halves"

definition union_all :: "'h::len word halves \<Rightarrow> 'd::len word" where
  "union_all p = push_bit LENGTH('h) (ucast (s_high p)) OR ucast (s_low p)"

definition union_s :: "'d::len word \<Rightarrow> 'h::len word halves" where
  "union_s x = \<lparr> s_high = ucast (drop_bit LENGTH('h) x), s_low = ucast x \<rparr>"

definition dwords_of :: "di_int \<Rightarrow> dwords" where "dwords_of = union_s"
definition dwords_all :: "dwords \<Rightarrow> di_int" where "dwords_all = union_all"
definition twords_of :: "ti_int \<Rightarrow> twords" where "twords_of = union_s"
definition twords_all :: "twords \<Rightarrow> ti_int" where "twords_all = union_all"

definition make_ti :: "di_int \<Rightarrow> di_int \<Rightarrow> ti_int" where
  "make_ti h l = twords_all \<lparr> s_high = h, s_low = l \<rparr>"

definition make_tu :: "du_int \<Rightarrow> du_int \<Rightarrow> tu_int" where
  "make_tu h l = twords_all \<lparr> s_high = h, s_low = l \<rparr>"

section \<open>The interface\<close>

text \<open>A client sees a wide word through \<open>split\<close> and \<open>join\<close>; the two laws say which bit is
  where.\<close>

locale halves_view =
  fixes join :: "'h::len word halves \<Rightarrow> 'd::len word"
    and split :: "'d word \<Rightarrow> 'h word halves"
  assumes double_length: "LENGTH('d) = 2 * LENGTH('h)"
    and bit_join: "bit (join p) n \<longleftrightarrow>
      (if n < LENGTH('h) then bit (s_low p) n else bit (s_high p) (n - LENGTH('h)))"
    and split_join: "split (join p) = p"
begin

lemma bit_high: "bit (s_high (split x)) n \<longleftrightarrow> n < LENGTH('h) \<and> bit x (n + LENGTH('h))"
  and bit_low: "bit (s_low (split x)) n \<longleftrightarrow> n < LENGTH('h) \<and> bit x n"
  and join_split: "join (split x) = x"
proof -
  define p where "p = \<lparr> s_high = ucast (drop_bit LENGTH('h) x) :: 'h word, s_low = ucast x \<rparr>"
  have x: "x = join p"
    by (rule bit_word_eqI)
      (auto simp: p_def bit_join bit_ucast_iff bit_drop_bit_eq double_length)
  have s: "split x = p" by (simp add: x split_join)
  show "join (split x) = x" unfolding s x [symmetric] ..
  show "bit (s_high (split x)) n \<longleftrightarrow> n < LENGTH('h) \<and> bit x (n + LENGTH('h))"
    unfolding s by (auto simp: p_def bit_ucast_iff bit_drop_bit_eq ac_simps dest: bit_imp_le_length)
  show "bit (s_low (split x)) n \<longleftrightarrow> n < LENGTH('h) \<and> bit x n"
    unfolding s by (auto simp: p_def bit_ucast_iff)
qed

lemma join_parts: "join \<lparr> s_high = s_high (split x), s_low = s_low (split x) \<rparr> = x"
  using join_split [of x] by (cases "split x") simp

lemma unat_ucast_half: "unat (ucast w :: 'd word) = unat (w :: 'h word)"
  by (simp add: unsigned_ucast_eq take_bit_nat_eq_self less_le_trans [OF unsigned_less] double_length)

lemma unat_join: "unat (join p) = unat (s_high p) * 2 ^ LENGTH('h) + unat (s_low p)"
proof -
  have j: "join p = push_bit LENGTH('h) (ucast (s_high p)) OR ucast (s_low p)"
    by (rule bit_word_eqI)
      (auto simp: bit_join bit_or_iff bit_push_bit_iff bit_ucast_iff double_length
        dest: bit_imp_le_length)
  have d: "push_bit LENGTH('h) (ucast (s_high p)) AND ucast (s_low p) = (0 :: 'd word)"
    by (rule bit_word_eqI)
      (auto simp: bit_and_iff bit_push_bit_iff bit_ucast_iff dest: bit_imp_le_length)
  have "unat (s_high p) * 2 ^ LENGTH('h) < 2 ^ LENGTH('h) * (2 :: nat) ^ LENGTH('h)"
    using unsigned_less [where ?'a = nat, of "s_high p"] by simp
  also have "\<dots> = 2 ^ LENGTH('d)" by (simp add: double_length power_add [symmetric] mult_2)
  finally show ?thesis
    unfolding j unat_or_disjoint [OF d] unat_push_bit unat_ucast_half by simp
qed

lemma unat_split: "unat x = unat (s_high (split x)) * 2 ^ LENGTH('h) + unat (s_low (split x))"
  using unat_join [of "split x"] by (simp add: join_split)

lemma high_eq: "unat (s_high (split x)) = unat x div 2 ^ LENGTH('h)"
  and low_eq: "unat (s_low (split x)) = unat x mod 2 ^ LENGTH('h)"
  using unsigned_less [where ?'a = nat, of "s_low (split x)"] by (simp_all add: unat_split [of x])

lemma split_eq_iff: "split x = split y \<longleftrightarrow> x = y"
  by (metis join_split)

lemma eq_halves: "x = y \<longleftrightarrow> s_high (split x) = s_high (split y) \<and> s_low (split x) = s_low (split y)"
  using split_eq_iff [of x y] by (auto intro!: halves.equality)

lemma zero_halves: "x = 0 \<longleftrightarrow> s_high (split x) = 0 \<and> s_low (split x) = 0"
proof -
  have "s_high (split 0) = 0" "s_low (split 0) = 0" by (auto intro!: bit_word_eqI simp: bit_high bit_low)
  then show ?thesis by (simp add: eq_halves)
qed

lemma msb_high: "bit (s_high (split x)) (LENGTH('h) - 1) = bit x (LENGTH('d) - 1)"
proof -
  have "LENGTH('d) - 1 = LENGTH('h) - 1 + LENGTH('h)" by (simp add: double_length mult_2)
  then show ?thesis by (simp add: bit_high)
qed

end

lemma union_all_bit:
  assumes "LENGTH('d::len) = 2 * LENGTH('h::len)"
  shows "bit (union_all (p :: 'h word halves) :: 'd word) n \<longleftrightarrow>
    (if n < LENGTH('h) then bit (s_low p) n else bit (s_high p) (n - LENGTH('h)))"
  using assms
  by (auto simp: union_all_def bit_or_iff bit_push_bit_iff bit_ucast_iff dest: bit_imp_le_length)

lemma union_s_all:
  assumes "LENGTH('d::len) = 2 * LENGTH('h::len)"
  shows "union_s (union_all (p :: 'h word halves) :: 'd word) = p"
  using assms
  by (auto intro!: halves.equality bit_word_eqI
    simp: union_s_def bit_ucast_iff bit_drop_bit_eq union_all_bit)

interpretation dw: halves_view dwords_all dwords_of
  by unfold_locales (simp_all add: dwords_all_def dwords_of_def union_all_bit union_s_all)

interpretation tw: halves_view twords_all twords_of
  by unfold_locales (simp_all add: twords_all_def twords_of_def union_all_bit union_s_all)

lemma unat_make_ti: "unat (make_ti h l) = unat h * 2 ^ 64 + unat l"
  using tw.unat_join [of "\<lparr> s_high = h, s_low = l \<rparr>"] by (simp add: make_ti_def)

lemma make_tu_eq: "make_tu = make_ti"
  by (simp add: fun_eq_iff make_ti_def make_tu_def)

end
