(* ===== verification/Shifts.thy ===== *)
theory Shifts
  imports Halves
begin

unbundle bit_operations_syntax

text \<open>
  The double-word shifts \<^verbatim>\<open>lib/ashldi3.c\<close>, \<^verbatim>\<open>lib/ashrdi3.c\<close>, \<^verbatim>\<open>lib/lshrdi3.c\<close> and
  their 128-bit versions \<^verbatim>\<open>lib/ashlti3.c\<close>, \<^verbatim>\<open>lib/ashrti3.c\<close>, \<^verbatim>\<open>lib/lshrti3.c\<close>: each
  shifts the halves by a count in the half width and carries the bits that cross. The shifts of
  the halves are the checked operators of the prelude, so the results also say that no half is
  ever shifted by a count outside its width.
\<close>

section \<open>The code\<close>

definition ashldi3 :: "ub \<Rightarrow> di_int \<Rightarrow> si_int \<Rightarrow> di_int" where
  "ashldi3 u a b =
    (let input = dwords_of a in
     if b AND 32 \<noteq> 0 then
       dwords_all \<lparr> s_high = c_shl u (s_low input) (b - 32), s_low = 0 \<rparr>
     else if b = 0 then a
     else dwords_all
       \<lparr> s_high = c_shl u (s_high input) b OR c_lshr u (s_low input) (32 - b),
         s_low = c_shl u (s_low input) b \<rparr>)"

definition ashrdi3 :: "ub \<Rightarrow> di_int \<Rightarrow> si_int \<Rightarrow> di_int" where
  "ashrdi3 u a b =
    (let input = dwords_of a in
     if b AND 32 \<noteq> 0 then
       dwords_all
       \<lparr> s_high = c_ashr u (s_high input) (32 - 1),
         s_low = c_ashr u (s_high input) (b - 32) \<rparr>
     else if b = 0 then a
     else dwords_all
       \<lparr> s_high = c_ashr u (s_high input) b,
         s_low = c_shl u (s_high input) (32 - b) OR c_lshr u (s_low input) b \<rparr>)"

definition lshrdi3 :: "ub \<Rightarrow> di_int \<Rightarrow> si_int \<Rightarrow> di_int" where
  "lshrdi3 u a b =
    (let input = dwords_of a in
     if b AND 32 \<noteq> 0 then
       dwords_all \<lparr> s_high = 0, s_low = c_lshr u (s_high input) (b - 32) \<rparr>
     else if b = 0 then a
     else dwords_all
       \<lparr> s_high = c_lshr u (s_high input) b,
         s_low = c_shl u (s_high input) (32 - b) OR c_lshr u (s_low input) b \<rparr>)"

definition ashlti3 :: "ub \<Rightarrow> ti_int \<Rightarrow> si_int \<Rightarrow> ti_int" where
  "ashlti3 u a b =
    (let input = twords_of a in
     if b AND 64 \<noteq> 0 then
       twords_all \<lparr> s_high = c_shl u (s_low input) (b - 64), s_low = 0 \<rparr>
     else if b = 0 then a
     else twords_all
       \<lparr> s_high = c_shl u (s_high input) b OR c_lshr u (s_low input) (64 - b),
         s_low = c_shl u (s_low input) b \<rparr>)"

definition ashrti3 :: "ub \<Rightarrow> ti_int \<Rightarrow> si_int \<Rightarrow> ti_int" where
  "ashrti3 u a b =
    (let input = twords_of a in
     if b AND 64 \<noteq> 0 then
       twords_all
       \<lparr> s_high = c_ashr u (s_high input) (64 - 1),
         s_low = c_ashr u (s_high input) (b - 64) \<rparr>
     else if b = 0 then a
     else twords_all
       \<lparr> s_high = c_ashr u (s_high input) b,
         s_low = c_shl u (s_high input) (64 - b) OR c_lshr u (s_low input) b \<rparr>)"

definition lshrti3 :: "ub \<Rightarrow> ti_int \<Rightarrow> si_int \<Rightarrow> ti_int" where
  "lshrti3 u a b =
    (let input = twords_of a in
     if b AND 64 \<noteq> 0 then
       twords_all \<lparr> s_high = 0, s_low = c_lshr u (s_high input) (b - 64) \<rparr>
     else if b = 0 then a
     else twords_all
       \<lparr> s_high = c_lshr u (s_high input) b,
         s_low = c_shl u (s_high input) (64 - b) OR c_lshr u (s_low input) b \<rparr>)"

section \<open>Shifting half by half\<close>

context halves_view
begin

lemma bit_beyond: "LENGTH('h) \<le> n \<Longrightarrow> \<not> bit (w :: 'h word) n"
  using bit_imp_le_length [of w n] by auto

lemma bit_beyond_wide: "2 * LENGTH('h) \<le> n \<Longrightarrow> \<not> bit (x :: 'd word) n"
  using bit_imp_le_length [of x n] by (auto simp: double_length)

lemma bit_high_less: "bit (x :: 'd word) (k + (n + LENGTH('h))) \<Longrightarrow> k + n < LENGTH('h)"
  using bit_beyond_wide [of "k + (n + LENGTH('h))" x] by (cases "k + n < LENGTH('h)") auto

lemma eq_halfwise:
  assumes "\<And>k. k < LENGTH('h) \<Longrightarrow> bit x k = bit y k"
    and "\<And>k. k < LENGTH('h) \<Longrightarrow> bit x (k + LENGTH('h)) = bit y (k + LENGTH('h))"
  shows "x = (y :: 'd word)"
proof (rule bit_word_eqI)
  fix m assume "m < LENGTH('d)"
  then have "m - LENGTH('h) < LENGTH('h)" if "\<not> m < LENGTH('h)"
    using that by (simp add: double_length)
  with assms(1) [of m] assms(2) [of "m - LENGTH('h)"] show "bit x m = bit y m"
    by (cases "m < LENGTH('h)") auto
qed

lemmas half_bits =
  bit_join bit_push_bit_iff bit_drop_bit_eq bit_or_iff bit_signed_drop_bit_iff bit_low bit_high
  bit_beyond double_length add.assoc add.commute add.left_commute

lemma shl_far:
  assumes "n < LENGTH('h)"
  shows "join \<lparr> s_high = push_bit n (s_low (split x)), s_low = 0 \<rparr> = push_bit (n + LENGTH('h)) x"
  using assms by (intro eq_halfwise) (auto simp: half_bits)

lemma shl_near:
  assumes "0 < n" "n < LENGTH('h)"
  shows "join \<lparr> s_high = push_bit n (s_high (split x)) OR drop_bit (LENGTH('h) - n) (s_low (split x)),
                s_low = push_bit n (s_low (split x)) \<rparr> = push_bit n x" (is "?l = ?r")
proof (rule eq_halfwise)
  fix k assume k: "k < LENGTH('h)"
  then show "bit ?l k = bit ?r k" using assms by (auto simp: half_bits)
  have "k + LENGTH('h) - n = k - n + LENGTH('h)" if "n \<le> k" using that by simp
  with k assms show "bit ?l (k + LENGTH('h)) = bit ?r (k + LENGTH('h))"
    by (cases "n \<le> k") (auto simp: half_bits)
qed

lemma lshr_far:
  assumes "n < LENGTH('h)"
  shows "join \<lparr> s_high = 0, s_low = drop_bit n (s_high (split x)) \<rparr> = drop_bit (n + LENGTH('h)) x"
  using assms by (intro eq_halfwise) (auto simp: half_bits bit_beyond_wide dest: bit_high_less)

lemma lshr_near:
  assumes "0 < n" "n < LENGTH('h)"
  shows "join \<lparr> s_high = drop_bit n (s_high (split x)),
                s_low = push_bit (LENGTH('h) - n) (s_high (split x)) OR drop_bit n (s_low (split x)) \<rparr>
         = drop_bit n x" (is "?l = ?r")
proof (rule eq_halfwise)
  fix k assume k: "k < LENGTH('h)"
  have "k - (LENGTH('h) - n) + LENGTH('h) = k + n" if "LENGTH('h) \<le> k + n"
    using that assms by simp
  with k assms show "bit ?l k = bit ?r k"
    by (cases "LENGTH('h) \<le> k + n") (auto simp: half_bits)
  from k assms show "bit ?l (k + LENGTH('h)) = bit ?r (k + LENGTH('h))"
    by (auto simp: half_bits bit_beyond_wide dest: bit_high_less)
qed

lemma ashr_far:
  assumes "n < LENGTH('h)"
  shows "join \<lparr> s_high = signed_drop_bit (LENGTH('h) - 1) (s_high (split x)),
                s_low = signed_drop_bit n (s_high (split x)) \<rparr> = signed_drop_bit (n + LENGTH('h)) x"
    (is "?l = ?r")
proof (rule eq_halfwise)
  have e: "2 * LENGTH('h) - Suc 0 = LENGTH('h) - Suc 0 + LENGTH('h)" by simp
  fix k assume "k < LENGTH('h)"
  with assms show "bit ?l k = bit ?r k" and "bit ?l (k + LENGTH('h)) = bit ?r (k + LENGTH('h))"
    by (cases k; auto simp: half_bits e)+
qed

lemma ashr_near:
  assumes "0 < n" "n < LENGTH('h)"
  shows "join \<lparr> s_high = signed_drop_bit n (s_high (split x)),
                s_low = push_bit (LENGTH('h) - n) (s_high (split x)) OR drop_bit n (s_low (split x)) \<rparr>
         = signed_drop_bit n x" (is "?l = ?r")
proof (rule eq_halfwise)
  have e: "2 * LENGTH('h) - Suc 0 = LENGTH('h) - Suc 0 + LENGTH('h)" by simp
  fix k assume k: "k < LENGTH('h)"
  have "k - (LENGTH('h) - n) + LENGTH('h) = k + n" if "LENGTH('h) \<le> k + n"
    using that assms by simp
  with k assms show "bit ?l k = bit ?r k"
    by (cases "LENGTH('h) \<le> k + n") (auto simp: half_bits e)
  from k assms show "bit ?l (k + LENGTH('h)) = bit ?r (k + LENGTH('h))"
    by (cases k) (auto simp: half_bits e)
qed

end

section \<open>The contract\<close>

text \<open>A count within the width, as the code tests it.\<close>

lemma count_bit:
  assumes "unat (b :: si_int) < 2 * 2 ^ k" and "k < 32"
  shows "b AND 2 ^ k \<noteq> 0 \<longleftrightarrow> 2 ^ k \<le> unat b"
proof -
  have "unat b div 2 ^ k < 2" using assms(1) by (simp add: less_mult_imp_div_less)
  then have "odd (unat b div 2 ^ k) \<longleftrightarrow> unat b div 2 ^ k \<noteq> 0"
    by (auto simp: less_2_cases_iff)
  moreover have "bit b k \<longleftrightarrow> odd (unat b div 2 ^ k)"
    unfolding bit_iff_odd [of "unat b" k, symmetric] using assms(2) by (simp add: bit_unsigned_iff)
  ultimately show ?thesis
    by (simp add: and_exp_eq_0_iff_not_bit div_eq_0_iff not_less)
qed

lemma count_and_32: "unat (b :: si_int) < 64 \<Longrightarrow> b AND 32 = 0 \<longleftrightarrow> unat b < 32"
  using count_bit [of b 5] by auto

lemma count_and_64: "unat (b :: si_int) < 128 \<Longrightarrow> b AND 64 = 0 \<longleftrightarrow> unat b < 64"
  using count_bit [of b 6] by auto


lemma ashldi3_in:
  assumes "unat b < 64"
  shows "ashldi3 u a b = push_bit (unat b) a"
proof -
  consider "32 \<le> unat b" | "b = 0" | "b \<noteq> 0" "unat b < 32" by (meson not_less)
  then show ?thesis
  proof cases
    case 1
    with assms show ?thesis
      using dw.shl_far [of "unat b - 32" a]
      by (simp add: ashldi3_def count_and_32 unat_sub_below c_ops)
  next
    case 3
    moreover from 3 have "0 < unat b" by (simp add: unat_gt_0)
    ultimately show ?thesis using assms dw.shl_near [of "unat b" a]
      by (auto simp: ashldi3_def count_and_32 unat_sub_below c_ops)
  qed (simp add: ashldi3_def)
qed

lemma ashlti3_in:
  assumes "unat b < 128"
  shows "ashlti3 u a b = push_bit (unat b) a"
proof -
  consider "64 \<le> unat b" | "b = 0" | "b \<noteq> 0" "unat b < 64" by (meson not_less)
  then show ?thesis
  proof cases
    case 1
    with assms show ?thesis
      using tw.shl_far [of "unat b - 64" a]
      by (simp add: ashlti3_def count_and_64 unat_sub_below c_ops)
  next
    case 3
    moreover from 3 have "0 < unat b" by (simp add: unat_gt_0)
    ultimately show ?thesis using assms tw.shl_near [of "unat b" a]
      by (auto simp: ashlti3_def count_and_64 unat_sub_below c_ops)
  qed (simp add: ashlti3_def)
qed

lemma ashrdi3_in:
  assumes "unat b < 64"
  shows "ashrdi3 u a b = signed_drop_bit (unat b) a"
proof -
  consider "32 \<le> unat b" | "b = 0" | "b \<noteq> 0" "unat b < 32" by (meson not_less)
  then show ?thesis
  proof cases
    case 1
    with assms show ?thesis
      using dw.ashr_far [of "unat b - 32" a]
      by (simp add: ashrdi3_def count_and_32 unat_sub_below c_ops)
  next
    case 3
    moreover from 3 have "0 < unat b" by (simp add: unat_gt_0)
    ultimately show ?thesis using assms dw.ashr_near [of "unat b" a]
      by (auto simp: ashrdi3_def count_and_32 unat_sub_below c_ops)
  qed (simp add: ashrdi3_def)
qed

lemma ashrti3_in:
  assumes "unat b < 128"
  shows "ashrti3 u a b = signed_drop_bit (unat b) a"
proof -
  consider "64 \<le> unat b" | "b = 0" | "b \<noteq> 0" "unat b < 64" by (meson not_less)
  then show ?thesis
  proof cases
    case 1
    with assms show ?thesis
      using tw.ashr_far [of "unat b - 64" a]
      by (simp add: ashrti3_def count_and_64 unat_sub_below c_ops)
  next
    case 3
    moreover from 3 have "0 < unat b" by (simp add: unat_gt_0)
    ultimately show ?thesis using assms tw.ashr_near [of "unat b" a]
      by (auto simp: ashrti3_def count_and_64 unat_sub_below c_ops)
  qed (simp add: ashrti3_def)
qed

lemma lshrdi3_in:
  assumes "unat b < 64"
  shows "lshrdi3 u a b = drop_bit (unat b) a"
proof -
  consider "32 \<le> unat b" | "b = 0" | "b \<noteq> 0" "unat b < 32" by (meson not_less)
  then show ?thesis
  proof cases
    case 1
    with assms show ?thesis
      using dw.lshr_far [of "unat b - 32" a]
      by (simp add: lshrdi3_def count_and_32 unat_sub_below c_ops)
  next
    case 3
    moreover from 3 have "0 < unat b" by (simp add: unat_gt_0)
    ultimately show ?thesis using assms dw.lshr_near [of "unat b" a]
      by (auto simp: lshrdi3_def count_and_32 unat_sub_below c_ops)
  qed (simp add: lshrdi3_def)
qed

lemma lshrti3_in:
  assumes "unat b < 128"
  shows "lshrti3 u a b = drop_bit (unat b) a"
proof -
  consider "64 \<le> unat b" | "b = 0" | "b \<noteq> 0" "unat b < 64" by (meson not_less)
  then show ?thesis
  proof cases
    case 1
    with assms show ?thesis
      using tw.lshr_far [of "unat b - 64" a]
      by (simp add: lshrti3_def count_and_64 unat_sub_below c_ops)
  next
    case 3
    moreover from 3 have "0 < unat b" by (simp add: unat_gt_0)
    ultimately show ?thesis using assms tw.lshr_near [of "unat b" a]
      by (auto simp: lshrti3_def count_and_64 unat_sub_below c_ops)
  qed (simp add: lshrti3_def)
qed

section \<open>Properties\<close>

text \<open>the double-word shifts are the shifts of the whole word, for every count the precondition
  of the code allows: left, logical right and arithmetic right, at 64 and 128 bits.\<close>

theorem double_word_shifts:
  assumes "unat b < 64" and "unat c < 128"
  shows "ashldi3 u x b = push_bit (unat b) x \<and> lshrdi3 u x b = drop_bit (unat b) x \<and>
      sint (ashrdi3 u x b) = sint x div 2 ^ unat b \<and>
      ashlti3 u y c = push_bit (unat c) y \<and> lshrti3 u y c = drop_bit (unat c) y \<and>
      sint (ashrti3 u y c) = sint y div 2 ^ unat c"
  using assms
  by (simp add: ashldi3_in lshrdi3_in ashrdi3_in ashlti3_in lshrti3_in ashrti3_in sint_signed_drop_bit_eq
    drop_bit_eq_div)

theorem double_word_shifts_witness:
  "sint (ashrdi3 (\<lambda>_ _ _ _. 0) (- 5 * 2 ^ 40) 41) = - 3 \<and> unat (41 :: si_int) < 64 \<and> unat (127 :: si_int) < 128"
  using double_word_shifts [of 41 127 "\<lambda>_ _ _ _. 0" "- 5 * 2 ^ 40" 1] by simp

end
