(* ===== verification/BitCount.thy ===== *)
theory BitCount
  imports Halves
begin

unbundle bit_operations_syntax

text \<open>
  Counting bits: leading zeros (\<^verbatim>\<open>lib/clzsi2.c\<close>, \<^verbatim>\<open>lib/clzdi2.c\<close>,
  \<^verbatim>\<open>lib/clzti2.c\<close>), trailing zeros (\<^verbatim>\<open>lib/ctzsi2.c\<close>, \<^verbatim>\<open>lib/ctzdi2.c\<close>,
  \<^verbatim>\<open>lib/ctzti2.c\<close>), the first set bit (\<^verbatim>\<open>lib/ffsdi2.c\<close>, \<^verbatim>\<open>lib/ffsti2.c\<close>) and
  the parity (\<^verbatim>\<open>lib/paritysi2.c\<close>, \<^verbatim>\<open>lib/paritydi2.c\<close>, \<^verbatim>\<open>lib/parityti2.c\<close>).
  The files \<^verbatim>\<open>lib/patmos/clzsi2.c\<close> and \<^verbatim>\<open>lib/patmos/ctzsi2.c\<close> hold the same C code as the
  generic ones, beside an assembly version.
\<close>

section \<open>The code\<close>

definition clzsi2 :: "si_int \<Rightarrow> si_int" where
  "clzsi2 a =
    (let x = a;
         t = push_bit 4 (c_bool (x AND 0xFFFF0000 = 0)) :: si_int;
         x = drop_bit (unat (16 - t)) x;
         r = t;
         t = push_bit 3 (c_bool (x AND 0xFF00 = 0));
         x = drop_bit (unat (8 - t)) x;
         r = r + t;
         t = push_bit 2 (c_bool (x AND 0xF0 = 0));
         x = drop_bit (unat (4 - t)) x;
         r = r + t;
         t = push_bit 1 (c_bool (x AND 0xC = 0));
         x = drop_bit (unat (2 - t)) x;
         r = r + t
     in r + ((2 - x) AND - c_bool (x AND 2 = 0)))"

definition clzdi2 :: "ub \<Rightarrow> di_int \<Rightarrow> si_int" where
  "clzdi2 u a =
    (let x = dwords_of a;
         f = - c_bool (s_high x = 0) :: si_int
     in builtin_clz u ((s_high x AND NOT f) OR (s_low x AND f)) + (f AND 32))"

definition clzti2 :: "ub \<Rightarrow> ti_int \<Rightarrow> si_int" where
  "clzti2 u a =
    (let x = twords_of a;
         f = - c_bool (s_high x = 0) :: di_int
     in builtin_clz u ((s_high x AND NOT f) OR (s_low x AND f)) + (ucast f AND 64))"

definition ctzsi2 :: "si_int \<Rightarrow> si_int" where
  "ctzsi2 a =
    (let x = a;
         t = push_bit 4 (c_bool (x AND 0x0000FFFF = 0)) :: si_int;
         x = drop_bit (unat t) x;
         r = t;
         t = push_bit 3 (c_bool (x AND 0x00FF = 0));
         x = drop_bit (unat t) x;
         r = r + t;
         t = push_bit 2 (c_bool (x AND 0x0F = 0));
         x = drop_bit (unat t) x;
         r = r + t;
         t = push_bit 1 (c_bool (x AND 0x3 = 0));
         x = drop_bit (unat t) x;
         x = x AND 3;
         r = r + t
     in r + ((2 - drop_bit 1 x) AND - c_bool (x AND 1 = 0)))"

definition ctzdi2 :: "ub \<Rightarrow> di_int \<Rightarrow> si_int" where
  "ctzdi2 u a =
    (let x = dwords_of a;
         f = - c_bool (s_low x = 0) :: si_int
     in builtin_ctz u ((s_high x AND f) OR (s_low x AND NOT f)) + (f AND 32))"

definition ctzti2 :: "ub \<Rightarrow> ti_int \<Rightarrow> si_int" where
  "ctzti2 u a =
    (let x = twords_of a;
         f = - c_bool (s_low x = 0) :: di_int
     in builtin_ctz u ((s_high x AND f) OR (s_low x AND NOT f)) + (ucast f AND 64))"

definition ffsdi2 :: "ub \<Rightarrow> di_int \<Rightarrow> si_int" where
  "ffsdi2 u a =
    (let x = dwords_of a in
     if s_low x = 0 then
       if s_high x = 0 then 0
       else builtin_ctz u (s_high x) + (1 + 32)
     else builtin_ctz u (s_low x) + 1)"

definition ffsti2 :: "ub \<Rightarrow> ti_int \<Rightarrow> si_int" where
  "ffsti2 u a =
    (let x = twords_of a in
     if s_low x = 0 then
       if s_high x = 0 then 0
       else builtin_ctz u (s_high x) + (1 + 64)
     else builtin_ctz u (s_low x) + 1)"

definition paritysi2 :: "si_int \<Rightarrow> si_int" where
  "paritysi2 a =
    (let x = a;
         x = x XOR drop_bit 16 x;
         x = x XOR drop_bit 8 x;
         x = x XOR drop_bit 4 x
     in drop_bit (unat (x AND 0xF)) 0x6996 AND 1)"

definition paritydi2 :: "di_int \<Rightarrow> si_int" where
  "paritydi2 a = (let x = dwords_of a in paritysi2 (s_high x XOR s_low x))"

definition parityti2 :: "ti_int \<Rightarrow> si_int" where
  "parityti2 a = (let x = twords_of a in paritydi2 (s_high x XOR s_low x))"

section \<open>Halves\<close>

context halves_view
begin

lemma nlz_split:
  assumes "x \<noteq> 0"
  shows "nlz x = (if s_high (split x) = 0 then LENGTH('h) + nlz (s_low (split x))
                  else nlz (s_high (split x)))"
proof (cases "s_high (split x) = 0")
  case True
  then have u: "unat x = unat (s_low (split x))" and nz: "s_low (split x) \<noteq> 0"
    using assms unat_split [of x] by (auto simp: zero_halves)
  note b = nlz_bounds [OF nz]
  have "nlz x = LENGTH('h) + nlz (s_low (split x))"
    by (rule nlz_eqI) (use b in \<open>auto simp: double_length u\<close>)
  with True show ?thesis by simp
next
  case False
  let ?h = "s_high (split x)" and ?l = "unat (s_low (split x))"
  note b = nlz_bounds [OF False]
  have l: "?l < 2 ^ LENGTH('h)" by simp
  have "nlz x = nlz ?h"
  proof (rule nlz_eqI)
    show "nlz ?h < LENGTH('d)" using b(1) by (simp add: double_length)
    have "LENGTH('d) - 1 - nlz ?h = (LENGTH('h) - 1 - nlz ?h) + LENGTH('h)"
      using b(1) by (simp add: double_length)
    then have "2 ^ (LENGTH('d) - 1 - nlz ?h) = 2 ^ (LENGTH('h) - 1 - nlz ?h) * (2::nat) ^ LENGTH('h)"
      by (simp only: power_add)
    also have "\<dots> \<le> unat ?h * 2 ^ LENGTH('h)" using b(2) by simp
    finally show "2 ^ (LENGTH('d) - 1 - nlz ?h) \<le> unat x" by (simp add: unat_split [of x])
    have "unat x < (unat ?h + 1) * 2 ^ LENGTH('h)" using l by (simp add: unat_split [of x])
    also have "\<dots> \<le> 2 ^ (LENGTH('h) - nlz ?h) * 2 ^ LENGTH('h)"
      using b(3) by (intro mult_right_mono) auto
    also have "\<dots> = 2 ^ (LENGTH('d) - nlz ?h)"
      using b(1) by (simp add: double_length power_add [symmetric])
    finally show "unat x < 2 ^ (LENGTH('d) - nlz ?h)" .
  qed
  with False show ?thesis by simp
qed

lemma ntz_split:
  assumes "x \<noteq> 0"
  shows "ntz x = (if s_low (split x) = 0 then LENGTH('h) + ntz (s_high (split x))
                  else ntz (s_low (split x)))"
proof (cases "s_low (split x) = 0")
  case True
  then have nz: "s_high (split x) \<noteq> 0" using assms by (simp add: zero_halves)
  have low: "\<not> bit x m" if "m < LENGTH('h)" for m
    using bit_low [of x m] that True by simp
  have "ntz x = LENGTH('h) + ntz (s_high (split x))"
  proof (rule ntz_eqI)
    show "bit x (LENGTH('h) + ntz (s_high (split x)))"
      using ntz_bit(1) [OF nz] by (simp add: bit_high add.commute)
    show "\<not> bit x m" if "m < LENGTH('h) + ntz (s_high (split x))" for m
    proof (cases "m < LENGTH('h)")
      case False
      then have "m - LENGTH('h) < ntz (s_high (split x))" using that by simp
      moreover have "m - LENGTH('h) < LENGTH('h)"
        using calculation ntz_bit(3) [OF nz] by simp
      ultimately show ?thesis
        using ntz_bit(2) [OF nz, of "m - LENGTH('h)"] False by (simp add: bit_high)
    qed (simp add: low)
  qed
  with True show ?thesis by simp
next
  case False
  have "ntz x = ntz (s_low (split x))"
  proof (rule ntz_eqI)
    show "bit x (ntz (s_low (split x)))" using ntz_bit(1) [OF False] by (simp add: bit_low)
    show "\<not> bit x m" if "m < ntz (s_low (split x))" for m
      using ntz_bit(2,3) [OF False] that bit_low [of x m] by auto
  qed
  with False show ?thesis by simp
qed

end

section \<open>Leading zeros\<close>

lemma floorlog_div_exp: "floorlog 2 (n div 2 ^ k) = floorlog 2 n - k"
proof (induction k arbitrary: n)
  case (Suc k)
  have "n div 2 ^ Suc k = (n div 2) div 2 ^ k" by (simp add: div_mult2_eq)
  then have "floorlog 2 (n div 2 ^ Suc k) = floorlog 2 (n div 2) - k" using Suc.IH by simp
  also have "floorlog 2 n = (if 0 < n then floorlog 2 (n div 2) + 1 else 0)"
    by (subst compute_floorlog) simp
  then have "floorlog 2 (n div 2) - k = floorlog 2 n - Suc k" by auto
  finally show ?case .
qed simp

lemma and_high_mask_eq_0:
  fixes x :: "'a::len word"
  assumes "unat x < 2 ^ (2 * k)"
  shows "x AND push_bit k (mask k) = 0 \<longleftrightarrow> unat x < 2 ^ k"
proof -
  have "unat (drop_bit k x) < 2 ^ k"
    using assms by (simp add: unat_drop_bit less_mult_imp_div_less mult_2 power_add)
  then have t: "drop_bit k x = drop_bit k x AND mask k"
    by (intro unsigned_word_eqI [where ?'a = nat]) (simp add: unat_and_mask)
  have "x AND push_bit k (mask k) = push_bit k (drop_bit k x AND mask k)"
    by (rule bit_word_eqI) (auto simp: bit_and_iff bit_push_bit_iff bit_drop_bit_eq bit_mask_iff)
  also have "\<dots> = push_bit k (drop_bit k x)" using t by simp
  finally have "x AND push_bit k (mask k) = 0 \<longleftrightarrow> push_bit k (drop_bit k x) = 0" by simp
  also have "\<dots> \<longleftrightarrow> drop_bit k x = 0"
  proof
    assume *: "push_bit k (drop_bit k x) = 0"
    have "drop_bit k (push_bit k (drop_bit k x)) = drop_bit k x"
      by (rule bit_word_eqI)
        (auto simp: bit_push_bit_iff bit_drop_bit_eq add.commute dest: bit_imp_le_length)
    with * show "drop_bit k x = 0" by simp
  qed simp
  also have "\<dots> \<longleftrightarrow> unat x div 2 ^ k = 0" by (simp add: unat_drop_bit flip: unat_eq_0)
  finally show ?thesis by (simp add: div_eq_0_iff)
qed

text \<open>One halving: the top half is inspected, \<open>t\<close> zeros are counted and the remaining digits are
  moved down.\<close>

lemma clz_step:
  fixes x t :: si_int
  assumes "unat x < 2 ^ (2 * k)" and "k \<le> 16"
    and t: "t = (if x AND push_bit k (mask k) = 0 then of_nat k else 0)"
  shows "\<exists>n. t = of_nat n \<and> unat (drop_bit (unat (of_nat k - t)) x) < 2 ^ k \<and>
    n + (k - floorlog 2 (unat (drop_bit (unat (of_nat k - t)) x))) = 2 * k - floorlog 2 (unat x)"
proof (cases "unat x < 2 ^ k")
  case True
  then have "floorlog 2 (unat x) \<le> k" by (simp add: floorlog_leI)
  with True show ?thesis using assms(1) by (auto simp: t and_high_mask_eq_0 intro!: exI [of _ k])
next
  case False
  have k: "unat (of_nat k :: si_int) = k"
    using assms(2) by (simp add: unsigned_of_nat take_bit_nat_eq_self del: of_nat_numeral)
  have "k \<le> floorlog 2 (unat x)"
    using False floorlog_ge_SucI [of 2 k "unat x"] by simp
  moreover have "floorlog 2 (unat x) \<le> 2 * k" using assms(1) by (simp add: floorlog_leI)
  moreover have "unat x div 2 ^ k < 2 ^ k"
    using assms(1) by (simp add: less_mult_imp_div_less mult_2 power_add)
  ultimately show ?thesis using False assms(1)
    by (auto simp: t and_high_mask_eq_0 k unat_drop_bit floorlog_div_exp intro!: exI [of _ 0])
qed

lemma clz_end:
  fixes x :: si_int
  assumes "unat x < 4"
  shows "(2 - x) AND - c_bool (x AND 2 = 0) = of_nat (2 - floorlog 2 (unat x))"
proof -
  have "unat x \<in> {0, 1, 2, 3}" using assms by auto
  then have "x = of_nat 0 \<or> x = of_nat 1 \<or> x = of_nat 2 \<or> x = of_nat 3"
    by (auto simp: word_unat_eq_iff)
  then show ?thesis
    by (elim disjE) (simp_all add: compute_floorlog)
qed

lemma clzsi2_eq: "clzsi2 a = of_nat (nlz a)"
proof -
  define t1 :: si_int where "t1 = (if a AND push_bit 16 (mask 16) = 0 then of_nat 16 else 0)"
  define x1 where "x1 = drop_bit (unat (of_nat 16 - t1)) a"
  define t2 :: si_int where "t2 = (if x1 AND push_bit 8 (mask 8) = 0 then of_nat 8 else 0)"
  define x2 where "x2 = drop_bit (unat (of_nat 8 - t2)) x1"
  define t3 :: si_int where "t3 = (if x2 AND push_bit 4 (mask 4) = 0 then of_nat 4 else 0)"
  define x3 where "x3 = drop_bit (unat (of_nat 4 - t3)) x2"
  define t4 :: si_int where "t4 = (if x3 AND push_bit 2 (mask 2) = 0 then of_nat 2 else 0)"
  define x4 where "x4 = drop_bit (unat (of_nat 2 - t4)) x3"
  have c: "clzsi2 a = t1 + t2 + t3 + t4 + ((2 - x4) AND - c_bool (x4 AND 2 = 0))"
    unfolding clzsi2_def Let_def t1_def x1_def t2_def x2_def t3_def x3_def t4_def x4_def
    by (simp add: mask_eq_exp_minus_1 push_bit_eq_mult c_bool_def if_distrib cong: if_cong)
  have "unat a < 2 ^ (2 * 16)" using unsigned_less [where ?'a = nat, of a] by simp
  from clz_step [OF this _ t1_def, folded x1_def] obtain n1
    where 1: "t1 = of_nat n1" "unat x1 < 2 ^ (2 * 8)"
      "n1 + (16 - floorlog 2 (unat x1)) = 32 - floorlog 2 (unat a)" by auto
  from clz_step [OF 1(2) _ t2_def, folded x2_def] obtain n2
    where 2: "t2 = of_nat n2" "unat x2 < 2 ^ (2 * 4)"
      "n2 + (8 - floorlog 2 (unat x2)) = 16 - floorlog 2 (unat x1)" by auto
  from clz_step [OF 2(2) _ t3_def, folded x3_def] obtain n3
    where 3: "t3 = of_nat n3" "unat x3 < 2 ^ (2 * 2)"
      "n3 + (4 - floorlog 2 (unat x3)) = 8 - floorlog 2 (unat x2)" by auto
  from clz_step [OF 3(2) _ t4_def, folded x4_def] obtain n4
    where 4: "t4 = of_nat n4" "unat x4 < 4"
      "n4 + (2 - floorlog 2 (unat x4)) = 4 - floorlog 2 (unat x3)" by auto
  have "n1 + n2 + n3 + n4 + (2 - floorlog 2 (unat x4)) = nlz a"
    using 1(3) 2(3) 3(3) 4(3) by (simp add: nlz_def)
  then show ?thesis
    unfolding c clz_end [OF 4(2)] 1(1) 2(1) 3(1) 4(1) by (simp flip: of_nat_add)
qed

lemma clzdi2_eq: "a \<noteq> 0 \<Longrightarrow> clzdi2 u a = of_nat (nlz a)"
  by (auto simp: clzdi2_def builtin_clz_def dw.nlz_split dw.zero_halves Let_def)

lemma clzti2_eq: "a \<noteq> 0 \<Longrightarrow> clzti2 u a = of_nat (nlz a)"
  by (auto simp: clzti2_def builtin_clz_def tw.nlz_split tw.zero_halves Let_def unsigned_minus_1_eq_mask mask_eq_exp_minus_1)

section \<open>Trailing zeros\<close>

lemma ctz_step:
  fixes x t :: si_int
  assumes "x AND mask (2 * k) \<noteq> 0" and "k \<le> 16"
    and t: "t = (if x AND mask k = 0 then of_nat k else 0)"
  shows "\<exists>n. t = of_nat n \<and> drop_bit (unat t) x AND mask k \<noteq> 0 \<and> n + ntz (drop_bit (unat t) x) = ntz x"
proof (cases "x AND mask k = 0")
  case True
  have k: "unat (of_nat k :: si_int) = k"
    using assms(2) by (simp add: unsigned_of_nat take_bit_nat_eq_self del: of_nat_numeral)
  have low: "\<not> bit x m" if "m < k" for m
  proof -
    have "\<not> bit (x AND mask k) m" using True by simp
    with that assms(2) show ?thesis by (simp add: bit_and_iff bit_mask_iff)
  qed
  obtain m where "m < 2 * k" "bit x m"
    using assms(1) by (auto simp: bit_eq_iff bit_and_iff bit_mask_iff)
  moreover from this low have "k \<le> m" by (meson not_less)
  ultimately have m: "m - k < k" "bit (drop_bit k x) (m - k)"
    by (auto simp: bit_drop_bit_eq)
  then have nz: "drop_bit k x \<noteq> 0" by auto
  have "drop_bit k x AND mask k \<noteq> 0"
    using m bit_imp_le_length [OF m(2)] by (auto simp: bit_eq_iff bit_and_iff bit_mask_iff)
  moreover have "ntz x = k + ntz (drop_bit k x)"
  proof (rule ntz_eqI)
    show "bit x (k + ntz (drop_bit k x))" using ntz_bit(1) [OF nz] by (simp add: bit_drop_bit_eq)
    show "\<not> bit x i" if "i < k + ntz (drop_bit k x)" for i
      using low [of i] ntz_bit(2) [OF nz, of "i - k"] that by (cases "i < k") (auto simp: bit_drop_bit_eq)
  qed
  ultimately show ?thesis using True by (auto simp: t k intro!: exI [of _ k])
qed (auto simp: t intro!: exI [of _ 0])

lemma ctz_end:
  fixes x :: si_int
  assumes "x AND mask 2 \<noteq> 0"
  shows "(2 - drop_bit 1 (x AND 3)) AND - c_bool ((x AND 3) AND 1 = 0) = of_nat (ntz x)"
proof -
  define y where "y = x AND 3"
  have m: "(3 :: si_int) = mask 2" by (simp add: mask_eq_exp_minus_1)
  have b: "bit y i \<longleftrightarrow> bit x i" if "i < 2" for i
    using that by (auto simp: y_def m bit_and_iff bit_mask_iff)
  have "unat y < 4" "y \<noteq> 0"
    using assms by (simp_all add: y_def m unat_and_mask)
  then have "unat y \<in> {1, 2, 3}" by (auto simp: unat_eq_0 [symmetric] simp del: unat_eq_0)
  then have "y = 1 \<or> y = 2 \<or> y = 3"
    by (auto simp: word_unat_eq_iff)
  then show ?thesis
  proof (elim disjE)
    assume y: "y = 2"
    have "\<not> bit x 0" "bit x 1" using b [of 0] b [of 1] by (simp_all add: y bit_iff_odd)
    then have "ntz x = 1" by (intro ntz_eqI) (auto simp: less_Suc_eq)
    then show ?thesis unfolding y_def [symmetric] y by (simp add: drop_bit_eq_div)
  next
    assume y: "y = 1"
    have "bit x 0" using b [of 0] by (simp add: y bit_iff_odd)
    then have "ntz x = 0" by (intro ntz_eqI) auto
    then show ?thesis unfolding y_def [symmetric] y by (simp add: drop_bit_eq_div)
  next
    assume y: "y = 3"
    have "bit x 0" using b [of 0] by (simp add: y bit_iff_odd)
    then have "ntz x = 0" by (intro ntz_eqI) auto
    then show ?thesis unfolding y_def [symmetric] y by (simp add: drop_bit_eq_div)
  qed
qed

lemma ctzsi2_eq: "ctzsi2 a = of_nat (ntz a)"
proof (cases "a = 0")
  case True
  then show ?thesis by (simp add: ctzsi2_def ntz_def)
next
  case False
  define t1 :: si_int where "t1 = (if a AND mask 16 = 0 then of_nat 16 else 0)"
  define x1 where "x1 = drop_bit (unat t1) a"
  define t2 :: si_int where "t2 = (if x1 AND mask 8 = 0 then of_nat 8 else 0)"
  define x2 where "x2 = drop_bit (unat t2) x1"
  define t3 :: si_int where "t3 = (if x2 AND mask 4 = 0 then of_nat 4 else 0)"
  define x3 where "x3 = drop_bit (unat t3) x2"
  define t4 :: si_int where "t4 = (if x3 AND mask 2 = 0 then of_nat 2 else 0)"
  define x4 where "x4 = drop_bit (unat t4) x3"
  have c: "ctzsi2 a = t1 + t2 + t3 + t4 + ((2 - drop_bit 1 (x4 AND 3)) AND - c_bool ((x4 AND 3) AND 1 = 0))"
    unfolding ctzsi2_def Let_def t1_def x1_def t2_def x2_def t3_def x3_def t4_def x4_def
    by (simp add: mask_eq_exp_minus_1 push_bit_eq_mult c_bool_def if_distrib cong: if_cong)
  have "a AND mask (2 * 16) = a" by (rule bit_word_eqI) (simp add: bit_and_iff bit_mask_iff)
  with False have "a AND mask (2 * 16) \<noteq> 0" by simp
  from ctz_step [OF this _ t1_def, folded x1_def] obtain n1
    where 1: "t1 = of_nat n1" "x1 AND mask (2 * 8) \<noteq> 0" "n1 + ntz x1 = ntz a" by auto
  from ctz_step [OF 1(2) _ t2_def, folded x2_def] obtain n2
    where 2: "t2 = of_nat n2" "x2 AND mask (2 * 4) \<noteq> 0" "n2 + ntz x2 = ntz x1" by auto
  from ctz_step [OF 2(2) _ t3_def, folded x3_def] obtain n3
    where 3: "t3 = of_nat n3" "x3 AND mask (2 * 2) \<noteq> 0" "n3 + ntz x3 = ntz x2" by auto
  from ctz_step [OF 3(2) _ t4_def, folded x4_def] obtain n4
    where 4: "t4 = of_nat n4" "x4 AND mask 2 \<noteq> 0" "n4 + ntz x4 = ntz x3" by auto
  have "n1 + n2 + n3 + n4 + ntz x4 = ntz a"
    using 1(3) 2(3) 3(3) 4(3) by simp
  then show ?thesis
    unfolding c ctz_end [OF 4(2)] 1(1) 2(1) 3(1) 4(1) by (simp flip: of_nat_add)
qed

lemma ctzdi2_eq: "a \<noteq> 0 \<Longrightarrow> ctzdi2 u a = of_nat (ntz a)"
  by (auto simp: ctzdi2_def builtin_ctz_def dw.ntz_split dw.zero_halves Let_def)

lemma ctzti2_eq: "a \<noteq> 0 \<Longrightarrow> ctzti2 u a = of_nat (ntz a)"
  by (auto simp: ctzti2_def builtin_ctz_def tw.ntz_split tw.zero_halves Let_def
    unsigned_minus_1_eq_mask mask_eq_exp_minus_1)

section \<open>First set bit\<close>

lemma ffsdi2_eq: "ffsdi2 u a = (if a = 0 then 0 else of_nat (ntz a) + 1)"
  by (auto simp: ffsdi2_def builtin_ctz_def dw.ntz_split dw.zero_halves Let_def)

lemma ffsti2_eq: "ffsti2 u a = (if a = 0 then 0 else of_nat (ntz a) + 1)"
  by (auto simp: ffsti2_def builtin_ctz_def tw.ntz_split tw.zero_halves Let_def)

section \<open>Parity\<close>

text \<open>The number of set bits.\<close>

fun pop_nat :: "nat \<Rightarrow> nat" where
  "pop_nat n = (if n = 0 then 0 else n mod 2 + pop_nat (n div 2))"

declare pop_nat.simps [simp del]

definition popcount :: "'a::len word \<Rightarrow> nat" where
  "popcount x = pop_nat (unat x)"

lemma pop_nat_0 [simp]: "pop_nat 0 = 0" and pop_nat_1 [simp]: "pop_nat (Suc 0) = 1"
  by (simp_all add: pop_nat.simps)

lemma pop_nat_rec: "pop_nat n = n mod 2 + pop_nat (n div 2)"
  by (cases "n = 0") (simp_all add: pop_nat.simps [of n])

lemma finite_bit_nat: "finite {i. bit (n :: nat) i}"
proof (rule finite_subset)
  show "{i. bit n i} \<subseteq> {..n}"
  proof
    fix i assume "i \<in> {i. bit n i}"
    then have "2 ^ i \<le> n" by (auto simp: bit_iff_odd intro: ccontr)
    then show "i \<in> {..n}" using less_le_trans [OF less_exp [of i], of n] by simp
  qed
qed simp

lemma pop_nat_card: "pop_nat n = card {i. bit n i}"
proof (induction n rule: pop_nat.induct)
  case (1 n)
  show ?case
  proof (cases "n = 0")
    case False
    have "{i. bit n i} = (if odd n then {0} else {}) \<union> Suc ` {i. bit (n div 2) i}"
    proof (rule set_eqI)
      show "i \<in> {i. bit n i} \<longleftrightarrow> i \<in> (if odd n then {0} else {}) \<union> Suc ` {i. bit (n div 2) i}" for i
        by (cases i) (auto simp: bit_0 bit_Suc)
    qed
    moreover have "finite {i. bit (n div 2) i}" by (rule finite_bit_nat)
    ultimately show ?thesis
      using 1 False by (simp add: pop_nat.simps [of n] card_image card_insert_if image_iff odd_iff_mod_2_eq_one)
  qed simp
qed

lemma pop_nat_append:
  "l < 2 ^ w \<Longrightarrow> pop_nat (l + 2 ^ w * h) = pop_nat l + pop_nat h"
proof (induction w arbitrary: l)
  case (Suc w)
  have "pop_nat (l + 2 ^ Suc w * h) = l mod 2 + pop_nat (l div 2 + 2 ^ w * h)"
    by (subst pop_nat_rec) (simp add: mult.assoc add.commute)
  also have "\<dots> = l mod 2 + pop_nat (l div 2) + pop_nat h"
    using Suc.IH [of "l div 2"] Suc.prems by simp
  also have "l mod 2 + pop_nat (l div 2) = pop_nat l" by (rule pop_nat_rec [symmetric])
  finally show ?case .
qed simp

lemma pop_nat_parity: "odd (pop_nat n) \<longleftrightarrow> (odd n \<noteq> odd (pop_nat (n div 2)))"
  by (subst pop_nat_rec) (auto simp: mod2_eq_if)

lemma pop_nat_xor: "odd (pop_nat (m XOR n)) \<longleftrightarrow> odd (pop_nat m) \<noteq> odd (pop_nat n)"
proof (induction m arbitrary: n rule: pop_nat.induct)
  case (1 m)
  show ?case
  proof (cases "m = 0")
    case False
    then have IH: "odd (pop_nat (m div 2 XOR n div 2)) \<longleftrightarrow> odd (pop_nat (m div 2)) \<noteq> odd (pop_nat (n div 2))"
      by (rule 1)
    have r: "m XOR n = of_bool (odd m \<noteq> odd n) + 2 * (m div 2 XOR n div 2)" by (rule xor_rec)
    have "odd (m XOR n) \<longleftrightarrow> odd m \<noteq> odd n" and "(m XOR n) div 2 = m div 2 XOR n div 2"
      unfolding r by simp_all
    then have "odd (pop_nat (m XOR n)) \<longleftrightarrow> (odd m \<noteq> odd n) \<noteq> (odd (pop_nat (m div 2)) \<noteq> odd (pop_nat (n div 2)))"
      unfolding pop_nat_parity [of "m XOR n"] IH [symmetric] by simp
    then show ?thesis
      unfolding pop_nat_parity [of m] pop_nat_parity [of n] by argo
  qed simp
qed

lemma popcount_card: "popcount (x :: 'a::len word) = card {i. bit x i}"
proof -
  have "{i. bit (unat x) i} = {i. bit x i}" by (auto simp: bit_unsigned_iff dest: bit_imp_le_length)
  then show ?thesis by (simp add: popcount_def pop_nat_card)
qed

text \<open>Folding the upper half of the digits into the lower half by \<open>XOR\<close> keeps the parity of the
  digits; what is above them does not matter.\<close>

lemma fold_parity:
  "odd (pop_nat ((m XOR m div 2 ^ k) mod 2 ^ k)) \<longleftrightarrow> odd (pop_nat (m mod 2 ^ (2 * k)))"
proof -
  have "(m XOR m div 2 ^ k) mod 2 ^ k = m mod 2 ^ k XOR m div 2 ^ k mod 2 ^ k"
    by (simp add: take_bit_xor flip: take_bit_eq_mod)
  moreover have "m mod 2 ^ (2 * k) = m mod 2 ^ k + 2 ^ k * (m div 2 ^ k mod 2 ^ k)"
    by (simp add: mult_2 power_add mod_mult2_eq add.commute)
  ultimately show ?thesis by (simp add: pop_nat_xor pop_nat_append)
qed

context halves_view
begin

lemma popcount_split:
  "popcount x = popcount (s_low (split x)) + popcount (s_high (split x))"
proof -
  have "unat x = unat (s_low (split x)) + 2 ^ LENGTH('h) * unat (s_high (split x))"
    using unat_split [of x] by (simp add: mult.commute)
  then show ?thesis unfolding popcount_def by (simp add: pop_nat_append)
qed

end

lemma parity_table: "n < 16 \<Longrightarrow> drop_bit n 0x6996 AND 1 = (of_bool (odd (pop_nat n)) :: si_int)"
proof -
  have "\<forall>m \<in> set [0..<16]. drop_bit m 0x6996 AND 1 = (of_bool (odd (pop_nat m)) :: si_int)"
    by code_simp
  then show "n < 16 \<Longrightarrow> ?thesis" by simp
qed

lemma paritysi2_eq: "paritysi2 a = of_bool (odd (popcount a))"
proof -
  define x1 where "x1 = a XOR drop_bit 16 a"
  define x2 where "x2 = x1 XOR drop_bit 8 x1"
  define x3 where "x3 = x2 XOR drop_bit 4 x2"
  have u: "unat x1 = unat a XOR unat a div 2 ^ 16" "unat x2 = unat x1 XOR unat x1 div 2 ^ 8"
    "unat x3 = unat x2 XOR unat x2 div 2 ^ 4"
    by (simp_all only: x1_def x2_def x3_def unsigned_xor_eq unat_drop_bit)
  have "x3 AND 0xF = x3 AND mask 4" by (simp add: mask_eq_exp_minus_1)
  then have e: "unat (x3 AND 0xF) = unat x3 mod 2 ^ 4" by (simp only: unat_and_mask)
  have "odd (pop_nat (unat x3 mod 2 ^ 4)) \<longleftrightarrow> odd (pop_nat (unat a mod 2 ^ 32))"
    using fold_parity [of "unat a" 16] fold_parity [of "unat x1" 8] fold_parity [of "unat x2" 4] u
    by simp
  also have "unat a mod 2 ^ 32 = unat a" using unsigned_less [where ?'a = nat, of a] by simp
  finally show ?thesis
    unfolding paritysi2_def Let_def x1_def [symmetric] x2_def [symmetric] x3_def [symmetric]
    by (simp add: e parity_table popcount_def)
qed

lemma paritydi2_eq: "paritydi2 a = of_bool (odd (popcount a))"
proof -
  have "odd (popcount a) \<longleftrightarrow> odd (popcount (s_high (dwords_of a))) \<noteq> odd (popcount (s_low (dwords_of a)))"
    using dw.popcount_split [of a] by auto
  then show ?thesis
    by (simp add: paritydi2_def Let_def paritysi2_eq popcount_def unsigned_xor_eq pop_nat_xor)
qed

lemma parityti2_eq: "parityti2 a = of_bool (odd (popcount a))"
proof -
  have "odd (popcount a) \<longleftrightarrow> odd (popcount (s_high (twords_of a))) \<noteq> odd (popcount (s_low (twords_of a)))"
    using tw.popcount_split [of a] by auto
  then show ?thesis
    by (simp add: parityti2_def Let_def paritydi2_eq popcount_def unsigned_xor_eq pop_nat_xor)
qed

section \<open>Properties\<close>

text \<open>C8: the counts of leading and trailing zeros are the distance of the highest and of the lowest
  set bit from their ends of the word, at 32, 64 and 128 bits.\<close>

theorem zero_counts:
  "clzsi2 a = of_nat (nlz a) \<and> ctzsi2 a = of_nat (ntz a) \<and>
   (b \<noteq> 0 \<longrightarrow> clzdi2 u b = of_nat (nlz b) \<and> bit b (63 - nlz b) \<and> (\<forall>i. bit b i \<longrightarrow> i \<le> 63 - nlz b) \<and>
      ctzdi2 u b = of_nat (ntz b) \<and> bit b (ntz b) \<and> (\<forall>i. bit b i \<longrightarrow> ntz b \<le> i)) \<and>
   (c \<noteq> 0 \<longrightarrow> clzti2 u c = of_nat (nlz c) \<and> ctzti2 u c = of_nat (ntz c))"
proof -
  have "bit b (63 - nlz b) \<and> (\<forall>i. bit b i \<longrightarrow> i \<le> 63 - nlz b) \<and> bit b (ntz b) \<and> (\<forall>i. bit b i \<longrightarrow> ntz b \<le> i)"
    if "b \<noteq> 0" using nlz_bit [OF that] ntz_bit [OF that] by (auto simp: not_less [symmetric])
  then show ?thesis by (simp add: clzsi2_eq ctzsi2_eq clzdi2_eq ctzdi2_eq clzti2_eq ctzti2_eq)
qed

theorem zero_counts_witness:
  "clzsi2 0x00F0 = 24 \<and> clzdi2 (\<lambda>_ _ _ _. 0) 0x00F0 = of_nat (nlz (0x00F0 :: di_int)) \<and> (0x00F0 :: di_int) \<noteq> 0"
  using zero_counts [of "0x00F0" "0x00F0" "\<lambda>_ _ _ _. 0" "0x00F0"]
  by (simp add: nlz_def compute_floorlog)

end
