(* ===== verification/Overflow.thy ===== *)
theory Overflow
  imports Crt_Prelude
begin

unbundle bit_operations_syntax

text \<open>
  The overflow-checking arithmetic at the three widths: \<^verbatim>\<open>lib/negv*i2.c\<close>,
  \<^verbatim>\<open>lib/absv*i2.c\<close>, \<^verbatim>\<open>lib/addv*i3.c\<close>, \<^verbatim>\<open>lib/subv*i3.c\<close>,
  \<^verbatim>\<open>lib/mulv*i3.c\<close>, which abort on overflow, \<^verbatim>\<open>lib/mulo*i4.c\<close>, which report it in a
  flag, and the unchecked \<^verbatim>\<open>lib/neg*i2.c\<close>. The code computes the wrapped result first (it
  counts on wrap-around, as \<^verbatim>\<open>lib/int_lib.h\<close> assumes two's complement) and then decides; an
  abort names the function, as \<^verbatim>\<open>compilerrt_abort()\<close> does.

  \<open>checked f v\<close> is the contract they share: the exact result \<open>v\<close>, or the abort of \<open>f\<close> when the
  type has no such value.
\<close>

section \<open>The code\<close>

definition negvsi2 :: "si_int \<Rightarrow> crt_error + si_int" where
  "negvsi2 a =
    (let smin = push_bit 31 1 in
     if a = smin then Inl (Abort ''__negvsi2'') else Inr (- a))"

definition absvsi2 :: "si_int \<Rightarrow> crt_error + si_int" where
  "absvsi2 a =
    (if a = push_bit 31 1 then Inl (Abort ''__absvsi2'')
     else let t = signed_drop_bit 31 a in Inr ((a XOR t) - t))"

definition addvsi3 :: "si_int \<Rightarrow> si_int \<Rightarrow> crt_error + si_int" where
  "addvsi3 a b =
    (let s = a + b in
     if 0 \<le>s b then (if s <s a then Inl (Abort ''__addvsi3'') else Inr s)
     else (if a \<le>s s then Inl (Abort ''__addvsi3'') else Inr s))"

definition subvsi3 :: "si_int \<Rightarrow> si_int \<Rightarrow> crt_error + si_int" where
  "subvsi3 a b =
    (let s = a - b in
     if 0 \<le>s b then (if a <s s then Inl (Abort ''__subvsi3'') else Inr s)
     else (if s \<le>s a then Inl (Abort ''__subvsi3'') else Inr s))"

definition mulvsi3 :: "ub \<Rightarrow> si_int \<Rightarrow> si_int \<Rightarrow> crt_error + si_int" where
  "mulvsi3 u a b =
    (let smin = push_bit 31 1; smax = NOT smin in
     if a = smin then (if b = 0 \<or> b = 1 then Inr (a * b) else Inl (Abort ''__mulvsi3''))
     else if b = smin then (if a = 0 \<or> a = 1 then Inr (a * b) else Inl (Abort ''__mulvsi3''))
     else
       let sa = signed_drop_bit 31 a; abs_a = (a XOR sa) - sa;
           sb = signed_drop_bit 31 b; abs_b = (b XOR sb) - sb in
       if abs_a <s 2 \<or> abs_b <s 2 then Inr (a * b)
       else if sa = sb then
         (if c_sdiv u smax abs_b <s abs_a then Inl (Abort ''__mulvsi3'') else Inr (a * b))
       else
         (if c_sdiv u smin (- abs_b) <s abs_a then Inl (Abort ''__mulvsi3'') else Inr (a * b)))"

definition mulosi4 :: "ub \<Rightarrow> si_int \<Rightarrow> si_int \<Rightarrow> si_int \<times> si_int" where
  "mulosi4 u a b =
    (let smin = push_bit 31 1; smax = NOT smin; overflow = 0; result = a * b in
     if a = smin then (result, if b \<noteq> 0 \<and> b \<noteq> 1 then 1 else overflow)
     else if b = smin then (result, if a \<noteq> 0 \<and> a \<noteq> 1 then 1 else overflow)
     else
       let sa = signed_drop_bit 31 a; abs_a = (a XOR sa) - sa;
           sb = signed_drop_bit 31 b; abs_b = (b XOR sb) - sb in
       if abs_a <s 2 \<or> abs_b <s 2 then (result, overflow)
       else if sa = sb then
         (result, if c_sdiv u smax abs_b <s abs_a then 1 else overflow)
       else
         (result, if c_sdiv u smin (- abs_b) <s abs_a then 1 else overflow))"

definition negdi2 :: "di_int \<Rightarrow> di_int" where
  "negdi2 a = - a"

definition negvdi2 :: "di_int \<Rightarrow> crt_error + di_int" where
  "negvdi2 a =
    (let smin = push_bit 63 1 in
     if a = smin then Inl (Abort ''__negvdi2'') else Inr (- a))"

definition absvdi2 :: "di_int \<Rightarrow> crt_error + di_int" where
  "absvdi2 a =
    (if a = push_bit 63 1 then Inl (Abort ''__absvdi2'')
     else let t = signed_drop_bit 63 a in Inr ((a XOR t) - t))"

definition addvdi3 :: "di_int \<Rightarrow> di_int \<Rightarrow> crt_error + di_int" where
  "addvdi3 a b =
    (let s = a + b in
     if 0 \<le>s b then (if s <s a then Inl (Abort ''__addvdi3'') else Inr s)
     else (if a \<le>s s then Inl (Abort ''__addvdi3'') else Inr s))"

definition subvdi3 :: "di_int \<Rightarrow> di_int \<Rightarrow> crt_error + di_int" where
  "subvdi3 a b =
    (let s = a - b in
     if 0 \<le>s b then (if a <s s then Inl (Abort ''__subvdi3'') else Inr s)
     else (if s \<le>s a then Inl (Abort ''__subvdi3'') else Inr s))"

definition mulvdi3 :: "ub \<Rightarrow> di_int \<Rightarrow> di_int \<Rightarrow> crt_error + di_int" where
  "mulvdi3 u a b =
    (let smin = push_bit 63 1; smax = NOT smin in
     if a = smin then (if b = 0 \<or> b = 1 then Inr (a * b) else Inl (Abort ''__mulvdi3''))
     else if b = smin then (if a = 0 \<or> a = 1 then Inr (a * b) else Inl (Abort ''__mulvdi3''))
     else
       let sa = signed_drop_bit 63 a; abs_a = (a XOR sa) - sa;
           sb = signed_drop_bit 63 b; abs_b = (b XOR sb) - sb in
       if abs_a <s 2 \<or> abs_b <s 2 then Inr (a * b)
       else if sa = sb then
         (if c_sdiv u smax abs_b <s abs_a then Inl (Abort ''__mulvdi3'') else Inr (a * b))
       else
         (if c_sdiv u smin (- abs_b) <s abs_a then Inl (Abort ''__mulvdi3'') else Inr (a * b)))"

definition mulodi4 :: "ub \<Rightarrow> di_int \<Rightarrow> di_int \<Rightarrow> di_int \<times> si_int" where
  "mulodi4 u a b =
    (let smin = push_bit 63 1; smax = NOT smin; overflow = 0; result = a * b in
     if a = smin then (result, if b \<noteq> 0 \<and> b \<noteq> 1 then 1 else overflow)
     else if b = smin then (result, if a \<noteq> 0 \<and> a \<noteq> 1 then 1 else overflow)
     else
       let sa = signed_drop_bit 63 a; abs_a = (a XOR sa) - sa;
           sb = signed_drop_bit 63 b; abs_b = (b XOR sb) - sb in
       if abs_a <s 2 \<or> abs_b <s 2 then (result, overflow)
       else if sa = sb then
         (result, if c_sdiv u smax abs_b <s abs_a then 1 else overflow)
       else
         (result, if c_sdiv u smin (- abs_b) <s abs_a then 1 else overflow))"

definition negti2 :: "ti_int \<Rightarrow> ti_int" where
  "negti2 a = - a"

definition negvti2 :: "ti_int \<Rightarrow> crt_error + ti_int" where
  "negvti2 a =
    (let smin = push_bit 127 1 in
     if a = smin then Inl (Abort ''__negvti2'') else Inr (- a))"

definition absvti2 :: "ti_int \<Rightarrow> crt_error + ti_int" where
  "absvti2 a =
    (if a = push_bit 127 1 then Inl (Abort ''__absvti2'')
     else let t = signed_drop_bit 127 a in Inr ((a XOR t) - t))"

definition addvti3 :: "ti_int \<Rightarrow> ti_int \<Rightarrow> crt_error + ti_int" where
  "addvti3 a b =
    (let s = a + b in
     if 0 \<le>s b then (if s <s a then Inl (Abort ''__addvti3'') else Inr s)
     else (if a \<le>s s then Inl (Abort ''__addvti3'') else Inr s))"

definition subvti3 :: "ti_int \<Rightarrow> ti_int \<Rightarrow> crt_error + ti_int" where
  "subvti3 a b =
    (let s = a - b in
     if 0 \<le>s b then (if a <s s then Inl (Abort ''__subvti3'') else Inr s)
     else (if s \<le>s a then Inl (Abort ''__subvti3'') else Inr s))"

definition mulvti3 :: "ub \<Rightarrow> ti_int \<Rightarrow> ti_int \<Rightarrow> crt_error + ti_int" where
  "mulvti3 u a b =
    (let smin = push_bit 127 1; smax = NOT smin in
     if a = smin then (if b = 0 \<or> b = 1 then Inr (a * b) else Inl (Abort ''__mulvti3''))
     else if b = smin then (if a = 0 \<or> a = 1 then Inr (a * b) else Inl (Abort ''__mulvti3''))
     else
       let sa = signed_drop_bit 127 a; abs_a = (a XOR sa) - sa;
           sb = signed_drop_bit 127 b; abs_b = (b XOR sb) - sb in
       if abs_a <s 2 \<or> abs_b <s 2 then Inr (a * b)
       else if sa = sb then
         (if c_sdiv u smax abs_b <s abs_a then Inl (Abort ''__mulvti3'') else Inr (a * b))
       else
         (if c_sdiv u smin (- abs_b) <s abs_a then Inl (Abort ''__mulvti3'') else Inr (a * b)))"

definition muloti4 :: "ub \<Rightarrow> ti_int \<Rightarrow> ti_int \<Rightarrow> ti_int \<times> si_int" where
  "muloti4 u a b =
    (let smin = push_bit 127 1; smax = NOT smin; overflow = 0; result = a * b in
     if a = smin then (result, if b \<noteq> 0 \<and> b \<noteq> 1 then 1 else overflow)
     else if b = smin then (result, if a \<noteq> 0 \<and> a \<noteq> 1 then 1 else overflow)
     else
       let sa = signed_drop_bit 127 a; abs_a = (a XOR sa) - sa;
           sb = signed_drop_bit 127 b; abs_b = (b XOR sb) - sb in
       if abs_a <s 2 \<or> abs_b <s 2 then (result, overflow)
       else if sa = sb then
         (result, if c_sdiv u smax abs_b <s abs_a then 1 else overflow)
       else
         (result, if c_sdiv u smin (- abs_b) <s abs_a then 1 else overflow))"

section \<open>The contract\<close>

definition checked :: "string \<Rightarrow> int \<Rightarrow> crt_error + 'a::len word" where
  "checked f v = (if sfits LENGTH('a) v then Inr (word_of_int v) else Inl (Abort f))"

text \<open>What an unaborted result means: it has the exact value.\<close>

lemma checked_Inr: "checked f v = Inr (r :: 'a::len word) \<longleftrightarrow> sint r = v"
  by (auto simp: checked_def sint_of_int)

section \<open>Signs and absolute values\<close>

definition word_min :: "'a::len word" where "word_min = push_bit (LENGTH('a) - 1) 1"

definition sgn_mask :: "'a::len word \<Rightarrow> 'a word" where
  "sgn_mask a = signed_drop_bit (LENGTH('a) - 1) a"

definition word_abs :: "'a::len word \<Rightarrow> 'a word" where
  "word_abs a = (a XOR sgn_mask a) - sgn_mask a"

lemma word_min_eq: "word_min = (word_of_int (- (2 ^ (LENGTH('a) - 1))) :: 'a::len word)"
proof -
  have "push_bit (LENGTH('a) - 1) 1 = (word_of_int (2 ^ (LENGTH('a) - 1)) :: 'a word)"
    by (simp add: push_bit_eq_mult)
  also have "\<dots> = word_of_int (- (2 ^ (LENGTH('a) - 1)))"
    unfolding word_of_int_eq_iff take_bit_eq_mod mod_eq_dvd_iff by (simp add: two_power_length)
  finally show ?thesis by (simp add: word_min_def)
qed

lemma sint_word_min: "sint (word_min :: 'a::len word) = - (2 ^ (LENGTH('a) - 1))"
  unfolding word_min_eq by (rule sint_of_int) (simp add: sfits_def)

lemma eq_word_min: "a = word_min \<longleftrightarrow> sint a = - (2 ^ (LENGTH('a) - 1))" for a :: "'a::len word"
  using sint_word_min word_eq_iff_signed [where ?'a = int] by metis

lemma sint_word_max: "sint (NOT word_min :: 'a::len word) = 2 ^ (LENGTH('a) - 1) - 1"
proof -
  have "NOT word_min = (word_of_int (2 ^ (LENGTH('a) - 1) - 1) :: 'a word)"
    by (simp add: word_min_eq not_eq_complement)
  then show ?thesis by (simp only:) (rule sint_of_int, simp add: sfits_def)
qed

lemma sgn_mask_eq: "sgn_mask a = (if sint a < 0 then - 1 else 0)"
  unfolding sgn_mask_def sign_mask word_sless_alt by simp

lemma sint_word_abs: "a \<noteq> word_min \<Longrightarrow> sint (word_abs a) = \<bar>sint a\<bar>" for a :: "'a::len word"
proof (cases "sint a < 0")
  case True
  assume "a \<noteq> word_min"
  then have f: "sfits LENGTH('a) (- sint a)"
    using True sint_ge [of a] by (auto simp: eq_word_min sfits_def intro: le_less_trans)
  have "word_abs a = - a" using True by (simp add: word_abs_def sgn_mask_eq not_eq_complement)
  then show ?thesis using True sint_of_int [OF f] by simp
qed (simp add: word_abs_def sgn_mask_eq)

section \<open>The decisions\<close>

lemma sint_add_cases:
  "sint (a + b) = (if sfits LENGTH('a) (sint a + sint b) then sint a + sint b
    else if sint a + sint b < 0 then sint a + sint b + 2 ^ LENGTH('a)
    else sint a + sint b - 2 ^ LENGTH('a))" for a b :: "'a::len word"
  unfolding sadd_of_int [of a b]
  by (rule sint_of_int_wrap) (use sint_ge [of a] sint_lt [of a] sint_ge [of b] sint_lt [of b] in linarith)+

lemma sint_sub_cases:
  "sint (a - b) = (if sfits LENGTH('a) (sint a - sint b) then sint a - sint b
    else if sint a - sint b < 0 then sint a - sint b + 2 ^ LENGTH('a)
    else sint a - sint b - 2 ^ LENGTH('a))" for a b :: "'a::len word"
  unfolding ssub_of_int [of a b]
  by (rule sint_of_int_wrap) (use sint_ge [of a] sint_lt [of a] sint_ge [of b] sint_lt [of b] in linarith)+

lemma add_check:
  fixes a b :: "'a::len word"
  shows "0 \<le>s b \<Longrightarrow> a + b <s a \<longleftrightarrow> \<not> sfits LENGTH('a) (sint a + sint b)"
    and "\<not> 0 \<le>s b \<Longrightarrow> a \<le>s a + b \<longleftrightarrow> \<not> sfits LENGTH('a) (sint a + sint b)"
proof -
  note r = sint_ge [of a] sint_lt [of a] sint_ge [of b] sint_lt [of b] two_power_length [where ?'a = 'a]
  show "0 \<le>s b \<Longrightarrow> a + b <s a \<longleftrightarrow> \<not> sfits LENGTH('a) (sint a + sint b)"
    using r unfolding word_sless_alt word_sle_eq sint_add_cases sfits_def by (auto split: if_splits)
  show "\<not> 0 \<le>s b \<Longrightarrow> a \<le>s a + b \<longleftrightarrow> \<not> sfits LENGTH('a) (sint a + sint b)"
    using r unfolding word_sless_alt word_sle_eq sint_add_cases sfits_def by (auto split: if_splits)
qed

lemma sub_check:
  fixes a b :: "'a::len word"
  shows "0 \<le>s b \<Longrightarrow> a <s a - b \<longleftrightarrow> \<not> sfits LENGTH('a) (sint a - sint b)"
    and "\<not> 0 \<le>s b \<Longrightarrow> a - b \<le>s a \<longleftrightarrow> \<not> sfits LENGTH('a) (sint a - sint b)"
proof -
  note r = sint_ge [of a] sint_lt [of a] sint_ge [of b] sint_lt [of b] two_power_length [where ?'a = 'a]
  show "0 \<le>s b \<Longrightarrow> a <s a - b \<longleftrightarrow> \<not> sfits LENGTH('a) (sint a - sint b)"
    using r unfolding word_sless_alt word_sle_eq sint_sub_cases sfits_def by (auto split: if_splits)
  show "\<not> 0 \<le>s b \<Longrightarrow> a - b \<le>s a \<longleftrightarrow> \<not> sfits LENGTH('a) (sint a - sint b)"
    using r unfolding word_sless_alt word_sle_eq sint_sub_cases sfits_def by (auto split: if_splits)
qed

lemma neg_check:
  fixes a :: "'a::len word"
  shows "sfits LENGTH('a) (- sint a) \<longleftrightarrow> a \<noteq> word_min" and "- a = word_of_int (- sint a)"
  using sint_ge [of a] sint_lt [of a] by (auto simp: eq_word_min sfits_def)

lemma abs_check:
  fixes a :: "'a::len word"
  shows "sfits LENGTH('a) \<bar>sint a\<bar> \<longleftrightarrow> a \<noteq> word_min"
    and "a \<noteq> word_min \<Longrightarrow> word_of_int \<bar>sint a\<bar> = word_abs a"
proof -
  have "0 < (2 :: int) ^ (LENGTH('a) - 1)" by simp
  then show "sfits LENGTH('a) \<bar>sint a\<bar> \<longleftrightarrow> a \<noteq> word_min"
    using sint_ge [of a] sint_lt [of a] unfolding eq_word_min sfits_def by linarith
  show "word_of_int \<bar>sint a\<bar> = word_abs a" if "a \<noteq> word_min"
    unfolding sint_word_abs [OF that, symmetric] by simp
qed

text \<open>Multiplication: the least number times anything but 0 and 1 overflows; small factors never do;
  otherwise the quotient of the bound by one factor decides.\<close>

lemma mul_min_check:
  fixes b :: "'a::len word"
  assumes "2 \<le> LENGTH('a)" and "sint a = - (2 ^ (LENGTH('a) - 1))"
  shows "sfits LENGTH('a) (sint a * sint b) \<longleftrightarrow> b = 0 \<or> b = 1"
proof -
  let ?M = "2 ^ (LENGTH('a) - 1) :: int"
  have s1: "sint (1 :: 'a word) = 1" using assms(1) sint_of_int [of 1, where ?'a = 'a]
    by (simp add: sfits_def)
  have M: "1 < ?M" using assms(1) by simp
  have "sfits LENGTH('a) (sint a * sint b) \<longleftrightarrow> - ?M \<le> - (?M * sint b) \<and> - (?M * sint b) < ?M"
    by (simp add: sfits_def assms(2))
  also have "\<dots> \<longleftrightarrow> ?M * sint b \<le> ?M * 1 \<and> ?M * (-1) < ?M * sint b" by auto
  also have "\<dots> \<longleftrightarrow> sint b \<le> 1 \<and> - 1 < sint b"
    using M by (simp only: mult_le_cancel_left_pos mult_less_cancel_left_pos)
  also have "\<dots> \<longleftrightarrow> sint b = 0 \<or> sint b = 1" by auto
  also have "\<dots> \<longleftrightarrow> b = 0 \<or> b = 1" using s1 by (metis sint_0 word_eq_iff_signed [where ?'a = int])
  finally show ?thesis .
qed

lemma mul_small:
  fixes a b :: "'a::len word"
  assumes "sint b \<noteq> - (2 ^ (LENGTH('a) - 1))" and "\<bar>sint a\<bar> < 2"
  shows "sfits LENGTH('a) (sint a * sint b)"
proof -
  have "sint a = - 1 \<or> sint a = 0 \<or> sint a = 1" using assms(2) by auto
  then show ?thesis
    using assms(1) sint_ge [of b] sint_lt [of b] by (auto simp: sfits_def)
qed

lemma div_ge_iff: "0 < q \<Longrightarrow> m \<le> n div q \<longleftrightarrow> m * q \<le> n" for m n q :: int
proof
  assume "0 < q" and "m * q \<le> n"
  then show "m \<le> n div q" using zdiv_mono1 [of "m * q" n q] by simp
next
  assume q: "0 < q" and "m \<le> n div q"
  then have "m * q \<le> n div q * q" by (intro mult_right_mono) auto
  also have "\<dots> \<le> n" using q pos_mod_sign [of q n] div_mult_mod_eq [of n q] by linarith
  finally show "m * q \<le> n" .
qed

lemma mul_check:
  fixes x y M :: int
  assumes "2 \<le> \<bar>x\<bar>" and "2 \<le> \<bar>y\<bar>" and "0 < M"
  shows "(x < 0) = (y < 0) \<Longrightarrow> - M \<le> x * y \<and> x * y < M \<longleftrightarrow> \<not> (M - 1) div \<bar>y\<bar> < \<bar>x\<bar>"
    and "(x < 0) \<noteq> (y < 0) \<Longrightarrow> - M \<le> x * y \<and> x * y < M \<longleftrightarrow> \<not> M div \<bar>y\<bar> < \<bar>x\<bar>"
proof -
  have y: "0 < \<bar>y\<bar>" using assms(2) by simp
  have p: "0 < \<bar>x\<bar> * \<bar>y\<bar>" using assms by (intro mult_pos_pos) auto
  have d: "\<not> k div \<bar>y\<bar> < \<bar>x\<bar> \<longleftrightarrow> \<bar>x\<bar> * \<bar>y\<bar> \<le> k" for k
    using y by (simp add: not_less div_ge_iff)
  show "- M \<le> x * y \<and> x * y < M \<longleftrightarrow> \<not> (M - 1) div \<bar>y\<bar> < \<bar>x\<bar>" if "(x < 0) = (y < 0)"
  proof -
    have "x * y = \<bar>x\<bar> * \<bar>y\<bar>" using that by (cases "x < 0") auto
    with p assms(3) show ?thesis unfolding d by linarith
  qed
  show "- M \<le> x * y \<and> x * y < M \<longleftrightarrow> \<not> M div \<bar>y\<bar> < \<bar>x\<bar>" if "(x < 0) \<noteq> (y < 0)"
  proof -
    have "x * y = - (\<bar>x\<bar> * \<bar>y\<bar>)" using that by (cases "x < 0") auto
    with p assms(3) show ?thesis unfolding d by linarith
  qed
qed

text \<open>The cascade of tests of \<^verbatim>\<open>__mulv*i3\<close> and \<^verbatim>\<open>__mulo*i4\<close> as one predicate.\<close>

definition mul_overflows :: "ub \<Rightarrow> 'a::len word \<Rightarrow> 'a word \<Rightarrow> bool" where
  "mul_overflows u a b =
    (if a = word_min then \<not> (b = 0 \<or> b = 1)
     else if b = word_min then \<not> (a = 0 \<or> a = 1)
     else if word_abs a <s 2 \<or> word_abs b <s 2 then False
     else if sgn_mask a = sgn_mask b then c_sdiv u (NOT word_min) (word_abs b) <s word_abs a
     else c_sdiv u word_min (- word_abs b) <s word_abs a)"

lemma if_flatten:
  "(if (if c then p else q) then x else y) = (if c then (if p then x else y) else (if q then x else y))"
  "(if \<not> p then x else y) = (if p then y else x)"
  by simp_all

lemma pair_if: "(z, if c then x else y) = (if c then (z, x) else (z, y))"
  by simp

lemma mul_overflows_iff:
  fixes a b :: "'a::len word"
  assumes L: "3 \<le> LENGTH('a)"
  shows "mul_overflows u a b \<longleftrightarrow> \<not> sfits LENGTH('a) (sint a * sint b)"
proof -
  let ?M = "2 ^ (LENGTH('a) - 1) :: int"
  have "(2::int) ^ 2 \<le> ?M" using L by (intro power_increasing) auto
  then have M: "4 \<le> ?M" by simp
  have s2: "sint (2 :: 'a word) = 2" using M sint_of_int [of 2, where ?'a = 'a]
    by (simp add: sfits_def)
  consider "a = word_min" | "b = word_min" "a \<noteq> word_min"
    | "a \<noteq> word_min" "b \<noteq> word_min" "\<bar>sint a\<bar> < 2 \<or> \<bar>sint b\<bar> < 2"
    | "a \<noteq> word_min" "b \<noteq> word_min" "2 \<le> \<bar>sint a\<bar>" "2 \<le> \<bar>sint b\<bar>" by linarith
  then show ?thesis
  proof cases
    case 1
    then show ?thesis using mul_min_check [of a b] L by (auto simp: mul_overflows_def sint_word_min)
  next
    case 2
    then show ?thesis using mul_min_check [of b a] L
      by (auto simp: mul_overflows_def sint_word_min mult.commute)
  next
    case 3
    then have "sfits LENGTH('a) (sint a * sint b)"
      using mul_small [of b a] mul_small [of a b] by (auto simp: eq_word_min mult.commute)
    moreover have "word_abs a <s 2 \<or> word_abs b <s 2"
      using 3 unfolding word_sless_alt sint_word_abs [OF 3(1)] sint_word_abs [OF 3(2)] s2 by blast
    ultimately show ?thesis using 3(1,2) by (simp add: mul_overflows_def)
  next
    case 4
    let ?x = "\<bar>sint a\<bar>" and ?y = "\<bar>sint b\<bar>"
    have y: "?y \<le> ?M - 1" using 4 sint_ge [of b] sint_lt [of b] by (auto simp: eq_word_min)
    have ab: "sint (word_abs a) = ?x" "sint (word_abs b) = ?y" using 4 by (simp_all add: sint_word_abs)
    have neg: "sint (- word_abs b) = - ?y"
      unfolding sneg_of_int [of "word_abs b"] ab
      by (rule sint_of_int) (use y M in \<open>auto simp: sfits_def intro: order_le_less_trans\<close>)
    have nz: "word_abs b \<noteq> 0" "word_abs b \<noteq> - 1" "- word_abs b \<noteq> 0" "- word_abs b \<noteq> - 1"
      using ab(2) neg 4(4) by (auto dest: arg_cong [where f = sint] simp: sint_n1)
    have le: "k div ?y \<le> k" "0 \<le> k div ?y" if "0 \<le> k" for k
      using that 4(4) zdiv_mono2 [of k 1 ?y] by (simp_all add: pos_imp_zdiv_nonneg_iff)
    have q: "sint (c_sdiv u (NOT word_min) (word_abs b)) = (?M - 1) div ?y"
      using M 4(4) le [of "?M - 1"] nz
      by (simp add: c_ops ab sint_word_max signed_divide_int_def sint_of_int sfits_def sgn_if)
    have "?M div ?y \<le> ?M div 2" using 4(4) M by (intro zdiv_mono2) auto
    then have h: "?M div ?y < ?M" using M by linarith
    have q': "sint (c_sdiv u word_min (- word_abs b)) = ?M div ?y"
      using M 4(4) le [of ?M] h nz
      by (simp add: c_ops neg sint_word_min signed_divide_int_def sint_of_int sfits_def sgn_if)
    have sg: "sgn_mask a = sgn_mask b \<longleftrightarrow> (sint a < 0) = (sint b < 0)" by (simp add: sgn_mask_eq)
    have big: "\<not> (word_abs a <s 2 \<or> word_abs b <s 2)" 
      using 4(3,4) unfolding word_sless_alt ab s2 by simp
    show ?thesis
    proof (cases "(sint a < 0) = (sint b < 0)")
      case True
      then show ?thesis
        using mul_check(1) [OF 4(3,4), of ?M] M 4(1,2) big
        by (simp add: mul_overflows_def sg word_sless_alt ab q sfits_def)
    next
      case False
      then show ?thesis
        using mul_check(2) [OF 4(3,4), of ?M] M 4(1,2) big
        by (simp add: mul_overflows_def sg word_sless_alt ab q' sfits_def)
    qed
  qed
qed

section \<open>The functional behaviour\<close>

lemma word_min_32: "word_min = (push_bit 31 1 :: si_int)" and sgn_mask_32: "sgn_mask (x :: si_int) = signed_drop_bit 31 x"
  by (simp_all add: word_min_def sgn_mask_def)

lemma negvsi2_eq: "negvsi2 a = checked ''__negvsi2'' (- sint a)"
  using neg_check [of a] by (auto simp: negvsi2_def checked_def word_min_def)

lemma absvsi2_eq: "absvsi2 a = checked ''__absvsi2'' \<bar>sint a\<bar>"
  using abs_check [of a] by (simp add: absvsi2_def Let_def checked_def word_min_def word_abs_def sgn_mask_def)

lemma addvsi3_eq: "addvsi3 a b = checked ''__addvsi3'' (sint a + sint b)"
  using add_check [of b a] by (auto simp: addvsi3_def Let_def checked_def)

lemma subvsi3_eq: "subvsi3 a b = checked ''__subvsi3'' (sint a - sint b)"
  using sub_check [of b a] by (auto simp: subvsi3_def Let_def checked_def)

lemma mulvsi3_eq: "mulvsi3 u a b = checked ''__mulvsi3'' (sint a * sint b)"
proof -
  have "mulvsi3 u a b = (if mul_overflows u a b then Inl (Abort ''__mulvsi3'') else Inr (a * b))"
    unfolding mulvsi3_def mul_overflows_def Let_def word_min_32 word_abs_def sgn_mask_32
    by (simp only: if_flatten if_False)
  also have "\<dots> = checked ''__mulvsi3'' (sint a * sint b)"
    by (simp add: mul_overflows_iff checked_def)
  finally show ?thesis .
qed

lemma mulosi4_eq: "mulosi4 u a b = (a * b, of_bool (\<not> sfits 32 (sint a * sint b)))"
proof -
  have "mulosi4 u a b = (a * b, of_bool (mul_overflows u a b))"
    unfolding mulosi4_def mul_overflows_def Let_def word_min_32 word_abs_def sgn_mask_32
    by (simp only: of_bool_def if_flatten if_False pair_if flip: de_Morgan_disj)
  then show ?thesis by (simp add: mul_overflows_iff)
qed

lemma word_min_64: "word_min = (push_bit 63 1 :: di_int)" and sgn_mask_64: "sgn_mask (x :: di_int) = signed_drop_bit 63 x"
  by (simp_all add: word_min_def sgn_mask_def)

lemma negvdi2_eq: "negvdi2 a = checked ''__negvdi2'' (- sint a)"
  using neg_check [of a] by (auto simp: negvdi2_def checked_def word_min_def)

lemma absvdi2_eq: "absvdi2 a = checked ''__absvdi2'' \<bar>sint a\<bar>"
  using abs_check [of a] by (simp add: absvdi2_def Let_def checked_def word_min_def word_abs_def sgn_mask_def)

lemma addvdi3_eq: "addvdi3 a b = checked ''__addvdi3'' (sint a + sint b)"
  using add_check [of b a] by (auto simp: addvdi3_def Let_def checked_def)

lemma subvdi3_eq: "subvdi3 a b = checked ''__subvdi3'' (sint a - sint b)"
  using sub_check [of b a] by (auto simp: subvdi3_def Let_def checked_def)

lemma mulvdi3_eq: "mulvdi3 u a b = checked ''__mulvdi3'' (sint a * sint b)"
proof -
  have "mulvdi3 u a b = (if mul_overflows u a b then Inl (Abort ''__mulvdi3'') else Inr (a * b))"
    unfolding mulvdi3_def mul_overflows_def Let_def word_min_64 word_abs_def sgn_mask_64
    by (simp only: if_flatten if_False)
  also have "\<dots> = checked ''__mulvdi3'' (sint a * sint b)"
    by (simp add: mul_overflows_iff checked_def)
  finally show ?thesis .
qed

lemma mulodi4_eq: "mulodi4 u a b = (a * b, of_bool (\<not> sfits 64 (sint a * sint b)))"
proof -
  have "mulodi4 u a b = (a * b, of_bool (mul_overflows u a b))"
    unfolding mulodi4_def mul_overflows_def Let_def word_min_64 word_abs_def sgn_mask_64
    by (simp only: of_bool_def if_flatten if_False pair_if flip: de_Morgan_disj)
  then show ?thesis by (simp add: mul_overflows_iff)
qed

lemma word_min_128: "word_min = (push_bit 127 1 :: ti_int)" and sgn_mask_128: "sgn_mask (x :: ti_int) = signed_drop_bit 127 x"
  by (simp_all add: word_min_def sgn_mask_def)

lemma negvti2_eq: "negvti2 a = checked ''__negvti2'' (- sint a)"
  using neg_check [of a] by (auto simp: negvti2_def checked_def word_min_def)

lemma absvti2_eq: "absvti2 a = checked ''__absvti2'' \<bar>sint a\<bar>"
  using abs_check [of a] by (simp add: absvti2_def Let_def checked_def word_min_def word_abs_def sgn_mask_def)

lemma addvti3_eq: "addvti3 a b = checked ''__addvti3'' (sint a + sint b)"
  using add_check [of b a] by (auto simp: addvti3_def Let_def checked_def)

lemma subvti3_eq: "subvti3 a b = checked ''__subvti3'' (sint a - sint b)"
  using sub_check [of b a] by (auto simp: subvti3_def Let_def checked_def)

lemma mulvti3_eq: "mulvti3 u a b = checked ''__mulvti3'' (sint a * sint b)"
proof -
  have "mulvti3 u a b = (if mul_overflows u a b then Inl (Abort ''__mulvti3'') else Inr (a * b))"
    unfolding mulvti3_def mul_overflows_def Let_def word_min_128 word_abs_def sgn_mask_128
    by (simp only: if_flatten if_False)
  also have "\<dots> = checked ''__mulvti3'' (sint a * sint b)"
    by (simp add: mul_overflows_iff checked_def)
  finally show ?thesis .
qed

lemma muloti4_eq: "muloti4 u a b = (a * b, of_bool (\<not> sfits 128 (sint a * sint b)))"
proof -
  have "muloti4 u a b = (a * b, of_bool (mul_overflows u a b))"
    unfolding muloti4_def mul_overflows_def Let_def word_min_128 word_abs_def sgn_mask_128
    by (simp only: of_bool_def if_flatten if_False pair_if flip: de_Morgan_disj)
  then show ?thesis by (simp add: mul_overflows_iff)
qed

section \<open>Properties\<close>

text \<open>C6: the checked additions, subtractions, negations and absolute values return the exact result
  when the type has it, and abort, naming themselves, exactly when it has not.\<close>

theorem checked_sums:
  "addvsi3 a b = checked ''__addvsi3'' (sint a + sint b) \<and>
   subvsi3 a b = checked ''__subvsi3'' (sint a - sint b) \<and>
   negvsi2 a = checked ''__negvsi2'' (- sint a) \<and> absvsi2 a = checked ''__absvsi2'' \<bar>sint a\<bar> \<and>
   addvdi3 c d = checked ''__addvdi3'' (sint c + sint d) \<and>
   subvdi3 c d = checked ''__subvdi3'' (sint c - sint d) \<and>
   negvdi2 c = checked ''__negvdi2'' (- sint c) \<and> absvdi2 c = checked ''__absvdi2'' \<bar>sint c\<bar> \<and>
   addvti3 e f = checked ''__addvti3'' (sint e + sint f) \<and>
   subvti3 e f = checked ''__subvti3'' (sint e - sint f) \<and>
   negvti2 e = checked ''__negvti2'' (- sint e) \<and> absvti2 e = checked ''__absvti2'' \<bar>sint e\<bar>"
  by (simp only: addvsi3_eq subvsi3_eq negvsi2_eq absvsi2_eq addvdi3_eq subvdi3_eq negvdi2_eq absvdi2_eq
    addvti3_eq subvti3_eq negvti2_eq absvti2_eq simp_thms)

text \<open>C5: the checked multiplications abort exactly when the exact product does not fit, and those
  with a flag return the wrapped product and set the flag in exactly those cases, whatever an undefined
  division would yield.\<close>

theorem checked_products:
  "mulvsi3 u a b = checked ''__mulvsi3'' (sint a * sint b) \<and>
   mulvdi3 u c d = checked ''__mulvdi3'' (sint c * sint d) \<and>
   mulvti3 u e f = checked ''__mulvti3'' (sint e * sint f) \<and>
   mulosi4 u a b = (a * b, of_bool (\<not> sfits 32 (sint a * sint b))) \<and>
   mulodi4 u c d = (c * d, of_bool (\<not> sfits 64 (sint c * sint d))) \<and>
   muloti4 u e f = (e * f, of_bool (\<not> sfits 128 (sint e * sint f)))"
  by (simp only: mulvsi3_eq mulvdi3_eq mulvti3_eq mulosi4_eq mulodi4_eq muloti4_eq simp_thms)

end
