(* ===== verification/Multiply.thy ===== *)
theory Multiply
  imports Halves
begin

unbundle bit_operations_syntax

text \<open>
  Double-width multiplication, \<^verbatim>\<open>lib/muldi3.c\<close> and \<^verbatim>\<open>lib/multi3.c\<close>: the full product of
  two halves from four products of half-halves with their carries (\<^verbatim>\<open>__muldsi3\<close>,
  \<^verbatim>\<open>__mulddi3\<close>), then the cross terms modulo the width.
\<close>

section \<open>The code\<close>

definition muldsi3 :: "su_int \<Rightarrow> su_int \<Rightarrow> di_int" where
  "muldsi3 a b =
    (let lower_mask = drop_bit 16 (NOT 0) :: su_int;
         low = (a AND lower_mask) * (b AND lower_mask);
         t = drop_bit 16 low;
         low = low AND lower_mask;
         t = t + drop_bit 16 a * (b AND lower_mask);
         low = low + push_bit 16 (t AND lower_mask);
         high = drop_bit 16 t;
         t = drop_bit 16 low;
         low = low AND lower_mask;
         t = t + drop_bit 16 b * (a AND lower_mask);
         low = low + push_bit 16 (t AND lower_mask);
         high = high + drop_bit 16 t;
         high = high + drop_bit 16 a * drop_bit 16 b
     in dwords_all \<lparr> s_high = high, s_low = low \<rparr>)"

definition muldi3 :: "di_int \<Rightarrow> di_int \<Rightarrow> di_int" where
  "muldi3 a b =
    (let x = dwords_of a; y = dwords_of b;
         r = dwords_of (muldsi3 (s_low x) (s_low y));
         r = r \<lparr> s_high := s_high r + (s_high x * s_low y + s_low x * s_high y) \<rparr>
     in dwords_all r)"

definition mulddi3 :: "du_int \<Rightarrow> du_int \<Rightarrow> ti_int" where
  "mulddi3 a b =
    (let lower_mask = drop_bit 32 (NOT 0) :: du_int;
         low = (a AND lower_mask) * (b AND lower_mask);
         t = drop_bit 32 low;
         low = low AND lower_mask;
         t = t + drop_bit 32 a * (b AND lower_mask);
         low = low + push_bit 32 (t AND lower_mask);
         high = drop_bit 32 t;
         t = drop_bit 32 low;
         low = low AND lower_mask;
         t = t + drop_bit 32 b * (a AND lower_mask);
         low = low + push_bit 32 (t AND lower_mask);
         high = high + drop_bit 32 t;
         high = high + drop_bit 32 a * drop_bit 32 b
     in twords_all \<lparr> s_high = high, s_low = low \<rparr>)"

definition multi3 :: "ti_int \<Rightarrow> ti_int \<Rightarrow> ti_int" where
  "multi3 a b =
    (let x = twords_of a; y = twords_of b;
         r = twords_of (mulddi3 (s_low x) (s_low y));
         r = r \<lparr> s_high := s_high r + (s_high x * s_low y + s_low x * s_high y) \<rparr>
     in twords_all r)"

section \<open>The schoolbook product\<close>

text \<open>With digits below \<open>B\<close> no intermediate sum reaches \<open>B\<^sup>2\<close>.\<close>

lemma digit_bounds:
  fixes B :: nat
  assumes "p < B" "q < B" "c < B"
  shows "p * q < B * B" and "c + p * q < B * B"
proof -
  have "p * q \<le> (B - 1) * (B - 1)" using assms by (intro mult_le_mono) auto
  moreover have "(B - 1) * (B - 1) + B \<le> B * B"
    by (cases B) (auto simp: algebra_simps)
  ultimately show "p * q < B * B" and "c + p * q < B * B" using assms by linarith+
qed

lemma schoolbook:
  fixes a b :: "'h::len word" and k :: nat
  defines "m \<equiv> mask k"
  defines "low0 \<equiv> (a AND m) * (b AND m)"
  defines "t1 \<equiv> drop_bit k low0 + drop_bit k a * (b AND m)"
  defines "low2 \<equiv> (low0 AND m) + push_bit k (t1 AND m)"
  defines "t3 \<equiv> drop_bit k low2 + drop_bit k b * (a AND m)"
  defines "low4 \<equiv> (low2 AND m) + push_bit k (t3 AND m)"
  defines "high \<equiv> drop_bit k t1 + drop_bit k t3 + drop_bit k a * drop_bit k b"
  assumes L: "LENGTH('h) = 2 * k"
  shows "unat high * 2 ^ LENGTH('h) + unat low4 = unat a * unat b"
proof -
  define B :: nat where "B = 2 ^ k"
  have BB: "2 ^ LENGTH('h) = B * B" by (simp add: L B_def mult_2 power_add)
  have B0: "0 < B" by (simp add: B_def)
  note word_nat' = unat_and_mask unat_drop_bit
  have am: "unat (x AND m) = unat x mod B" for x :: "'h word"
    unfolding m_def unat_and_mask B_def ..
  define a0 a1 b0 b1 where d: "a0 = unat a mod B" "a1 = unat a div B" "b0 = unat b mod B" "b1 = unat b div B"
  have ab: "unat a = a1 * B + a0" "unat b = b1 * B + b0" by (simp_all add: d)
  have lt: "a0 < B" "b0 < B" "a1 < B" "b1 < B"
    using B0 unsigned_less [where ?'a = nat, of a] unsigned_less [where ?'a = nat, of b]
    by (simp_all add: d BB less_mult_imp_div_less)
  have parts: "unat (a AND m) = a0" "unat (b AND m) = b0" "unat (drop_bit k a) = a1" "unat (drop_bit k b) = b1"
    by (simp_all add: m_def word_nat' d B_def)
  have l0: "unat low0 = a0 * b0"
    unfolding low0_def using digit_bounds(1) [OF lt(1,2) lt(1)] by (simp add: unat_mult_below parts BB)
  have c0: "a0 * b0 div B < B"
    using digit_bounds(1) [OF lt(1,2) lt(1)] by (simp add: less_mult_imp_div_less)
  have u1: "unat t1 = a0 * b0 div B + a1 * b0"
  proof -
    have "unat (drop_bit k a * (b AND m)) = a1 * b0"
      using digit_bounds(1) [OF lt(3,2) lt(1)] by (simp add: unat_mult_below parts BB)
    moreover have "unat (drop_bit k low0) = a0 * b0 div B" by (simp add: unat_drop_bit l0 B_def)
    ultimately show ?thesis
      unfolding t1_def using digit_bounds(2) [OF lt(3,2) c0] by (simp add: unat_add_below BB)
  qed
  have low: "x mod B + y mod B * B < B * B" for x y
  proof -
    have "x mod B < B" "y mod B + 1 \<le> B" using B0 by (simp_all add: Suc_leI)
    then have "x mod B + y mod B * B < (y mod B + 1) * B" "(y mod B + 1) * B \<le> B * B"
      by (simp, intro mult_le_mono1)
    then show ?thesis by linarith
  qed
  have push: "unat (push_bit k (x AND m)) = unat x mod B * B" for x :: "'h word"
  proof -
    have "unat x mod B * B < B * B" using low [of 0 "unat x"] by simp
    then show ?thesis unfolding unat_push_bit m_def unat_and_mask BB B_def [symmetric] by simp
  qed
  have l2: "unat low2 = a0 * b0 mod B + unat t1 mod B * B"
    unfolding low2_def using low [of "a0 * b0" "unat t1"]
    by (simp add: unat_add_below push BB am l0 del: push_bit_and)
  have l2d: "unat low2 div B = unat t1 mod B" "unat low2 mod B = a0 * b0 mod B"
    using B0 by (simp_all add: l2)
  have u3: "unat t3 = unat t1 mod B + b1 * a0"
  proof -
    have "unat (drop_bit k b * (a AND m)) = b1 * a0"
      using digit_bounds(1) [OF lt(4,1) lt(1)] by (simp add: unat_mult_below parts BB)
    moreover have "unat (drop_bit k low2) = unat t1 mod B" using l2d by (simp add: unat_drop_bit B_def)
    ultimately show ?thesis
      unfolding t3_def using digit_bounds(2) [OF lt(4,1), of "unat t1 mod B"] B0
      by (simp add: unat_add_below BB)
  qed
  have l4: "unat low4 = a0 * b0 mod B + unat t3 mod B * B"
    unfolding low4_def using low [of "a0 * b0" "unat t3"]
    by (simp add: unat_add_below push BB am l2d del: push_bit_and)
  define H where "H = unat t1 div B + unat t3 div B + a1 * b1"
  have regroup: "(d1 + d3 + a1 * b1) * (B * B) + (c + m3 * B)
    = a1 * b1 * (B * B) + (d3 * B + m3 + d1 * B) * B + c" for d1 d3 c m3 :: nat
    by (simp add: algebra_simps)
  have eq: "H * (B * B) + (a0 * b0 mod B + unat t3 mod B * B) = unat a * unat b"
  proof -
    have "unat t3 = unat t3 div B * B + unat t3 mod B" "unat t1 = unat t1 div B * B + unat t1 mod B"
      "a0 * b0 = a0 * b0 div B * B + a0 * b0 mod B" by simp_all
    then have *: "unat t3 div B * B + unat t3 mod B + unat t1 div B * B = a0 * b0 div B + a1 * b0 + b1 * a0"
      "a0 * b0 = a0 * b0 div B * B + a0 * b0 mod B" using u1 u3 by linarith+
    have "H * (B * B) + (a0 * b0 mod B + unat t3 mod B * B)
      = a1 * b1 * (B * B) + (unat t3 div B * B + unat t3 mod B + unat t1 div B * B) * B + a0 * b0 mod B"
      unfolding H_def by (rule regroup)
    also have "\<dots> = a1 * b1 * (B * B) + (a1 * b0 + b1 * a0) * B + (a0 * b0 div B * B + a0 * b0 mod B)"
      unfolding *(1) by (simp add: algebra_simps)
    also have "\<dots> = (a1 * B + a0) * (b1 * B + b0)"
      unfolding *(2) [symmetric] by (simp add: algebra_simps)
    finally show ?thesis unfolding ab .
  qed
  have "H * (B * B) \<le> unat a * unat b" using eq by simp
  also have "\<dots> < B * B * (B * B)"
    using unsigned_less [where ?'a = nat, of a] unsigned_less [where ?'a = nat, of b]
    by (intro mult_strict_mono') (simp_all add: BB)
  finally have H: "H < B * B" using B0 by simp
  have "unat (drop_bit k t1) = unat t1 div B" "unat (drop_bit k t3) = unat t3 div B"
    by (simp_all add: unat_drop_bit B_def)
  with H have "unat high = H"
    unfolding high_def H_def by (simp add: unat_add_below unat_mult_below parts BB)
  then show ?thesis using eq by (simp add: l4 BB)
qed

section \<open>The whole product\<close>

context halves_view
begin

text \<open>The full product of the low halves plus the cross terms, modulo the width.\<close>

lemma cross_product:
  assumes r: "unat r = unat (s_low (split x)) * unat (s_low (split y))"
  shows "join ((split r) \<lparr> s_high := s_high (split r)
    + (s_high (split x) * s_low (split y) + s_low (split x) * s_high (split y)) \<rparr>) = x * y"
  (is "join ?p = _")
proof (rule unsigned_word_eqI [where ?'a = nat])
  let ?B = "2 ^ LENGTH('h) :: nat"
  define xh xl yh yl where d: "xh = unat (s_high (split x))" "xl = unat (s_low (split x))"
    "yh = unat (s_high (split y))" "yl = unat (s_low (split y))"
  define rh rl where dr: "rh = unat (s_high (split r))" "rl = unat (s_low (split r))"
  have BB: "2 ^ LENGTH('d) = ?B * ?B" by (simp add: double_length mult_2 power_add)
  have rr: "rh * ?B + rl = xl * yl" using r unat_split [of r] by (simp add: d dr)
  have "unat (s_high ?p) = (rh + (xh * yl + xl * yh)) mod ?B"
    by (simp add: unat_word_ariths d dr mod_simps)
  then have "unat (join ?p) = (rh + (xh * yl + xl * yh)) mod ?B * ?B + rl"
    by (simp add: unat_join dr)
  also have "\<dots> = ((rh + (xh * yl + xl * yh)) * ?B + rl) mod (?B * ?B)"
  proof -
    have "rl < ?B" by (simp add: dr)
    then show ?thesis
      using mod_mult2_eq [of "(rh + (xh * yl + xl * yh)) * ?B + rl" ?B ?B] by (simp add: mult.commute)
  qed
  also have "(rh + (xh * yl + xl * yh)) * ?B + rl = xl * yl + (xh * yl + xl * yh) * ?B"
    using rr by (simp add: algebra_simps)
  also have "(xl * yl + (xh * yl + xl * yh) * ?B) mod (?B * ?B) = (xh * ?B + xl) * (yh * ?B + yl) mod (?B * ?B)"
  proof -
    have "(xh * ?B + xl) * (yh * ?B + yl) = (xl * yl + (xh * yl + xl * yh) * ?B) + (xh * yh) * (?B * ?B)"
      by (simp add: algebra_simps)
    then show ?thesis by (simp only: mod_mult_self1)
  qed
  also have "(xh * ?B + xl) * (yh * ?B + yl) mod (?B * ?B) = unat (x * y)"
    using unat_split [of x] unat_split [of y] by (simp add: unat_word_ariths d BB)
  finally show "unat (join ?p) = unat (x * y)" .
qed

end

lemma muldsi3_eq: "unat (muldsi3 a b) = unat a * unat b"
proof -
  have "drop_bit 16 (NOT 0) = (mask 16 :: su_int)" by (simp add: mask_eq_exp_minus_1)
  then show ?thesis
    using schoolbook [of 16 a b] unfolding muldsi3_def Let_def dw.unat_join by simp
qed

lemma mulddi3_eq: "unat (mulddi3 a b) = unat a * unat b"
proof -
  have "drop_bit 32 (NOT 0) = (mask 32 :: du_int)" by (simp add: mask_eq_exp_minus_1)
  then show ?thesis
    using schoolbook [of 32 a b] unfolding mulddi3_def Let_def tw.unat_join by simp
qed

lemma muldi3_eq: "muldi3 a b = a * b"
  unfolding muldi3_def Let_def by (rule dw.cross_product) (rule muldsi3_eq)

lemma multi3_eq: "multi3 a b = a * b"
  unfolding multi3_def Let_def by (rule tw.cross_product) (rule mulddi3_eq)

section \<open>Properties\<close>

text \<open>C7: the widening multiplications yield the full product, and the double-word multiplications the
  product modulo their width.\<close>

theorem wide_products:
  "unat (muldsi3 a b) = unat a * unat b \<and> muldi3 x y = x * y \<and>
   unat (mulddi3 c d) = unat c * unat d \<and> multi3 z w = z * w"
  by (simp add: muldsi3_eq muldi3_eq mulddi3_eq multi3_eq)

end
