(* ===== verification/Compare_Int.thy ===== *)
theory Compare_Int
  imports Halves
begin

unbundle bit_operations_syntax

text \<open>
  Three-way comparison half by half: \<^verbatim>\<open>lib/cmpdi2.c\<close>, \<^verbatim>\<open>lib/cmpti2.c\<close> on signed and
  \<^verbatim>\<open>lib/ucmpdi2.c\<close>, \<^verbatim>\<open>lib/ucmpti2.c\<close> on unsigned integers. The answer is 0, 1 or 2 for
  less, equal and greater. The high halves compare with the sign of the operands, the low halves
  always unsigned.
\<close>

section \<open>The code\<close>

definition cmpdi2 :: "di_int \<Rightarrow> di_int \<Rightarrow> si_int" where
  "cmpdi2 a b =
    (let x = dwords_of a; y = dwords_of b in
     if s_high x <s s_high y then 0
     else if s_high y <s s_high x then 2
     else if s_low x < s_low y then 0
     else if s_low y < s_low x then 2
     else 1)"

definition ucmpdi2 :: "du_int \<Rightarrow> du_int \<Rightarrow> si_int" where
  "ucmpdi2 a b =
    (let x = dwords_of a; y = dwords_of b in
     if s_high x < s_high y then 0
     else if s_high y < s_high x then 2
     else if s_low x < s_low y then 0
     else if s_low y < s_low x then 2
     else 1)"

definition cmpti2 :: "ti_int \<Rightarrow> ti_int \<Rightarrow> si_int" where
  "cmpti2 a b =
    (let x = twords_of a; y = twords_of b in
     if s_high x <s s_high y then 0
     else if s_high y <s s_high x then 2
     else if s_low x < s_low y then 0
     else if s_low y < s_low x then 2
     else 1)"

definition ucmpti2 :: "tu_int \<Rightarrow> tu_int \<Rightarrow> si_int" where
  "ucmpti2 a b =
    (let x = twords_of a; y = twords_of b in
     if s_high x < s_high y then 0
     else if s_high y < s_high x then 2
     else if s_low x < s_low y then 0
     else if s_low y < s_low x then 2
     else 1)"

section \<open>The contract\<close>

text \<open>The three-way comparison of two integers.\<close>

definition three_way :: "int \<Rightarrow> int \<Rightarrow> si_int" where
  "three_way x y = (if x < y then 0 else if x = y then 1 else 2)"

lemma lex_order:
  fixes a b c d B :: int
  assumes "0 \<le> b" "b < B" "0 \<le> d" "d < B"
  shows "a * B + b < c * B + d \<longleftrightarrow> a < c \<or> a = c \<and> b < d"
proof -
  have *: "p * B + q < r * B + s" if "p < r" "0 \<le> q" "q < B" "0 \<le> s" "s < B" for p q r s
  proof -
    have "p * B + q < (p + 1) * B" using that by (simp add: algebra_simps)
    also have "\<dots> \<le> r * B" using that by (intro mult_right_mono) auto
    finally show ?thesis using that by simp
  qed
  show ?thesis
    using *[of a c b d] *[of c a d b] assms by (cases a c rule: linorder_cases) auto
qed

context halves_view
begin

lemma uint_split: "uint x = uint (s_high (split x)) * 2 ^ LENGTH('h) + uint (s_low (split x))"
  using arg_cong [OF unat_split [of x], of int] by simp

lemma sint_split: "sint x = sint (s_high (split x)) * 2 ^ LENGTH('h) + uint (s_low (split x))"
proof -
  have d: "(2::int) ^ LENGTH('d) = 2 ^ LENGTH('h) * 2 ^ LENGTH('h)"
    by (simp add: double_length mult_2 power_add)
  show ?thesis
    unfolding sint_uint_cases msb_high uint_split [of x] d by (simp add: algebra_simps)
qed

lemma uless_split: "x < y \<longleftrightarrow> s_high (split x) < s_high (split y) \<or>
    s_high (split x) = s_high (split y) \<and> s_low (split x) < s_low (split y)"
  unfolding word_less_def uint_split [of x] uint_split [of y]
  by (subst lex_order) (auto simp: word_eq_iff_unsigned [where ?'a = int])

lemma sless_split: "x <s y \<longleftrightarrow> s_high (split x) <s s_high (split y) \<or>
    s_high (split x) = s_high (split y) \<and> s_low (split x) < s_low (split y)"
  unfolding word_sless_alt word_less_def sint_split [of x] sint_split [of y]
  by (subst lex_order) (auto simp: word_eq_iff_signed [where ?'a = int])

end

lemma three_way_signed: "three_way (sint a) (sint b) = (if a <s b then 0 else if b <s a then 2 else 1)"
  and three_way_unsigned: "three_way (uint a) (uint b) = (if a < b then 0 else if b < a then 2 else 1)"
  by (simp_all add: three_way_def word_sless_alt word_less_def)

lemma cmpdi2_eq: "cmpdi2 a b = three_way (sint a) (sint b)"
  unfolding three_way_signed dw.sless_split [of a b] dw.sless_split [of b a] cmpdi2_def Let_def
  by auto

lemma ucmpdi2_eq: "ucmpdi2 a b = three_way (uint a) (uint b)"
  unfolding three_way_unsigned dw.uless_split [of a b] dw.uless_split [of b a] ucmpdi2_def Let_def
  by auto

lemma cmpti2_eq: "cmpti2 a b = three_way (sint a) (sint b)"
  unfolding three_way_signed tw.sless_split [of a b] tw.sless_split [of b a] cmpti2_def Let_def
  by auto

lemma ucmpti2_eq: "ucmpti2 a b = three_way (uint a) (uint b)"
  unfolding three_way_unsigned tw.uless_split [of a b] tw.uless_split [of b a] ucmpti2_def Let_def
  by auto

section \<open>Properties\<close>

text \<open>the three-way comparisons order the integers the operands stand for.\<close>

theorem integer_comparisons:
  "cmpdi2 a b = three_way (sint a) (sint b) \<and> ucmpdi2 a b = three_way (uint a) (uint b) \<and>
   cmpti2 c d = three_way (sint c) (sint d) \<and> ucmpti2 c d = three_way (uint c) (uint d)"
  by (simp add: cmpdi2_eq ucmpdi2_eq cmpti2_eq ucmpti2_eq)

end
