(* ===== verification/Divide.thy ===== *)
theory Divide
  imports Crt_Prelude
begin

unbundle bit_operations_syntax

text \<open>
  Unsigned 32-bit division. \<^verbatim>\<open>lib/udivsi3.c\<close> aligns the divisor with the dividend and runs a
  shift-and-subtract loop whose comparison is a sign test; \<^verbatim>\<open>lib/patmos/udivsi3.c\<close> and
  \<^verbatim>\<open>lib/patmos/udivmodsi4.c\<close> replace it on Patmos by a restoring loop over all 32 bits (the C
  branch is modelled; the other branch is inline assembly), and
  \<^verbatim>\<open>lib/patmos/wcet_oriented/udivsi3.c\<close> by a loop of constant length with the sign test.

  \<open>div_loop\<close> is the shift-and-subtract loop on a word of any width. The 64- and 128-bit divisions
  of \<^verbatim>\<open>Divide_Wide\<close> run the same loop on halves and reuse its correctness.
\<close>

section \<open>The code\<close>

text \<open>The loop of \<^verbatim>\<open>__udivsi3\<close>; its counter is the first argument.\<close>

fun udivsi3_loop :: "nat \<Rightarrow> su_int \<Rightarrow> su_int \<Rightarrow> su_int \<Rightarrow> su_int \<Rightarrow> su_int \<times> su_int \<times> su_int" where
  "udivsi3_loop 0 d q r carry = (q, r, carry)"
| "udivsi3_loop (Suc sr) d q r carry =
    (let r = push_bit 1 r OR drop_bit 31 q;
         q = push_bit 1 q OR carry;
         s = signed_drop_bit 31 (d - r - 1);
         carry = s AND 1;
         r = r - (d AND s)
     in udivsi3_loop sr d q r carry)"

definition udivsi3 :: "ub \<Rightarrow> su_int \<Rightarrow> su_int \<Rightarrow> su_int" where
  "udivsi3 u n d =
    (if d = 0 then 0
     else if n = 0 then 0
     else
       let sr = builtin_clz u d - builtin_clz u n in
       if sr > 32 - 1 then 0
       else if sr = 32 - 1 then n
       else
         let sr = sr + 1;
             q = c_shl u n (32 - sr);
             r = c_lshr u n sr;
             (q, r, carry) = udivsi3_loop (unat sr) d q r 0
         in push_bit 1 q OR carry)"

text \<open>The Patmos version: \<open>i\<close> runs from 31 down to 0, and \<open>Suc i\<close> iterations are left.\<close>

fun patmos_div_loop :: "nat \<Rightarrow> su_int \<Rightarrow> su_int \<Rightarrow> su_int \<Rightarrow> su_int \<Rightarrow> su_int \<times> su_int" where
  "patmos_div_loop 0 n d q r = (q, r)"
| "patmos_div_loop (Suc i) n d q r =
    (let r = push_bit 1 r;
         r = r OR (drop_bit i n AND 1)
     in if d \<le> r then patmos_div_loop i n d (q OR push_bit i 1) (r - d)
        else patmos_div_loop i n d q r)"

definition patmos_udivsi3 :: "su_int \<Rightarrow> su_int \<Rightarrow> su_int" where
  "patmos_udivsi3 n d = (let (q, r) = patmos_div_loop 32 n d 0 0 in q)"

definition patmos_udivmodsi4 :: "su_int \<Rightarrow> su_int \<Rightarrow> su_int \<times> su_int" where
  "patmos_udivmodsi4 n d = (let (q, r) = patmos_div_loop 32 n d 0 0 in (q, r))"

text \<open>The variant for worst-case execution time: always 31 iterations, the special cases selected
  at the end.\<close>

definition wcet_udivsi3 :: "su_int \<Rightarrow> su_int \<Rightarrow> su_int" where
  "wcet_udivsi3 n d =
    (let sr = 32 - 1;
         q = push_bit 1 n;
         r = drop_bit sr n;
         (q, r, carry) = udivsi3_loop sr d q r 0;
         q = push_bit 1 q OR carry;
         res = (if d = 1 then n else q)
     in if d > n then 0 else res)"

section \<open>The shift-and-subtract loop\<close>

fun div_loop :: "nat \<Rightarrow> 'a::len word \<Rightarrow> 'a word \<Rightarrow> 'a word \<Rightarrow> 'a word \<Rightarrow> 'a word \<times> 'a word \<times> 'a word" where
  "div_loop 0 d q r c = (q, r, c)"
| "div_loop (Suc sr) d q r c =
    (let r = push_bit 1 r OR drop_bit (LENGTH('a) - 1) q;
         q = push_bit 1 q OR c;
         s = signed_drop_bit (LENGTH('a) - 1) (d - r - 1)
     in div_loop sr d q (r - (d AND s)) (s AND 1))"

lemma udivsi3_loop_eq: "udivsi3_loop sr d q r c = div_loop sr d q r c"
  by (induction sr arbitrary: q r c) (simp_all add: Let_def)

text \<open>The sign of \<open>d - r - 1\<close> tells whether \<open>r \<ge> d\<close> as long as the difference stays within half the
  range.\<close>

lemma sign_test:
  fixes d r :: "'a::len word"
  assumes "r < d \<Longrightarrow> unat d - unat r \<le> 2 ^ (LENGTH('a) - 1)"
    and "d \<le> r \<Longrightarrow> unat r - unat d < 2 ^ (LENGTH('a) - 1)"
  shows "signed_drop_bit (LENGTH('a) - 1) (d - r - 1) = (if d \<le> r then - 1 else 0)"
proof -
  let ?M = "2 ^ (LENGTH('a) - 1) :: int" and ?x = "uint d - uint r - 1"
  have n: "int (2 ^ (LENGTH('a) - 1)) = ?M" by simp
  have "d - r - 1 = word_of_int ?x" by simp
  moreover have "sfits LENGTH('a) ?x" and "?x < 0 \<longleftrightarrow> d \<le> r"
  proof -
    show "?x < 0 \<longleftrightarrow> d \<le> r" by (auto simp: word_le_def)
    show "sfits LENGTH('a) ?x"
    proof (cases "d \<le> r")
      case True
      then have le: "unat d \<le> unat r" by (simp add: word_le_nat_alt)
      then have "int (unat r - unat d) < ?M" using assms(2) [OF True] n by linarith
      moreover have "int (unat r - unat d) = uint r - uint d" using le by (simp add: of_nat_diff)
      moreover have "uint d \<le> uint r" using True by (simp add: word_le_def)
      ultimately show ?thesis unfolding sfits_def by linarith
    next
      case False
      then have lt: "r < d" by simp
      then have "int (unat d - unat r) \<le> ?M" using assms(1) [OF lt] n by linarith
      moreover have "int (unat d - unat r) = uint d - uint r"
        using lt by (simp add: of_nat_diff word_less_nat_alt)
      moreover have "uint r < uint d" using lt by (simp add: word_less_def)
      ultimately show ?thesis unfolding sfits_def by linarith
    qed
  qed
  ultimately have "sint (d - r - 1) < 0 \<longleftrightarrow> d \<le> r" using sint_of_int [of ?x, where ?'a = 'a] by simp
  then show ?thesis unfolding sign_mask word_sless_alt sint_0 by simp
qed

text \<open>The state of the loop with \<open>sr\<close> iterations left, for dividend \<open>n\<close>: the remainder is below
  the divisor, and \<open>q\<close> holds the \<open>sr\<close> digits of the dividend not yet consumed above the quotient
  digits found so far, the last of which is still in \<open>c\<close>.\<close>

definition div_inv :: "nat \<Rightarrow> 'a::len word \<Rightarrow> 'a word \<Rightarrow> 'a word \<Rightarrow> 'a word \<Rightarrow> 'a word \<Rightarrow> bool" where
  "div_inv sr n d q r c \<longleftrightarrow> sr \<le> LENGTH('a) \<and> unat r < unat d \<and> unat c < 2 \<and>
    (\<exists>b. unat q = unat n mod 2 ^ sr * 2 ^ (LENGTH('a) - sr) + b \<and> b < 2 ^ (LENGTH('a) - sr) \<and>
         unat n div 2 ^ sr = (2 * b + unat c) * unat d + unat r)"

text \<open>What the loop needs of its operands: either every sign test is within range, or there is only
  one and both operands have their top bit set.\<close>

definition div_safe :: "nat \<Rightarrow> 'a::len word \<Rightarrow> 'a word \<Rightarrow> bool" where
  "div_safe sr n d \<longleftrightarrow> unat d \<le> 2 ^ (LENGTH('a) - 1) \<or> sr \<le> 1 \<and> 2 ^ (LENGTH('a) - 1) \<le> unat n"

lemma div_mod_pow_Suc:
  fixes n :: nat
  shows "n mod 2 ^ Suc k = (n div 2 ^ k mod 2) * 2 ^ k + n mod 2 ^ k"
    and "n div 2 ^ k = 2 * (n div 2 ^ Suc k) + n div 2 ^ k mod 2"
proof -
  show "n mod 2 ^ Suc k = (n div 2 ^ k mod 2) * 2 ^ k + n mod 2 ^ k"
    using mod_mult2_eq [of n "2 ^ k" 2] by (simp add: mult.commute)
  have "n div 2 ^ Suc k = n div 2 ^ k div 2" unfolding power_Suc2 by (rule div_mult2_eq)
  then show "n div 2 ^ k = 2 * (n div 2 ^ Suc k) + n div 2 ^ k mod 2" by simp
qed

text \<open>One iteration: the top digit of \<open>q\<close> moves into \<open>r\<close>, the last quotient digit into \<open>q\<close>, and
  the sign test decides the next one.\<close>

lemma div_step:
  fixes n d q r c :: "'a::len word"
  defines "r1 \<equiv> push_bit 1 r OR drop_bit (LENGTH('a) - 1) q"
  defines "q1 \<equiv> push_bit 1 q OR c"
  defines "s \<equiv> signed_drop_bit (LENGTH('a) - 1) (d - r1 - 1)"
  assumes inv: "div_inv (Suc k) n d q r c" and safe: "div_safe (Suc k) n d"
  shows "div_inv k n d q1 (r1 - (d AND s)) (s AND 1)"
proof -
  let ?W = "LENGTH('a)"
  define t where "t = ?W - Suc k"
  obtain b where k: "Suc k \<le> ?W" and r: "unat r < unat d" and c: "unat c < 2"
    and q: "unat q = unat n mod 2 ^ Suc k * 2 ^ t + b" and b: "b < 2 ^ t"
    and n: "unat n div 2 ^ Suc k = (2 * b + unat c) * unat d + unat r"
    using inv by (auto simp: div_inv_def t_def)
  define e where "e = unat n div 2 ^ k mod 2"
  have e: "e < 2" by (simp add: e_def)
  have W: "2 ^ ?W = 2 * 2 ^ k * (2 ^ t :: nat)"
    using k by (simp add: t_def flip: power_Suc power_add)
  define R where "R = 2 * unat r + e"
  have nk: "unat n div 2 ^ k = 2 * (2 * b + unat c) * unat d + R"
    using div_mod_pow_Suc(2) [of "unat n" k] unfolding n R_def e_def by (simp add: algebra_simps)
  define Q where "Q = 2 * b + unat c"
  have "unat n div 2 ^ Suc k < 2 ^ t"
    using unsigned_less [where ?'a = nat, of n] W by (simp add: less_mult_imp_div_less algebra_simps)
  then have "Q * unat d + unat r < 2 ^ t" unfolding n Q_def .
  moreover have "Q \<le> Q * unat d" using r by simp
  ultimately have Q: "Q < 2 ^ t" by linarith
  have "R \<le> unat n div 2 ^ k" unfolding nk by simp
  also have "\<dots> \<le> unat n" by simp
  also have nW: "\<dots> < 2 ^ ?W" by simp
  finally have R: "R < 2 ^ ?W" .
  have M: "(2 :: nat) ^ (?W - 1) = 2 ^ k * 2 ^ t"
    using k by (simp add: t_def flip: power_add)
  have low: "unat n mod 2 ^ k * 2 ^ t + b < 2 ^ k * 2 ^ t"
  proof -
    have "unat n mod 2 ^ k * 2 ^ t + b < (unat n mod 2 ^ k + 1) * 2 ^ t" using b by simp
    also have "\<dots> \<le> 2 ^ k * 2 ^ t" by (intro mult_le_mono1) (simp add: Suc_leI)
    finally show ?thesis .
  qed
  have q': "unat q = e * (2 ^ k * 2 ^ t) + (unat n mod 2 ^ k * 2 ^ t + b)"
    unfolding q div_mod_pow_Suc(1) [of "unat n" k] e_def by (simp add: algebra_simps)
  have top: "unat (drop_bit (?W - 1) q) = e"
    unfolding unat_drop_bit M q' using low by simp
  have ur1: "unat r1 = R"
  proof -
    have "unat (drop_bit (?W - 1) q) < 2 ^ 1" unfolding top using e by simp
    from unat_push_or [OF this, of r] show ?thesis
      unfolding r1_def top using R by (simp add: R_def mult.commute)
  qed
  have uq1: "unat q1 = unat n mod 2 ^ k * 2 ^ (?W - k) + Q"
  proof -
    have tk: "?W - k = Suc t" using k by (simp add: t_def)
    have "unat q1 = unat q * 2 mod 2 ^ ?W + unat c"
      unfolding q1_def using c unat_push_or [of c 1 q] by simp
    also have "unat q * 2 mod 2 ^ ?W = (unat n mod 2 ^ k * 2 ^ t + b) * 2"
    proof -
      have "unat q * 2 = (unat n mod 2 ^ k * 2 ^ t + b) * 2 + e * 2 ^ ?W"
        unfolding q' W by (simp add: algebra_simps)
      then show ?thesis using low W by simp
    qed
    finally show ?thesis unfolding tk Q_def by (simp add: algebra_simps)
  qed
  have R2: "R \<le> 2 * unat d - 1" using r e unfolding R_def by linarith
  have s: "s = (if d \<le> r1 then - 1 else 0)"
    unfolding s_def
  proof (rule sign_test; unfold ur1)
    consider "unat d \<le> 2 ^ (?W - 1)" | "k = 0" "2 ^ (?W - 1) \<le> unat n" "2 ^ (?W - 1) < unat d"
      using safe by (fastforce simp: div_safe_def not_le)
    then have "unat d - R \<le> 2 ^ (?W - 1) \<and> (unat d \<le> R \<longrightarrow> R - unat d < 2 ^ (?W - 1))"
    proof cases
      case 1
      then show ?thesis using R2 r by (auto simp del: One_nat_def)
    next
      case 2
      have h: "2 ^ ?W = 2 * (2 :: nat) ^ (?W - 1)" by (simp flip: power_Suc)
      have "unat n div 2 < 2 ^ (?W - 1)" using nW h by (simp add: less_mult_imp_div_less)
      moreover have "unat n div 2 = Q * unat d + unat r" using n 2(1) unfolding Q_def by simp
      ultimately have "Q * unat d < unat d" using 2(3) by linarith
      then have "Q = 0" by (cases Q) simp_all
      then have "R = unat n" using nk 2(1) unfolding Q_def [symmetric] by simp
      moreover have "unat d < 2 ^ ?W" by simp
      ultimately show ?thesis using 2 nW h by linarith
    qed
    then show "unat d - R \<le> 2 ^ (?W - 1)" "d \<le> r1 \<Longrightarrow> R - unat d < 2 ^ (?W - 1)"
      by (simp_all add: word_le_nat_alt ur1)
  qed
  have c': "unat (s AND 1) = (if d \<le> r1 then 1 else 0)" by (simp add: s)
  have r': "unat (r1 - (d AND s)) = (if d \<le> r1 then R - unat d else R)"
    by (simp add: s ur1 unat_sub_below word_le_nat_alt)
  have dr: "d \<le> r1 \<longleftrightarrow> unat d \<le> R" by (simp add: word_le_nat_alt ur1)
  show ?thesis
    unfolding div_inv_def c' r' uq1
  proof (intro conjI exI [of _ Q])
    show "k \<le> ?W" using k by simp
    show "(if d \<le> r1 then R - unat d else R) < unat d" using R2 r dr by auto
    have "?W - k = Suc t" using k by (simp add: t_def)
    then show "Q < 2 ^ (?W - k)" using Q by simp
    show "unat n div 2 ^ k = (2 * Q + (if d \<le> r1 then 1 else 0)) * unat d + (if d \<le> r1 then R - unat d else R)"
      using nk dr by (simp add: Q_def algebra_simps)
  qed simp_all
qed

lemma div_loop_inv:
  assumes "div_inv sr n d q r c" and "div_safe sr n d"
    and "div_loop sr d q r c = (q', r', c')"
  shows "div_inv 0 n d q' r' c'"
  using assms
proof (induction sr arbitrary: q r c)
  case (Suc sr)
  have "div_safe sr n d" using Suc.prems(2) by (auto simp: div_safe_def)
  then show ?case
    using Suc.IH [OF div_step [OF Suc.prems(1,2)]] Suc.prems(3) by (simp add: Let_def)
qed simp

text \<open>What the routines do after the loop: the last digit is shifted in.\<close>

lemma div_inv_done:
  fixes n d q r c :: "'a::len word"
  assumes "div_inv 0 n d q r c"
  shows "push_bit 1 q OR c = n div d" and "r = n mod d"
proof -
  obtain b where r: "unat r < unat d" and c: "unat c < 2" and q: "unat q = b"
    and n: "unat n = (2 * b + unat c) * unat d + unat r"
    using assms by (auto simp: div_inv_def)
  have "2 * b + unat c \<le> (2 * b + unat c) * unat d" using r by simp
  also have "\<dots> \<le> unat n" unfolding n by simp
  also have "\<dots> < 2 ^ LENGTH('a)" by simp
  finally have "unat (push_bit 1 q OR c) = 2 * b + unat c"
    using c unat_push_or [of c 1 q] by (simp add: q mult.commute)
  also have "\<dots> = unat n div unat d" using r unfolding n by simp
  finally show "push_bit 1 q OR c = n div d"
    by (intro unsigned_word_eqI [where ?'a = nat]) (simp add: unat_div_distrib)
  have "unat r = unat n mod unat d" using r unfolding n by simp
  then show "r = n mod d"
    by (intro unsigned_word_eqI [where ?'a = nat]) (simp add: unat_mod_distrib)
qed

text \<open>The start of the loop: the dividend cut in two by a shift that leaves less than the divisor
  on top.\<close>

lemma div_inv_start:
  fixes n d :: "'a::len word"
  assumes "sr \<le> LENGTH('a)" and "unat n div 2 ^ sr < unat d"
  shows "div_inv sr n d (push_bit (LENGTH('a) - sr) n) (drop_bit sr n) 0"
proof -
  let ?t = "LENGTH('a) - sr"
  have W: "2 ^ LENGTH('a) = 2 ^ ?t * (2 ^ sr :: nat)" using assms(1) by (simp flip: power_add)
  have "unat (push_bit ?t n) = unat n mod 2 ^ sr * 2 ^ ?t"
    unfolding unat_push_bit W mult.commute [of _ "2 ^ ?t"] mult_mod_right ..
  then show ?thesis
    using assms by (auto simp: div_inv_def unat_drop_bit intro!: exI [of _ 0])
qed

theorem div_loop_correct:
  fixes n d :: "'a::len word"
  assumes "sr \<le> LENGTH('a)" and "unat n div 2 ^ sr < unat d" and "div_safe sr n d"
  shows "\<exists>q c. div_loop sr d (push_bit (LENGTH('a) - sr) n) (drop_bit sr n) 0 = (q, n mod d, c) \<and>
    push_bit 1 q OR c = n div d"
proof -
  obtain q r c where l: "div_loop sr d (push_bit (LENGTH('a) - sr) n) (drop_bit sr n) 0 = (q, r, c)"
    by (metis prod_cases3)
  note i = div_loop_inv [OF div_inv_start [OF assms(1,2)] assms(3) l]
  show ?thesis using l div_inv_done [OF i] by auto
qed

section \<open>The divisions\<close>

lemma nlz_le_iff:
  fixes n d :: "'a::len word"
  assumes "n \<noteq> 0" "d \<noteq> 0" "nlz d < nlz n"
  shows "unat n < unat d"
proof -
  note bn = nlz_bounds [OF assms(1)] and bd = nlz_bounds [OF assms(2)]
  have "LENGTH('a) - nlz n \<le> LENGTH('a) - 1 - nlz d" using assms(3) bn(1) by simp
  then have "(2::nat) ^ (LENGTH('a) - nlz n) \<le> 2 ^ (LENGTH('a) - 1 - nlz d)"
    by (intro power_increasing) auto
  then show ?thesis using bn(3) bd(2) by linarith
qed

text \<open>The alignment: shifting by the difference of the leading zeros plus one meets the loop's
  requirements.\<close>

lemma aligned:
  fixes n d :: "'a::len word"
  assumes "n \<noteq> 0" "d \<noteq> 0" "nlz n \<le> nlz d"
  defines "sr \<equiv> nlz d - nlz n + 1"
  shows "sr \<le> LENGTH('a)" and "unat n div 2 ^ sr < unat d" and "div_safe sr n d"
proof -
  note bn = nlz_bounds [OF assms(1)] and bd = nlz_bounds [OF assms(2)]
  show sr: "sr \<le> LENGTH('a)" using bd(1) by (simp add: sr_def)
  have "LENGTH('a) - nlz n = (LENGTH('a) - 1 - nlz d) + sr" using assms(3) bd(1) by (simp add: sr_def)
  then have "unat n < 2 ^ (LENGTH('a) - 1 - nlz d) * 2 ^ sr" using bn(3) by (simp add: power_add)
  then have "unat n div 2 ^ sr < 2 ^ (LENGTH('a) - 1 - nlz d)" by (simp add: less_mult_imp_div_less)
  then show "unat n div 2 ^ sr < unat d" using bd(2) by linarith
  show "div_safe sr n d"
  proof (cases "nlz d = 0")
    case True
    then show ?thesis using assms(3) bn(2) by (simp add: div_safe_def sr_def)
  next
    case False
    then have "(2::nat) ^ (LENGTH('a) - nlz d) \<le> 2 ^ (LENGTH('a) - 1)"
      by (intro power_increasing) auto
    then have "unat d \<le> 2 ^ (LENGTH('a) - 1)" using bd(3) by linarith
    then show ?thesis by (simp add: div_safe_def)
  qed
qed

text \<open>The difference of two counts of leading zeros as the code computes it.\<close>

lemma clz_difference:
  fixes a b :: "'a::len word"
  assumes "a \<noteq> 0" "b \<noteq> 0" and "LENGTH('a) \<le> 2 ^ 31"
  shows "nlz a < nlz b \<Longrightarrow> 2 ^ 31 \<le> unat (builtin_clz u a - builtin_clz u b)"
    and "nlz b \<le> nlz a \<Longrightarrow> builtin_clz u a - builtin_clz u b = of_nat (nlz a - nlz b)"
    and "nlz b \<le> nlz a \<Longrightarrow> unat (of_nat (nlz a - nlz b) :: si_int) = nlz a - nlz b"
proof -
  have l: "nlz a < 2 ^ 31" "nlz b < 2 ^ 31"
    using nlz_bounds(1) [OF assms(1)] nlz_bounds(1) [OF assms(2)] assms(3) by linarith+
  show "nlz b \<le> nlz a \<Longrightarrow> builtin_clz u a - builtin_clz u b = of_nat (nlz a - nlz b)"
    using assms by (simp add: builtin_clz_def of_nat_diff)
  show "nlz b \<le> nlz a \<Longrightarrow> unat (of_nat (nlz a - nlz b) :: si_int) = nlz a - nlz b"
    unfolding unsigned_of_nat of_nat_id by (rule take_bit_nat_eq_self) (use l in simp)
  show "2 ^ 31 \<le> unat (builtin_clz u a - builtin_clz u b)" if "nlz a < nlz b"
  proof -
    define m where "m = nlz b - nlz a"
    have m: "0 < m" "m < 2 ^ 31" using that l by (simp_all add: m_def)
    have "builtin_clz u a - builtin_clz u b = - (of_nat m :: si_int)"
      using that assms by (simp add: builtin_clz_def of_nat_diff m_def)
    moreover have u: "unat (of_nat m :: si_int) = m"
      unfolding unsigned_of_nat of_nat_id by (rule take_bit_nat_eq_self) (use m in simp)
    moreover from u m have "(of_nat m :: si_int) \<noteq> 0" by (metis less_irrefl unsigned_0)
    ultimately show ?thesis using m by (simp add: unat_minus_word)
  qed
qed

lemma udivsi3_eq: "udivsi3 u n d = (if d = 0 then 0 else n div d)"
proof -
  consider "d = 0" | "d \<noteq> 0" "n = 0" | "d \<noteq> 0" "n \<noteq> 0" "nlz d < nlz n"
    | "d \<noteq> 0" "n \<noteq> 0" "nlz n \<le> nlz d" "nlz d - nlz n = 31"
    | "d \<noteq> 0" "n \<noteq> 0" "nlz n \<le> nlz d" "nlz d - nlz n < 31"
    using nlz_bounds(1) [of d] by fastforce
  then show ?thesis
  proof cases
    case 3
    then have "n div d = 0" using nlz_le_iff [of n d]
      by (intro unsigned_word_eqI [where ?'a = nat]) (simp add: unat_div_distrib)
    moreover have "(31 :: su_int) < builtin_clz u d - builtin_clz u n"
      using clz_difference(1) [of d n u] 3 by (simp add: word_less_nat_alt)
    ultimately show ?thesis using 3 by (simp add: udivsi3_def Let_def)
  next
    case 4
    then have "nlz d = 31" "nlz n = 0" using nlz_bounds(1) [of d] by auto
    then have "unat d = 1" using nlz_bounds(2,3) [of d] 4 by simp
    then have "d = 1" by (simp add: word_unat_eq_iff)
    moreover have "builtin_clz u d - builtin_clz u n = 31"
      using clz_difference(2) [of d n u] 4 by simp
    ultimately show ?thesis using 4 by (simp add: udivsi3_def Let_def)
  next
    case 5
    define k where "k = nlz d - nlz n"
    have e: "builtin_clz u d - builtin_clz u n = of_nat k" "unat (of_nat k :: si_int) = k"
      using clz_difference(2) [of d n u] clz_difference(3) [of d n] 5 by (simp_all only: k_def) auto
    have k: "k < 31" using 5 by (simp add: k_def)
    have t: "\<not> (31 :: su_int) < of_nat k" "(of_nat k :: su_int) \<noteq> 31"
      using k e(2) by (auto simp: word_less_nat_alt)
    have s: "unat (of_nat k + 1 :: su_int) = k + 1" using e(2) k by (simp add: unat_add_below)
    then have s': "unat (32 - (of_nat k + 1) :: su_int) = 32 - (k + 1)" 
      using k s unat_sub_below [of "of_nat k + 1" "32 :: su_int"] by simp
    have q: "c_shl u n (32 - (of_nat k + 1)) = push_bit (32 - (k + 1)) n"
      unfolding s' [symmetric] by (rule c_shl_in) (unfold s', simp)
    have r: "c_lshr u n (of_nat k + 1) = drop_bit (k + 1) n"
      unfolding s [symmetric] by (rule c_lshr_in) (unfold s, use k in simp)
    have "udivsi3 u n d =
      (let (q, r, carry) = div_loop (k + 1) d (push_bit (32 - (k + 1)) n) (drop_bit (k + 1) n) 0
       in push_bit 1 q OR carry)"
      unfolding udivsi3_def Let_def e(1) q r s udivsi3_loop_eq using t 5 by simp
    moreover note div_loop_correct [OF aligned [OF 5(2,1,3)], folded k_def]
    ultimately show ?thesis using 5(1) by auto
  qed (simp_all add: udivsi3_def)
qed

text \<open>The variant of constant length: its sign test is right up to divisors of half the range.\<close>

lemma wcet_udivsi3_eq:
  assumes "d \<noteq> 0" and "unat d \<le> 2 ^ 31"
  shows "wcet_udivsi3 n d = n div d"
proof -
  consider "d = 1" | "d \<noteq> 1" "n < d" | "d \<noteq> 1" "d \<le> n" by fastforce
  then show ?thesis
  proof cases
    case 1
    then show ?thesis by (auto simp: wcet_udivsi3_def Let_def split: prod.split)
  next
    case 2
    then have "n div d = 0" by (intro unsigned_word_eqI [where ?'a = nat])
      (simp add: unat_div_distrib word_less_nat_alt)
    with 2 show ?thesis by (simp add: wcet_udivsi3_def Let_def split: prod.split)
  next
    case 3
    have "unat d \<noteq> 0" "unat d \<noteq> 1" using assms(1) 3(1) by (simp_all add: word_unat_eq_iff)
    moreover have "unat n div 2 ^ 31 < 2"
      using unsigned_less [where ?'a = nat, of n] by (simp add: less_mult_imp_div_less)
    ultimately have "unat n div 2 ^ 31 < unat d" by linarith
    moreover have "div_safe 31 n d" using assms(2) by (simp add: div_safe_def)
    ultimately obtain q c where "div_loop 31 d (push_bit 1 n) (drop_bit 31 n) 0 = (q, n mod d, c)"
      "push_bit 1 q OR c = n div d"
      using div_loop_correct [of 31 n d] by auto
    then show ?thesis using 3 unfolding wcet_udivsi3_def Let_def udivsi3_loop_eq by (simp add: leD)
  qed
qed

section \<open>The restoring loop\<close>

text \<open>After the digits above \<open>i\<close> are consumed, \<open>r\<close> and \<open>q\<close> hold remainder and quotient of the
  consumed part.\<close>

lemma div_pow_step:
  fixes n d i :: nat
  assumes "0 < d"
  defines "R \<equiv> 2 * (n div 2 ^ Suc i mod d) + n div 2 ^ i mod 2"
  shows "n div 2 ^ i div d = 2 * (n div 2 ^ Suc i div d) + (if d \<le> R then 1 else 0)"
    and "n div 2 ^ i mod d = (if d \<le> R then R - d else R)"
proof -
  define m e where "m = n div 2 ^ Suc i" "e = n div 2 ^ i mod 2"
  have e: "e < 2" by (simp add: m_e_def)
  have "n div 2 ^ i = 2 * m + e" unfolding m_e_def by (rule div_mod_pow_Suc(2))
  also have "2 * m = 2 * (m div d) * d + 2 * (m mod d)"
  proof -
    have "2 * (m div d * d + m mod d) = 2 * (m div d) * d + 2 * (m mod d)"
      by (simp only: distrib_left mult.assoc)
    then show ?thesis by (simp only: div_mult_mod_eq)
  qed
  also have "2 * (m div d) * d + 2 * (m mod d) + e = 2 * (m div d) * d + R"
    unfolding R_def m_e_def [symmetric] by simp
  finally have n: "n div 2 ^ i = 2 * (m div d) * d + R" .
  have "m mod d \<le> d - 1" using assms by (simp add: less_Suc_eq_le [symmetric])
  then have R: "R < 2 * d" using e assms unfolding R_def m_e_def [symmetric] by linarith
  have *: "x div d = k \<and> x mod d = r" if "x = k * d + r" "r < d" for x k r :: nat
    using that by simp
  have "n div 2 ^ i div d = 2 * (m div d) + (if d \<le> R then 1 else 0) \<and>
    n div 2 ^ i mod d = (if d \<le> R then R - d else R)"
    by (rule *) (use n R in \<open>auto simp: algebra_simps\<close>)
  then show "n div 2 ^ i div d = 2 * (n div 2 ^ Suc i div d) + (if d \<le> R then 1 else 0)"
    and "n div 2 ^ i mod d = (if d \<le> R then R - d else R)"
    unfolding m_e_def(1) by blast+
qed

lemma unat_low_bit: "unat (drop_bit i n AND 1) = unat n div 2 ^ i mod 2"
proof -
  have "drop_bit i n AND 1 = drop_bit i n AND mask 1" by (simp add: mask_eq_exp_minus_1)
  then show ?thesis by (simp only: unat_and_mask unat_drop_bit power_one_right)
qed

lemma patmos_div_loop_correct:
  assumes "i \<le> 32" and "d \<noteq> 0" and "unat q = unat n div 2 ^ i div unat d * 2 ^ i"
    and "unat r = unat n div 2 ^ i mod unat d"
  shows "patmos_div_loop i n d q r = (n div d, n mod d)"
  using assms
proof (induction i arbitrary: q r)
  case 0
  then show ?case
    by (auto intro!: unsigned_word_eqI [where ?'a = nat] simp: unat_div_distrib unat_mod_distrib)
next
  case (Suc i)
  let ?D = "unat d" and ?N = "unat n"
  have D: "0 < ?D" using Suc.prems(2) by (simp add: unat_gt_0)
  define r1 where "r1 = push_bit 1 r OR (drop_bit i n AND 1)"
  define R where "R = 2 * (?N div 2 ^ Suc i mod ?D) + ?N div 2 ^ i mod 2"
  note st = div_pow_step [OF D, of ?N i, folded R_def]
  have "R \<le> 2 * (?N div 2 ^ Suc i) + ?N div 2 ^ i mod 2" unfolding R_def by simp
  also have "\<dots> = ?N div 2 ^ i" by (rule div_mod_pow_Suc(2) [symmetric])
  also have "\<dots> \<le> ?N" by simp
  finally have R: "R < 2 ^ 32" using unsigned_less [where ?'a = nat, of n] by simp
  have ur: "unat r1 = R"
    using unat_push_or [of "drop_bit i n AND 1" 1 r] R
    by (simp add: r1_def unat_low_bit R_def Suc.prems(4) mult.commute)
  have le: "d \<le> r1 \<longleftrightarrow> ?D \<le> R" by (simp add: word_le_nat_alt ur)
  show ?case
  proof (cases "d \<le> r1")
    case True
    have i: "2 ^ i < (2::nat) ^ 32" using Suc.prems(1) by (intro power_strict_increasing) auto
    have p: "unat (push_bit i (1 :: su_int)) = 2 ^ i" unfolding unat_push_bit using i by simp
    have "push_bit (Suc i) (drop_bit (Suc i) q) = q"
    proof (rule unsigned_word_eqI [where ?'a = nat])
      have e: "unat q div 2 ^ Suc i * 2 ^ Suc i = unat q" unfolding Suc.prems(3) by simp
      show "unat (push_bit (Suc i) (drop_bit (Suc i) q)) = unat q"
        unfolding unat_push_bit unat_drop_bit e by (rule mod_less) (rule unsigned_less)
    qed
    moreover have "unat (push_bit i (1 :: su_int)) < 2 ^ Suc i" unfolding p by simp
    ultimately have "q AND push_bit i 1 = 0"
      using push_disjoint [of "push_bit i 1 :: su_int" "Suc i" "drop_bit (Suc i) q"] by argo
    then have q: "unat (q OR push_bit i 1) = ?N div 2 ^ i div ?D * 2 ^ i"
      unfolding unat_or_disjoint [OF \<open>q AND push_bit i 1 = 0\<close>] p Suc.prems(3) st(1)
      using True by (simp add: le algebra_simps)
    have r: "unat (r1 - d) = ?N div 2 ^ i mod ?D"
      using True by (simp add: unat_sub_below st(2) le ur)
    show ?thesis
      using Suc.IH [OF _ Suc.prems(2) q r] Suc.prems(1) True by (simp add: r1_def Let_def)
  next
    case False
    have q: "unat q = ?N div 2 ^ i div ?D * 2 ^ i"
      using False by (simp add: Suc.prems(3) st(1) le algebra_simps)
    have r: "unat r1 = ?N div 2 ^ i mod ?D" using False by (simp add: st(2) le ur)
    show ?thesis
      using Suc.IH [OF _ Suc.prems(2) q r] Suc.prems(1) False by (simp add: r1_def Let_def)
  qed
qed

lemma patmos_loop_eq: "d \<noteq> 0 \<Longrightarrow> patmos_div_loop 32 n d 0 0 = (n div d, n mod d)"
proof (rule patmos_div_loop_correct)
  have "unat n div 2 ^ 32 = 0" using unsigned_less [where ?'a = nat, of n] by simp
  then show "unat 0 = unat n div 2 ^ 32 div unat d * 2 ^ 32" "unat 0 = unat n div 2 ^ 32 mod unat d"
    by (simp_all only: div_0 mod_0 mult_0 unsigned_0)
qed simp_all

lemma patmos_udivsi3_eq: "d \<noteq> 0 \<Longrightarrow> patmos_udivsi3 n d = n div d"
  by (simp add: patmos_udivsi3_def patmos_loop_eq)

lemma patmos_udivmodsi4_eq: "d \<noteq> 0 \<Longrightarrow> patmos_udivmodsi4 n d = (n div d, n mod d)"
  by (simp add: patmos_udivmodsi4_def patmos_loop_eq)

section \<open>Properties\<close>

text \<open>C2: the 32-bit unsigned division yields the quotient, whatever the undefined operations of C
  would yield, and zero for a zero divisor.\<close>

theorem udivsi3_quotient:
  "uint (udivsi3 u n d) = uint n div uint d"
  by (simp add: udivsi3_eq uint_div)

text \<open>C3: the Patmos division agrees with the generic one for every nonzero divisor, and its companion
  also yields the remainder.\<close>

theorem patmos_division:
  assumes "d \<noteq> 0"
  shows "patmos_udivsi3 n d = udivsi3 u n d \<and>
    (\<exists>q r. patmos_udivmodsi4 n d = (q, r) \<and> uint n = uint q * uint d + uint r \<and> uint r < uint d)"
proof -
  have "0 < uint d" using assms by (rule uint_pos)
  then have "uint n mod uint d < uint d" by simp
  then show ?thesis
    using assms by (simp add: patmos_udivsi3_eq patmos_udivmodsi4_eq udivsi3_eq uint_div uint_mod)
qed

theorem patmos_division_witness:
  "patmos_udivsi3 0xFFFFFFFF 0x80000001 = udivsi3 (\<lambda>_ _ _ _. 0) 0xFFFFFFFF 0x80000001 \<and>
   (0x80000001 :: su_int) \<noteq> 0"
  using patmos_division [of "0x80000001" "0xFFFFFFFF" "\<lambda>_ _ _ _. 0"] by simp

text \<open>the variant for worst-case execution time divides correctly by divisors up to \<open>2\<^sup>31\<close>.\<close>

theorem wcet_division:
  assumes "d \<noteq> 0" and "uint d \<le> 2 ^ 31"
  shows "uint (wcet_udivsi3 n d) = uint n div uint d"
proof -
  have "int (unat d) \<le> int (2 ^ 31)" using assms(2) by simp
  then have "unat d \<le> 2 ^ 31" unfolding of_nat_le_iff .
  with assms(1) show ?thesis by (simp only: wcet_udivsi3_eq uint_div not_False_eq_True)
qed

theorem wcet_division_witness:
  "uint (wcet_udivsi3 0xFFFFFFFF 0x80000000) = 1"
  using wcet_division [of "0x80000000" "0xFFFFFFFF"] by simp

text \<open>above that bound its sign test takes a large difference for a negative one, and the quotient
  is wrong: 4294967295 divided by 3221225472 is 1.\<close>

theorem wcet_division_wrong:
  "uint (wcet_udivsi3 4294967295 3221225472) = 1431655766 \<and> (4294967295 :: int) div 3221225472 = 1"
  by code_simp

end
