(* ===== verification/Divide_Wide.thy ===== *)
theory Divide_Wide
  imports Divide Shifts BitCount
begin

unbundle bit_operations_syntax

text \<open>
  The 64- and 128-bit unsigned divisions \<^verbatim>\<open>lib/udivmoddi4.c\<close> and \<^verbatim>\<open>lib/udivmodti4.c\<close>,
  which every wide division of the library calls. Dividend, divisor, quotient and remainder are
  unions of halves; the special cases by which halves are zero or powers of two return at once, the
  others align the operands and enter the shift-and-subtract loop of \<^verbatim>\<open>Divide\<close>, here on
  halves.

  The alignment shifts by counts outside the width of a half, and masks the results away. Those
  shifts are undefined in C; here they are whatever \<open>ub\<close> answers, and the theorems hold for every
  \<open>ub\<close>.

  The argument \<open>rem\<close> says whether the pointer of that name is not null; the second component of a
  result is what is stored through it.
\<close>

section \<open>The code\<close>

definition udivmoddi4_low_zero :: "ub \<Rightarrow> bool \<Rightarrow> dwords \<Rightarrow> dwords \<Rightarrow> (du_int \<times> du_int option) + (dwords \<times> dwords \<times> su_int)" where
  "udivmoddi4_low_zero u rem n d =
    (if s_high d = 0 then
       Inl (ucast (c_udiv u (s_high n) (s_low d)),
            if rem then Some (ucast (c_umod u (s_high n) (s_low d))) else None)
     else if s_low n = 0 then
       Inl (ucast (c_udiv u (s_high n) (s_high d)),
            if rem then Some (dwords_all \<lparr> s_high = c_umod u (s_high n) (s_high d), s_low = 0 \<rparr>) else None)
     else if s_high d AND (s_high d - 1) = 0 then
       Inl (ucast (c_lshr u (s_high n) (builtin_ctz u (s_high d))),
            if rem then Some (dwords_all \<lparr> s_high = s_high n AND (s_high d - 1), s_low = s_low n \<rparr>) else None)
     else
       let sr = builtin_clz u (s_high d) - builtin_clz u (s_high n) in
       if sr > 32 - 2 then Inl (0, if rem then Some (dwords_all n) else None)
       else
         let sr = sr + 1 in
         Inr (\<lparr> s_high = c_shl u (s_low n) (32 - sr), s_low = 0 \<rparr>,
              \<lparr> s_high = c_lshr u (s_high n) sr,
                s_low = c_shl u (s_high n) (32 - sr) OR c_lshr u (s_low n) sr \<rparr>,
              sr))"

definition udivmoddi4_high_zero :: "ub \<Rightarrow> bool \<Rightarrow> dwords \<Rightarrow> dwords \<Rightarrow> (du_int \<times> du_int option) + (dwords \<times> dwords \<times> su_int)" where
  "udivmoddi4_high_zero u rem n d =
    (if s_low d AND (s_low d - 1) = 0 then
       let r = (if rem then Some (ucast (s_low n AND (s_low d - 1))) else None) in
       if s_low d = 1 then Inl (dwords_all n, r)
       else
         let sr = builtin_ctz u (s_low d) in
         Inl (dwords_all
               \<lparr> s_high = c_lshr u (s_high n) sr,
                 s_low = c_shl u (s_high n) (32 - sr) OR c_lshr u (s_low n) sr \<rparr>, r)
     else
       let sr = 1 + 32 + builtin_clz u (s_low d) - builtin_clz u (s_high n) in
       Inr (\<lparr> s_high =
                (c_shl u (s_low n) (32 - sr) AND signed_drop_bit 31 (sr - 32 - 1)) OR
                ((c_shl u (s_high n) (64 - sr) OR c_lshr u (s_low n) (sr - 32)) AND
                 signed_drop_bit 31 (32 - sr)),
              s_low = c_shl u (s_low n) (64 - sr) AND signed_drop_bit 31 (32 - sr) \<rparr>,
            \<lparr> s_high = c_lshr u (s_high n) sr AND signed_drop_bit 31 (sr - 32),
              s_low =
                (c_lshr u (s_high n) (sr - 32) AND signed_drop_bit 31 (32 - sr - 1)) OR
                ((c_shl u (s_high n) (32 - sr) OR c_lshr u (s_low n) sr) AND
                 signed_drop_bit 31 (sr - 32)) \<rparr>,
            sr))"

definition udivmoddi4_general :: "ub \<Rightarrow> bool \<Rightarrow> dwords \<Rightarrow> dwords \<Rightarrow> (du_int \<times> du_int option) + (dwords \<times> dwords \<times> su_int)" where
  "udivmoddi4_general u rem n d =
    (let sr = builtin_clz u (s_high d) - builtin_clz u (s_high n) in
     if sr > 32 - 1 then Inl (0, if rem then Some (dwords_all n) else None)
     else
       let sr = sr + 1 in
       Inr (\<lparr> s_high = c_shl u (s_low n) (32 - sr), s_low = 0 \<rparr>,
            \<lparr> s_high = c_lshr u (s_high n) sr AND signed_drop_bit 31 (sr - 32),
              s_low = c_shl u (s_high n) (32 - sr) OR
                (c_lshr u (s_low n) sr AND signed_drop_bit 31 (sr - 32)) \<rparr>,
            sr))"

fun udivmoddi4_loop :: "nat \<Rightarrow> dwords \<Rightarrow> dwords \<Rightarrow> dwords \<Rightarrow> su_int \<Rightarrow> dwords \<times> dwords \<times> su_int" where
  "udivmoddi4_loop 0 d q r carry = (q, r, carry)"
| "udivmoddi4_loop (Suc sr) d q r carry =
    (let r = r \<lparr> s_high := push_bit 1 (s_high r) OR drop_bit 31 (s_low r) \<rparr>;
         r = r \<lparr> s_low := push_bit 1 (s_low r) OR drop_bit 31 (s_high q) \<rparr>;
         q = q \<lparr> s_high := push_bit 1 (s_high q) OR drop_bit 31 (s_low q) \<rparr>;
         q = q \<lparr> s_low := push_bit 1 (s_low q) OR ucast carry \<rparr>;
         s = signed_drop_bit 63 (dwords_all d - dwords_all r - 1);
         carry = ucast (s AND 1);
         r = dwords_of (dwords_all r - (dwords_all d AND s))
     in udivmoddi4_loop sr d q r carry)"

definition udivmoddi4 :: "ub \<Rightarrow> du_int \<Rightarrow> du_int \<Rightarrow> bool \<Rightarrow> du_int \<times> du_int option" where
  "udivmoddi4 u a b rem =
    (let n = dwords_of a; d = dwords_of b in
     if s_high n = 0 then
       if s_high d = 0 then
         (ucast (c_udiv u (s_low n) (s_low d)),
          if rem then Some (ucast (c_umod u (s_low n) (s_low d))) else None)
       else (0, if rem then Some (ucast (s_low n)) else None)
     else
       case (if s_low d = 0 then udivmoddi4_low_zero u rem n d
             else if s_high d = 0 then udivmoddi4_high_zero u rem n d
             else udivmoddi4_general u rem n d) of
         Inl result \<Rightarrow> result
       | Inr (q, r, sr) \<Rightarrow>
           let (q, r, carry) = udivmoddi4_loop (unat sr) d q r 0;
               q = push_bit 1 (dwords_all q) OR ucast carry
           in (q, if rem then Some (dwords_all r) else None))"

definition udivmodti4_low_zero :: "ub \<Rightarrow> bool \<Rightarrow> twords \<Rightarrow> twords \<Rightarrow> (tu_int \<times> tu_int option) + (twords \<times> twords \<times> su_int)" where
  "udivmodti4_low_zero u rem n d =
    (if s_high d = 0 then
       Inl (ucast (c_udiv u (s_high n) (s_low d)),
            if rem then Some (ucast (c_umod u (s_high n) (s_low d))) else None)
     else if s_low n = 0 then
       Inl (ucast (c_udiv u (s_high n) (s_high d)),
            if rem then Some (twords_all \<lparr> s_high = c_umod u (s_high n) (s_high d), s_low = 0 \<rparr>) else None)
     else if s_high d AND (s_high d - 1) = 0 then
       Inl (ucast (c_lshr u (s_high n) (builtin_ctz u (s_high d))),
            if rem then Some (twords_all \<lparr> s_high = s_high n AND (s_high d - 1), s_low = s_low n \<rparr>) else None)
     else
       let sr = builtin_clz u (s_high d) - builtin_clz u (s_high n) in
       if sr > 64 - 2 then Inl (0, if rem then Some (twords_all n) else None)
       else
         let sr = sr + 1 in
         Inr (\<lparr> s_high = c_shl u (s_low n) (64 - sr), s_low = 0 \<rparr>,
              \<lparr> s_high = c_lshr u (s_high n) sr,
                s_low = c_shl u (s_high n) (64 - sr) OR c_lshr u (s_low n) sr \<rparr>,
              sr))"

definition udivmodti4_high_zero :: "ub \<Rightarrow> bool \<Rightarrow> twords \<Rightarrow> twords \<Rightarrow> (tu_int \<times> tu_int option) + (twords \<times> twords \<times> su_int)" where
  "udivmodti4_high_zero u rem n d =
    (if s_low d AND (s_low d - 1) = 0 then
       let r = (if rem then Some (ucast (s_low n AND (s_low d - 1))) else None) in
       if s_low d = 1 then Inl (twords_all n, r)
       else
         let sr = builtin_ctz u (s_low d) in
         Inl (twords_all
               \<lparr> s_high = c_lshr u (s_high n) sr,
                 s_low = c_shl u (s_high n) (64 - sr) OR c_lshr u (s_low n) sr \<rparr>, r)
     else
       let sr = 1 + 64 + builtin_clz u (s_low d) - builtin_clz u (s_high n) in
       Inr (\<lparr> s_high =
                (c_shl u (s_low n) (64 - sr) AND signed_drop_bit 63 (scast (sr - 64 - 1 :: si_int) :: di_int)) OR
                ((c_shl u (s_high n) (128 - sr) OR c_lshr u (s_low n) (sr - 64)) AND
                 signed_drop_bit 63 (scast (64 - sr :: si_int) :: di_int)),
              s_low = c_shl u (s_low n) (128 - sr) AND signed_drop_bit 63 (scast (64 - sr :: si_int) :: di_int) \<rparr>,
            \<lparr> s_high = c_lshr u (s_high n) sr AND signed_drop_bit 63 (scast (sr - 64 :: si_int) :: di_int),
              s_low =
                (c_lshr u (s_high n) (sr - 64) AND signed_drop_bit 63 (scast (64 - sr - 1 :: si_int) :: di_int)) OR
                ((c_shl u (s_high n) (64 - sr) OR c_lshr u (s_low n) sr) AND
                 signed_drop_bit 63 (scast (sr - 64 :: si_int) :: di_int)) \<rparr>,
            sr))"

definition udivmodti4_general :: "ub \<Rightarrow> bool \<Rightarrow> twords \<Rightarrow> twords \<Rightarrow> (tu_int \<times> tu_int option) + (twords \<times> twords \<times> su_int)" where
  "udivmodti4_general u rem n d =
    (let sr = builtin_clz u (s_high d) - builtin_clz u (s_high n) in
     if sr > 64 - 1 then Inl (0, if rem then Some (twords_all n) else None)
     else
       let sr = sr + 1 in
       Inr (\<lparr> s_high = c_shl u (s_low n) (64 - sr), s_low = 0 \<rparr>,
            \<lparr> s_high = c_lshr u (s_high n) sr AND signed_drop_bit 63 (scast (sr - 64 :: si_int) :: di_int),
              s_low = c_shl u (s_high n) (64 - sr) OR
                (c_lshr u (s_low n) sr AND signed_drop_bit 63 (scast (sr - 64 :: si_int) :: di_int)) \<rparr>,
            sr))"

fun udivmodti4_loop :: "nat \<Rightarrow> twords \<Rightarrow> twords \<Rightarrow> twords \<Rightarrow> su_int \<Rightarrow> twords \<times> twords \<times> su_int" where
  "udivmodti4_loop 0 d q r carry = (q, r, carry)"
| "udivmodti4_loop (Suc sr) d q r carry =
    (let r = r \<lparr> s_high := push_bit 1 (s_high r) OR drop_bit 63 (s_low r) \<rparr>;
         r = r \<lparr> s_low := push_bit 1 (s_low r) OR drop_bit 63 (s_high q) \<rparr>;
         q = q \<lparr> s_high := push_bit 1 (s_high q) OR drop_bit 63 (s_low q) \<rparr>;
         q = q \<lparr> s_low := push_bit 1 (s_low q) OR ucast carry \<rparr>;
         s = signed_drop_bit 127 (twords_all d - twords_all r - 1);
         carry = ucast (s AND 1);
         r = twords_of (twords_all r - (twords_all d AND s))
     in udivmodti4_loop sr d q r carry)"

definition udivmodti4 :: "ub \<Rightarrow> tu_int \<Rightarrow> tu_int \<Rightarrow> bool \<Rightarrow> tu_int \<times> tu_int option" where
  "udivmodti4 u a b rem =
    (let n = twords_of a; d = twords_of b in
     if s_high n = 0 then
       if s_high d = 0 then
         (ucast (c_udiv u (s_low n) (s_low d)),
          if rem then Some (ucast (c_umod u (s_low n) (s_low d))) else None)
       else (0, if rem then Some (ucast (s_low n)) else None)
     else
       case (if s_low d = 0 then udivmodti4_low_zero u rem n d
             else if s_high d = 0 then udivmodti4_high_zero u rem n d
             else udivmodti4_general u rem n d) of
         Inl result \<Rightarrow> result
       | Inr (q, r, sr) \<Rightarrow>
           let (q, r, carry) = udivmodti4_loop (unat sr) d q r 0;
               q = push_bit 1 (twords_all q) OR ucast carry
           in (q, if rem then Some (twords_all r) else None))"

section \<open>The loop on halves\<close>

context halves_view
begin

lemma join_shift_in:
  "join \<lparr> s_high = push_bit 1 (s_high p) OR drop_bit (LENGTH('h) - 1) (s_low p),
          s_low = push_bit 1 (s_low p) OR drop_bit (LENGTH('h) - 1) (s_high q) \<rparr>
   = push_bit 1 (join p) OR drop_bit (LENGTH('d) - 1) (join q)" (is "?l = ?r")
proof (rule eq_halfwise)
  have e: "LENGTH('d) - 1 = LENGTH('h) - 1 + LENGTH('h)" by (simp add: double_length mult_2)
  fix k assume k: "k < LENGTH('h)"
  show "bit ?l k = bit ?r k"
    using k unfolding e by (cases k) (auto simp: half_bits Suc_le_eq simp del: push_bit_Suc)
  show "bit ?l (k + LENGTH('h)) = bit ?r (k + LENGTH('h))"
    using k unfolding e by (cases k) (auto simp: half_bits Suc_le_eq simp del: push_bit_Suc)
qed

lemma join_shift_carry:
  assumes "unat c < 2"
  shows "join \<lparr> s_high = push_bit 1 (s_high q) OR drop_bit (LENGTH('h) - 1) (s_low q),
                s_low = push_bit 1 (s_low q) OR ucast c \<rparr> = push_bit 1 (join q) OR ucast c" (is "?l = ?r")
proof (rule eq_halfwise)
  have c: "bit c k \<longleftrightarrow> c = 1 \<and> k = 0" for k using word_lt_2 [OF assms] by (auto simp: bit_1_iff)
  fix k assume k: "k < LENGTH('h)"
  show "bit ?l k = bit ?r k"
    using k by (cases k) (auto simp: half_bits Suc_le_eq bit_ucast_iff c simp del: push_bit_Suc)
  show "bit ?l (k + LENGTH('h)) = bit ?r (k + LENGTH('h))"
    using k by (cases k) (auto simp: half_bits Suc_le_eq bit_ucast_iff c simp del: push_bit_Suc)
qed

end


section \<open>The aligned start\<close>

context halves_view
begin

lemma splitI: "join p = x \<Longrightarrow> split x = p"
  using split_join by blast

lemma start_small:
  assumes "0 < k" "k < LENGTH('h)"
  shows "join \<lparr> s_high = push_bit (LENGTH('h) - k) (s_low (split x)), s_low = 0 \<rparr>
    = push_bit (LENGTH('d) - k) x"
  using shl_far [of "LENGTH('h) - k" x] assms by (simp add: double_length mult_2)

lemma start_half:
  "join \<lparr> s_high = s_low (split x), s_low = 0 \<rparr> = push_bit LENGTH('h) x"
  "join \<lparr> s_high = 0, s_low = s_high (split x) \<rparr> = drop_bit LENGTH('h) x"
  using shl_far [of 0 x] lshr_far [of 0 x] by simp_all

lemma start_big:
  assumes "LENGTH('h) < k" "k < LENGTH('d)"
  shows "join \<lparr> s_high = push_bit (LENGTH('d) - k) (s_high (split x)) OR
      drop_bit (k - LENGTH('h)) (s_low (split x)), s_low = push_bit (LENGTH('d) - k) (s_low (split x)) \<rparr>
    = push_bit (LENGTH('d) - k) x"
    and "join \<lparr> s_high = 0, s_low = drop_bit (k - LENGTH('h)) (s_high (split x)) \<rparr> = drop_bit k x"
proof -
  have "LENGTH('h) - (LENGTH('d) - k) = k - LENGTH('h)" using assms by (simp add: double_length)
  then show "join \<lparr> s_high = push_bit (LENGTH('d) - k) (s_high (split x)) OR
      drop_bit (k - LENGTH('h)) (s_low (split x)), s_low = push_bit (LENGTH('d) - k) (s_low (split x)) \<rparr>
    = push_bit (LENGTH('d) - k) x"
    using shl_near [of "LENGTH('d) - k" x] assms by (simp add: double_length)
  show "join \<lparr> s_high = 0, s_low = drop_bit (k - LENGTH('h)) (s_high (split x)) \<rparr> = drop_bit k x"
    using lshr_far [of "k - LENGTH('h)" x] assms by (simp add: double_length)
qed

end

section \<open>The special cases\<close>

lemma div_pred: "n mod m \<noteq> 0 \<Longrightarrow> (n - 1) div m = n div m" for n m :: nat
proof (cases "m = 0")
  case False
  assume "n mod m \<noteq> 0"
  moreover have "m * (n div m) + n mod m = n" by (rule mult_div_mod_eq)
  moreover have "n < m * Suc (n div m)" using False dividend_less_times_div [of m n] by simp
  ultimately have "m * (n div m) \<le> n - 1" "n - 1 < m * Suc (n div m)" by linarith+
  then show ?thesis by (rule div_nat_eqI)
qed simp

text \<open>\<open>x AND (x - 1)\<close> clears the lowest set bit: it is zero for the powers of two only.\<close>

lemma power_of_2_test:
  fixes x :: "'a::len word"
  assumes "x \<noteq> 0" and "x AND (x - 1) = 0"
  shows "unat x = 2 ^ ntz x" and "x - 1 = mask (ntz x)"
proof -
  let ?t = "ntz x" and ?n = "unat x"
  note b = ntz_bit [OF assms(1)]
  have "take_bit ?t x = 0" by (rule bit_word_eqI) (auto simp: bit_take_bit_iff b(2))
  then have "unat (x AND mask ?t) = 0" by (simp add: take_bit_eq_mask)
  then have low: "?n mod 2 ^ ?t = 0" by (simp only: unat_and_mask)
  have "bit ?n ?t" using b(1) by (simp add: bit_unsigned_iff)
  then have odd: "odd (?n div 2 ^ ?t)" by (simp add: bit_iff_odd)
  have nz: "?n mod 2 ^ Suc ?t \<noteq> 0" 
    unfolding div_mod_pow_Suc(1) low using odd by (simp add: odd_iff_mod_2_eq_one)
  have "(?n - 1) div 2 ^ Suc ?t = ?n div 2 ^ Suc ?t" using nz by (rule div_pred)
  moreover have "unat (x - 1) = ?n - 1"
    using assms(1) by (subst unat_sub_below) (simp_all add: Suc_le_eq unat_gt_0)
  ultimately have "unat (drop_bit (Suc ?t) (x - 1)) = unat (drop_bit (Suc ?t) x)"
    unfolding unat_drop_bit by simp
  then have "drop_bit (Suc ?t) (x - 1) = drop_bit (Suc ?t) x" by (rule unsigned_word_eqI)
  then have "drop_bit (Suc ?t) x = drop_bit (Suc ?t) (x AND (x - 1))" by (simp only: drop_bit_and and.idem)
  then have "drop_bit (Suc ?t) x = 0" by (simp add: assms(2))
  then have "?n div 2 ^ Suc ?t = 0" by (metis unat_drop_bit unsigned_0)
  then have "?n div 2 ^ ?t = 1"
    using div_mod_pow_Suc(2) [of ?n ?t] odd by (simp add: odd_iff_mod_2_eq_one)
  then show u: "?n = 2 ^ ?t" using low div_mult_mod_eq [of ?n "2 ^ ?t"] by simp
  have "(2::nat) ^ ?t < 2 ^ LENGTH('a)" using b(3) by simp
  then have "unat (push_bit ?t 1 :: 'a word) = unat x" unfolding u unat_push_bit by simp
  then have "push_bit ?t 1 = x" by (rule unsigned_word_eqI)
  then have "x = 2 ^ ?t" by simp
  then show "x - 1 = mask ?t" by (simp add: mask_eq_exp_minus_1)
qed

context halves_view
begin

lemma div_low_zero:
  assumes "s_low (split y) = 0"
  shows "unat x div unat y = unat (s_high (split x)) div unat (s_high (split y))"
    and "unat x mod unat y = unat (s_high (split x)) mod unat (s_high (split y)) * 2 ^ LENGTH('h) +
      unat (s_low (split x))"
proof -
  have y: "unat y = 2 ^ LENGTH('h) * unat (s_high (split y))"
    using unat_split [of y] assms by (simp add: mult.commute)
  show "unat x div unat y = unat (s_high (split x)) div unat (s_high (split y))"
    by (subst y) (simp only: div_mult2_eq high_eq [of x])
  show "unat x mod unat y = unat (s_high (split x)) mod unat (s_high (split y)) * 2 ^ LENGTH('h) +
      unat (s_low (split x))"
  proof -
    have "unat x mod unat y = 2 ^ LENGTH('h) * (unat x div 2 ^ LENGTH('h) mod unat (s_high (split y))) +
        unat x mod 2 ^ LENGTH('h)" by (subst y) (rule mod_mult2_eq)
    then show ?thesis by (simp only: high_eq [of x] low_eq [of x] mult.commute [of "2 ^ LENGTH('h)"])
  qed
qed

lemma div_low_zero_word:
  assumes "s_low (split y) = 0"
  shows "ucast (s_high (split x) div s_high (split y)) = x div y"
    and "join \<lparr> s_high = s_high (split x) mod s_high (split y), s_low = s_low (split x) \<rparr> = x mod y"
  by (rule unsigned_word_eqI [where ?'a = nat],
      simp add: unat_div_distrib unat_mod_distrib unat_ucast_half unat_join div_low_zero [OF assms])+

lemma div_small:
  assumes "s_high (split x) = 0"
  shows "s_high (split y) = 0 \<Longrightarrow> ucast (s_low (split x) div s_low (split y)) = x div y"
    and "s_high (split y) = 0 \<Longrightarrow> ucast (s_low (split x) mod s_low (split y)) = x mod y"
    and "s_high (split y) \<noteq> 0 \<Longrightarrow> x div y = 0"
    and "s_high (split y) \<noteq> 0 \<Longrightarrow> x mod y = ucast (s_low (split x))"
proof -
  have x: "unat x = unat (s_low (split x))" using unat_split [of x] assms by simp
  show "ucast (s_low (split x) div s_low (split y)) = x div y"
    and "ucast (s_low (split x) mod s_low (split y)) = x mod y" if "s_high (split y) = 0"
  proof -
    have "unat y = unat (s_low (split y))" using unat_split [of y] that by simp
    then show "ucast (s_low (split x) div s_low (split y)) = x div y"
      and "ucast (s_low (split x) mod s_low (split y)) = x mod y"
      by (auto intro!: unsigned_word_eqI [where ?'a = nat]
        simp: unat_div_distrib unat_mod_distrib unat_ucast_half x)
  qed
  have lt: "unat x < unat y" if "s_high (split y) \<noteq> 0"
  proof -
    have "unat x < 2 ^ LENGTH('h)" unfolding x by (rule unsigned_less)
    also have "\<dots> \<le> unat (s_high (split y)) * 2 ^ LENGTH('h)"
      using that by (simp add: Suc_le_eq unat_gt_0)
    also have "\<dots> \<le> unat y" unfolding unat_split [of y] by simp
    finally show ?thesis .
  qed
  show "x div y = 0" if "s_high (split y) \<noteq> 0"
    using lt [OF that] by (intro unsigned_word_eqI [where ?'a = nat]) (simp add: unat_div_distrib)
  show "x mod y = ucast (s_low (split x))" if "s_high (split y) \<noteq> 0"
    using lt [OF that] by (intro unsigned_word_eqI [where ?'a = nat]) (simp add: unat_mod_distrib unat_ucast_half x)
qed

lemma div_power_of_2:
  assumes y: "s_high (split y) = 0" and t: "unat (s_low (split y)) = 2 ^ t" "t < LENGTH('h)"
  shows "x div y = drop_bit t x"
    and "x mod y = ucast (s_low (split x) AND mask t)"
proof -
  have uy: "unat y = 2 ^ t" using unat_split [of y] y t by simp
  show "x div y = drop_bit t x"
    by (rule unsigned_word_eqI [where ?'a = nat]) (simp add: unat_div_distrib uy unat_drop_bit)
  have "(2::nat) ^ t dvd 2 ^ LENGTH('h)" using t(2) by (simp add: le_imp_power_dvd)
  then have "unat x mod 2 ^ t = unat (s_low (split x)) mod 2 ^ t"
    unfolding low_eq by (simp add: mod_mod_cancel)
  then show "x mod y = ucast (s_low (split x) AND mask t)"
    by (intro unsigned_word_eqI [where ?'a = nat]) (simp only: unat_mod_distrib uy unat_ucast_half unat_and_mask)
qed

end

text \<open>The counts of the shifts, computed modulo \<open>2\<^sup>32\<close>, and the masks made from their signs.\<close>

lemma unat_of_nat_small: "k < 2 ^ 32 \<Longrightarrow> unat (of_nat k :: su_int) = k"
  by (simp add: unsigned_of_nat take_bit_nat_eq_self)

lemma c_shl_nat: "k < LENGTH('a) \<Longrightarrow> k < 2 ^ 32 \<Longrightarrow> c_shl u (x :: 'a::len word) (of_nat k) = push_bit k x"
  and c_lshr_nat: "k < LENGTH('a) \<Longrightarrow> k < 2 ^ 32 \<Longrightarrow> c_lshr u (x :: 'a::len word) (of_nat k) = drop_bit k x"
  by (simp_all add: c_shl_def c_lshr_def unat_of_nat_small)

lemma count_negative:
  assumes "i < 2 ^ 31" "j < 2 ^ 31"
  shows "(of_nat i - of_nat j :: si_int) <s 0 \<longleftrightarrow> i < j"
proof -
  have "(of_nat i - of_nat j :: si_int) = word_of_int (int i - int j)" by simp
  moreover have "sfits 32 (int i - int j)" using assms by (simp add: sfits_def)
  ultimately show ?thesis
    using sint_of_int [of "int i - int j", where ?'a = 32] by (simp add: word_sless_alt)
qed

lemma sign_mask_32: "signed_drop_bit 31 (x :: si_int) = (if x <s 0 then - 1 else 0)"
  using sign_mask [of x] by simp

lemma sless_scast: "(scast (x :: si_int) :: di_int) <s 0 \<longleftrightarrow> x <s 0"
  by (simp add: word_sless_alt sint_up_scast is_up)

lemma sign_mask_64: "signed_drop_bit 63 (x :: 64 word) = (if x <s 0 then - 1 else 0)"
  using sign_mask [of x] by simp

lemma udivmoddi4_loop_div_loop:
  assumes "unat c < 2"
  shows "\<exists>q' r' c'. udivmoddi4_loop k d q r c = (q', r', c') \<and>
    div_loop k (dwords_all d) (dwords_all q) (dwords_all r) (ucast c) = (dwords_all q', dwords_all r', ucast c') \<and> unat c' < 2"
  using assms
proof (induction k arbitrary: q r c)
  case (Suc k)
  define r1 where "r1 = \<lparr> s_high = push_bit 1 (s_high r) OR drop_bit 31 (s_low r),
    s_low = push_bit 1 (s_low r) OR drop_bit 31 (s_high q) \<rparr>"
  define q1 where "q1 = \<lparr> s_high = push_bit 1 (s_high q) OR drop_bit 31 (s_low q),
    s_low = push_bit 1 (s_low q) OR ucast c \<rparr>"
  define s where "s = signed_drop_bit 63 (dwords_all d - dwords_all r1 - 1)"
  have l: "udivmoddi4_loop (Suc k) d q r c =
    udivmoddi4_loop k d q1 (dwords_of (dwords_all r1 - (dwords_all d AND s))) (ucast (s AND 1))"
    unfolding s_def r1_def q1_def by (cases r; cases q) (simp add: Let_def del: push_bit_Suc)
  have r: "dwords_all r1 = push_bit 1 (dwords_all r) OR drop_bit 63 (dwords_all q)"
    using dw.join_shift_in [of r q] by (simp add: r1_def)
  have q: "dwords_all q1 = push_bit 1 (dwords_all q) OR ucast c"
    using dw.join_shift_carry [OF Suc.prems, of q] by (simp add: q1_def)
  have s1: "s AND 1 = 0 \<or> s AND 1 = 1" unfolding s_def sign_mask_64 by simp
  then have c: "unat (ucast (s AND 1) :: su_int) < 2" "ucast (ucast (s AND 1) :: su_int) = s AND 1"
    by auto
  show ?case
    using Suc.IH [OF c(1), of q1 "dwords_of (dwords_all r1 - (dwords_all d AND s))"]
    unfolding l c(2) dw.join_split q
    by (simp add: s_def r Let_def del: push_bit_Suc)
qed auto

lemma sign_mask_128: "signed_drop_bit 127 (x :: 128 word) = (if x <s 0 then - 1 else 0)"
  using sign_mask [of x] by simp

lemma udivmodti4_loop_div_loop:
  assumes "unat c < 2"
  shows "\<exists>q' r' c'. udivmodti4_loop k d q r c = (q', r', c') \<and>
    div_loop k (twords_all d) (twords_all q) (twords_all r) (ucast c) = (twords_all q', twords_all r', ucast c') \<and> unat c' < 2"
  using assms
proof (induction k arbitrary: q r c)
  case (Suc k)
  define r1 where "r1 = \<lparr> s_high = push_bit 1 (s_high r) OR drop_bit 63 (s_low r),
    s_low = push_bit 1 (s_low r) OR drop_bit 63 (s_high q) \<rparr>"
  define q1 where "q1 = \<lparr> s_high = push_bit 1 (s_high q) OR drop_bit 63 (s_low q),
    s_low = push_bit 1 (s_low q) OR ucast c \<rparr>"
  define s where "s = signed_drop_bit 127 (twords_all d - twords_all r1 - 1)"
  have l: "udivmodti4_loop (Suc k) d q r c =
    udivmodti4_loop k d q1 (twords_of (twords_all r1 - (twords_all d AND s))) (ucast (s AND 1))"
    unfolding s_def r1_def q1_def by (cases r; cases q) (simp add: Let_def del: push_bit_Suc)
  have r: "twords_all r1 = push_bit 1 (twords_all r) OR drop_bit 127 (twords_all q)"
    using tw.join_shift_in [of r q] by (simp add: r1_def)
  have q: "twords_all q1 = push_bit 1 (twords_all q) OR ucast c"
    using tw.join_shift_carry [OF Suc.prems, of q] by (simp add: q1_def)
  have s1: "s AND 1 = 0 \<or> s AND 1 = 1" unfolding s_def sign_mask_128 by simp
  then have c: "unat (ucast (s AND 1) :: su_int) < 2" "ucast (ucast (s AND 1) :: su_int) = s AND 1"
    by auto
  show ?case
    using Suc.IH [OF c(1), of q1 "twords_of (twords_all r1 - (twords_all d AND s))"]
    unfolding l c(2) tw.join_split q
    by (simp add: s_def r Let_def del: push_bit_Suc)
qed auto

lemma count_mask_32:
  assumes "k < 256"
  shows "signed_drop_bit 31 (32 - of_nat k :: si_int) = (if 32 < k then - 1 else 0)"
    and "signed_drop_bit 31 (of_nat k - 32 - 1 :: si_int) = (if k < 33 then - 1 else 0)"
    and "signed_drop_bit 31 (of_nat k - 32 :: si_int) = (if k < 32 then - 1 else 0)"
    and "signed_drop_bit 31 (32 - of_nat k - 1 :: si_int) = (if 31 < k then - 1 else 0)"
  unfolding sign_mask_32 sign_mask_64
  using assms count_negative [of 32 k] count_negative [of k 33] count_negative [of k 32]
    count_negative [of 31 k]
  by (simp_all add:  diff_diff_eq)

lemma udivmoddi4_high_nlz:
  assumes "s_high (dwords_of a) \<noteq> 0"
  shows "nlz a = nlz (s_high (dwords_of a))" and "a \<noteq> 0"
  using assms dw.nlz_split [of a] dw.zero_halves [of a] by (cases "a = 0"; simp)+

lemma udivmoddi4_sr:
  assumes n: "s_high (dwords_of a) \<noteq> 0" and d: "s_high (dwords_of b) \<noteq> 0"
  shows "nlz b < nlz a \<Longrightarrow>
      31 < builtin_clz u (s_high (dwords_of b)) - builtin_clz u (s_high (dwords_of a))"
    and "nlz a \<le> nlz b \<Longrightarrow> k = nlz b - nlz a + 1 \<Longrightarrow>
      builtin_clz u (s_high (dwords_of b)) - builtin_clz u (s_high (dwords_of a)) = of_nat (k - 1)"
    and "nlz a \<le> nlz b \<Longrightarrow> k = nlz b - nlz a + 1 \<Longrightarrow> k \<le> 32"
proof -
  note c = clz_difference [OF d n, folded udivmoddi4_high_nlz(1) [OF n] udivmoddi4_high_nlz(1) [OF d]]
  show "nlz b < nlz a \<Longrightarrow> 31 < builtin_clz u (s_high (dwords_of b)) - builtin_clz u (s_high (dwords_of a))"
    using c(1) [of u] by (simp add: word_less_nat_alt)
  show "nlz a \<le> nlz b \<Longrightarrow> k = nlz b - nlz a + 1 \<Longrightarrow>
      builtin_clz u (s_high (dwords_of b)) - builtin_clz u (s_high (dwords_of a)) = of_nat (k - 1)"
    using c(2) [of u] by simp
  show "nlz a \<le> nlz b \<Longrightarrow> k = nlz b - nlz a + 1 \<Longrightarrow> k \<le> 32"
    using nlz_bounds(1) [OF d] udivmoddi4_high_nlz(1) [OF d] by simp
qed

lemma udivmoddi4_general_start:
  assumes n: "s_high (dwords_of a) \<noteq> 0" and d: "s_high (dwords_of b) \<noteq> 0"
  shows "nlz b < nlz a \<Longrightarrow> udivmoddi4_general u rem (dwords_of a) (dwords_of b) = Inl (0, if rem then Some a else None)"
    and "nlz a \<le> nlz b \<Longrightarrow> k = nlz b - nlz a + 1 \<Longrightarrow>
      udivmoddi4_general u rem (dwords_of a) (dwords_of b) = Inr (dwords_of (push_bit (64 - k) a), dwords_of (drop_bit k a), of_nat k)"
proof -
  show "nlz b < nlz a \<Longrightarrow> udivmoddi4_general u rem (dwords_of a) (dwords_of b) = Inl (0, if rem then Some a else None)"
    using udivmoddi4_sr(1) [OF n d, of u] by (simp add: udivmoddi4_general_def dw.join_split)
  assume le: "nlz a \<le> nlz b" and k: "k = nlz b - nlz a + 1"
  note sr = udivmoddi4_sr(2) [OF n d le k, of u]
  note kH = udivmoddi4_sr(3) [OF n d le k]
  have ns: "\<not> (32 - 1 :: su_int) < of_nat (k - 1)"
    using kH unat_of_nat_small [of "k - 1"] by (simp add: word_less_nat_alt)
  have s1: "of_nat (k - 1) + 1 = (of_nat k :: su_int)" using k by simp
  have h: "32 - (of_nat k :: su_int) = of_nat (32 - k)" using kH by simp
  note u = udivmoddi4_general_def Let_def sr s1 h if_not_P [OF ns]
  consider "k < 32" | "k = 32" using kH by linarith
  then show "udivmoddi4_general u rem (dwords_of a) (dwords_of b) = Inr (dwords_of (push_bit (64 - k) a), dwords_of (drop_bit k a), of_nat k)"
  proof cases
    case 1
    have k0: "0 < k" using k by simp
    have c: "c_shl u x (of_nat (32 - k)) = push_bit (32 - k) x" "c_lshr u x (of_nat k) = drop_bit k x"
      for x :: "32 word" using 1 k0 by (intro c_shl_nat c_lshr_nat; simp)+
    have m: "signed_drop_bit 31 (of_nat k - 32 :: si_int) = - 1" using count_mask_32(3) [of k] 1 by simp
    have "dwords_of (push_bit (64 - k) a) = \<lparr> s_high = push_bit (32 - k) (s_low (dwords_of a)), s_low = 0 \<rparr>"
      by (rule dw.splitI) (use dw.start_small [of k a] k0 1 in simp)
    moreover have "dwords_of (drop_bit k a) = \<lparr> s_high = drop_bit k (s_high (dwords_of a)),
        s_low = push_bit (32 - k) (s_high (dwords_of a)) OR drop_bit k (s_low (dwords_of a)) \<rparr>"
      by (rule dw.splitI) (use dw.lshr_near [of k a] k0 1 in simp)
    ultimately show ?thesis unfolding u c m by simp
  next
    case 2
    have c: "c_shl u x (of_nat (32 - k)) = x" for x :: "32 word" using 2 by (simp add: c_ops)
    have m: "signed_drop_bit 31 (of_nat k - 32 :: si_int) = 0" using count_mask_32(3) [of k] 2 by simp
    have "dwords_of (push_bit (64 - k) a) = \<lparr> s_high = s_low (dwords_of a), s_low = 0 \<rparr>"
      by (rule dw.splitI) (use dw.start_half(1) [of a] 2 in simp)
    moreover have "dwords_of (drop_bit k a) = \<lparr> s_high = 0, s_low = s_high (dwords_of a) \<rparr>"
      by (rule dw.splitI) (use dw.start_half(2) [of a] 2 in simp)
    ultimately show ?thesis unfolding u c m by simp
  qed
qed

lemma udivmoddi4_low_zero_start:
  assumes n: "s_high (dwords_of a) \<noteq> 0" and d: "s_high (dwords_of b) \<noteq> 0" and l: "s_low (dwords_of b) = 0"
  shows "udivmoddi4_low_zero u rem (dwords_of a) (dwords_of b) = Inl (a div b, if rem then Some (a mod b) else None) \<or>
    nlz a \<le> nlz b \<and> udivmoddi4_low_zero u rem (dwords_of a) (dwords_of b) =
      Inr (dwords_of (push_bit (64 - (nlz b - nlz a + 1)) a), dwords_of (drop_bit (nlz b - nlz a + 1) a),
           of_nat (nlz b - nlz a + 1))"
proof -
  let ?hn = "s_high (dwords_of a)" and ?hd = "s_high (dwords_of b)"
  note q = dw.div_low_zero_word(1) [OF l, of a] and r = dw.div_low_zero_word(2) [OF l, of a]
  consider "s_low (dwords_of a) = 0" | "s_low (dwords_of a) \<noteq> 0" "?hd AND (?hd - 1) = 0"
    | "s_low (dwords_of a) \<noteq> 0" "?hd AND (?hd - 1) \<noteq> 0" by blast
  then show ?thesis
  proof cases
    case 1
    then show ?thesis using q r d l by (simp add: udivmoddi4_low_zero_def c_ops)
  next
    case 2
    note p = power_of_2_test [OF d 2(2)] and t = ntz_bit(3) [OF d]
    have "drop_bit (ntz ?hd) ?hn = ?hn div ?hd" and "?hn AND (?hd - 1) = ?hn mod ?hd"
      by (rule unsigned_word_eqI [where ?'a = nat];
        simp only: unat_drop_bit unat_div_distrib unat_mod_distrib p unat_and_mask)+
    moreover have "c_lshr u ?hn (builtin_ctz u ?hd) = drop_bit (ntz ?hd) ?hn"
      using d t by (simp add: builtin_ctz_def c_lshr_nat)
    ultimately show ?thesis using q r d 2 by (simp add: udivmoddi4_low_zero_def)
  next
    case 3
    have h1: "nlz b \<noteq> 31"
    proof
      assume "nlz b = 31"
      then have "nlz ?hd = 31" using udivmoddi4_high_nlz(1) [OF d] by simp
      then have "unat ?hd = 1" using nlz_bounds(2,3) [OF d] by simp
      then have "?hd = 1" by (simp add: word_unat_eq_iff)
      with 3(2) show False by simp
    qed
    show ?thesis
    proof (cases "nlz b < nlz a")
      case True
      then have "unat a < unat b"
        using nlz_le_iff [of a b] udivmoddi4_high_nlz(2) [OF n] udivmoddi4_high_nlz(2) [OF d] by simp
      then have "a div b = 0" "a mod b = a"
        by (auto intro!: unsigned_word_eqI [where ?'a = nat] simp: unat_div_distrib unat_mod_distrib)
      moreover have "32 - 2 < builtin_clz u ?hd - builtin_clz u ?hn"
        using udivmoddi4_sr(1) [OF n d True, of u] by (simp add: word_less_nat_alt)
      ultimately show ?thesis using 3 d by (simp add: udivmoddi4_low_zero_def dw.join_split)
    next
      case False
      define k where "k = nlz b - nlz a + 1"
      have le: "nlz a \<le> nlz b" using False by simp
      note sr = udivmoddi4_sr(2) [OF n d le k_def, of u] and kH = udivmoddi4_sr(3) [OF n d le k_def]
      have k: "0 < k" "k < 32" using kH h1 nlz_bounds(1) [OF d] udivmoddi4_high_nlz(1) [OF d] by (auto simp: k_def)
      have ns: "\<not> (32 - 2 :: su_int) < of_nat (k - 1)"
        using k unat_of_nat_small [of "k - 1"] by (simp add: word_less_nat_alt)
      have s1: "of_nat (k - 1) + 1 = (of_nat k :: su_int)" using k by simp
      have h: "32 - (of_nat k :: su_int) = of_nat (32 - k)" using k by simp
      have c: "c_shl u x (of_nat (32 - k)) = push_bit (32 - k) x" "c_lshr u x (of_nat k) = drop_bit k x"
        for x :: "32 word" using k by (intro c_shl_nat c_lshr_nat; simp)+
      have "dwords_of (push_bit (64 - k) a) = \<lparr> s_high = push_bit (32 - k) (s_low (dwords_of a)), s_low = 0 \<rparr>"
        by (rule dw.splitI) (use dw.start_small [of k a] k in simp)
      moreover have "dwords_of (drop_bit k a) = \<lparr> s_high = drop_bit k (s_high (dwords_of a)),
          s_low = push_bit (32 - k) (s_high (dwords_of a)) OR drop_bit k (s_low (dwords_of a)) \<rparr>"
        by (rule dw.splitI) (use dw.lshr_near [of k a] k in simp)
      ultimately have "udivmoddi4_low_zero u rem (dwords_of a) (dwords_of b) =
          Inr (dwords_of (push_bit (64 - k) a), dwords_of (drop_bit k a), of_nat k)"
        unfolding udivmoddi4_low_zero_def Let_def sr s1 h c if_not_P [OF ns] using 3 d by simp
      with le show ?thesis unfolding k_def by blast
    qed
  qed
qed

lemma udivmoddi4_high_zero_start:
  assumes n: "s_high (dwords_of a) \<noteq> 0" and d: "s_high (dwords_of b) = 0" and l: "s_low (dwords_of b) \<noteq> 0"
  shows "udivmoddi4_high_zero u rem (dwords_of a) (dwords_of b) = Inl (a div b, if rem then Some (a mod b) else None) \<or>
    nlz a \<le> nlz b \<and> udivmoddi4_high_zero u rem (dwords_of a) (dwords_of b) =
      Inr (dwords_of (push_bit (64 - (nlz b - nlz a + 1)) a), dwords_of (drop_bit (nlz b - nlz a + 1) a),
           of_nat (nlz b - nlz a + 1))"
proof (cases "s_low (dwords_of b) AND (s_low (dwords_of b) - 1) = 0")
  case True
  let ?t = "ntz (s_low (dwords_of b))"
  note p = power_of_2_test [OF l True] and t = ntz_bit(3) [OF l]
  note e = dw.div_power_of_2 [OF d p(1), of a, simplified, OF t [simplified]]
  show ?thesis
  proof (cases "s_low (dwords_of b) = 1")
    case one: True
    have "?t = 0" unfolding one by (rule ntz_eqI) simp_all
    then show ?thesis using e p(2) one by (simp add: udivmoddi4_high_zero_def dw.join_split)
  next
    case False
    then have t0: "0 < ?t" using p(1) by (metis bot_nat_0.not_eq_extremum power_0 unsigned_1 unsigned_word_eqI)
    have sr: "builtin_ctz u (s_low (dwords_of b)) = of_nat ?t" using l by (simp add: builtin_ctz_def)
    have h: "32 - (of_nat ?t :: su_int) = of_nat (32 - ?t)" using t by simp
    have c: "c_shl u x (of_nat (32 - ?t)) = push_bit (32 - ?t) x" "c_lshr u x (of_nat ?t) = drop_bit ?t x"
      for x :: "32 word" using t t0 by (intro c_shl_nat c_lshr_nat; simp)+
    show ?thesis
      unfolding udivmoddi4_high_zero_def Let_def sr h c
      using True False e p(2) dw.lshr_near [OF t0, of a] t by simp
  qed
next
  case False
  let ?ld = "s_low (dwords_of b)" and ?hn = "s_high (dwords_of a)"
  have b: "b \<noteq> 0" using l by (auto simp: dw.zero_halves)
  have nb: "nlz b = 32 + nlz ?ld" using dw.nlz_split [OF b] d by simp
  have na: "nlz a = nlz ?hn" by (rule udivmoddi4_high_nlz(1) [OF n])
  note ba = nlz_bounds(1) [OF n] and bb = nlz_bounds(1) [OF l]
  have h1: "nlz ?ld \<noteq> 31"
  proof
    assume "nlz ?ld = 31"
    then have "unat ?ld = 1" using nlz_bounds(2,3) [OF l] by simp
    then have "?ld = 1" by (simp add: word_unat_eq_iff)
    with False show False by simp
  qed
  define k where "k = nlz b - nlz a + 1"
  have le: "nlz a \<le> nlz b" using na nb ba by simp
  have k: "0 < k" "k < 64" using nb na ba bb h1 by (auto simp: k_def)
  have sr: "1 + 32 + builtin_clz u ?ld - builtin_clz u ?hn = (of_nat k :: su_int)"
    using n l nb na ba unfolding k_def builtin_clz_def by (simp add: of_nat_diff)
  note u = udivmoddi4_high_zero_def Let_def sr if_not_P [OF False]
  have "udivmoddi4_high_zero u rem (dwords_of a) (dwords_of b) =
      Inr (dwords_of (push_bit (64 - k) a), dwords_of (drop_bit k a), of_nat k)"
  proof -
    consider "k < 32" | "k = 32" | "32 < k" by linarith
    then show ?thesis
    proof cases
      case 1
      have m1: "signed_drop_bit 31 (32 - of_nat k :: si_int) = 0" "signed_drop_bit 31 (of_nat k - 32 - 1 :: si_int) = - 1" "signed_drop_bit 31 (of_nat k - 32 :: si_int) = - 1" "signed_drop_bit 31 (32 - of_nat k - 1 :: si_int) = 0"
        using count_mask_32 [of k] 1 k by (simp_all only:) simp_all
      have h: "32 - (of_nat k :: su_int) = of_nat (32 - k)" using 1 by simp
      have c: "c_shl u x (of_nat (32 - k)) = push_bit (32 - k) x" "c_lshr u x (of_nat k) = drop_bit k x"
        for x :: "32 word" using 1 k by (intro c_shl_nat c_lshr_nat; simp)+
      have "dwords_of (push_bit (64 - k) a) = \<lparr> s_high = push_bit (32 - k) (s_low (dwords_of a)), s_low = 0 \<rparr>"
        by (rule dw.splitI) (use dw.start_small [of k a] k 1 in simp)
      moreover have "dwords_of (drop_bit k a) = \<lparr> s_high = drop_bit k (s_high (dwords_of a)),
          s_low = push_bit (32 - k) (s_high (dwords_of a)) OR drop_bit k (s_low (dwords_of a)) \<rparr>"
        by (rule dw.splitI) (use dw.lshr_near [of k a] k 1 in simp)
      ultimately show ?thesis unfolding u unfolding m1 unfolding h c by simp
    next
      case 2
      have m1: "signed_drop_bit 31 (32 - of_nat k :: si_int) = 0" "signed_drop_bit 31 (of_nat k - 32 - 1 :: si_int) = - 1" "signed_drop_bit 31 (of_nat k - 32 :: si_int) = 0" "signed_drop_bit 31 (32 - of_nat k - 1 :: si_int) = - 1"
        using count_mask_32 [of k] 2 k by (simp_all only:) simp_all
      have "dwords_of (push_bit (64 - k) a) = \<lparr> s_high = s_low (dwords_of a), s_low = 0 \<rparr>"
        by (rule dw.splitI) (use dw.start_half(1) [of a] 2 in simp)
      moreover have "dwords_of (drop_bit k a) = \<lparr> s_high = 0, s_low = s_high (dwords_of a) \<rparr>"
        by (rule dw.splitI) (use dw.start_half(2) [of a] 2 in simp)
      moreover have "c_shl u x (32 - of_nat k) = x" "c_lshr u x (of_nat k - 32) = x" for x :: "32 word"
        using 2 by (simp_all add: c_ops)
      ultimately show ?thesis unfolding u unfolding m1 by simp
    next
      case 3
      have m1: "signed_drop_bit 31 (32 - of_nat k :: si_int) = - 1" "signed_drop_bit 31 (of_nat k - 32 - 1 :: si_int) = 0" "signed_drop_bit 31 (of_nat k - 32 :: si_int) = 0" "signed_drop_bit 31 (32 - of_nat k - 1 :: si_int) = - 1"
        using count_mask_32 [of k] 3 k by (simp_all only:) simp_all
      have h: "64 - (of_nat k :: su_int) = of_nat (64 - k)" "of_nat k - (32 :: su_int) = of_nat (k - 32)"
        using 3 k by simp_all
      have c: "c_shl u x (of_nat (64 - k)) = push_bit (64 - k) x"
        "c_lshr u x (of_nat (k - 32)) = drop_bit (k - 32) x"
        for x :: "32 word" using 3 k by (intro c_shl_nat c_lshr_nat; simp)+
      have "dwords_of (push_bit (64 - k) a) = \<lparr> s_high = push_bit (64 - k) (s_high (dwords_of a)) OR
          drop_bit (k - 32) (s_low (dwords_of a)), s_low = push_bit (64 - k) (s_low (dwords_of a)) \<rparr>"
        by (rule dw.splitI) (use dw.start_big(1) [of k a] k 3 in simp)
      moreover have "dwords_of (drop_bit k a) = \<lparr> s_high = 0, s_low = drop_bit (k - 32) (s_high (dwords_of a)) \<rparr>"
        by (rule dw.splitI) (use dw.start_big(2) [of k a] k 3 in simp)
      ultimately show ?thesis unfolding u unfolding m1 unfolding h c by simp
    qed
  qed
  with le show ?thesis unfolding k_def by blast
qed

lemma udivmoddi4_eq:
  assumes b: "b \<noteq> 0"
  shows "udivmoddi4 u a b rem = (a div b, if rem then Some (a mod b) else None)"
proof (cases "s_high (dwords_of a) = 0")
  case True
  note s = dw.div_small [OF True, of b]
  show ?thesis
  proof (cases "s_high (dwords_of b) = 0")
    case d: True
    then have "s_low (dwords_of b) \<noteq> 0" using b by (simp add: dw.zero_halves)
    then show ?thesis using True d s(1,2) by (simp add: udivmoddi4_def c_ops)
  qed (use True s(3,4) in \<open>simp add: udivmoddi4_def\<close>)
next
  case n: False
  define k where "k = nlz b - nlz a + 1"
  define st where "st = (if s_low (dwords_of b) = 0 then udivmoddi4_low_zero u rem (dwords_of a) (dwords_of b)
    else if s_high (dwords_of b) = 0 then udivmoddi4_high_zero u rem (dwords_of a) (dwords_of b)
    else udivmoddi4_general u rem (dwords_of a) (dwords_of b))"
  have a: "a \<noteq> 0" by (rule udivmoddi4_high_nlz(2) [OF n])
  have st: "st = Inl (a div b, if rem then Some (a mod b) else None) \<or>
    nlz a \<le> nlz b \<and> st = Inr (dwords_of (push_bit (64 - k) a), dwords_of (drop_bit k a), of_nat k)"
  proof -
    consider "s_low (dwords_of b) = 0" "s_high (dwords_of b) \<noteq> 0"
      | "s_low (dwords_of b) \<noteq> 0" "s_high (dwords_of b) = 0"
      | "s_low (dwords_of b) \<noteq> 0" "s_high (dwords_of b) \<noteq> 0" "nlz b < nlz a"
      | "s_low (dwords_of b) \<noteq> 0" "s_high (dwords_of b) \<noteq> 0" "nlz a \<le> nlz b"
      using b unfolding dw.zero_halves by (meson not_le)
    then show ?thesis
    proof cases
      case 1
      then show ?thesis using udivmoddi4_low_zero_start [OF n, of b u rem] by (simp add: st_def k_def)
    next
      case 2
      then show ?thesis using udivmoddi4_high_zero_start [OF n, of b u rem] by (simp add: st_def k_def)
    next
      case 3
      then have "unat a < unat b" using nlz_le_iff [OF a b] by simp
      then have "a div b = 0" "a mod b = a"
        by (auto intro!: unsigned_word_eqI [where ?'a = nat] simp: unat_div_distrib unat_mod_distrib)
      then show ?thesis using 3 udivmoddi4_general_start(1) [OF n, of b u rem] by (simp add: st_def)
    next
      case 4
      then show ?thesis using udivmoddi4_general_start(2) [OF n, of b k u rem] by (simp add: st_def k_def)
    qed
  qed
  have f: "udivmoddi4 u a b rem = (case st of Inl result \<Rightarrow> result
    | Inr (q, r, sr) \<Rightarrow> let (q, r, carry) = udivmoddi4_loop (unat sr) (dwords_of b) q r 0;
        q = push_bit 1 (dwords_all q) OR ucast carry in (q, if rem then Some (dwords_all r) else None))"
    unfolding udivmoddi4_def Let_def st_def using n by simp
  from st show ?thesis
  proof
    assume s: "nlz a \<le> nlz b \<and> st = Inr (dwords_of (push_bit (64 - k) a), dwords_of (drop_bit k a), of_nat k)"
    then have le: "nlz a \<le> nlz b" by simp
    have k: "unat (of_nat k :: su_int) = k"
      using aligned(1) [OF a b le] by (intro unat_of_nat_small) (simp add: k_def)
    obtain q c where l: "div_loop k b (push_bit (64 - k) a) (drop_bit k a) 0 = (q, a mod b, c)"
      and q: "push_bit 1 q OR c = a div b"
      using div_loop_correct [OF aligned [OF a b le]] unfolding k_def by auto
    obtain q' r' c' where l': "udivmoddi4_loop k (dwords_of b) (dwords_of (push_bit (64 - k) a)) (dwords_of (drop_bit k a)) 0 = (q', r', c')"
      and e: "div_loop k b (push_bit (64 - k) a) (drop_bit k a) 0 = (dwords_all q', dwords_all r', ucast c')"
      using udivmoddi4_loop_div_loop [of 0 k "dwords_of b" "dwords_of (push_bit (64 - k) a)" "dwords_of (drop_bit k a)"]
      unfolding dw.join_split by auto
    show ?thesis using s l e q unfolding f by (auto simp: k l')
  qed (simp add: f)
qed

lemma count_mask_64:
  assumes "k < 256"
  shows "signed_drop_bit 63 (scast (64 - of_nat k :: si_int) :: di_int) = (if 64 < k then - 1 else 0)"
    and "signed_drop_bit 63 (scast (of_nat k - 64 - 1 :: si_int) :: di_int) = (if k < 65 then - 1 else 0)"
    and "signed_drop_bit 63 (scast (of_nat k - 64 :: si_int) :: di_int) = (if k < 64 then - 1 else 0)"
    and "signed_drop_bit 63 (scast (64 - of_nat k - 1 :: si_int) :: di_int) = (if 63 < k then - 1 else 0)"
  unfolding sign_mask_32 sign_mask_64
  using assms count_negative [of 64 k] count_negative [of k 65] count_negative [of k 64]
    count_negative [of 63 k]
  by (simp_all add: sless_scast diff_diff_eq)

lemma udivmodti4_high_nlz:
  assumes "s_high (twords_of a) \<noteq> 0"
  shows "nlz a = nlz (s_high (twords_of a))" and "a \<noteq> 0"
  using assms tw.nlz_split [of a] tw.zero_halves [of a] by (cases "a = 0"; simp)+

lemma udivmodti4_sr:
  assumes n: "s_high (twords_of a) \<noteq> 0" and d: "s_high (twords_of b) \<noteq> 0"
  shows "nlz b < nlz a \<Longrightarrow>
      63 < builtin_clz u (s_high (twords_of b)) - builtin_clz u (s_high (twords_of a))"
    and "nlz a \<le> nlz b \<Longrightarrow> k = nlz b - nlz a + 1 \<Longrightarrow>
      builtin_clz u (s_high (twords_of b)) - builtin_clz u (s_high (twords_of a)) = of_nat (k - 1)"
    and "nlz a \<le> nlz b \<Longrightarrow> k = nlz b - nlz a + 1 \<Longrightarrow> k \<le> 64"
proof -
  note c = clz_difference [OF d n, folded udivmodti4_high_nlz(1) [OF n] udivmodti4_high_nlz(1) [OF d]]
  show "nlz b < nlz a \<Longrightarrow> 63 < builtin_clz u (s_high (twords_of b)) - builtin_clz u (s_high (twords_of a))"
    using c(1) [of u] by (simp add: word_less_nat_alt)
  show "nlz a \<le> nlz b \<Longrightarrow> k = nlz b - nlz a + 1 \<Longrightarrow>
      builtin_clz u (s_high (twords_of b)) - builtin_clz u (s_high (twords_of a)) = of_nat (k - 1)"
    using c(2) [of u] by simp
  show "nlz a \<le> nlz b \<Longrightarrow> k = nlz b - nlz a + 1 \<Longrightarrow> k \<le> 64"
    using nlz_bounds(1) [OF d] udivmodti4_high_nlz(1) [OF d] by simp
qed

lemma udivmodti4_general_start:
  assumes n: "s_high (twords_of a) \<noteq> 0" and d: "s_high (twords_of b) \<noteq> 0"
  shows "nlz b < nlz a \<Longrightarrow> udivmodti4_general u rem (twords_of a) (twords_of b) = Inl (0, if rem then Some a else None)"
    and "nlz a \<le> nlz b \<Longrightarrow> k = nlz b - nlz a + 1 \<Longrightarrow>
      udivmodti4_general u rem (twords_of a) (twords_of b) = Inr (twords_of (push_bit (128 - k) a), twords_of (drop_bit k a), of_nat k)"
proof -
  show "nlz b < nlz a \<Longrightarrow> udivmodti4_general u rem (twords_of a) (twords_of b) = Inl (0, if rem then Some a else None)"
    using udivmodti4_sr(1) [OF n d, of u] by (simp add: udivmodti4_general_def tw.join_split)
  assume le: "nlz a \<le> nlz b" and k: "k = nlz b - nlz a + 1"
  note sr = udivmodti4_sr(2) [OF n d le k, of u]
  note kH = udivmodti4_sr(3) [OF n d le k]
  have ns: "\<not> (64 - 1 :: su_int) < of_nat (k - 1)"
    using kH unat_of_nat_small [of "k - 1"] by (simp add: word_less_nat_alt)
  have s1: "of_nat (k - 1) + 1 = (of_nat k :: su_int)" using k by simp
  have h: "64 - (of_nat k :: su_int) = of_nat (64 - k)" using kH by simp
  note u = udivmodti4_general_def Let_def sr s1 h if_not_P [OF ns]
  consider "k < 64" | "k = 64" using kH by linarith
  then show "udivmodti4_general u rem (twords_of a) (twords_of b) = Inr (twords_of (push_bit (128 - k) a), twords_of (drop_bit k a), of_nat k)"
  proof cases
    case 1
    have k0: "0 < k" using k by simp
    have c: "c_shl u x (of_nat (64 - k)) = push_bit (64 - k) x" "c_lshr u x (of_nat k) = drop_bit k x"
      for x :: "64 word" using 1 k0 by (intro c_shl_nat c_lshr_nat; simp)+
    have m: "signed_drop_bit 63 (scast (of_nat k - 64 :: si_int) :: di_int) = - 1" using count_mask_64(3) [of k] 1 by simp
    have "twords_of (push_bit (128 - k) a) = \<lparr> s_high = push_bit (64 - k) (s_low (twords_of a)), s_low = 0 \<rparr>"
      by (rule tw.splitI) (use tw.start_small [of k a] k0 1 in simp)
    moreover have "twords_of (drop_bit k a) = \<lparr> s_high = drop_bit k (s_high (twords_of a)),
        s_low = push_bit (64 - k) (s_high (twords_of a)) OR drop_bit k (s_low (twords_of a)) \<rparr>"
      by (rule tw.splitI) (use tw.lshr_near [of k a] k0 1 in simp)
    ultimately show ?thesis unfolding u c m by simp
  next
    case 2
    have c: "c_shl u x (of_nat (64 - k)) = x" for x :: "64 word" using 2 by (simp add: c_ops)
    have m: "signed_drop_bit 63 (scast (of_nat k - 64 :: si_int) :: di_int) = 0" using count_mask_64(3) [of k] 2 by simp
    have "twords_of (push_bit (128 - k) a) = \<lparr> s_high = s_low (twords_of a), s_low = 0 \<rparr>"
      by (rule tw.splitI) (use tw.start_half(1) [of a] 2 in simp)
    moreover have "twords_of (drop_bit k a) = \<lparr> s_high = 0, s_low = s_high (twords_of a) \<rparr>"
      by (rule tw.splitI) (use tw.start_half(2) [of a] 2 in simp)
    ultimately show ?thesis unfolding u c m by simp
  qed
qed

lemma udivmodti4_low_zero_start:
  assumes n: "s_high (twords_of a) \<noteq> 0" and d: "s_high (twords_of b) \<noteq> 0" and l: "s_low (twords_of b) = 0"
  shows "udivmodti4_low_zero u rem (twords_of a) (twords_of b) = Inl (a div b, if rem then Some (a mod b) else None) \<or>
    nlz a \<le> nlz b \<and> udivmodti4_low_zero u rem (twords_of a) (twords_of b) =
      Inr (twords_of (push_bit (128 - (nlz b - nlz a + 1)) a), twords_of (drop_bit (nlz b - nlz a + 1) a),
           of_nat (nlz b - nlz a + 1))"
proof -
  let ?hn = "s_high (twords_of a)" and ?hd = "s_high (twords_of b)"
  note q = tw.div_low_zero_word(1) [OF l, of a] and r = tw.div_low_zero_word(2) [OF l, of a]
  consider "s_low (twords_of a) = 0" | "s_low (twords_of a) \<noteq> 0" "?hd AND (?hd - 1) = 0"
    | "s_low (twords_of a) \<noteq> 0" "?hd AND (?hd - 1) \<noteq> 0" by blast
  then show ?thesis
  proof cases
    case 1
    then show ?thesis using q r d l by (simp add: udivmodti4_low_zero_def c_ops)
  next
    case 2
    note p = power_of_2_test [OF d 2(2)] and t = ntz_bit(3) [OF d]
    have "drop_bit (ntz ?hd) ?hn = ?hn div ?hd" and "?hn AND (?hd - 1) = ?hn mod ?hd"
      by (rule unsigned_word_eqI [where ?'a = nat];
        simp only: unat_drop_bit unat_div_distrib unat_mod_distrib p unat_and_mask)+
    moreover have "c_lshr u ?hn (builtin_ctz u ?hd) = drop_bit (ntz ?hd) ?hn"
      using d t by (simp add: builtin_ctz_def c_lshr_nat)
    ultimately show ?thesis using q r d 2 by (simp add: udivmodti4_low_zero_def)
  next
    case 3
    have h1: "nlz b \<noteq> 63"
    proof
      assume "nlz b = 63"
      then have "nlz ?hd = 63" using udivmodti4_high_nlz(1) [OF d] by simp
      then have "unat ?hd = 1" using nlz_bounds(2,3) [OF d] by simp
      then have "?hd = 1" by (simp add: word_unat_eq_iff)
      with 3(2) show False by simp
    qed
    show ?thesis
    proof (cases "nlz b < nlz a")
      case True
      then have "unat a < unat b"
        using nlz_le_iff [of a b] udivmodti4_high_nlz(2) [OF n] udivmodti4_high_nlz(2) [OF d] by simp
      then have "a div b = 0" "a mod b = a"
        by (auto intro!: unsigned_word_eqI [where ?'a = nat] simp: unat_div_distrib unat_mod_distrib)
      moreover have "64 - 2 < builtin_clz u ?hd - builtin_clz u ?hn"
        using udivmodti4_sr(1) [OF n d True, of u] by (simp add: word_less_nat_alt)
      ultimately show ?thesis using 3 d by (simp add: udivmodti4_low_zero_def tw.join_split)
    next
      case False
      define k where "k = nlz b - nlz a + 1"
      have le: "nlz a \<le> nlz b" using False by simp
      note sr = udivmodti4_sr(2) [OF n d le k_def, of u] and kH = udivmodti4_sr(3) [OF n d le k_def]
      have k: "0 < k" "k < 64" using kH h1 nlz_bounds(1) [OF d] udivmodti4_high_nlz(1) [OF d] by (auto simp: k_def)
      have ns: "\<not> (64 - 2 :: su_int) < of_nat (k - 1)"
        using k unat_of_nat_small [of "k - 1"] by (simp add: word_less_nat_alt)
      have s1: "of_nat (k - 1) + 1 = (of_nat k :: su_int)" using k by simp
      have h: "64 - (of_nat k :: su_int) = of_nat (64 - k)" using k by simp
      have c: "c_shl u x (of_nat (64 - k)) = push_bit (64 - k) x" "c_lshr u x (of_nat k) = drop_bit k x"
        for x :: "64 word" using k by (intro c_shl_nat c_lshr_nat; simp)+
      have "twords_of (push_bit (128 - k) a) = \<lparr> s_high = push_bit (64 - k) (s_low (twords_of a)), s_low = 0 \<rparr>"
        by (rule tw.splitI) (use tw.start_small [of k a] k in simp)
      moreover have "twords_of (drop_bit k a) = \<lparr> s_high = drop_bit k (s_high (twords_of a)),
          s_low = push_bit (64 - k) (s_high (twords_of a)) OR drop_bit k (s_low (twords_of a)) \<rparr>"
        by (rule tw.splitI) (use tw.lshr_near [of k a] k in simp)
      ultimately have "udivmodti4_low_zero u rem (twords_of a) (twords_of b) =
          Inr (twords_of (push_bit (128 - k) a), twords_of (drop_bit k a), of_nat k)"
        unfolding udivmodti4_low_zero_def Let_def sr s1 h c if_not_P [OF ns] using 3 d by simp
      with le show ?thesis unfolding k_def by blast
    qed
  qed
qed

lemma udivmodti4_high_zero_start:
  assumes n: "s_high (twords_of a) \<noteq> 0" and d: "s_high (twords_of b) = 0" and l: "s_low (twords_of b) \<noteq> 0"
  shows "udivmodti4_high_zero u rem (twords_of a) (twords_of b) = Inl (a div b, if rem then Some (a mod b) else None) \<or>
    nlz a \<le> nlz b \<and> udivmodti4_high_zero u rem (twords_of a) (twords_of b) =
      Inr (twords_of (push_bit (128 - (nlz b - nlz a + 1)) a), twords_of (drop_bit (nlz b - nlz a + 1) a),
           of_nat (nlz b - nlz a + 1))"
proof (cases "s_low (twords_of b) AND (s_low (twords_of b) - 1) = 0")
  case True
  let ?t = "ntz (s_low (twords_of b))"
  note p = power_of_2_test [OF l True] and t = ntz_bit(3) [OF l]
  note e = tw.div_power_of_2 [OF d p(1), of a, simplified, OF t [simplified]]
  show ?thesis
  proof (cases "s_low (twords_of b) = 1")
    case one: True
    have "?t = 0" unfolding one by (rule ntz_eqI) simp_all
    then show ?thesis using e p(2) one by (simp add: udivmodti4_high_zero_def tw.join_split)
  next
    case False
    then have t0: "0 < ?t" using p(1) by (metis bot_nat_0.not_eq_extremum power_0 unsigned_1 unsigned_word_eqI)
    have sr: "builtin_ctz u (s_low (twords_of b)) = of_nat ?t" using l by (simp add: builtin_ctz_def)
    have h: "64 - (of_nat ?t :: su_int) = of_nat (64 - ?t)" using t by simp
    have c: "c_shl u x (of_nat (64 - ?t)) = push_bit (64 - ?t) x" "c_lshr u x (of_nat ?t) = drop_bit ?t x"
      for x :: "64 word" using t t0 by (intro c_shl_nat c_lshr_nat; simp)+
    show ?thesis
      unfolding udivmodti4_high_zero_def Let_def sr h c
      using True False e p(2) tw.lshr_near [OF t0, of a] t by simp
  qed
next
  case False
  let ?ld = "s_low (twords_of b)" and ?hn = "s_high (twords_of a)"
  have b: "b \<noteq> 0" using l by (auto simp: tw.zero_halves)
  have nb: "nlz b = 64 + nlz ?ld" using tw.nlz_split [OF b] d by simp
  have na: "nlz a = nlz ?hn" by (rule udivmodti4_high_nlz(1) [OF n])
  note ba = nlz_bounds(1) [OF n] and bb = nlz_bounds(1) [OF l]
  have h1: "nlz ?ld \<noteq> 63"
  proof
    assume "nlz ?ld = 63"
    then have "unat ?ld = 1" using nlz_bounds(2,3) [OF l] by simp
    then have "?ld = 1" by (simp add: word_unat_eq_iff)
    with False show False by simp
  qed
  define k where "k = nlz b - nlz a + 1"
  have le: "nlz a \<le> nlz b" using na nb ba by simp
  have k: "0 < k" "k < 128" using nb na ba bb h1 by (auto simp: k_def)
  have sr: "1 + 64 + builtin_clz u ?ld - builtin_clz u ?hn = (of_nat k :: su_int)"
    using n l nb na ba unfolding k_def builtin_clz_def by (simp add: of_nat_diff)
  note u = udivmodti4_high_zero_def Let_def sr if_not_P [OF False]
  have "udivmodti4_high_zero u rem (twords_of a) (twords_of b) =
      Inr (twords_of (push_bit (128 - k) a), twords_of (drop_bit k a), of_nat k)"
  proof -
    consider "k < 64" | "k = 64" | "64 < k" by linarith
    then show ?thesis
    proof cases
      case 1
      have m1: "signed_drop_bit 63 (scast (64 - of_nat k :: si_int) :: di_int) = 0" "signed_drop_bit 63 (scast (of_nat k - 64 - 1 :: si_int) :: di_int) = - 1" "signed_drop_bit 63 (scast (of_nat k - 64 :: si_int) :: di_int) = - 1" "signed_drop_bit 63 (scast (64 - of_nat k - 1 :: si_int) :: di_int) = 0"
        using count_mask_64 [of k] 1 k by (simp_all only:) simp_all
      have h: "64 - (of_nat k :: su_int) = of_nat (64 - k)" using 1 by simp
      have c: "c_shl u x (of_nat (64 - k)) = push_bit (64 - k) x" "c_lshr u x (of_nat k) = drop_bit k x"
        for x :: "64 word" using 1 k by (intro c_shl_nat c_lshr_nat; simp)+
      have "twords_of (push_bit (128 - k) a) = \<lparr> s_high = push_bit (64 - k) (s_low (twords_of a)), s_low = 0 \<rparr>"
        by (rule tw.splitI) (use tw.start_small [of k a] k 1 in simp)
      moreover have "twords_of (drop_bit k a) = \<lparr> s_high = drop_bit k (s_high (twords_of a)),
          s_low = push_bit (64 - k) (s_high (twords_of a)) OR drop_bit k (s_low (twords_of a)) \<rparr>"
        by (rule tw.splitI) (use tw.lshr_near [of k a] k 1 in simp)
      ultimately show ?thesis unfolding u unfolding m1 unfolding h c by simp
    next
      case 2
      have m1: "signed_drop_bit 63 (scast (64 - of_nat k :: si_int) :: di_int) = 0" "signed_drop_bit 63 (scast (of_nat k - 64 - 1 :: si_int) :: di_int) = - 1" "signed_drop_bit 63 (scast (of_nat k - 64 :: si_int) :: di_int) = 0" "signed_drop_bit 63 (scast (64 - of_nat k - 1 :: si_int) :: di_int) = - 1"
        using count_mask_64 [of k] 2 k by (simp_all only:) simp_all
      have "twords_of (push_bit (128 - k) a) = \<lparr> s_high = s_low (twords_of a), s_low = 0 \<rparr>"
        by (rule tw.splitI) (use tw.start_half(1) [of a] 2 in simp)
      moreover have "twords_of (drop_bit k a) = \<lparr> s_high = 0, s_low = s_high (twords_of a) \<rparr>"
        by (rule tw.splitI) (use tw.start_half(2) [of a] 2 in simp)
      moreover have "c_shl u x (64 - of_nat k) = x" "c_lshr u x (of_nat k - 64) = x" for x :: "64 word"
        using 2 by (simp_all add: c_ops)
      ultimately show ?thesis unfolding u unfolding m1 by simp
    next
      case 3
      have m1: "signed_drop_bit 63 (scast (64 - of_nat k :: si_int) :: di_int) = - 1" "signed_drop_bit 63 (scast (of_nat k - 64 - 1 :: si_int) :: di_int) = 0" "signed_drop_bit 63 (scast (of_nat k - 64 :: si_int) :: di_int) = 0" "signed_drop_bit 63 (scast (64 - of_nat k - 1 :: si_int) :: di_int) = - 1"
        using count_mask_64 [of k] 3 k by (simp_all only:) simp_all
      have h: "128 - (of_nat k :: su_int) = of_nat (128 - k)" "of_nat k - (64 :: su_int) = of_nat (k - 64)"
        using 3 k by simp_all
      have c: "c_shl u x (of_nat (128 - k)) = push_bit (128 - k) x"
        "c_lshr u x (of_nat (k - 64)) = drop_bit (k - 64) x"
        for x :: "64 word" using 3 k by (intro c_shl_nat c_lshr_nat; simp)+
      have "twords_of (push_bit (128 - k) a) = \<lparr> s_high = push_bit (128 - k) (s_high (twords_of a)) OR
          drop_bit (k - 64) (s_low (twords_of a)), s_low = push_bit (128 - k) (s_low (twords_of a)) \<rparr>"
        by (rule tw.splitI) (use tw.start_big(1) [of k a] k 3 in simp)
      moreover have "twords_of (drop_bit k a) = \<lparr> s_high = 0, s_low = drop_bit (k - 64) (s_high (twords_of a)) \<rparr>"
        by (rule tw.splitI) (use tw.start_big(2) [of k a] k 3 in simp)
      ultimately show ?thesis unfolding u unfolding m1 unfolding h c by simp
    qed
  qed
  with le show ?thesis unfolding k_def by blast
qed

lemma udivmodti4_eq:
  assumes b: "b \<noteq> 0"
  shows "udivmodti4 u a b rem = (a div b, if rem then Some (a mod b) else None)"
proof (cases "s_high (twords_of a) = 0")
  case True
  note s = tw.div_small [OF True, of b]
  show ?thesis
  proof (cases "s_high (twords_of b) = 0")
    case d: True
    then have "s_low (twords_of b) \<noteq> 0" using b by (simp add: tw.zero_halves)
    then show ?thesis using True d s(1,2) by (simp add: udivmodti4_def c_ops)
  qed (use True s(3,4) in \<open>simp add: udivmodti4_def\<close>)
next
  case n: False
  define k where "k = nlz b - nlz a + 1"
  define st where "st = (if s_low (twords_of b) = 0 then udivmodti4_low_zero u rem (twords_of a) (twords_of b)
    else if s_high (twords_of b) = 0 then udivmodti4_high_zero u rem (twords_of a) (twords_of b)
    else udivmodti4_general u rem (twords_of a) (twords_of b))"
  have a: "a \<noteq> 0" by (rule udivmodti4_high_nlz(2) [OF n])
  have st: "st = Inl (a div b, if rem then Some (a mod b) else None) \<or>
    nlz a \<le> nlz b \<and> st = Inr (twords_of (push_bit (128 - k) a), twords_of (drop_bit k a), of_nat k)"
  proof -
    consider "s_low (twords_of b) = 0" "s_high (twords_of b) \<noteq> 0"
      | "s_low (twords_of b) \<noteq> 0" "s_high (twords_of b) = 0"
      | "s_low (twords_of b) \<noteq> 0" "s_high (twords_of b) \<noteq> 0" "nlz b < nlz a"
      | "s_low (twords_of b) \<noteq> 0" "s_high (twords_of b) \<noteq> 0" "nlz a \<le> nlz b"
      using b unfolding tw.zero_halves by (meson not_le)
    then show ?thesis
    proof cases
      case 1
      then show ?thesis using udivmodti4_low_zero_start [OF n, of b u rem] by (simp add: st_def k_def)
    next
      case 2
      then show ?thesis using udivmodti4_high_zero_start [OF n, of b u rem] by (simp add: st_def k_def)
    next
      case 3
      then have "unat a < unat b" using nlz_le_iff [OF a b] by simp
      then have "a div b = 0" "a mod b = a"
        by (auto intro!: unsigned_word_eqI [where ?'a = nat] simp: unat_div_distrib unat_mod_distrib)
      then show ?thesis using 3 udivmodti4_general_start(1) [OF n, of b u rem] by (simp add: st_def)
    next
      case 4
      then show ?thesis using udivmodti4_general_start(2) [OF n, of b k u rem] by (simp add: st_def k_def)
    qed
  qed
  have f: "udivmodti4 u a b rem = (case st of Inl result \<Rightarrow> result
    | Inr (q, r, sr) \<Rightarrow> let (q, r, carry) = udivmodti4_loop (unat sr) (twords_of b) q r 0;
        q = push_bit 1 (twords_all q) OR ucast carry in (q, if rem then Some (twords_all r) else None))"
    unfolding udivmodti4_def Let_def st_def using n by simp
  from st show ?thesis
  proof
    assume s: "nlz a \<le> nlz b \<and> st = Inr (twords_of (push_bit (128 - k) a), twords_of (drop_bit k a), of_nat k)"
    then have le: "nlz a \<le> nlz b" by simp
    have k: "unat (of_nat k :: su_int) = k"
      using aligned(1) [OF a b le] by (intro unat_of_nat_small) (simp add: k_def)
    obtain q c where l: "div_loop k b (push_bit (128 - k) a) (drop_bit k a) 0 = (q, a mod b, c)"
      and q: "push_bit 1 q OR c = a div b"
      using div_loop_correct [OF aligned [OF a b le]] unfolding k_def by auto
    obtain q' r' c' where l': "udivmodti4_loop k (twords_of b) (twords_of (push_bit (128 - k) a)) (twords_of (drop_bit k a)) 0 = (q', r', c')"
      and e: "div_loop k b (push_bit (128 - k) a) (drop_bit k a) 0 = (twords_all q', twords_all r', ucast c')"
      using udivmodti4_loop_div_loop [of 0 k "twords_of b" "twords_of (push_bit (128 - k) a)" "twords_of (drop_bit k a)"]
      unfolding tw.join_split by auto
    show ?thesis using s l e q unfolding f by (auto simp: k l')
  qed (simp add: f)
qed

section \<open>Properties\<close>

text \<open>the 64-bit division yields quotient and remainder for every nonzero divisor, whatever the
  out-of-range shifts of its alignment yield, and stores the remainder exactly when it is asked for.\<close>

lemma udivmoddi4_divides:
  assumes "b \<noteq> 0"
  shows "\<exists>q r. udivmoddi4 u a b True = (q, Some r) \<and> udivmoddi4 u a b False = (q, None) \<and>
    uint a = uint q * uint b + uint r \<and> uint r < uint b"
proof -
  have "0 < uint b" using assms by (rule uint_pos)
  then have "uint a mod uint b < uint b" by simp
  then show ?thesis using assms by (simp add: udivmoddi4_eq uint_div uint_mod)
qed

text \<open>the 128-bit division likewise.\<close>

lemma udivmodti4_divides:
  assumes "b \<noteq> 0"
  shows "\<exists>q r. udivmodti4 u a b True = (q, Some r) \<and> udivmodti4 u a b False = (q, None) \<and>
    uint a = uint q * uint b + uint r \<and> uint r < uint b"
proof -
  have "0 < uint b" using assms by (rule uint_pos)
  then have "uint a mod uint b < uint b" by simp
  then show ?thesis using assms by (simp add: udivmodti4_eq uint_div uint_mod)
qed

text \<open>C1: For every nonzero divisor the 64- and the 128-bit routine return the quotient and, exactly when asked
  for it, store the remainder, whatever the undefined operations would yield.\<close>

theorem wide_division:
  assumes "b \<noteq> 0" and "f \<noteq> 0"
  shows "(\<exists>q r. udivmoddi4 u a b True = (q, Some r) \<and> udivmoddi4 u a b False = (q, None) \<and>
    uint a = uint q * uint b + uint r \<and> uint r < uint b) \<and>
    (\<exists>q r. udivmodti4 u e f True = (q, Some r) \<and> udivmodti4 u e f False = (q, None) \<and>
    uint e = uint q * uint f + uint r \<and> uint r < uint f)"
  by (rule conjI [OF udivmoddi4_divides [OF assms(1)] udivmodti4_divides [OF assms(2)]])

theorem wide_division_witness:
  "(\<exists>q r. udivmoddi4 (\<lambda>_ _ _ _. 7) 0xFFFFFFFF00000001 0x100000003 True = (q, Some r) \<and>
      (0xFFFFFFFF00000001 :: int) = uint q * 0x100000003 + uint r \<and> uint r < 0x100000003) \<and>
    (\<exists>q r. udivmodti4 (\<lambda>_ _ _ _. 7) (2 ^ 127) 10 True = (q, Some r) \<and>
      (2 ^ 127 :: int) = uint q * 10 + uint r \<and> uint r < 10)"
  using wide_division [of "0x100000003" 10 "\<lambda>_ _ _ _. 7" "0xFFFFFFFF00000001" "2 ^ 127"] by auto

end
