(* ===== verification/Divide_Signed.thy ===== *)
theory Divide_Signed
  imports Divide_Wide Overflow
begin

unbundle bit_operations_syntax

text \<open>
  The divisions built on an unsigned one: \<^verbatim>\<open>lib/divsi3.c\<close>, \<^verbatim>\<open>lib/modsi3.c\<close>,
  \<^verbatim>\<open>lib/umodsi3.c\<close>, \<^verbatim>\<open>lib/udivmodsi4.c\<close>, \<^verbatim>\<open>lib/divmodsi4.c\<close> and their wide
  versions \<^verbatim>\<open>lib/divdi3.c\<close>, \<^verbatim>\<open>lib/moddi3.c\<close>, \<^verbatim>\<open>lib/udivdi3.c\<close>,
  \<^verbatim>\<open>lib/umoddi3.c\<close>, \<^verbatim>\<open>lib/divmoddi4.c\<close>, \<^verbatim>\<open>lib/divti3.c\<close>, \<^verbatim>\<open>lib/modti3.c\<close>,
  \<^verbatim>\<open>lib/udivti3.c\<close>, \<^verbatim>\<open>lib/umodti3.c\<close>. A signed division takes the signs off by
  \<open>(a XOR s) - s\<close>, divides, and puts the sign of the result on in the same way; a modulus is either
  computed so or as \<open>a - q * b\<close>.

  What they rely on is the locale \<open>udivider\<close>; it is interpreted on every unsigned division of the
  library.
\<close>

section \<open>The code\<close>

definition divsi3 :: "ub \<Rightarrow> si_int \<Rightarrow> si_int \<Rightarrow> si_int" where
  "divsi3 u a b =
    (let s_a = signed_drop_bit 31 a;
         s_b = signed_drop_bit 31 b;
         a = (a XOR s_a) - s_a;
         b = (b XOR s_b) - s_b;
         s_a = s_a XOR s_b
     in (c_udiv u a b XOR s_a) - s_a)"

definition modsi3 :: "ub \<Rightarrow> si_int \<Rightarrow> si_int \<Rightarrow> si_int" where
  "modsi3 u a b = a - divsi3 u a b * b"

definition umodsi3 :: "ub \<Rightarrow> su_int \<Rightarrow> su_int \<Rightarrow> su_int" where
  "umodsi3 u a b = a - udivsi3 u a b * b"

definition udivmodsi4 :: "ub \<Rightarrow> su_int \<Rightarrow> su_int \<Rightarrow> su_int \<times> su_int" where
  "udivmodsi4 u a b = (let d = udivsi3 u a b in (d, a - d * b))"

definition divmodsi4 :: "ub \<Rightarrow> si_int \<Rightarrow> si_int \<Rightarrow> si_int \<times> si_int" where
  "divmodsi4 u a b = (let d = divsi3 u a b in (d, a - d * b))"

definition divdi3 :: "ub \<Rightarrow> di_int \<Rightarrow> di_int \<Rightarrow> di_int" where
  "divdi3 u a b =
    (let s_a = signed_drop_bit 63 a;
         s_b = signed_drop_bit 63 b;
         a = (a XOR s_a) - s_a;
         b = (b XOR s_b) - s_b;
         s_a = s_a XOR s_b
     in (fst (udivmoddi4 u a b False) XOR s_a) - s_a)"

definition moddi3 :: "ub \<Rightarrow> di_int \<Rightarrow> di_int \<Rightarrow> di_int" where
  "moddi3 u a b =
    (let s = signed_drop_bit 63 b;
         b = (b XOR s) - s;
         s = signed_drop_bit 63 a;
         a = (a XOR s) - s;
         r = the (snd (udivmoddi4 u a b True))
     in (r XOR s) - s)"

definition udivdi3 :: "ub \<Rightarrow> du_int \<Rightarrow> du_int \<Rightarrow> du_int" where
  "udivdi3 u a b = fst (udivmoddi4 u a b False)"

definition umoddi3 :: "ub \<Rightarrow> du_int \<Rightarrow> du_int \<Rightarrow> du_int" where
  "umoddi3 u a b = (let r = the (snd (udivmoddi4 u a b True)) in r)"

definition divmoddi4 :: "ub \<Rightarrow> di_int \<Rightarrow> di_int \<Rightarrow> di_int \<times> di_int" where
  "divmoddi4 u a b = (let d = divdi3 u a b in (d, a - d * b))"

definition divti3 :: "ub \<Rightarrow> ti_int \<Rightarrow> ti_int \<Rightarrow> ti_int" where
  "divti3 u a b =
    (let s_a = signed_drop_bit 127 a;
         s_b = signed_drop_bit 127 b;
         a = (a XOR s_a) - s_a;
         b = (b XOR s_b) - s_b;
         s_a = s_a XOR s_b
     in (fst (udivmodti4 u a b False) XOR s_a) - s_a)"

definition modti3 :: "ub \<Rightarrow> ti_int \<Rightarrow> ti_int \<Rightarrow> ti_int" where
  "modti3 u a b =
    (let s = signed_drop_bit 127 b;
         b = (b XOR s) - s;
         s = signed_drop_bit 127 a;
         a = (a XOR s) - s;
         r = the (snd (udivmodti4 u a b True))
     in (r XOR s) - s)"

definition udivti3 :: "ub \<Rightarrow> tu_int \<Rightarrow> tu_int \<Rightarrow> tu_int" where
  "udivti3 u a b = fst (udivmodti4 u a b False)"

definition umodti3 :: "ub \<Rightarrow> tu_int \<Rightarrow> tu_int \<Rightarrow> tu_int" where
  "umodti3 u a b = (let r = the (snd (udivmodti4 u a b True)) in r)"

section \<open>The interface\<close>

lemma uint_word_abs: "uint (word_abs a) = \<bar>sint a\<bar>" for a :: "'a::len word"
proof (cases "sint a < 0")
  case True
  then have s: "uint a = sint a + 2 ^ LENGTH('a)" and b: "a \<noteq> 0"
    using sint_uint_cases [of a] uint_ge_0 [of a] by (auto split: if_splits)
  have "word_abs a = - a" using True by (simp add: word_abs_def sgn_mask_eq not_eq_complement)
  then have "uint (word_abs a) = int (2 ^ LENGTH('a) - unat a)"
    using b unat_minus_word [of a] by (metis uint_nat)
  also have "\<dots> = 2 ^ LENGTH('a) - uint a" by (simp add: of_nat_diff less_imp_le)
  finally show ?thesis using s True by simp
next
  case False
  then have "uint a = sint a"
    using sint_uint_cases [of a] uint_lt2p [of a] by (auto split: if_splits)
  then show ?thesis using False by (simp add: word_abs_def sgn_mask_eq)
qed

lemma put_sign: "(x XOR s) - s = (if s = 0 then x else - x)" if "s = 0 \<or> s = - 1" for x s :: "'a::len word"
  using that by (auto simp: not_eq_complement)

lemma sgn_mask_cases: "sgn_mask a = 0 \<or> sgn_mask a = - 1"
  by (simp add: sgn_mask_eq)

lemma sgn_mask_xor: "sgn_mask a XOR sgn_mask b = (if (sint a < 0) = (sint b < 0) then 0 else - 1)"
  by (simp add: sgn_mask_eq)

lemma word_abs_0: "word_abs a = 0 \<longleftrightarrow> a = 0" for a :: "'a::len word"
proof -
  have "word_abs a = 0 \<longleftrightarrow> uint (word_abs a) = 0" by (simp add: uint_0_iff)
  also have "\<dots> \<longleftrightarrow> sint a = 0" by (simp add: uint_word_abs)
  also have "\<dots> \<longleftrightarrow> a = 0" by (metis sint_0 word_eq_iff_signed)
  finally show ?thesis .
qed

text \<open>An unsigned division: the quotient for every divisor but zero.\<close>

locale udivider =
  fixes quot :: "'a::len word \<Rightarrow> 'a word \<Rightarrow> 'a word"
  assumes quot: "d \<noteq> 0 \<Longrightarrow> quot n d = n div d"
begin

lemma signed_quot:
  assumes "b \<noteq> 0"
  shows "(quot (word_abs a) (word_abs b) XOR (sgn_mask a XOR sgn_mask b)) - (sgn_mask a XOR sgn_mask b)
    = word_of_int (sint a sdiv sint b)"
proof -
  have q: "quot (word_abs a) (word_abs b) = word_of_int (\<bar>sint a\<bar> div \<bar>sint b\<bar>)"
    using assms by (subst quot) (simp_all add: word_abs_0 word_div_def uint_word_abs)
  show ?thesis
    unfolding q sgn_mask_xor put_sign
    by (subst put_sign) (auto simp: signed_divide_int_def sgn_if)
qed

lemma quot_remainder: "d \<noteq> 0 \<Longrightarrow> n - quot n d * d = n mod d"
  by (simp add: quot minus_div_mult_eq_mod)

end

text \<open>A division that also yields the remainder.\<close>

locale udivmodder = udivider quot for quot :: "'a::len word \<Rightarrow> 'a word \<Rightarrow> 'a word" +
  fixes remd :: "'a word \<Rightarrow> 'a word \<Rightarrow> 'a word"
  assumes remd: "d \<noteq> 0 \<Longrightarrow> remd n d = n mod d"
begin

lemma signed_remd:
  assumes "b \<noteq> 0"
  shows "(remd (word_abs a) (word_abs b) XOR sgn_mask a) - sgn_mask a = word_of_int (sint a smod sint b)"
proof -
  have r: "remd (word_abs a) (word_abs b) = word_of_int (\<bar>sint a\<bar> mod \<bar>sint b\<bar>)"
    using assms by (subst remd) (simp_all add: word_abs_0 word_mod_def uint_word_abs)
  show ?thesis
    unfolding r sgn_mask_eq
    by (subst put_sign) (auto simp: signed_modulo_int_def sgn_if)
qed

lemma division: "d \<noteq> 0 \<Longrightarrow> quot n d * d + remd n d = n"
  by (simp add: quot remd flip: minus_div_mult_eq_mod)

end

text \<open>The divisions of the library that meet the contract: the language's own, which the compiler
  turns into a call on targets without a divide instruction, the three routines for 32 bits, and
  those for 64 and 128 bits.\<close>

interpretation lang32: udivider "c_udiv u :: su_int \<Rightarrow> su_int \<Rightarrow> su_int" for u
  by unfold_locales (simp add: c_ops)

interpretation usi: udivider "udivsi3 u" for u
  by unfold_locales (simp add: udivsi3_eq)

interpretation patmos: udivmodder patmos_udivsi3 "\<lambda>n d. snd (patmos_udivmodsi4 n d)"
  by unfold_locales (simp_all add: patmos_udivsi3_eq patmos_udivmodsi4_eq)

interpretation udi: udivmodder "udivdi3 u" "umoddi3 u" for u
  by unfold_locales (simp_all add: udivdi3_def umoddi3_def udivmoddi4_eq)

interpretation uti: udivmodder "udivti3 u" "umodti3 u" for u
  by unfold_locales (simp_all add: udivti3_def umodti3_def udivmodti4_eq)

section \<open>The functional behaviour\<close>

lemma signed_remainder_word:
  "a - word_of_int (sint a sdiv sint b) * b = word_of_int (sint a smod sint b)" for a b :: "'a::len word"
proof -
  have "a - word_of_int (sint a sdiv sint b) * b = word_of_int (sint a - sint a sdiv sint b * sint b)"
    by simp
  then show ?thesis by (simp add: minus_sdiv_mult_eq_smod)
qed

lemma divsi3_eq: "b \<noteq> 0 \<Longrightarrow> divsi3 u a b = word_of_int (sint a sdiv sint b)"
  using lang32.signed_quot [of b u a]
  unfolding divsi3_def Let_def word_abs_def sgn_mask_32 by simp

lemma modsi3_eq: "b \<noteq> 0 \<Longrightarrow> modsi3 u a b = word_of_int (sint a smod sint b)"
  unfolding modsi3_def by (simp only: divsi3_eq signed_remainder_word not_False_eq_True)

lemma umodsi3_eq: "umodsi3 u a b = (if b = 0 then a else a mod b)"
  using usi.quot_remainder [of b a u] by (simp add: umodsi3_def udivsi3_eq)

lemma udivmodsi4_eq: "b \<noteq> 0 \<Longrightarrow> udivmodsi4 u a b = (a div b, a mod b)"
  using usi.quot_remainder [of b a u] by (simp add: udivmodsi4_def Let_def udivsi3_eq)

lemma divmodsi4_eq:
  "b \<noteq> 0 \<Longrightarrow> divmodsi4 u a b = (word_of_int (sint a sdiv sint b), word_of_int (sint a smod sint b))"
  unfolding divmodsi4_def Let_def by (simp only: divsi3_eq signed_remainder_word not_False_eq_True)

lemma divdi3_eq: "b \<noteq> 0 \<Longrightarrow> divdi3 u a b = word_of_int (sint a sdiv sint b)"
  using udi.signed_quot [of b u a]
  unfolding divdi3_def Let_def word_abs_def sgn_mask_64 udivdi3_def by simp

lemma moddi3_eq: "b \<noteq> 0 \<Longrightarrow> moddi3 u a b = word_of_int (sint a smod sint b)"
  using udi.signed_remd [of b u a]
  unfolding moddi3_def Let_def word_abs_def sgn_mask_64 umoddi3_def by simp

lemma divmoddi4_eq:
  "b \<noteq> 0 \<Longrightarrow> divmoddi4 u a b = (word_of_int (sint a sdiv sint b), word_of_int (sint a smod sint b))"
  unfolding divmoddi4_def Let_def by (simp only: divdi3_eq signed_remainder_word not_False_eq_True)

lemma divti3_eq: "b \<noteq> 0 \<Longrightarrow> divti3 u a b = word_of_int (sint a sdiv sint b)"
  using uti.signed_quot [of b u a]
  unfolding divti3_def Let_def word_abs_def sgn_mask_128 udivti3_def by simp

lemma modti3_eq: "b \<noteq> 0 \<Longrightarrow> modti3 u a b = word_of_int (sint a smod sint b)"
  using uti.signed_remd [of b u a]
  unfolding modti3_def Let_def word_abs_def sgn_mask_128 umodti3_def by simp

lemma udivdi3_eq: "b \<noteq> 0 \<Longrightarrow> udivdi3 u a b = a div b" and umoddi3_eq: "b \<noteq> 0 \<Longrightarrow> umoddi3 u a b = a mod b"
  by (fact udi.quot, fact udi.remd)

lemma udivti3_eq: "b \<noteq> 0 \<Longrightarrow> udivti3 u a b = a div b" and umodti3_eq: "b \<noteq> 0 \<Longrightarrow> umodti3 u a b = a mod b"
  by (fact uti.quot, fact uti.remd)

lemma sint_smod:
  fixes a b :: "'a::len word"
  assumes "b \<noteq> 0"
  shows "sint (word_of_int (sint a smod sint b) :: 'a word) = sint a smod sint b"
proof (rule sint_of_int)
  have "sint b \<noteq> 0" using assms by (metis sint_0 word_eq_iff_signed)
  then have "\<bar>sint a\<bar> mod \<bar>sint b\<bar> < \<bar>sint b\<bar>" "0 \<le> \<bar>sint a\<bar> mod \<bar>sint b\<bar>" by simp_all
  then have "\<bar>sint a smod sint b\<bar> < \<bar>sint b\<bar>"
    by (auto simp: signed_modulo_int_def abs_mult sgn_if)
  then show "sfits LENGTH('a) (sint a smod sint b)"
    using sint_ge [of b] sint_lt [of b] unfolding sfits_def by linarith
qed

section \<open>Properties\<close>

text \<open>the signed divisions truncate toward zero at every width, except that the least number
  divided by -1, whose quotient the type does not have, wraps around.\<close>

lemma signed_quotients:
  assumes "b \<noteq> 0" and "d \<noteq> 0" and "f \<noteq> 0"
  shows "divsi3 u a b = word_of_int (sint a sdiv sint b) \<and>
    divdi3 u c d = word_of_int (sint c sdiv sint d) \<and>
    divti3 u e f = word_of_int (sint e sdiv sint f)"
  using assms by (simp add: divsi3_eq divdi3_eq divti3_eq)

text \<open>the signed remainders have the sign of the dividend, are below the divisor in size, and
  complete the truncated quotient.\<close>

lemma signed_remainders:
  assumes "b \<noteq> 0" and "d \<noteq> 0" and "f \<noteq> 0"
  shows "sint (modsi3 u a b) = sint a smod sint b \<and> sint (moddi3 u c d) = sint c smod sint d \<and>
    sint (modti3 u e f) = sint e smod sint f \<and>
    divmodsi4 u a b = (divsi3 u a b, modsi3 u a b) \<and> divmoddi4 u c d = (divdi3 u c d, moddi3 u c d)"
  using assms
  by (simp add: modsi3_eq moddi3_eq modti3_eq divmodsi4_eq divmoddi4_eq divsi3_eq divdi3_eq sint_smod)

text \<open>the unsigned quotient and remainder routines of all widths satisfy the division equation.\<close>

theorem unsigned_division_family:
  assumes "b \<noteq> 0" and "d \<noteq> 0" and "f \<noteq> 0"
  shows "udivsi3 u a b * b + umodsi3 u a b = a \<and> umodsi3 u a b < b \<and>
    udivmodsi4 u a b = (udivsi3 u a b, umodsi3 u a b) \<and>
    udivdi3 u c d * d + umoddi3 u c d = c \<and> umoddi3 u c d < d \<and>
    udivti3 u e f * f + umodti3 u e f = e \<and> umodti3 u e f < f"
proof -
  have "a div b * b + a mod b = a" by (simp flip: minus_div_mult_eq_mod)
  then show ?thesis
    using assms udi.division [of d u c] uti.division [of f u e]
    by (simp add: umodsi3_eq udivmodsi4_eq umoddi3_eq umodti3_eq word_mod_less_divisor word_gt_0 udivsi3_eq)
qed

theorem unsigned_division_family_witness:
  "umodsi3 (\<lambda>_ _ _ _. 0) 100 7 < (7 :: su_int) \<and> umoddi3 (\<lambda>_ _ _ _. 0) 100 7 < (7 :: du_int)"
  using unsigned_division_family [of 7 7 7 "\<lambda>_ _ _ _. 0" 100 100 100] by simp

text \<open>C4: The signed quotients truncate toward zero and the remainders have the sign of the dividend, at every
  width; the combined routines return both.\<close>

theorem signed_division:
  assumes "b \<noteq> 0" and "d \<noteq> 0" and "f \<noteq> 0"
  shows "(divsi3 u a b = word_of_int (sint a sdiv sint b) \<and>
    divdi3 u c d = word_of_int (sint c sdiv sint d) \<and>
    divti3 u e f = word_of_int (sint e sdiv sint f)) \<and>
    (sint (modsi3 u a b) = sint a smod sint b \<and> sint (moddi3 u c d) = sint c smod sint d \<and>
    sint (modti3 u e f) = sint e smod sint f \<and>
    divmodsi4 u a b = (divsi3 u a b, modsi3 u a b) \<and> divmoddi4 u c d = (divdi3 u c d, moddi3 u c d))"
  by (rule conjI [OF signed_quotients [OF assms] signed_remainders [OF assms]])

theorem signed_division_witness:
  "divsi3 (\<lambda>_ _ _ _. 0) (- 7) 2 = - 3 \<and> divdi3 (\<lambda>_ _ _ _. 0) (- 7) 2 = - 3 \<and> divti3 (\<lambda>_ _ _ _. 0) (- 7) 2 = - 3 \<and>
    sint (modsi3 (\<lambda>_ _ _ _. 0) (- 7) 2) = - 1 \<and> sint (moddi3 (\<lambda>_ _ _ _. 0) (- 7) 2) = - 1"
  using signed_division [of 2 2 2 "\<lambda>_ _ _ _. 0" "- 7" "- 7" "- 7"] by (simp add: signed_divide_int_def signed_modulo_int_def)

end
