(* ===== verification/Fp_Format.thy ===== *)
theory Fp_Format
  imports Complex_Main BitCount Multiply
begin

unbundle bit_operations_syntax

text \<open>
  What \<^verbatim>\<open>lib/fp_lib.h\<close> gives to the soft-float routines. The header is included once with
  \<^verbatim>\<open>SINGLE_PRECISION\<close> and once with \<^verbatim>\<open>DOUBLE_PRECISION\<close>; what the two branches define
  (the number of significand bits, \<^verbatim>\<open>rep_clz\<close>, \<^verbatim>\<open>wideMultiply\<close>) is a record \<open>fp_lib\<close>,
  and the macros below them are functions of that record. A floating-point number is its bit
  pattern, so \<^verbatim>\<open>toRep\<close> and \<^verbatim>\<open>fromRep\<close> are the identity. An exponent is a C
  \<^verbatim>\<open>int\<close>; the exponents of both formats are far from its bounds, and it is an \<open>int\<close> here.

  The second half is the specification: the number a pattern stands for, rounding to nearest with
  ties to even as a relation, and the lemmas by which a routine that truncates and then inspects
  the discarded digits is shown to round so. The locale \<open>fp_format\<close> states what the routines need of
  a format.
\<close>

section \<open>The header\<close>

record 'r fp_lib =
  significandBits :: nat
  rep_clz :: "ub \<Rightarrow> 'r \<Rightarrow> int"
  wideMultiply :: "'r \<Rightarrow> 'r \<Rightarrow> 'r \<times> 'r"

definition rep_clz_single :: "ub \<Rightarrow> su_int \<Rightarrow> int" where
  "rep_clz_single u a = sint (builtin_clz u a)"

definition wideMultiply_single :: "su_int \<Rightarrow> su_int \<Rightarrow> su_int \<times> su_int" where
  "wideMultiply_single a b =
    (let product = (ucast a :: du_int) * ucast b in (ucast (drop_bit 32 product), ucast product))"

definition single :: "su_int fp_lib" where
  "single = \<lparr> significandBits = 23, rep_clz = rep_clz_single, wideMultiply = wideMultiply_single \<rparr>"

text \<open>The branch without \<^verbatim>\<open>__LP64__\<close>, which is that of a 32-bit target.\<close>

definition rep_clz_double :: "ub \<Rightarrow> du_int \<Rightarrow> int" where
  "rep_clz_double u a =
    (if a AND 0xffffffff00000000 \<noteq> 0 then sint (builtin_clz u (ucast (drop_bit 32 a) :: su_int))
     else 32 + sint (builtin_clz u (ucast (a AND 0xffffffff) :: su_int)))"

definition loWord :: "du_int \<Rightarrow> du_int" where "loWord a = a AND 0xffffffff"
definition hiWord :: "du_int \<Rightarrow> du_int" where "hiWord a = drop_bit 32 a"

definition wideMultiply_double :: "du_int \<Rightarrow> du_int \<Rightarrow> du_int \<times> du_int" where
  "wideMultiply_double a b =
    (let plolo = loWord a * loWord b;
         plohi = loWord a * hiWord b;
         philo = hiWord a * loWord b;
         phihi = hiWord a * hiWord b;
         r0 = loWord plolo;
         r1 = hiWord plolo + loWord plohi + loWord philo;
         lo = r0 + push_bit 32 r1;
         hi = hiWord plohi + hiWord philo + hiWord r1 + phihi
     in (hi, lo))"

definition double :: "du_int fp_lib" where
  "double = \<lparr> significandBits = 52, rep_clz = rep_clz_double, wideMultiply = wideMultiply_double \<rparr>"

definition exponentBits :: "'r::len word fp_lib \<Rightarrow> nat" where
  "exponentBits F = LENGTH('r) - significandBits F - 1"

definition maxExponent :: "'r::len word fp_lib \<Rightarrow> int" where
  "maxExponent F = 2 ^ exponentBits F - 1"

definition exponentBias :: "'r::len word fp_lib \<Rightarrow> int" where
  "exponentBias F = maxExponent F div 2"

definition implicitBit :: "'r::len word fp_lib \<Rightarrow> 'r word" where
  "implicitBit F = push_bit (significandBits F) 1"

definition significandMask :: "'r::len word fp_lib \<Rightarrow> 'r word" where
  "significandMask F = implicitBit F - 1"

definition signBit :: "'r::len word fp_lib \<Rightarrow> 'r word" where
  "signBit F = push_bit (significandBits F + exponentBits F) 1"

definition absMask :: "'r::len word fp_lib \<Rightarrow> 'r word" where
  "absMask F = signBit F - 1"

definition exponentMask :: "'r::len word fp_lib \<Rightarrow> 'r word" where
  "exponentMask F = absMask F XOR significandMask F"

definition oneRep :: "'r::len word fp_lib \<Rightarrow> 'r word" where
  "oneRep F = push_bit (significandBits F) (word_of_int (exponentBias F))"

definition infRep :: "'r::len word fp_lib \<Rightarrow> 'r word" where
  "infRep F = exponentMask F"

definition quietBit :: "'r::len word fp_lib \<Rightarrow> 'r word" where
  "quietBit F = drop_bit 1 (implicitBit F)"

definition qnanRep :: "'r::len word fp_lib \<Rightarrow> 'r word" where
  "qnanRep F = exponentMask F OR quietBit F"

definition normalize :: "'r::len word fp_lib \<Rightarrow> ub \<Rightarrow> 'r word \<Rightarrow> int \<times> 'r word" where
  "normalize F u significand =
    (let shift = rep_clz F u significand - rep_clz F u (implicitBit F)
     in (1 - shift, c_shl u significand (word_of_int shift)))"

definition wideLeftShift :: "ub \<Rightarrow> 'r::len word \<Rightarrow> 'r word \<Rightarrow> int \<Rightarrow> 'r word \<times> 'r word" where
  "wideLeftShift u hi lo count =
    (c_shl u hi (word_of_int count) OR c_lshr u lo (word_of_int (int LENGTH('r) - count)),
     c_shl u lo (word_of_int count))"

definition wideRightShiftWithSticky ::
    "ub \<Rightarrow> 'r::len word \<Rightarrow> 'r word \<Rightarrow> su_int \<Rightarrow> 'r word \<times> 'r word" where
  "wideRightShiftWithSticky u hi lo count =
    (if count < of_nat LENGTH('r) then
       let sticky = c_bool (c_shl u lo (of_nat LENGTH('r) - count) \<noteq> 0) in
       (c_lshr u hi count,
        c_shl u hi (of_nat LENGTH('r) - count) OR c_lshr u lo count OR sticky)
     else if count < 2 * of_nat LENGTH('r) then
       let sticky = c_bool ((c_shl u hi (2 * of_nat LENGTH('r) - count) OR lo) \<noteq> 0) in
       (0, c_lshr u hi (count - of_nat LENGTH('r)) OR sticky)
     else
       let sticky = c_bool ((hi OR lo) \<noteq> 0) in (0, sticky))"

section \<open>The numbers\<close>

text \<open>A pattern without its sign is a natural number; \<open>fp_mag\<close> is its value in units of the least
  positive number of the format. It is defined beyond the largest finite pattern, where it continues
  with the next power of two: this is the value overflow is measured against.\<close>

definition fp_mag :: "nat \<Rightarrow> nat \<Rightarrow> nat" where
  "fp_mag sb k = (if k < 2 ^ sb then k else (2 ^ sb + k mod 2 ^ sb) * 2 ^ (k div 2 ^ sb - 1))"

definition fp_sign :: "'r::len word \<Rightarrow> bool" where
  "fp_sign x = bit x (LENGTH('r) - 1)"

definition fp_abs :: "'r::len word \<Rightarrow> nat" where
  "fp_abs x = unat x mod 2 ^ (LENGTH('r) - 1)"

definition fp_inf :: "'r::len word fp_lib \<Rightarrow> nat" where
  "fp_inf F = (2 ^ exponentBits F - 1) * 2 ^ significandBits F"

definition fp_finite :: "'r::len word fp_lib \<Rightarrow> 'r word \<Rightarrow> bool" where
  "fp_finite F x \<longleftrightarrow> fp_abs x < fp_inf F"

definition fp_is_inf :: "'r::len word fp_lib \<Rightarrow> 'r word \<Rightarrow> bool" where
  "fp_is_inf F x \<longleftrightarrow> fp_abs x = fp_inf F"

definition fp_is_nan :: "'r::len word fp_lib \<Rightarrow> 'r word \<Rightarrow> bool" where
  "fp_is_nan F x \<longleftrightarrow> fp_inf F < fp_abs x"

text \<open>The least positive number is \<open>1 / fp_scale\<close>.\<close>

definition fp_scale :: "'r::len word fp_lib \<Rightarrow> real" where
  "fp_scale F = 2 ^ (nat (exponentBias F) + significandBits F - 1)"

definition fp_value :: "'r::len word fp_lib \<Rightarrow> 'r word \<Rightarrow> real" where
  "fp_value F x = (if fp_sign x then - 1 else 1) * real (fp_mag (significandBits F) (fp_abs x)) / fp_scale F"

text \<open>Rounding a nonnegative real, in the same units, to the nearest pattern up to infinity, ties to
  the even pattern: \<open>x\<close> lies between the midpoints to the neighbours.\<close>

definition fp_nearest :: "'r::len word fp_lib \<Rightarrow> real \<Rightarrow> nat \<Rightarrow> bool" where
  "fp_nearest F x k \<longleftrightarrow> k \<le> fp_inf F \<and>
    (0 < k \<longrightarrow> (let m = (real (fp_mag (significandBits F) (k - 1)) + real (fp_mag (significandBits F) k)) / 2
                 in m < x \<or> m = x \<and> even k)) \<and>
    (k < fp_inf F \<longrightarrow> (let m = (real (fp_mag (significandBits F) k) + real (fp_mag (significandBits F) (k + 1))) / 2
                 in x < m \<or> x = m \<and> even k))"

section \<open>The scale of the patterns\<close>

text \<open>The value at a pattern given by its exponent and significand; the significand may be one too
  large, which is the carry into the exponent.\<close>

lemma fp_mag_compose:
  assumes "m \<le> 2 ^ sb"
  shows "fp_mag sb ((e + 1) * 2 ^ sb + m) = (2 ^ sb + m) * 2 ^ e" and "fp_mag sb m = m"
proof -
  show "fp_mag sb ((e + 1) * 2 ^ sb + m) = (2 ^ sb + m) * 2 ^ e"
  proof (cases "m < 2 ^ sb")
    case True
    then have "((e + 1) * 2 ^ sb + m) div 2 ^ sb = e + 1" "((e + 1) * 2 ^ sb + m) mod 2 ^ sb = m"
      by (simp_all only: div_mult_self3 mod_mult_self3 div_less mod_less add_0_right power_not_zero
        zero_neq_numeral not_False_eq_True numeral_eq_iff)
    then show ?thesis unfolding fp_mag_def by simp
  next
    case False
    then have "m = 2 ^ sb" using assms by simp
    then have "(e + 1) * 2 ^ sb + m = (e + 2) * 2 ^ sb + 0" by simp
    then show ?thesis using \<open>m = 2 ^ sb\<close> unfolding fp_mag_def by simp
  qed
  show "fp_mag sb m = m" using assms by (auto simp: fp_mag_def)
qed

lemma fp_mag_Suc: "fp_mag sb k < fp_mag sb (Suc k)"
proof (cases "k < 2 ^ sb")
  case True
  then show ?thesis using fp_mag_compose(2) [of k sb] fp_mag_compose(2) [of "Suc k" sb] by simp
next
  case False
  define e m where e_m_def: "e = k div 2 ^ sb - 1" "m = k mod 2 ^ sb"
  have "0 < k div 2 ^ sb" using False by (simp add: div_greater_zero_iff)
  then have "e + 1 = k div 2 ^ sb" by (simp add: e_m_def)
  then have "k = (e + 1) * 2 ^ sb + m" unfolding e_m_def(2) by (simp only: div_mult_mod_eq)
  moreover have "m < 2 ^ sb" by (simp add: e_m_def)
  ultimately show ?thesis
    using fp_mag_compose(1) [of m sb e] fp_mag_compose(1) [of "Suc m" sb e] by simp
qed

lemma fp_mag_mono: "j < k \<Longrightarrow> fp_mag sb j < fp_mag sb k"
  by (induction k) (auto simp: less_Suc_eq intro: fp_mag_Suc less_trans)

lemma fp_mag_mono_le: "j \<le> k \<Longrightarrow> fp_mag sb j \<le> fp_mag sb k"
  using fp_mag_mono [of j k sb] by (cases "j = k") auto

lemma fp_mag_less_iff: "fp_mag sb j < fp_mag sb k \<longleftrightarrow> j < k"
  by (metis fp_mag_mono linorder_neqE_nat less_asym less_irrefl)

lemma fp_mag_inject: "fp_mag sb j = fp_mag sb k \<longleftrightarrow> j = k"
  by (metis fp_mag_mono linorder_neqE_nat less_irrefl)

lemma fp_mag_0 [simp]: "fp_mag sb 0 = 0"
  by (simp add: fp_mag_def)

section \<open>Rounding\<close>

lemma fp_nearest_midpoints:
  assumes "fp_nearest F x k"
  shows "k \<le> fp_inf F"
    and "0 < k \<Longrightarrow> real (fp_mag (significandBits F) (k - 1)) + fp_mag (significandBits F) k \<le> 2 * x"
    and "k < fp_inf F \<Longrightarrow> 2 * x \<le> real (fp_mag (significandBits F) k) + fp_mag (significandBits F) (k + 1)"
  using assms by (auto simp: fp_nearest_def Let_def field_simps)

text \<open>What the relation means: no other pattern is closer, among all patterns up to infinity, for a
  number that is not beyond infinity's place on the scale.\<close>

lemma fp_nearest_closest:
  assumes n: "fp_nearest F x k" and j: "j \<le> fp_inf F" and x: "x \<le> fp_mag (significandBits F) (fp_inf F)"
  shows "\<bar>x - fp_mag (significandBits F) k\<bar> \<le> \<bar>x - fp_mag (significandBits F) j\<bar>"
proof -
  let ?v = "\<lambda>i. real (fp_mag (significandBits F) i)"
  have mono: "?v a \<le> ?v b" if "a \<le> b" for a b
    using that by (simp add: fp_mag_mono_le)
  note m = fp_nearest_midpoints [OF n]
  consider "j < k" | "j = k" | "k < j" by linarith
  then show ?thesis
  proof cases
    case 1
    then have "?v j \<le> ?v (k - 1)" "?v (k - 1) \<le> ?v k" by (auto intro: fp_mag_mono_le fp_mag_mono)
    moreover have "?v (k - 1) + ?v k \<le> 2 * x" using m(2) 1 by simp
    moreover have "x \<le> ?v k \<or> 2 * x \<le> ?v k + ?v (k + 1)" "?v k \<le> ?v (k + 1)"
      using m(1,3) x by (cases "k = fp_inf F") (auto intro: fp_mag_mono_le fp_mag_mono)
    ultimately show ?thesis by (auto simp: abs_if)
  next
    case 3
    then have "?v (k + 1) \<le> ?v j" "?v k \<le> ?v (k + 1)" by (auto intro: fp_mag_mono_le fp_mag_mono)
    moreover have "2 * x \<le> ?v k + ?v (k + 1)" using m(3) 3 j by simp
    ultimately show ?thesis by (auto simp: abs_if)
  qed simp
qed

lemma fp_nearest_unique:
  assumes "fp_nearest F x j" "fp_nearest F x k"
  shows "j = k"
proof -
  have False if n: "fp_nearest F x j" "fp_nearest F x k" and "j < k" for j k
  proof -
    let ?v = "\<lambda>i. real (fp_mag (significandBits F) i)"
    have mono: "?v a < ?v b" if "a < b" for a b using fp_mag_mono that by simp
    have kl: "k \<le> fp_inf F" by (rule fp_nearest_midpoints(1) [OF n(2)])
    have a: "2 * x \<le> ?v j + ?v (j + 1)" using fp_nearest_midpoints(3) [OF n(1)] \<open>j < k\<close> kl by simp
    have b: "?v (k - 1) + ?v k \<le> 2 * x" using fp_nearest_midpoints(2) [OF n(2)] \<open>j < k\<close> by simp
    show False
    proof (cases "k = j + 1")
      case True
      then have "x = (?v j + ?v (j + 1)) / 2" using a b by simp
      then have "even j" "even k"
        using n True kl \<open>j < k\<close> by (auto simp: fp_nearest_def Let_def)
      with True show False by simp
    next
      case False
      then have "j < k - 1" "j + 1 < k" using \<open>j < k\<close> by auto
      then have "?v j < ?v (k - 1)" "?v (j + 1) < ?v k" by (auto intro: fp_mag_mono_le fp_mag_mono)
      with a b show False by simp
    qed
  qed
  with assms show ?thesis by (metis linorder_neqE_nat)
qed

lemma fp_nearest_exact: "k \<le> fp_inf F \<Longrightarrow> fp_nearest F (fp_mag (significandBits F) k) k"
  using fp_mag_mono [of "k - 1" k "significandBits F"] fp_mag_Suc [of "significandBits F" k]
  by (auto simp: fp_nearest_def Let_def)

text \<open>Truncate, then compare the rest with one half.\<close>

lemma fp_nearest_truncated:
  fixes x :: real
  assumes k: "k < fp_inf F"
    and lo: "fp_mag (significandBits F) k \<le> x" and hi: "x < fp_mag (significandBits F) (k + 1)"
    and r: "r = (let m = (real (fp_mag (significandBits F) k) + fp_mag (significandBits F) (k + 1)) / 2
                 in if m < x \<or> m = x \<and> odd k then k + 1 else k)"
  shows "fp_nearest F x r"
proof -
  let ?v = "\<lambda>i. real (fp_mag (significandBits F) i)"
  have s: "?v i < ?v (i + 1)" for i using fp_mag_Suc by simp
  have p: "?v (k - 1) < ?v k" if "0 < k" using fp_mag_mono that by simp
  show ?thesis
  proof (cases "(?v k + ?v (k + 1)) / 2 < x \<or> (?v k + ?v (k + 1)) / 2 = x \<and> odd k")
    case True
    then have "r = k + 1" using r by (simp add: Let_def)
    then show ?thesis using True k hi s [of "k + 1"] by (auto simp: fp_nearest_def Let_def)
  next
    case False
    then have "r = k" using r by (simp add: Let_def)
    then show ?thesis using False k lo s [of k] p by (auto simp: fp_nearest_def Let_def)
  qed
qed

text \<open>Beyond infinity's place everything rounds to infinity.\<close>

lemma fp_nearest_overflow:
  "real (fp_mag (significandBits F) (fp_inf F)) \<le> x \<Longrightarrow> fp_nearest F x (fp_inf F)"
  using fp_mag_mono [of "fp_inf F - 1" "fp_inf F" "significandBits F"]
  by (auto simp: fp_nearest_def Let_def)

section \<open>The format as an interface\<close>

text \<open>The sizes the routines assume, and what they use of \<^verbatim>\<open>rep_clz\<close> and
  \<^verbatim>\<open>wideMultiply\<close>.\<close>

locale fp_format =
  fixes F :: "'r::len word fp_lib"
  assumes sb_min: "3 \<le> significandBits F"
    and width: "significandBits F + 5 \<le> LENGTH('r)"
    and width_max: "LENGTH('r) \<le> 64" "LENGTH('r) \<le> significandBits F + 16"
    and clz: "x \<noteq> 0 \<Longrightarrow> rep_clz F u x = int (nlz x)"
    and mul: "wideMultiply F a b = (hi, lo) \<Longrightarrow> unat hi * 2 ^ LENGTH('r) + unat lo = unat a * unat b"
begin

lemma eb: "LENGTH('r) = significandBits F + exponentBits F + 1" "4 \<le> exponentBits F"
  using width by (simp_all add: exponentBits_def)

lemma unat_power: "n < LENGTH('r) \<Longrightarrow> unat (push_bit n (1 :: 'r word)) = 2 ^ n"
proof -
  assume "n < LENGTH('r)"
  then have "(2::nat) ^ n < 2 ^ LENGTH('r)" by simp
  then show ?thesis unfolding unat_push_bit by simp
qed

lemma unat_implicitBit: "unat (implicitBit F) = 2 ^ significandBits F"
  unfolding implicitBit_def by (rule unat_power) (use width in simp)

lemma unat_signBit: "unat (signBit F) = 2 ^ (LENGTH('r) - 1)"
  unfolding signBit_def using unat_power [of "LENGTH('r) - 1"] eb(1) by simp

lemma significandMask_eq: "significandMask F = mask (significandBits F)"
  by (simp add: significandMask_def implicitBit_def mask_eq_exp_minus_1)

lemma absMask_eq: "absMask F = mask (LENGTH('r) - 1)"
  by (simp add: absMask_def signBit_def mask_eq_exp_minus_1 eb(1))

lemma unat_and_absMask: "unat (x AND absMask F) = fp_abs x"
  unfolding absMask_eq unat_and_mask fp_abs_def ..

lemma unat_and_significandMask: "unat (x AND significandMask F) = unat x mod 2 ^ significandBits F"
  unfolding significandMask_eq unat_and_mask ..

lemma fp_inf_eq: "fp_inf F = 2 ^ (LENGTH('r) - 1) - 2 ^ significandBits F"
  by (simp add: fp_inf_def eb(1) power_add algebra_simps)

lemma fp_inf_less: "fp_inf F < 2 ^ (LENGTH('r) - 1)"
  by (simp add: fp_inf_eq)

lemma fp_inf_pos: "0 < fp_inf F"
  using eb(2) one_less_power [of "2::nat" "exponentBits F"] by (simp add: fp_inf_def)

lemma fp_inf_ge: "2 ^ significandBits F \<le> fp_inf F"
  using eb(2) one_less_power [of "2::nat" "exponentBits F"] by (simp add: fp_inf_def)

lemma unat_infRep: "unat (infRep F) = fp_inf F"
proof -
  let ?n = "LENGTH('r) - 1" and ?s = "significandBits F"
  have "infRep F AND mask ?s = 0"
    unfolding infRep_def exponentMask_def absMask_eq significandMask_eq
    by (rule bit_word_eqI) (use width in \<open>auto simp: bit_and_iff bit_xor_iff bit_mask_iff\<close>)
  moreover have "infRep F OR mask ?s = mask ?n"
    unfolding infRep_def exponentMask_def absMask_eq significandMask_eq
    by (rule bit_word_eqI) (use width in \<open>auto simp: bit_or_iff bit_xor_iff bit_mask_iff\<close>)
  ultimately have "unat (mask ?n :: 'r word) = unat (infRep F) + unat (mask ?s :: 'r word)"
    by (metis unat_or_disjoint)
  moreover have "unat (mask k :: 'r word) = 2 ^ k - 1" if "k < LENGTH('r)" for k
  proof -
    have "unat (push_bit k 1 - 1 :: 'r word) = 2 ^ k - 1"
      using unat_power [OF that] by (subst unat_sub_below) simp_all
    then show ?thesis by (simp add: mask_eq_exp_minus_1)
  qed
  ultimately have "2 ^ ?n - 1 = unat (infRep F) + (2 ^ ?s - 1)" using width by simp
  moreover have "(0::nat) < 2 ^ ?n" "(0::nat) < 2 ^ ?s" by simp_all
  ultimately have "2 ^ ?n = unat (infRep F) + 2 ^ ?s" by linarith
  then show ?thesis unfolding fp_inf_eq by simp
qed

lemma maxExponent_eq: "maxExponent F = int (2 ^ exponentBits F - 1)"
  by (simp add: maxExponent_def of_nat_diff)

lemma exponentBias_eq: "exponentBias F = 2 ^ (exponentBits F - 1) - 1"
proof -
  have "(2::int) ^ exponentBits F = 2 * 2 ^ (exponentBits F - 1)" using eb(2) by (simp flip: power_Suc)
  then show ?thesis by (simp add: exponentBias_def maxExponent_def)
qed

lemma word_maxExponent: "(word_of_int (maxExponent F) :: 'r word) = mask (exponentBits F)"
  by (simp add: maxExponent_def mask_eq_exp_minus_1)

lemma fp_abs_less: "fp_abs (x :: 'r word) < 2 ^ (LENGTH('r) - 1)"
  by (simp add: fp_abs_def)

lemma exponent_field: "unat (drop_bit (significandBits F) x AND word_of_int (maxExponent F)) =
    fp_abs (x :: 'r word) div 2 ^ significandBits F"
proof -
  have "unat x div 2 ^ significandBits F mod 2 ^ exponentBits F =
    unat x mod (2 ^ significandBits F * 2 ^ exponentBits F) div 2 ^ significandBits F"
    by (simp add: mod_mult2_eq)
  then show ?thesis
    unfolding word_maxExponent unat_and_mask unat_drop_bit fp_abs_def
    by (simp add: eb(1) flip: power_add)
qed

lemma significand_field: "unat (x AND significandMask F) = fp_abs x mod 2 ^ significandBits F"
  unfolding unat_and_significandMask fp_abs_def
  by (rule mod_mod_cancel [symmetric]) (simp add: le_imp_power_dvd eb(1))

lemma bit_signBit: "bit (signBit F) i \<longleftrightarrow> i = LENGTH('r) - 1"
  by (auto simp: signBit_def bit_exp_iff eb(1))

lemma unat_sign_abs: "unat (x :: 'r word) = of_bool (fp_sign x) * 2 ^ (LENGTH('r) - 1) + fp_abs x"
proof -
  let ?n = "LENGTH('r) - 1"
  have "unat x div 2 ^ ?n < 2"
  proof (rule less_mult_imp_div_less)
    have "unat x < 2 ^ LENGTH('r)" by (rule unsigned_less)
    also have "\<dots> = 2 * 2 ^ ?n" by (simp add: eb(1))
    finally show "unat x < 2 * 2 ^ ?n" .
  qed
  moreover have "fp_sign x \<longleftrightarrow> odd (unat x div 2 ^ ?n)"
    unfolding fp_sign_def bit_iff_odd [symmetric] by (simp add: bit_unsigned_iff)
  ultimately have "unat x div 2 ^ ?n = of_bool (fp_sign x)" by (auto simp: less_2_cases_iff)
  then show ?thesis unfolding fp_abs_def by (metis div_mult_mod_eq)
qed

lemma fp_eq_iff: "x = y \<longleftrightarrow> fp_sign x = fp_sign y \<and> fp_abs x = fp_abs y" for x y :: "'r word"
  by (auto intro!: unsigned_word_eqI [where ?'a = nat] simp: unat_sign_abs)

text \<open>A pattern is put together from its sign and the rest.\<close>

lemma fp_compose:
  assumes "unat r < 2 ^ (LENGTH('r) - 1)"
  shows "fp_abs (r OR (if s then signBit F else 0)) = unat r"
    and "fp_sign (r OR (if s then signBit F else 0)) = s"
proof -
  let ?n = "LENGTH('r) - 1"
  note sb = bit_signBit
  have r: "\<not> bit r ?n" using bit_imp_unat_ge [of r ?n] assms by auto
  show "fp_sign (r OR (if s then signBit F else 0)) = s"
    using r by (simp add: fp_sign_def bit_or_iff sb)
  have "(r OR (if s then signBit F else 0)) AND mask ?n = r AND mask ?n"
    by (rule bit_word_eqI) (auto simp: bit_and_iff bit_or_iff bit_mask_iff sb)
  then have "fp_abs (r OR (if s then signBit F else 0)) = fp_abs r"
    unfolding fp_abs_def unat_and_mask [symmetric] by simp
  then show "fp_abs (r OR (if s then signBit F else 0)) = unat r" using assms by (simp add: fp_abs_def)
qed

lemma and_signBit: "x AND signBit F = (if fp_sign x then signBit F else 0)"
  by (rule bit_word_eqI) (auto simp: bit_and_iff bit_signBit fp_sign_def)

lemma and_absMask_cmp:
  fixes x :: "'r word"
  shows "x AND absMask F > infRep F \<longleftrightarrow> fp_inf F < fp_abs x"
    and "x AND absMask F = infRep F \<longleftrightarrow> fp_abs x = fp_inf F"
    and "x AND absMask F = 0 \<longleftrightarrow> fp_abs x = 0"
    and "y AND absMask F > x AND absMask F \<longleftrightarrow> fp_abs x < fp_abs y"
  by (simp_all add: word_less_nat_alt unat_and_absMask unat_infRep word_unat_eq_iff)

lemma fp_abs_0: "fp_abs (0 :: 'r word) = 0" and fp_sign_0: "\<not> fp_sign (0 :: 'r word)"
  by (simp_all add: fp_abs_def fp_sign_def)

end

section \<open>The two formats\<close>

lemma sint_of_nat_small: "n < 2 ^ 31 \<Longrightarrow> sint (of_nat n :: si_int) = int n"
proof -
  assume "n < 2 ^ 31"
  then have "sfits LENGTH(32) (int n)" by (simp add: sfits_def)
  from sint_of_int [OF this] show ?thesis by simp
qed

lemma sint_builtin_clz:
  fixes x :: "'a::len word"
  assumes "x \<noteq> 0" and "LENGTH('a) \<le> 64"
  shows "sint (builtin_clz u x) = int (nlz x)"
  using nlz_bounds(1) [OF assms(1)] assms by (simp add: builtin_clz_def sint_of_nat_small del: of_nat_numeral)

lemma wideMultiply_single_exact:
  assumes "wideMultiply_single a b = (hi, lo)"
  shows "unat hi * 2 ^ 32 + unat lo = unat a * unat b"
proof -
  define p where "p = (ucast a :: du_int) * ucast b"
  have u: "unat (ucast x :: du_int) = unat x" for x :: su_int by (rule dw.unat_ucast_half)
  have "unat a * unat b < 2 ^ 32 * 2 ^ 32"
    using unsigned_less [where ?'a = nat, of a] unsigned_less [where ?'a = nat, of b]
    by (intro mult_strict_mono') simp_all
  then have "unat p = unat a * unat b" by (simp add: p_def unat_mult_below u)
  moreover have "hi = s_high (dwords_of p)" "lo = s_low (dwords_of p)"
    using assms by (auto simp: wideMultiply_single_def p_def dwords_of_def union_s_def Let_def)
  ultimately show ?thesis using dw.unat_split [of p] by simp
qed

lemma rep_clz_double_eq:
  assumes "x \<noteq> 0"
  shows "rep_clz_double u x = int (nlz x)"
proof -
  have h: "ucast (drop_bit 32 x) = s_high (dwords_of x)" and l: "ucast (x AND 0xffffffff) = s_low (dwords_of x)"
  proof -
    have m: "(0xffffffff :: du_int) = mask 32" by (simp add: mask_eq_exp_minus_1)
    show "ucast (drop_bit 32 x) = s_high (dwords_of x)" by (simp add: dwords_of_def union_s_def)
    show "ucast (x AND 0xffffffff) = s_low (dwords_of x)"
      unfolding m by (rule bit_word_eqI) (auto simp: bit_ucast_iff bit_and_iff bit_mask_iff dw.bit_low)
  qed
  have c: "x AND 0xffffffff00000000 = 0 \<longleftrightarrow> s_high (dwords_of x) = 0"
  proof -
    have m: "(0xffffffff00000000 :: du_int) = push_bit 32 (mask 32)" by (simp add: mask_eq_exp_minus_1 push_bit_eq_mult)
    have "x AND push_bit 32 (mask 32) = dwords_all \<lparr> s_high = s_high (dwords_of x), s_low = 0 \<rparr>"
      by (rule bit_word_eqI)
        (auto simp: bit_and_iff bit_push_bit_iff bit_mask_iff dw.bit_join dw.bit_high)
    then show ?thesis unfolding m by (simp add: dw.zero_halves dw.split_join)
  qed
  show ?thesis
    unfolding rep_clz_double_def h l c using dw.nlz_split [OF assms] assms
    by (auto simp: sint_builtin_clz dw.zero_halves)
qed

lemma unat_loWord: "unat (loWord a) = unat a mod 2 ^ 32" and unat_hiWord: "unat (hiWord a) = unat a div 2 ^ 32"
proof -
  have "(0xffffffff :: du_int) = mask 32" by (simp add: mask_eq_exp_minus_1)
  then show "unat (loWord a) = unat a mod 2 ^ 32" unfolding loWord_def by (simp only: unat_and_mask)
  show "unat (hiWord a) = unat a div 2 ^ 32" unfolding hiWord_def by (rule unat_drop_bit)
qed

lemma wideMultiply_double_exact:
  assumes "wideMultiply_double a b = (hi, lo)"
  shows "unat hi * 2 ^ 64 + unat lo = unat a * unat b"
proof -
  define B :: nat where "B = 2 ^ 32"
  have BB: "(2::nat) ^ 64 = B * B" by (simp add: B_def)
  have B3: "3 < B" by (simp add: B_def)
  have aB: "unat a < B * B" and bB: "unat b < B * B"
    using unsigned_less [where ?'a = nat, of a] unsigned_less [where ?'a = nat, of b]
    by (simp_all flip: BB)
  define al ah bl bh where d: "al = unat a mod B" "ah = unat a div B" "bl = unat b mod B" "bh = unat b div B"
  have lt: "al < B" "ah < B" "bl < B" "bh < B"
    using aB bB B3 by (simp_all add: d less_mult_imp_div_less)
  define ll lh hl hh where p: "ll = loWord a * loWord b" "lh = loWord a * hiWord b"
    "hl = hiWord a * loWord b" "hh = hiWord a * hiWord b"
  have lo_hi: "unat (loWord x) = unat x mod B" "unat (hiWord x) = unat x div B" for x
    by (simp_all add: unat_loWord unat_hiWord B_def)
  note bd = digit_bounds(1) [OF _ _ lt(1)]
  have um: "unat (x * y) = unat x * unat y" if "unat x * unat y < B * B" for x y :: du_int
    by (rule unat_mult_below) (use that in \<open>simp add: B_def\<close>)
  have ua: "unat (x + y) = unat x + unat y" if "unat x + unat y < B * B" for x y :: du_int
    by (rule unat_add_below) (use that in \<open>simp add: B_def\<close>)
  have u: "unat ll = al * bl" "unat lh = al * bh" "unat hl = ah * bl" "unat hh = ah * bh"
    using bd [OF lt(1,3)] bd [OF lt(1,4)] bd [OF lt(2,3)] bd [OF lt(2,4)]
    by (simp_all add: p um lo_hi flip: d)
  define r1 where "r1 = hiWord ll + loWord lh + loWord hl"
  have q: "unat ll div B < B" using bd [OF lt(1,3)] by (simp add: u less_mult_imp_div_less)
  have three: "x < B \<Longrightarrow> y < B \<Longrightarrow> z < B \<Longrightarrow> x + y + z < B * B" for x y z
  proof -
    assume "x < B" "y < B" "z < B"
    moreover have "3 * B \<le> B * B" using B3 by (intro mult_right_mono) auto
    ultimately show ?thesis by linarith
  qed
  have mB: "x mod B < B" for x using B3 by simp
  have ur1: "unat r1 = unat ll div B + unat lh mod B + unat hl mod B"
    using three [OF q mB mB, of "unat lh" "unat hl"]
    by (simp add: r1_def ua lo_hi)
  define H where "H = unat lh div B + unat hl div B + unat r1 div B + ah * bh"
  have low: "x mod B + y mod B * B < B * B" for x y
  proof -
    have "x mod B < B" "y mod B + 1 \<le> B" using B3 by (simp_all add: Suc_leI)
    then have "x mod B + y mod B * B < (y mod B + 1) * B" "(y mod B + 1) * B \<le> B * B"
      by (simp, intro mult_le_mono1)
    then show ?thesis by linarith
  qed
  have eq: "H * (B * B) + (unat ll mod B + unat r1 mod B * B) = unat a * unat b"
  proof -
    have regroup: "(e + f + g + h) * (B * B) + (c + k * B) = h * (B * B) + ((e + f) * B + (g * B + k)) * B + c"
      for e f g h c k :: nat by (simp add: algebra_simps)
    have "H * (B * B) + (unat ll mod B + unat r1 mod B * B) =
      ah * bh * (B * B) + ((unat lh div B + unat hl div B) * B + unat r1) * B + unat ll mod B"
      unfolding H_def regroup div_mult_mod_eq ..
    also have "(unat lh div B + unat hl div B) * B + unat r1 = unat lh + unat hl + unat ll div B"
      unfolding ur1 distrib_right using div_mult_mod_eq [of "unat lh" B] div_mult_mod_eq [of "unat hl" B]
      by linarith
    also have "ah * bh * (B * B) + (unat lh + unat hl + unat ll div B) * B + unat ll mod B =
      ah * bh * (B * B) + (unat lh + unat hl) * B + unat ll"
      using div_mult_mod_eq [of "unat ll" B] by (simp add: distrib_right)
    also have "\<dots> = (ah * B + al) * (bh * B + bl)" by (simp add: u algebra_simps)
    also have "\<dots> = unat a * unat b" by (simp add: d)
    finally show ?thesis .
  qed
  have "H * (B * B) \<le> unat a * unat b" using eq by simp
  also have "\<dots> < B * B * (B * B)" using aB bB by (intro mult_strict_mono') simp_all
  finally have H: "H < B * B" using B3 by simp
  have "hi = hiWord lh + hiWord hl + hiWord r1 + hh" "lo = loWord ll + push_bit 32 r1"
    using assms by (auto simp: wideMultiply_double_def Let_def p r1_def)
  moreover have "unat (hiWord lh + hiWord hl + hiWord r1 + hh) = H"
    using H unfolding H_def by (simp add: ua lo_hi u(4))
  moreover have "unat (loWord ll + push_bit 32 r1) = unat ll mod B + unat r1 mod B * B"
  proof -
    have "unat (push_bit 32 r1) = unat r1 * B mod (B * B)" unfolding unat_push_bit by (simp add: B_def)
    also have "\<dots> = unat r1 mod B * B" by (simp add: mod_mult_mult2)
    finally show ?thesis using low [of "unat ll" "unat r1"] by (simp add: ua lo_hi)
  qed
  ultimately show ?thesis using eq unfolding BB by (simp only:)
qed

text \<open>The formats' sizes, to decide a concrete pattern.\<close>

lemmas fp_eval = fp_finite_def fp_is_inf_def fp_is_nan_def fp_abs_def fp_inf_def exponentBits_def
  single_def double_def

interpretation sgl: fp_format single
  by unfold_locales (auto simp: single_def rep_clz_single_def sint_builtin_clz dest: wideMultiply_single_exact)

interpretation dbl: fp_format double
  by unfold_locales (auto simp: double_def rep_clz_double_eq dest: wideMultiply_double_exact)

text \<open>The constants are those of the two formats.\<close>

lemma format_words:
  "implicitBit single = 0x800000" "infRep single = 0x7F800000" "signBit single = 0x80000000"
  "absMask single = 0x7FFFFFFF" "quietBit single = 0x400000" "significandMask single = 0x7FFFFF"
  "implicitBit double = 0x10000000000000" "infRep double = 0x7FF0000000000000"
  "signBit double = 0x8000000000000000" "absMask double = 0x7FFFFFFFFFFFFFFF"
  "quietBit double = 0x8000000000000" "significandMask double = 0xFFFFFFFFFFFFF"
  by code_simp+

lemma format_numbers:
  "fp_inf single = 255 * 2 ^ 23" "fp_inf double = 2047 * 2 ^ 52"
  "significandBits single = 23" "significandBits double = 52"
  "fp_scale single = 2 ^ 149" "fp_scale double = 2 ^ 1074"
  by (simp_all add: fp_inf_def exponentBits_def single_def double_def fp_scale_def exponentBias_def maxExponent_def)

end
