(* ===== verification/Fp_Round.thy ===== *)
theory Fp_Round
  imports Fp_Format
begin

unbundle bit_operations_syntax

text \<open>
  What the soft-float routines share in their proofs. A routine carries an exact magnitude as a word
  whose low digits have been cut off; what was cut off is remembered in a sticky bit. \<open>guarded\<close> and
  \<open>sticky\<close> say which real numbers such a word may stand for, and the lemmas follow these through
  shifts, sums and differences up to the final rounding. In the locale \<open>fp_format\<close>: how a pattern is
  taken apart (with \<^verbatim>\<open>normalize\<close> for denormal numbers) and put together again.
\<close>

section \<open>Digits cut off\<close>

text \<open>A word seen as a real number is seen through the natural number it is.\<close>

declare of_nat_unat [simp del]

text \<open>An odd word with a sticky bit stands for any number strictly between its neighbours. After
  such a word has been doubled, only the multiple of four below it is certain.\<close>

definition sticky :: "nat \<Rightarrow> real \<Rightarrow> bool" where
  "sticky a y \<longleftrightarrow> (if even a then y = a else real a - 1 < y \<and> y < real a + 1)"

definition guarded :: "nat \<Rightarrow> real \<Rightarrow> bool" where
  "guarded a y \<longleftrightarrow> (if 4 dvd a then y = a else real (4 * (a div 4)) < y \<and> y < real (4 * (a div 4)) + 4)"

definition shr_sticky :: "nat \<Rightarrow> nat \<Rightarrow> nat" where
  "shr_sticky n a = a div 2 ^ n OR of_bool (a mod 2 ^ n \<noteq> 0)"

lemma sticky_exact [simp]: "sticky a (real a)"
  by (simp add: sticky_def)

lemma guarded_digits:
  "m < 4 \<Longrightarrow> guarded (4 * d + m) y \<longleftrightarrow> (if m = 0 then y = 4 * d else real (4 * d) < y \<and> y < real (4 * d) + 4)"
  for m d :: nat
proof -
  assume "m < 4"
  then have "(4 * d + m) mod 4 = m" "(4 * d + m) div 4 = d" by presburger+
  then show ?thesis by (simp add: guarded_def dvd_eq_mod_eq_0)
qed

lemma sticky_guarded: "sticky a y \<Longrightarrow> guarded a y"
proof -
  assume s: "sticky a y"
  define d m where dm: "d = a div 4" "m = a mod 4"
  have a: "a = 4 * d + m" by (simp add: dm)
  have "m < 4" by (simp add: dm)
  then consider "m = 0" | "m = 1" | "m = 2" | "m = 3" by linarith
  then show "guarded a y"
    unfolding a guarded_digits [OF \<open>m < 4\<close>] by cases (use s in \<open>auto simp: a sticky_def\<close>)
qed

lemma guarded_double: "sticky a y \<Longrightarrow> guarded (2 * a) (2 * y)"
proof -
  assume s: "sticky a y"
  show ?thesis
  proof (cases "even a")
    case True
    then show ?thesis using s by (auto simp: sticky_def guarded_def elim!: evenE)
  next
    case False
    then obtain b where "a = 2 * b + 1" by (elim oddE)
    then have "2 * a = 4 * b + 2" by simp
    moreover have "(4 * b + 2) mod 4 = 2" "(4 * b + 2) div 4 = b" by presburger+
    ultimately have "\<not> 4 dvd 2 * a" "2 * a div 4 = b" by (simp_all add: dvd_eq_mod_eq_0)
    then show ?thesis using s \<open>a = 2 * b + 1\<close> by (simp add: sticky_def guarded_def)
  qed
qed

lemma shr_sticky_cases:
  "shr_sticky n a = (if a mod 2 ^ n = 0 then a div 2 ^ n
                     else if even (a div 2 ^ n) then a div 2 ^ n + 1 else a div 2 ^ n)"
  unfolding shr_sticky_def by (simp add: or_one_eq del: One_nat_def)

lemma shr_sticky_less:
  assumes "a < 2 * c" "even c" "0 < n"
  shows "shr_sticky n a < c"
proof -
  have "a div 2 ^ n \<le> a div 2 ^ 1" using assms(3) by (intro div_le_mono2 power_increasing) simp_all
  then have "a div 2 ^ n < c" using assms(1) by simp
  moreover have "even b \<Longrightarrow> b < c \<Longrightarrow> b + 1 < c" for b using assms(2) by presburger
  ultimately show ?thesis by (simp add: shr_sticky_cases)
qed

lemma sticky_between: "real b < y \<Longrightarrow> y < real b + 1 \<Longrightarrow> sticky (if even b then b + 1 else b) y"
  by (auto simp: sticky_def)

lemma guarded_shr:
  assumes g: "guarded a y" and n: "0 < n"
  shows "sticky (shr_sticky n a) (y / 2 ^ n)"
proof -
  define b r where br: "b = a div 2 ^ n" "r = a mod 2 ^ n"
  have a: "a = b * 2 ^ n + r" unfolding br by (rule div_mult_mod_eq [symmetric])
  have r: "r < 2 ^ n" by (simp add: br)
  show ?thesis
  proof (cases "n = 1")
    case True
    define d m where dm: "d = a div 4" "m = a mod 4"
    have a: "a = 4 * d + m" by (simp add: dm)
    have "m < 4" by (simp add: dm)
    then have "m = 0 \<or> m = 1 \<or> m = 2 \<or> m = 3" by linarith
    moreover have "shr_sticky 1 a = (if m = 0 then 2 * d else 2 * d + 1)"
    proof -
      have "(4 * d + m) div 2 = 2 * d + m div 2" by presburger
      moreover have "(4 * d + m) mod 2 = m mod 2" by presburger
      ultimately show ?thesis unfolding shr_sticky_cases a
        using \<open>m = 0 \<or> m = 1 \<or> m = 2 \<or> m = 3\<close> by auto
    qed
    ultimately show ?thesis
      using g True unfolding a guarded_digits [OF \<open>m < 4\<close>] by (auto simp: sticky_def)
  next
    case False
    then have "(2::nat) ^ 2 dvd 2 ^ n" using n by (intro le_imp_power_dvd) simp
    then have f: "4 dvd (2::nat) ^ n" by simp
    show ?thesis
    proof (cases "r = 0")
      case True
      then have "4 dvd a" using f a by simp
      then have "y = real a" using g by (simp add: guarded_def)
      then have "y / 2 ^ n = real b" using True by (simp add: a)
      moreover have "shr_sticky n a = b" using True br by (simp add: shr_sticky_cases)
      ultimately show ?thesis by simp
    next
      case r0: False
      obtain c where c: "(2::nat) ^ n = 4 * c" using f by (elim dvdE)
      have lo: "b * 2 ^ n \<le> 4 * (a div 4)"
      proof -
        have "b * c = (b * 2 ^ n) div 4" using c by simp
        also have "\<dots> \<le> a div 4" by (rule div_le_mono) (simp add: a)
        finally show ?thesis using c by simp
      qed
      have hi: "4 * (a div 4) + 4 \<le> (b + 1) * 2 ^ n"
      proof -
        have "a < 4 * ((b + 1) * c)" using r c by (simp add: a algebra_simps)
        then have "a div 4 < (b + 1) * c" by (intro less_mult_imp_div_less) (simp add: ac_simps)
        then have "a div 4 + 1 \<le> (b + 1) * c" by simp
        then have "4 * (a div 4 + 1) \<le> 4 * ((b + 1) * c)" by simp
        then show ?thesis using c by (simp add: algebra_simps)
      qed
      have "real (b * 2 ^ n) < y \<and> y < real ((b + 1) * 2 ^ n)"
      proof (cases "4 dvd a")
        case True
        then show ?thesis using g r0 r by (simp add: guarded_def a algebra_simps)
      next
        case False
        then have "real (4 * (a div 4)) < y" "y < real (4 * (a div 4) + 4)"
          using g by (simp_all add: guarded_def)
        moreover have "real (b * 2 ^ n) \<le> real (4 * (a div 4))" "real (4 * (a div 4) + 4) \<le> real ((b + 1) * 2 ^ n)"
          using lo hi by (simp_all only: of_nat_le_iff)
        ultimately show ?thesis by linarith
      qed
      then have "real b < y / 2 ^ n" "y / 2 ^ n < real b + 1"
        by (simp_all add: field_simps)
      from sticky_between [OF this] show ?thesis using r0 by (simp add: shr_sticky_cases split: if_splits flip: br)
    qed
  qed
qed

lemma sticky_shr: "sticky a y \<Longrightarrow> sticky (shr_sticky n a) (y / 2 ^ n)"
  using guarded_shr [OF sticky_guarded] by (cases "n = 0") (auto simp: shr_sticky_def)

text \<open>Adding to, or subtracting from, an exact even number.\<close>

lemma sticky_add: "sticky b y \<Longrightarrow> even a \<Longrightarrow> sticky (a + b) (real a + y)"
  by (auto simp: sticky_def)

lemma sticky_sub: "sticky b y \<Longrightarrow> even a \<Longrightarrow> b \<le> a \<Longrightarrow> sticky (a - b) (real a - y)"
  by (auto simp: sticky_def of_nat_diff)

lemma sticky_even_cmp:
  assumes "sticky a y" "even c"
  shows "real c < y \<longleftrightarrow> c < a" "y < real c \<longleftrightarrow> a < c" "y = real c \<longleftrightarrow> a = c" "real c \<le> y \<longleftrightarrow> c \<le> a"
proof -
  have "(real c < y \<longleftrightarrow> c < a) \<and> (y < real c \<longleftrightarrow> a < c) \<and> (y = real c \<longleftrightarrow> a = c)"
  proof (cases "even a")
    case False
    then have y: "real a - 1 < y" "y < real a + 1" using assms(1) by (simp_all add: sticky_def)
    consider "a < c" | "c < a" using False assms(2) by (metis linorder_neqE_nat)
    then show ?thesis
    proof cases
      case 1
      then have "real a + 1 \<le> real c" by simp
      then show ?thesis using y 1 by auto
    next
      case 2
      then have "real c \<le> real a - 1" by simp
      then show ?thesis using y 2 by auto
    qed
  qed (use assms in \<open>simp add: sticky_def\<close>)
  then show "real c < y \<longleftrightarrow> c < a" "y < real c \<longleftrightarrow> a < c" "y = real c \<longleftrightarrow> a = c" "real c \<le> y \<longleftrightarrow> c \<le> a"
    by auto
qed

lemma sticky_le: "sticky b y \<Longrightarrow> even a \<Longrightarrow> y \<le> real a \<Longrightarrow> b \<le> a"
proof (cases "even b")
  case False
  assume "sticky b y" "even a" "y \<le> real a"
  then have "real b - 1 < real a" using False by (simp add: sticky_def)
  then show ?thesis by linarith
qed (simp add: sticky_def)

lemma sticky_nat: "sticky b (real n) \<Longrightarrow> b = n"
  by (auto simp: sticky_def split: if_splits)

lemma sticky_pos_below_one: "0 < y \<Longrightarrow> y < 2 \<Longrightarrow> sticky 1 y"
  by (simp add: sticky_def)

text \<open>The last three digits of a guarded word decide how to round.\<close>

lemma guarded_eighth:
  assumes "guarded a y"
  shows "real (a div 8) \<le> y / 8" and "y / 8 < real (a div 8) + 1"
    and "real (a div 8) + 1 / 2 < y / 8 \<longleftrightarrow> 4 < a mod 8"
    and "y / 8 = real (a div 8) + 1 / 2 \<longleftrightarrow> a mod 8 = 4"
proof -
  define d m where dm: "d = a div 8" "m = a mod 8"
  have a: "a = 8 * d + m" by (simp add: dm)
  have "m < 8" by (simp add: dm)
  then have "real (a div 8) \<le> y / 8 \<and> y / 8 < real (a div 8) + 1 \<and>
    (real (a div 8) + 1 / 2 < y / 8 \<longleftrightarrow> 4 < a mod 8) \<and>
    (y / 8 = real (a div 8) + 1 / 2 \<longleftrightarrow> a mod 8 = 4)"
  proof (cases "m < 4")
    case True
    then have "(8 * d + m) mod 4 = m" "(8 * d + m) div 4 = 2 * d" by presburger+
    then have "4 dvd a \<longleftrightarrow> m = 0" "a div 4 = 2 * d" by (simp_all add: a dvd_eq_mod_eq_0)
    then show ?thesis using assms True by (auto simp: a guarded_def)
  next
    case False
    with \<open>m < 8\<close> obtain l where l: "m = 4 + l" "l < 4" by (metis add_diff_inverse_nat less_diff_conv2 linorder_not_less numeral_Bit0 add_less_cancel_left)
    have "(8 * d + m) mod 4 = l" "(8 * d + m) div 4 = 2 * d + 1" using l by presburger+
    then have "4 dvd a \<longleftrightarrow> l = 0" "a div 4 = 2 * d + 1" by (simp_all add: a dvd_eq_mod_eq_0)
    then show ?thesis using assms l by (auto simp: a guarded_def)
  qed
  then show "real (a div 8) \<le> y / 8" "y / 8 < real (a div 8) + 1"
    "real (a div 8) + 1 / 2 < y / 8 \<longleftrightarrow> 4 < a mod 8"
    "y / 8 = real (a div 8) + 1 / 2 \<longleftrightarrow> a mod 8 = 4" by simp_all
qed

text \<open>Any number of digits of a sticky word, from two on, decide how to round.\<close>

lemma sticky_block:
  assumes st: "sticky a y" and n: "2 \<le> n"
  shows "real (a div 2 ^ n) \<le> y / 2 ^ n" and "y / 2 ^ n < real (a div 2 ^ n) + 1"
    and "real (a div 2 ^ n) + 1 / 2 < y / 2 ^ n \<longleftrightarrow> 2 ^ (n - 1) < a mod 2 ^ n"
    and "y / 2 ^ n = real (a div 2 ^ n) + 1 / 2 \<longleftrightarrow> a mod 2 ^ n = 2 ^ (n - 1)"
proof -
  define d m where dm: "d = a div 2 ^ n" "m = a mod 2 ^ n"
  have a: "a = d * 2 ^ n + m" unfolding dm by (rule div_mult_mod_eq [symmetric])
  have m: "m < 2 ^ n" by (simp add: dm)
  have ev: "even ((2::nat) ^ n)" "even ((2::nat) ^ (n - 1))" using n by simp_all
  have p: "(2::real) ^ n = 2 * 2 ^ (n - 1)" using n by (simp flip: power_Suc)
  note cmp = sticky_even_cmp [OF st]
  have "real (d * 2 ^ n) \<le> y" using cmp(4) [of "d * 2 ^ n"] ev by (simp add: a)
  then have "real d \<le> y / 2 ^ n" by (simp add: field_simps)
  then show "real (a div 2 ^ n) \<le> y / 2 ^ n" by (simp add: dm)
  have "y < real ((d + 1) * 2 ^ n)" using cmp(2) [of "(d + 1) * 2 ^ n"] ev m by (simp add: a)
  then have "y / 2 ^ n < real d + 1" by (simp add: field_simps)
  then show "y / 2 ^ n < real (a div 2 ^ n) + 1" by (simp add: dm)
  define h where "h = d * 2 ^ n + 2 ^ (n - 1)"
  have h: "even h" using ev by (simp add: h_def)
  have rh: "real h = (real d + 1 / 2) * 2 ^ n" by (simp add: h_def distrib_right p)
  have "real d + 1 / 2 < y / 2 ^ n \<longleftrightarrow> real h < y" unfolding rh by (simp add: pos_less_divide_eq)
  then show "real (a div 2 ^ n) + 1 / 2 < y / 2 ^ n \<longleftrightarrow> 2 ^ (n - 1) < a mod 2 ^ n"
    unfolding cmp(1) [OF h] by (simp add: dm [symmetric]) (simp add: h_def a)
  have "y / 2 ^ n = real d + 1 / 2 \<longleftrightarrow> y = real h" unfolding rh by (simp add: divide_eq_eq)
  then show "y / 2 ^ n = real (a div 2 ^ n) + 1 / 2 \<longleftrightarrow> a mod 2 ^ n = 2 ^ (n - 1)"
    unfolding cmp(3) [OF h] by (simp add: dm [symmetric]) (simp add: h_def a)
qed

text \<open>The idiom of the code: the digits shifted out leave a sticky bit.\<close>

lemma lost_digits:
  fixes x :: "'a::len word"
  assumes n: "unat n = k" "0 < k" "k < LENGTH('a)" and len: "LENGTH('a) \<le> 64"
  shows "c_shl u x (of_nat LENGTH('a) - n) \<noteq> 0 \<longleftrightarrow> unat x mod 2 ^ k \<noteq> 0"
proof -
  have L: "unat (of_nat LENGTH('a) :: su_int) = LENGTH('a)"
    using len by (simp add: unat_of_nat)
  have "unat (of_nat LENGTH('a) - n) = LENGTH('a) - k"
    using n L by (subst unat_sub_below) simp_all
  then have s: "c_shl u x (of_nat LENGTH('a) - n) = push_bit (LENGTH('a) - k) x"
    using n by (simp add: c_ops)
  have "push_bit (LENGTH('a) - k) x = 0 \<longleftrightarrow> unat x * 2 ^ (LENGTH('a) - k) mod 2 ^ LENGTH('a) = 0"
    by (metis unat_push_bit unat_eq_0)
  also have "(2::nat) ^ LENGTH('a) = 2 ^ k * 2 ^ (LENGTH('a) - k)"
    using n by (simp flip: power_add)
  also have "unat x * 2 ^ (LENGTH('a) - k) mod (2 ^ k * 2 ^ (LENGTH('a) - k)) =
      unat x mod 2 ^ k * 2 ^ (LENGTH('a) - k)"
    by (rule mod_mult_mult2)
  finally have "push_bit (LENGTH('a) - k) x = 0 \<longleftrightarrow> unat x mod 2 ^ k = 0" by simp
  then show ?thesis by (simp add: s)
qed

lemma unat_shr_sticky:
  fixes x :: "'a::len word"
  assumes n: "unat n = k" "0 < k" "k < LENGTH('a)" and len: "LENGTH('a) \<le> 64"
  shows "unat (c_lshr u x n OR c_bool (c_shl u x (of_nat LENGTH('a) - n) \<noteq> 0)) = shr_sticky k (unat x)"
  unfolding lost_digits [OF assms] using n
  by (simp add: c_ops shr_sticky_def unsigned_or_eq unat_drop_bit c_bool_def)

section \<open>The final rounding\<close>

lemma fp_nearest_round:
  fixes y :: real
  assumes k: "k < fp_inf F"
    and mag: "fp_mag (significandBits F) k = q * 2 ^ e" "fp_mag (significandBits F) (k + 1) = (q + 1) * 2 ^ e"
    and y: "real q \<le> y" "y < real q + 1" and x: "x = y * 2 ^ e"
    and up: "up \<longleftrightarrow> real q + 1 / 2 < y \<or> y = real q + 1 / 2 \<and> odd k"
  shows "fp_nearest F x (k + of_bool up)"
proof (rule fp_nearest_truncated [OF k])
  have "real q * 2 ^ e \<le> y * 2 ^ e" using y by (intro mult_right_mono) simp_all
  moreover have "y * 2 ^ e < (real q + 1) * 2 ^ e" using y by (intro mult_strict_right_mono) simp_all
  ultimately show "real (fp_mag (significandBits F) k) \<le> x" "x < real (fp_mag (significandBits F) (k + 1))"
    unfolding mag x by (simp_all add: algebra_simps)
  have "(real (q * 2 ^ e) + real ((q + 1) * 2 ^ e)) / 2 = (real q + 1 / 2) * 2 ^ e"
    by (simp add: field_simps)
  then show "k + of_bool up = (let m = (real (fp_mag (significandBits F) k) + real (fp_mag (significandBits F) (k + 1))) / 2
      in if m < x \<or> m = x \<and> odd k then k + 1 else k)"
    unfolding mag x up Let_def by auto
qed

context fp_format
begin

lemma fp_abs_inc:
  fixes x :: "'r word"
  assumes "fp_abs x + of_bool b < 2 ^ (LENGTH('r) - 1)"
  shows "fp_abs (x + of_bool b) = fp_abs x + of_bool b" and "fp_sign (x + of_bool b) = fp_sign x"
proof -
  let ?n = "LENGTH('r) - 1"
  have L: "(2::nat) ^ LENGTH('r) = 2 * 2 ^ ?n" by (simp add: eb(1))
  have u: "unat (of_bool b :: 'r word) = of_bool b" by simp
  have "unat (x + of_bool b) = unat x + of_bool b"
    using assms by (subst unat_add_below) (cases b; simp add: L unat_sign_abs [of x])+
  then have e: "unat (x + of_bool b) = of_bool (fp_sign x) * 2 ^ ?n + (fp_abs x + of_bool b)"
    by (simp add: unat_sign_abs [of x])
  then show a: "fp_abs (x + of_bool b) = fp_abs x + of_bool b"
    using assms by (simp add: fp_abs_def [of "x + of_bool b"])
  show "fp_sign (x + of_bool b) = fp_sign x"
    using e a unat_sign_abs [of "x + of_bool b"] by (cases "fp_sign x"; cases "fp_sign (x + of_bool b)") auto
qed

text \<open>The pattern with exponent field \<open>e\<close> whose significand with the implicit digit is \<open>q\<close>; a
  significand without the implicit digit has the exponent of the least normal number.\<close>

lemma fp_mag_field:
  assumes "q < 2 * 2 ^ significandBits F" and "0 < e \<Longrightarrow> 2 ^ significandBits F \<le> q"
  shows "fp_mag (significandBits F) (e * 2 ^ significandBits F + q) = q * 2 ^ e"
    and "fp_mag (significandBits F) (e * 2 ^ significandBits F + q + 1) = (q + 1) * 2 ^ e"
proof -
  let ?s = "significandBits F"
  have *: "fp_mag ?s (e * 2 ^ ?s + p) = p * 2 ^ e" if p: "p \<le> 2 * 2 ^ ?s" "0 < e \<Longrightarrow> 2 ^ ?s \<le> p" for p
  proof (cases "p < 2 ^ ?s")
    case True
    then show ?thesis using p(2) fp_mag_compose(2) [of p ?s] by (cases "e = 0") auto
  next
    case False
    then obtain m where m: "p = 2 ^ ?s + m" by (metis le_Suc_ex linorder_not_less)
    then have "m \<le> 2 ^ ?s" using p(1) by simp
    from fp_mag_compose(1) [OF this, of e] show ?thesis by (simp add: m algebra_simps)
  qed
  show "fp_mag ?s (e * 2 ^ ?s + q) = q * 2 ^ e" using assms by (intro *) auto
  have "fp_mag ?s (e * 2 ^ ?s + (q + 1)) = (q + 1) * 2 ^ e" using assms by (intro *) fastforce+
  then show "fp_mag ?s (e * 2 ^ ?s + q + 1) = (q + 1) * 2 ^ e" by (simp add: add.assoc)
qed

lemma fp_mag_inf: "fp_mag (significandBits F) (fp_inf F) = 2 ^ significandBits F * 2 ^ (2 ^ exponentBits F - 2)"
proof -
  let ?b = "2 ^ exponentBits F :: nat"
  have "2 ^ 4 \<le> ?b" using eb(2) by (intro power_increasing) simp_all
  then have "fp_inf F = (?b - 2) * 2 ^ significandBits F + 2 ^ significandBits F"
    unfolding fp_inf_def by (simp add: algebra_simps diff_mult_distrib2)
  then show ?thesis using fp_mag_field(1) [of "2 ^ significandBits F" "?b - 2"] by simp
qed

text \<open>Significand field, exponent field and sign put together.\<close>

lemma fp_fields:
  fixes m :: "'r word"
  assumes m: "unat m < 2 ^ significandBits F" and e: "0 \<le> e" "e < maxExponent F"
    and r: "r = m OR push_bit (significandBits F) (word_of_int e) OR (if s then signBit F else 0)"
  shows "fp_abs r = nat e * 2 ^ significandBits F + unat m" and "fp_sign r = s" and "fp_abs r < fp_inf F"
proof -
  let ?s = "significandBits F" and ?b = "2 ^ exponentBits F :: nat"
  have eb': "nat e < ?b - 1" using e unfolding maxExponent_eq by (metis int_nat_eq of_nat_less_iff)
  have L: "?b * 2 ^ ?s < 2 ^ LENGTH('r)" "?b \<le> 2 ^ LENGTH('r)"
  proof -
    have "(2::nat) ^ (exponentBits F + significandBits F) < 2 ^ LENGTH('r)" "(2::nat) ^ exponentBits F \<le> 2 ^ LENGTH('r)"
      unfolding eb(1) by (intro power_strict_increasing power_increasing; simp)+
    then show "?b * 2 ^ ?s < 2 ^ LENGTH('r)" "?b \<le> 2 ^ LENGTH('r)" by (simp_all add: power_add)
  qed
  have we: "unat (word_of_int e :: 'r word) = nat e"
  proof -
    have "e = int (nat e)" using e by simp
    then have "(word_of_int e :: 'r word) = of_nat (nat e)" by (metis of_int_of_nat_eq)
    moreover have "nat e < 2 ^ LENGTH('r)" using eb' L by linarith
    ultimately show ?thesis by (simp add: unat_of_nat take_bit_eq_mod)
  qed
  have lt: "nat e * 2 ^ ?s + unat m < (?b - 1) * 2 ^ ?s"
  proof -
    have "nat e * 2 ^ ?s + unat m < (nat e + 1) * 2 ^ ?s" using m by simp
    also have "\<dots> \<le> (?b - 1) * 2 ^ ?s" using eb' by (intro mult_le_mono1) simp
    finally show ?thesis .
  qed
  have "(?b - 1) * 2 ^ ?s \<le> ?b * 2 ^ ?s" by (intro mult_le_mono1) simp
  then have "nat e * 2 ^ ?s < 2 ^ LENGTH('r)" using lt L by linarith
  then have u: "unat (push_bit ?s (word_of_int e) OR m) = nat e * 2 ^ ?s + unat m"
    using unat_push_or [OF m, of "word_of_int e"] by (simp add: we)
  then have "unat (push_bit ?s (word_of_int e) OR m) < fp_inf F" using lt by (simp add: fp_inf_def)
  moreover have "r = (push_bit ?s (word_of_int e) OR m) OR (if s then signBit F else 0)"
    unfolding r by (simp only: or.assoc or.left_commute)
  ultimately show "fp_abs r = nat e * 2 ^ ?s + unat m" "fp_sign r = s" "fp_abs r < fp_inf F"
    using fp_compose [of "push_bit ?s (word_of_int e) OR m" s] fp_inf_less u by auto
qed

text \<open>The size of the exponents.\<close>

lemma exponentBits_le: "exponentBits F \<le> 15"
  using eb(1) width_max by simp

lemma fp_scale_powi: "fp_scale F = 2 powi (exponentBias F + int (significandBits F) - 1)"
proof -
  have "0 \<le> exponentBias F" by (simp add: exponentBias_eq)
  then have "exponentBias F + int (significandBits F) - 1 = int (nat (exponentBias F) + significandBits F - 1)"
    using sb_min by (simp add: of_nat_diff)
  then show ?thesis by (simp only: fp_scale_def power_int_of_nat)
qed

lemma exponentBias_bounds: "0 \<le> exponentBias F" "exponentBias F < 2 ^ 15"
proof -
  have "(2::int) ^ (exponentBits F - 1) \<le> 2 ^ 14" using exponentBits_le by (intro power_increasing) simp_all
  then show "0 \<le> exponentBias F" "exponentBias F < 2 ^ 15" by (simp_all add: exponentBias_eq)
qed

lemma exponentBias_nat: "int (nat (exponentBias F)) = exponentBias F" "7 \<le> nat (exponentBias F)"
proof -
  have "(2::int) ^ 3 \<le> 2 ^ (exponentBits F - 1)" using eb(2) by (intro power_increasing) simp_all
  then show "int (nat (exponentBias F)) = exponentBias F" "7 \<le> nat (exponentBias F)"
    unfolding exponentBias_eq by simp_all
qed

text \<open>The increment that rounds up.\<close>

lemma fp_increment:
  fixes r :: "'r word"
  assumes "fp_abs r < fp_inf F"
  shows "fp_abs (if b then r + 1 else r) = fp_abs r + of_bool b" and "fp_sign (if b then r + 1 else r) = fp_sign r"
  using fp_abs_inc [of r b] assms fp_inf_less by (cases b; simp)+

lemma odd_fp_abs: "r AND 1 = of_bool (odd (fp_abs (r :: 'r word)))"
proof -
  have "odd (unat r) = odd (fp_abs r)"
    using eb by (simp add: fp_abs_def dvd_mod_iff)
  moreover have "odd (unat r) \<longleftrightarrow> bit r 0" by (simp add: bit_unsigned_iff flip: bit_0)
  ultimately show ?thesis by (simp add: and_one_eq mod_2_eq_odd bit_0)
qed

text \<open>Overflow.\<close>

lemma fp_overflow:
  assumes "2 ^ significandBits F \<le> y" and e: "maxExponent F \<le> e"
  shows "real (fp_mag (significandBits F) (fp_inf F)) \<le> y * 2 powi (e - 1)"
proof -
  have "maxExponent F - 1 = int (2 ^ exponentBits F - 2)"
    using one_less_power [of "2::nat" "exponentBits F"] eb(2) by (simp add: maxExponent_def of_nat_diff)
  then have "(2::real) powi (maxExponent F - 1) = 2 ^ (2 ^ exponentBits F - 2)" by simp
  moreover have "2 ^ significandBits F * 2 powi (maxExponent F - 1) \<le> y * 2 powi (e - 1)"
    using assms(1) zero_le_power [of "2::real" "significandBits F"]
    by (intro mult_mono power_int_increasing) (use e in \<open>simp_all del: zero_le_power\<close>)
  ultimately show ?thesis unfolding fp_mag_inf by simp
qed

lemma fp_sign_infRep:
  "fp_abs (infRep F OR (if s then signBit F else 0)) = fp_inf F"
  "fp_sign (infRep F OR (if s then signBit F else 0)) = s"
  using fp_compose [of "infRep F" s] fp_inf_less by (simp_all add: unat_infRep)

text \<open>The rounding idiom: one up above the midpoint, to the even neighbour on it.\<close>

lemma fp_round_up:
  fixes r0 :: "'r word" and y :: real
  assumes r0: "fp_abs r0 = e * 2 ^ significandBits F + q" "fp_abs r0 < fp_inf F"
    and q: "q < 2 * 2 ^ significandBits F" "0 < e \<Longrightarrow> 2 ^ significandBits F \<le> q"
    and y: "real q \<le> y" "y < real q + 1" and x: "x = y * 2 ^ e"
    and gt: "gt \<longleftrightarrow> real q + 1 / 2 < y" and tie: "tie \<longleftrightarrow> y = real q + 1 / 2"
    and r: "r = (let r1 = if gt then r0 + 1 else r0 in if tie then r1 + (r1 AND 1) else r1)"
  shows "fp_nearest F x (fp_abs r)" and "fp_sign r = fp_sign r0"
proof -
  define up where "up \<longleftrightarrow> gt \<or> tie \<and> odd (fp_abs r0)"
  have r': "r = (if up then r0 + 1 else r0)"
    unfolding r up_def Let_def using gt tie by (auto simp: odd_fp_abs)
  note mag = fp_mag_field [OF q]
  have "fp_nearest F x (fp_abs r0 + of_bool up)"
    by (rule fp_nearest_round [OF r0(2) _ _ y x]) (simp_all only: r0(1) mag up_def gt tie)
  then show "fp_nearest F x (fp_abs r)" "fp_sign r = fp_sign r0"
    using fp_increment [OF r0(2), of up] by (simp_all only: r')
qed

text \<open>\<^verbatim>\<open>normalize\<close> shifts the leading digit into the implicit one's place.\<close>

lemma normalize_correct:
  fixes x :: "'r word"
  assumes x: "x \<noteq> 0" "unat x < 2 ^ significandBits F"
  obtains n x' where "normalize F u x = (1 - int n, x')" "0 < n" "n \<le> significandBits F"
    "unat x' = unat x * 2 ^ n" "2 ^ significandBits F \<le> unat x'" "unat x' < 2 * 2 ^ significandBits F"
proof -
  let ?s = "significandBits F" and ?L = "LENGTH('r)"
  have i0: "implicitBit F \<noteq> 0" using unat_implicitBit by (metis power_not_zero unsigned_0 zero_neq_numeral)
  have ni: "nlz (implicitBit F) = ?L - 1 - ?s" using width by (intro nlz_exp) (simp_all add: unat_implicitBit)
  obtain n where nx: "nlz x = ?L - 1 - ?s + n" and n: "0 < n" "n \<le> ?s"
      and l: "2 ^ ?s \<le> unat x * 2 ^ n" "unat x * 2 ^ n < 2 * 2 ^ ?s"
    using nlz_shift [OF x] width by auto
  have "(2::nat) * 2 ^ ?s \<le> 2 ^ ?L" using width by (metis power_Suc power_increasing one_le_numeral Suc_leI add_leD1 less_add_same_cancel1 zero_less_numeral less_le_trans)
  then have sh: "unat (push_bit n x) = unat x * 2 ^ n"
    using l by (intro unat_push_below) linarith
  have d: "rep_clz F u x - rep_clz F u (implicitBit F) = int n"
    unfolding clz [OF x(1)] clz [OF i0] ni nx by simp
  have "unat (word_of_int (int n) :: su_int) = n"
    using n width width_max by (simp add: unat_of_nat take_bit_eq_mod)
  then have "normalize F u x = (1 - int n, push_bit n x)"
    unfolding normalize_def d Let_def using n width by (simp add: c_shl_in)
  then show ?thesis using that n l sh by auto
qed

end

end
