(* ===== verification/Fp_Driver.thy ===== *)
theory Fp_Driver
  imports Fp_Round
begin

unbundle bit_operations_syntax

text \<open>
  The hardware branch of the soft-float routines of this port. When the application sets
  \<^verbatim>\<open>__USE_HWFPU__\<close> (\<^verbatim>\<open>patmos/initfpu.h\<close>), \<^verbatim>\<open>addsf3.c\<close>, \<^verbatim>\<open>adddf3.c\<close>,
  \<^verbatim>\<open>mulsf3.c\<close>, \<^verbatim>\<open>muldf3.c\<close>, \<^verbatim>\<open>divsf3.c\<close> and \<^verbatim>\<open>divdf3.c\<close> hand their operands to a
  memory-mapped unit and poll its status register. The unit is not part of this repository: it is
  the parameter \<open>fpu\<close>, what a volatile store and a volatile load of a register do to its state. The
  loop may never end, so it is a partial function, and \<open>None\<close> is a routine that does not return.
\<close>

section \<open>The code\<close>

datatype fpu_reg =
  OPERAND_A_LO_REG | OPERAND_A_HI_REG | OPERAND_B_LO_REG | OPERAND_B_HI_REG | ENABLE_REG
  | SEL_OPERATION_REG | ROUND_MODE_REG | STATUS_REG | RESULT_LO_REG | RESULT_HI_REG

record 'd fpu =
  fpu_store :: "fpu_reg \<Rightarrow> su_int \<Rightarrow> 'd \<Rightarrow> 'd"
  fpu_load :: "fpu_reg \<Rightarrow> 'd \<Rightarrow> su_int \<times> 'd"

partial_function (option) fpu_wait :: "'d fpu \<Rightarrow> 'd \<Rightarrow> 'd option" where
  "fpu_wait D d =
    (let (status, d) = fpu_load D STATUS_REG d in
     if status AND 1 \<noteq> 1 then fpu_wait D d else Some d)"

declare fpu_wait.simps [code]

definition fpu_start :: "'d fpu \<Rightarrow> su_int \<Rightarrow> 'd \<Rightarrow> 'd" where
  "fpu_start D sel d =
    (let d = fpu_store D ROUND_MODE_REG 0 d;
         d = fpu_store D SEL_OPERATION_REG sel d
     in fpu_store D ENABLE_REG 1 d)"

definition fpu_single :: "'d fpu \<Rightarrow> su_int \<Rightarrow> su_int \<Rightarrow> su_int \<Rightarrow> 'd \<Rightarrow> (su_int \<times> 'd) option" where
  "fpu_single D sel a b d =
    (let d = fpu_store D OPERAND_A_LO_REG a d;
         d = fpu_store D OPERAND_B_LO_REG b d
     in case fpu_wait D (fpu_start D sel d) of None \<Rightarrow> None
        | Some d \<Rightarrow> Some (fpu_load D RESULT_LO_REG d))"

text \<open>C does not order the two loads of the result; the model takes the high one first.\<close>

definition fpu_double :: "'d fpu \<Rightarrow> su_int \<Rightarrow> du_int \<Rightarrow> du_int \<Rightarrow> 'd \<Rightarrow> (du_int \<times> 'd) option" where
  "fpu_double D sel a b d =
    (let d = fpu_store D OPERAND_A_LO_REG (ucast (loWord a)) d;
         d = fpu_store D OPERAND_A_HI_REG (ucast (hiWord a)) d;
         d = fpu_store D OPERAND_B_LO_REG (ucast (loWord b)) d;
         d = fpu_store D OPERAND_B_HI_REG (ucast (hiWord b)) d
     in case fpu_wait D (fpu_start D sel d) of None \<Rightarrow> None
        | Some d \<Rightarrow>
            (let (hi, d) = fpu_load D RESULT_HI_REG d;
                 (lo, d) = fpu_load D RESULT_LO_REG d
             in Some (push_bit 32 (ucast hi) + ucast lo, d)))"

section \<open>Polling\<close>

text \<open>The unit's state after \<open>n\<close> loads of the status register, and whether the next load shows it
  ready.\<close>

fun fpu_polled :: "'d fpu \<Rightarrow> nat \<Rightarrow> 'd \<Rightarrow> 'd" where
  "fpu_polled D 0 d = d"
| "fpu_polled D (Suc n) d = fpu_polled D n (snd (fpu_load D STATUS_REG d))"

definition fpu_ready :: "'d fpu \<Rightarrow> 'd \<Rightarrow> bool" where
  "fpu_ready D d \<longleftrightarrow> fst (fpu_load D STATUS_REG d) AND 1 = 1"

lemma fpu_wait_step:
  "fpu_wait D d = (if fpu_ready D d then Some (fpu_polled D 1 d) else fpu_wait D (fpu_polled D 1 d))"
  by (subst fpu_wait.simps) (simp add: fpu_ready_def Let_def split: prod.splits)

lemma fpu_wait_ready:
  "\<forall>i < n. \<not> fpu_ready D (fpu_polled D i d) \<Longrightarrow> fpu_ready D (fpu_polled D n d) \<Longrightarrow>
    fpu_wait D d = Some (fpu_polled D (Suc n) d)"
proof (induction n arbitrary: d)
  case 0
  then show ?case by (subst fpu_wait_step) simp
next
  case (Suc n)
  have "\<forall>i < n. \<not> fpu_ready D (fpu_polled D i (fpu_polled D 1 d))"
    using Suc.prems(1) by (auto dest: spec [of _ "Suc _"])
  moreover have "fpu_ready D (fpu_polled D n (fpu_polled D 1 d))" using Suc.prems(2) by simp
  ultimately have "fpu_wait D (fpu_polled D 1 d) = Some (fpu_polled D (Suc n) (fpu_polled D 1 d))"
    by (rule Suc.IH)
  moreover have "\<not> fpu_ready D d" using Suc.prems(1) by (auto dest: spec [of _ 0])
  ultimately show ?case by (subst fpu_wait_step) simp
qed

lemma fpu_wait_Some_ready:
  assumes "fpu_wait D d = Some d'"
  shows "\<exists>n. fpu_ready D (fpu_polled D n d) \<and> d' = fpu_polled D (Suc n) d"
proof (rule fpu_wait.raw_induct [OF _ assms, where P = "\<lambda>D d d'. \<exists>n. fpu_ready D (fpu_polled D n d) \<and> d' = fpu_polled D (Suc n) d"])
  fix wait D d d'
  assume 1: "\<And>D d d'. wait D d = Some d' \<Longrightarrow> \<exists>n. fpu_ready D (fpu_polled D n d) \<and> d' = fpu_polled D (Suc n) d"
    "(let (status, d) = fpu_load D STATUS_REG d in if status AND 1 \<noteq> 1 then wait D d else Some d) = Some d'"
  show "\<exists>n. fpu_ready D (fpu_polled D n d) \<and> d' = fpu_polled D (Suc n) d"
  proof (cases "fpu_ready D d")
    case True
    then have "fpu_ready D (fpu_polled D 0 d) \<and> d' = fpu_polled D (Suc 0) d"
      using 1(2) by (simp add: fpu_ready_def Let_def split: prod.splits)
    then show ?thesis ..
  next
    case False
    then have "wait D (snd (fpu_load D STATUS_REG d)) = Some d'"
      using 1(2) by (simp add: fpu_ready_def Let_def split: prod.splits)
    from 1(1) [OF this] obtain n where "fpu_ready D (fpu_polled D (Suc n) d) \<and> d' = fpu_polled D (Suc (Suc n)) d"
      by auto
    then show ?thesis ..
  qed
qed

lemma fpu_wait_eq:
  "fpu_wait D d = (if \<exists>n. fpu_ready D (fpu_polled D n d)
    then Some (fpu_polled D (Suc (LEAST n. fpu_ready D (fpu_polled D n d))) d) else None)"
proof (cases "\<exists>n. fpu_ready D (fpu_polled D n d)")
  case True
  then have "fpu_ready D (fpu_polled D (LEAST n. fpu_ready D (fpu_polled D n d)) d)" by (rule LeastI_ex)
  moreover have "\<forall>i < (LEAST n. fpu_ready D (fpu_polled D n d)). \<not> fpu_ready D (fpu_polled D i d)"
    by (blast dest: not_less_Least)
  ultimately show ?thesis using True by (simp only: fpu_wait_ready if_True)
next
  case False
  then show ?thesis using fpu_wait_Some_ready [of D d] by (cases "fpu_wait D d") auto
qed

lemma fpu_double_operands:
  "ucast (loWord a) = (s_low (dwords_of a) :: su_int)" "ucast (hiWord a) = (s_high (dwords_of a) :: su_int)"
proof -
  have m: "(0xffffffff :: du_int) = mask 32" by (simp add: mask_eq_exp_minus_1)
  show "ucast (loWord a) = (s_low (dwords_of a) :: su_int)"
    unfolding loWord_def m by (rule bit_word_eqI) (auto simp: bit_ucast_iff bit_and_iff bit_mask_iff dw.bit_low)
  show "ucast (hiWord a) = (s_high (dwords_of a) :: su_int)"
    by (simp add: hiWord_def dwords_of_def union_s_def)
qed

section \<open>Properties\<close>

text \<open>C12: The hardware branch for singles returns exactly if the unit becomes ready after finitely many
  polls, and then the low result register as it is after the first ready poll; otherwise it never
  returns. The operands, the rounding mode 0, the operation and the start bit have been stored
  before the first poll, in this order.\<close>

theorem hardware_single_returns:
  "fpu_single D sel a b d =
    (let d0 = fpu_store D ENABLE_REG 1 (fpu_store D SEL_OPERATION_REG sel (fpu_store D ROUND_MODE_REG 0
           (fpu_store D OPERAND_B_LO_REG b (fpu_store D OPERAND_A_LO_REG a d))))
     in if \<exists>n. fpu_ready D (fpu_polled D n d0)
        then Some (fpu_load D RESULT_LO_REG (fpu_polled D (Suc (LEAST n. fpu_ready D (fpu_polled D n d0))) d0))
        else None)"
  by (simp add: fpu_single_def fpu_start_def fpu_wait_eq Let_def)

text \<open>The hardware branch for doubles stores each operand as its two halves and joins the two
  result registers: once the wait is over, the result is the double word of the values the two
  registers are then read to have.\<close>

theorem hardware_double_result:
  assumes "fpu_wait D (fpu_start D sel (fpu_store D OPERAND_B_HI_REG (s_high (dwords_of b))
      (fpu_store D OPERAND_B_LO_REG (s_low (dwords_of b)) (fpu_store D OPERAND_A_HI_REG (s_high (dwords_of a))
      (fpu_store D OPERAND_A_LO_REG (s_low (dwords_of a)) d))))) = Some d1"
    and "fpu_load D RESULT_HI_REG d1 = (hi, d2)" and "fpu_load D RESULT_LO_REG d2 = (lo, d3)"
  shows "fpu_double D sel a b d = Some (dwords_all \<lparr> s_high = hi, s_low = lo \<rparr>, d3)"
proof -
  have "push_bit 32 (ucast hi) + ucast lo = (dwords_all \<lparr> s_high = hi, s_low = lo \<rparr> :: du_int)"
  proof -
    have "unat (ucast lo :: du_int) < 2 ^ 32"
      using unsigned_less [where ?'a = nat, of lo] by (simp add: dw.unat_ucast_half)
    from or_disjoint_add [OF push_disjoint [OF this]] show ?thesis by (simp add: dwords_all_def union_all_def)
  qed
  then show ?thesis using assms by (simp add: fpu_double_def fpu_double_operands Let_def)
qed

text \<open>A unit that computes at once: its state is the registers' contents, a load changes nothing.\<close>

definition instant_fpu :: "(su_int \<Rightarrow> su_int \<Rightarrow> su_int) \<Rightarrow> (fpu_reg \<Rightarrow> su_int) fpu" where
  "instant_fpu f = \<lparr> fpu_store = (\<lambda>r v d. d(r := v)),
    fpu_load = (\<lambda>r d. (if r = STATUS_REG then 1 else if r = RESULT_HI_REG then f (d OPERAND_A_HI_REG) (d OPERAND_B_HI_REG)
       else if r = RESULT_LO_REG then f (d OPERAND_A_LO_REG) (d OPERAND_B_LO_REG) else d r, d)) \<rparr>"

lemma instant_wait: "fpu_wait (instant_fpu f) d = Some d"
  by (subst fpu_wait_step) (simp add: fpu_ready_def instant_fpu_def)

theorem hardware_double_result_witness:
  "map_option fst (fpu_double (instant_fpu (OR)) 2 0x300000001 0x500000002 (\<lambda>_. 0)) =
    Some (dwords_all \<lparr> s_high = 7, s_low = 3 \<rparr>)"
proof -
  have h: "s_high (dwords_of 0x300000001) = (3 :: su_int)" "s_low (dwords_of 0x300000001) = (1 :: su_int)"
    "s_high (dwords_of 0x500000002) = (5 :: su_int)" "s_low (dwords_of 0x500000002) = (2 :: su_int)"
    by code_simp+
  let ?D = "instant_fpu (OR)"
  let ?d = "fpu_start ?D 2 (fpu_store ?D OPERAND_B_HI_REG 5 (fpu_store ?D OPERAND_B_LO_REG 2
    (fpu_store ?D OPERAND_A_HI_REG 3 (fpu_store ?D OPERAND_A_LO_REG 1 (\<lambda>_. 0)))))"
  have "fpu_load ?D RESULT_HI_REG ?d = (7, ?d)" "fpu_load ?D RESULT_LO_REG ?d = (3, ?d)"
    by (simp_all add: instant_fpu_def fpu_start_def Let_def)
  then have "fpu_double ?D 2 0x300000001 0x500000002 (\<lambda>_. 0) = Some (dwords_all \<lparr> s_high = 7, s_low = 3 \<rparr>, ?d)"
    by (intro hardware_double_result) (simp_all add: h instant_wait)
  then show ?thesis by simp
qed

end
