(* ===== verification/Fp_Add.thy ===== *)
theory Fp_Add
  imports Fp_Driver
begin

unbundle bit_operations_syntax

text \<open>
  Soft-float addition: \<^verbatim>\<open>addsf3.c\<close> and \<^verbatim>\<open>adddf3.c\<close>, which are one text over the
  two formats of \<^verbatim>\<open>fp_lib.h\<close>. \<open>fp_add\<close> is that text, cut at its comments into the special
  operands, the unpacking of one operand, the alignment of the smaller one, the normalization of the
  sum, and the final rounding. The theorem: the result is the exact sum, rounded to nearest.
\<close>

section \<open>The code\<close>

text \<open>Zero, infinity and NaN: the early returns, or \<open>None\<close> when the code goes on.\<close>

definition fp_add_special :: "'r::len word fp_lib \<Rightarrow> 'r word \<Rightarrow> 'r word \<Rightarrow> 'r word option" where
  "fp_add_special F a b =
    (let aAbs = a AND absMask F; bAbs = b AND absMask F in
     if aAbs - 1 \<ge> infRep F - 1 \<or> bAbs - 1 \<ge> infRep F - 1 then
       if aAbs > infRep F then Some (a OR quietBit F)
       else if bAbs > infRep F then Some (b OR quietBit F)
       else if aAbs = infRep F then
         if a XOR b = signBit F then Some (qnanRep F) else Some a
       else if bAbs = infRep F then Some b
       else if aAbs = 0 then
         if bAbs = 0 then Some (a AND b) else Some b
       else if bAbs = 0 then Some a
       else None
     else None)"

text \<open>Exponent and significand of one operand, normalized.\<close>

definition fp_operand :: "'r::len word fp_lib \<Rightarrow> ub \<Rightarrow> 'r word \<Rightarrow> int \<times> 'r word" where
  "fp_operand F u rep =
    (let exponent = uint (drop_bit (significandBits F) rep AND word_of_int (maxExponent F));
         significand = rep AND significandMask F
     in if exponent = 0 then normalize F u significand else (exponent, significand))"

definition fp_add_align :: "'r::len word fp_lib \<Rightarrow> ub \<Rightarrow> su_int \<Rightarrow> 'r word \<Rightarrow> 'r word" where
  "fp_add_align F u align bSignificand =
    (if align \<noteq> 0 then
       if align < of_nat LENGTH('r) then
         let sticky = c_bool (c_shl u bSignificand (of_nat LENGTH('r) - align) \<noteq> 0)
         in c_lshr u bSignificand align OR sticky
       else 1
     else bSignificand)"

text \<open>The sum or difference and its exponent; \<open>None\<close> is the early return for exact cancellation.\<close>

definition fp_add_combine ::
    "'r::len word fp_lib \<Rightarrow> ub \<Rightarrow> bool \<Rightarrow> int \<Rightarrow> 'r word \<Rightarrow> 'r word \<Rightarrow> (int \<times> 'r word) option" where
  "fp_add_combine F u subtraction aExponent aSignificand bSignificand =
    (if subtraction then
       let aSignificand = aSignificand - bSignificand in
       if aSignificand = 0 then None
       else if aSignificand < push_bit 3 (implicitBit F) then
         let shift = rep_clz F u aSignificand - rep_clz F u (push_bit 3 (implicitBit F))
         in Some (aExponent - shift, c_shl u aSignificand (word_of_int shift))
       else Some (aExponent, aSignificand)
     else
       let aSignificand = aSignificand + bSignificand in
       if aSignificand AND push_bit 4 (implicitBit F) \<noteq> 0 then
         let sticky = c_bool (aSignificand AND 1 \<noteq> 0)
         in Some (aExponent + 1, drop_bit 1 aSignificand OR sticky)
       else Some (aExponent, aSignificand))"

definition fp_add_round :: "'r::len word fp_lib \<Rightarrow> ub \<Rightarrow> 'r word \<Rightarrow> int \<Rightarrow> 'r word \<Rightarrow> 'r word" where
  "fp_add_round F u resultSign aExponent aSignificand =
    (if aExponent \<ge> maxExponent F then infRep F OR resultSign else
     let (aExponent, aSignificand) =
           (if aExponent \<le> 0 then
              let shift = 1 - aExponent;
                  sticky = c_bool (c_shl u aSignificand (of_nat LENGTH('r) - word_of_int shift) \<noteq> 0)
              in (0, c_lshr u aSignificand (word_of_int shift) OR sticky)
            else (aExponent, aSignificand));
         roundGuardSticky = aSignificand AND 7;
         result = drop_bit 3 aSignificand AND significandMask F;
         result = result OR push_bit (significandBits F) (word_of_int aExponent);
         result = result OR resultSign;
         result = (if roundGuardSticky > 4 then result + 1 else result);
         result = (if roundGuardSticky = 4 then result + (result AND 1) else result)
     in result)"

definition fp_add :: "'r::len word fp_lib \<Rightarrow> ub \<Rightarrow> 'r word \<Rightarrow> 'r word \<Rightarrow> 'r word" where
  "fp_add F u a b =
    (case fp_add_special F a b of Some r \<Rightarrow> r | None \<Rightarrow>
     let (aRep, bRep) = (if b AND absMask F > a AND absMask F then (b, a) else (a, b));
         (aExponent, aSignificand) = fp_operand F u aRep;
         (bExponent, bSignificand) = fp_operand F u bRep;
         resultSign = aRep AND signBit F;
         subtraction = (aRep XOR bRep) AND signBit F \<noteq> 0;
         aSignificand = push_bit 3 (aSignificand OR implicitBit F);
         bSignificand = push_bit 3 (bSignificand OR implicitBit F);
         align = word_of_int (aExponent - bExponent);
         bSignificand = fp_add_align F u align bSignificand
     in case fp_add_combine F u subtraction aExponent aSignificand bSignificand of
          None \<Rightarrow> 0
        | Some (aExponent, aSignificand) \<Rightarrow> fp_add_round F u resultSign aExponent aSignificand)"

definition addsf3 :: "ub \<Rightarrow> 'd fpu \<Rightarrow> su_int \<Rightarrow> su_int \<Rightarrow> su_int \<Rightarrow> 'd \<Rightarrow> (su_int \<times> 'd) option" where
  "addsf3 u D USE_HWFPU a b d =
    (if USE_HWFPU \<noteq> 0 then fpu_single D 0 a b d else Some (fp_add single u a b, d))"

definition adddf3 :: "ub \<Rightarrow> 'd fpu \<Rightarrow> su_int \<Rightarrow> du_int \<Rightarrow> du_int \<Rightarrow> 'd \<Rightarrow> (du_int \<times> 'd) option" where
  "adddf3 u D USE_HWFPU a b d =
    (if USE_HWFPU \<noteq> 0 then fpu_double D 0 a b d else Some (fp_add double u a b, d))"

definition subsf3 :: "ub \<Rightarrow> 'd fpu \<Rightarrow> su_int \<Rightarrow> su_int \<Rightarrow> su_int \<Rightarrow> 'd \<Rightarrow> (su_int \<times> 'd) option" where
  "subsf3 u D USE_HWFPU a b d = addsf3 u D USE_HWFPU a (b XOR signBit single) d"

definition subdf3 :: "ub \<Rightarrow> 'd fpu \<Rightarrow> su_int \<Rightarrow> du_int \<Rightarrow> du_int \<Rightarrow> 'd \<Rightarrow> (du_int \<times> 'd) option" where
  "subdf3 u D USE_HWFPU a b d = adddf3 u D USE_HWFPU a (b XOR signBit double) d"

definition negsf2 :: "su_int \<Rightarrow> su_int" where "negsf2 a = a XOR signBit single"
definition negdf2 :: "du_int \<Rightarrow> du_int" where "negdf2 a = a XOR signBit double"

section \<open>Unpacking an operand\<close>

context fp_format
begin

lemma or_implicitBit:
  fixes x :: "'r word"
  shows "unat x < 2 ^ significandBits F \<Longrightarrow> unat (x OR implicitBit F) = 2 ^ significandBits F + unat x"
    and "2 ^ significandBits F \<le> unat x \<Longrightarrow> unat x < 2 * 2 ^ significandBits F \<Longrightarrow> x OR implicitBit F = x"
proof -
  let ?s = "significandBits F"
  show "unat (x OR implicitBit F) = 2 ^ ?s + unat x" if "unat x < 2 ^ ?s"
  proof -
    have "unat (implicitBit F OR x) = unat (1 :: 'r word) * 2 ^ ?s mod 2 ^ LENGTH('r) + unat x"
      unfolding implicitBit_def by (rule unat_push_or [OF that])
    then show ?thesis using width by (simp add: or.commute)
  qed
  show "x OR implicitBit F = x" if "2 ^ ?s \<le> unat x" "unat x < 2 * 2 ^ ?s"
  proof -
    have "bit x ?s" using that by (simp add: top_bit_iff)
    then show ?thesis
      unfolding implicitBit_def by (intro bit_word_eqI) (auto simp: bit_or_iff bit_exp_iff)
  qed
qed

lemma fp_operand_correct:
  assumes k: "0 < fp_abs a" "fp_abs a < fp_inf F"
  obtains e s where "fp_operand F u a = (e, s)"
    "2 ^ significandBits F \<le> unat (s OR implicitBit F)" "unat (s OR implicitBit F) < 2 * 2 ^ significandBits F"
    "real (fp_mag (significandBits F) (fp_abs a)) = real (unat (s OR implicitBit F)) * 2 powi (e - 1)"
    "1 - int (significandBits F) \<le> e" "e < maxExponent F"
proof -
  let ?s = "significandBits F"
  define m where "m = a AND significandMask F"
  define e0 where "e0 = fp_abs a div 2 ^ ?s"
  have um: "unat m = fp_abs a mod 2 ^ ?s" unfolding m_def by (rule significand_field)
  have ue: "uint (drop_bit ?s a AND word_of_int (maxExponent F)) = int e0"
    unfolding e0_def exponent_field [symmetric] by (simp add: of_nat_unat)
  have op: "fp_operand F u a = (if e0 = 0 then normalize F u m else (int e0, m))"
    unfolding fp_operand_def ue m_def Let_def by simp
  have ka: "fp_abs a = e0 * 2 ^ ?s + unat m" unfolding um e0_def by (simp add: div_mult_mod_eq)
  have m: "unat m < 2 ^ ?s" unfolding um by simp
  have M: "maxExponent F > 0" using eb(2) by (simp add: maxExponent_def)
  show ?thesis
  proof (cases "e0 = 0")
    case True
    then have "m \<noteq> 0" "fp_abs a = unat m" using k(1) ka by auto
    from normalize_correct [OF this(1) m, of u] obtain n s where n: "normalize F u m = (1 - int n, s)"
      "0 < n" "n \<le> ?s" "unat s = unat m * 2 ^ n" "2 ^ ?s \<le> unat s" "unat s < 2 * 2 ^ ?s" by blast
    have "real (unat m) = real (unat s) * 2 powi - int n"
      by (simp add: n(4) power_int_minus field_simps)
    then show ?thesis
      using that [of "1 - int n" s] n True op m M or_implicitBit(2) [OF n(5,6)] \<open>fp_abs a = unat m\<close>
      by (simp add: fp_mag_compose(2))
  next
    case False
    have q: "unat (m OR implicitBit F) = 2 ^ ?s + unat m" by (rule or_implicitBit(1) [OF m])
    have "fp_abs a = (e0 - 1) * 2 ^ ?s + (2 ^ ?s + unat m)"
      using ka False by (cases e0) auto
    then have "fp_mag ?s (fp_abs a) = (2 ^ ?s + unat m) * 2 ^ (e0 - 1)"
      using fp_mag_field(1) [of "2 ^ ?s + unat m" "e0 - 1"] m by simp
    moreover have "(2::real) ^ (e0 - 1) = 2 powi (int e0 - 1)"
      using False by (simp add: power_int_def nat_diff_distrib)
    ultimately have v: "real (fp_mag ?s (fp_abs a)) = real (unat (m OR implicitBit F)) * 2 powi (int e0 - 1)"
      by (simp only: q of_nat_mult of_nat_power of_nat_numeral)
    have "e0 < 2 ^ exponentBits F - 1"
      using k(2) unfolding e0_def fp_inf_def by (intro less_mult_imp_div_less)
    then have "int e0 < maxExponent F" unfolding maxExponent_eq by (simp only: of_nat_less_iff)
    then show ?thesis
      using that [of "int e0" m] v q m False op by simp
  qed
qed

section \<open>The steps\<close>

text \<open>Special operands are recognized as they should be: the code goes on exactly for two finite
  numbers that are not zero.\<close>

lemma abs_minus_one:
  fixes a :: "'r word"
  shows "(a AND absMask F) - 1 \<ge> infRep F - 1 \<longleftrightarrow> fp_abs a = 0 \<or> fp_inf F \<le> fp_abs a"
proof -
  have "infRep F \<noteq> 0" using unat_infRep fp_inf_pos by auto
  from minus_one_range [OF this, of "a AND absMask F"] show ?thesis
    by (simp add: and_absMask_cmp word_le_nat_alt unat_infRep unat_and_absMask)
qed

lemma xor_signBit_iff:
  fixes a b :: "'r word"
  shows "a XOR b = signBit F \<longleftrightarrow> fp_abs a = fp_abs b \<and> fp_sign a \<noteq> fp_sign b"
proof -
  let ?n = "LENGTH('r) - 1"
  have "a XOR b = signBit F \<longleftrightarrow> (\<forall>i < LENGTH('r). (bit a i \<noteq> bit b i) = (i = ?n))"
    by (simp add: bit_eq_iff bit_xor_iff bit_signBit)
  also have "\<dots> \<longleftrightarrow> (\<forall>i < ?n. bit a i = bit b i) \<and> bit a ?n \<noteq> bit b ?n"
    using eb(1) by (auto simp: less_Suc_eq)
  also have "(\<forall>i < ?n. bit a i = bit b i) \<longleftrightarrow> a AND absMask F = b AND absMask F"
  proof
    assume "\<forall>i < ?n. bit a i = bit b i"
    then show "a AND absMask F = b AND absMask F"
      by (intro bit_word_eqI) (auto simp: bit_and_iff absMask_eq bit_mask_iff)
  next
    assume "a AND absMask F = b AND absMask F"
    then have e: "bit (a AND absMask F) i = bit (b AND absMask F) i" for i by simp
    have "bit a i = bit b i" if "i < ?n" for i
      using e [of i] that eb(1) by (simp add: bit_and_iff absMask_eq bit_mask_iff)
    then show "\<forall>i < ?n. bit a i = bit b i" by blast
  qed
  also have "a AND absMask F = b AND absMask F \<longleftrightarrow> fp_abs a = fp_abs b"
    by (simp add: word_unat_eq_iff unat_and_absMask)
  finally show ?thesis by (simp add: fp_sign_def)
qed

lemma fp_add_special_eq:
  "fp_add_special F a b =
    (if fp_is_nan F a then Some (a OR quietBit F)
     else if fp_is_nan F b then Some (b OR quietBit F)
     else if fp_is_inf F a then
       Some (if fp_is_inf F b \<and> fp_sign a \<noteq> fp_sign b then qnanRep F else a)
     else if fp_is_inf F b then Some b
     else if fp_abs a = 0 then Some (if fp_abs b = 0 then a AND b else b)
     else if fp_abs b = 0 then Some a else None)"
  unfolding fp_add_special_def Let_def abs_minus_one and_absMask_cmp xor_signBit_iff
  by (auto simp: fp_is_nan_def fp_is_inf_def)

lemma fp_add_align_correct:
  assumes d: "unat n = d" and b: "even b'" "b' = unat b" "0 < b'" "b' < 2 * 2 ^ LENGTH('r)"
  shows "sticky (unat (fp_add_align F u n b)) (real b' / 2 ^ d)" and "d = 0 \<Longrightarrow> fp_add_align F u n b = b"
proof -
  have L: "n < of_nat LENGTH('r) \<longleftrightarrow> d < LENGTH('r)"
    using width_max by (simp add: word_less_nat_alt d unat_of_nat)
  have n0: "n = 0 \<longleftrightarrow> d = 0" using d by (auto simp: word_unat_eq_iff)
  show "d = 0 \<Longrightarrow> fp_add_align F u n b = b" using n0 by (simp add: fp_add_align_def)
  consider "d = 0" | "0 < d" "d < LENGTH('r)" | "LENGTH('r) \<le> d" by linarith
  then show "sticky (unat (fp_add_align F u n b)) (real b' / 2 ^ d)"
  proof cases
    case 1
    then have "fp_add_align F u n b = b" "real b' / 2 ^ d = real (unat b)" using n0 b by (simp_all add: fp_add_align_def)
    then show ?thesis by (simp only: sticky_exact)
  next
    case 2
    then have "unat (fp_add_align F u n b) = shr_sticky d b'"
      using n0 L unat_shr_sticky [OF d 2 width_max(1), of u b] b by (simp add: fp_add_align_def Let_def)
    then show ?thesis using sticky_shr [OF sticky_exact, of d b'] by simp
  next
    case 3
    then have "(2::nat) ^ LENGTH('r) \<le> 2 ^ d" by simp
    then have "b' < 2 * 2 ^ d" using b by linarith
    then have "real b' < 2 * 2 ^ d" by (metis of_nat_less_iff of_nat_mult of_nat_numeral of_nat_power)
    then have "0 < real b' / 2 ^ d" "real b' / 2 ^ d < 2" using b by (simp_all add: field_simps)
    moreover have "fp_add_align F u n b = 1" using 3 n0 L b by (auto simp: fp_add_align_def)
    ultimately show ?thesis by (simp add: sticky_def)
  qed
qed

text \<open>What the last step is given: an exponent, and a guarded significand with three extra digits.\<close>

lemma fp_add_round_correct:
  assumes Q: "8 * 2 ^ significandBits F \<le> unat Q" "unat Q < 16 * 2 ^ significandBits F"
    and g: "guarded (unat Q) y" and x: "x = y / 8 * 2 powi (e - 1)" "1 \<le> x"
    and r: "r = fp_add_round F u (if s then signBit F else 0) e Q"
  shows "fp_nearest F x (fp_abs r)" and "fp_sign r = s"
proof -
  let ?s = "significandBits F"
  note g8 = guarded_eighth [OF g]
  have q8: "2 ^ ?s \<le> unat Q div 8" "unat Q div 8 < 2 * 2 ^ ?s"
    using Q by (simp_all add: less_eq_div_iff_mult_less_eq less_mult_imp_div_less)
  have "fp_nearest F x (fp_abs r) \<and> fp_sign r = s"
  proof (cases "maxExponent F \<le> e")
    case True
    have "real (2 ^ ?s) \<le> real (unat Q div 8)" using q8(1) by (simp only: of_nat_le_iff)
    then have "2 ^ ?s \<le> real (unat Q div 8)" by simp
    then have "2 ^ ?s \<le> y / 8" using g8(1) by linarith
    from fp_overflow [OF this True] have "real (fp_mag ?s (fp_inf F)) \<le> x" unfolding x .
    from fp_nearest_overflow [OF this] show ?thesis
      using True by (simp add: r fp_add_round_def fp_sign_infRep)
  next
    case False
    have yp: "y / 8 < real (2 * 2 ^ ?s)"
    proof -
      have "real (unat Q div 8 + 1) \<le> real (2 * 2 ^ ?s)" using q8 by (intro of_nat_mono) simp
      then show ?thesis using g8(2) by simp
    qed
    have "y / 8 * 2 powi (e - 1) < real (2 * 2 ^ ?s) * 2 powi (e - 1)"
      by (rule mult_strict_right_mono [OF yp]) simp
    then have "1 < real (2 * 2 ^ ?s) * 2 powi (e - 1)" using x by linarith
    also have "\<dots> = 2 powi (int ?s + e)"
      by (simp add: power_int_add power_int_diff)
    finally have se: "0 < int ?s + e"
      by (metis linorder_not_less one_le_numeral power_int_0_right power_int_increasing)
    define n where "n = nat (1 - e)"
    define Q' where "Q' = (if e \<le> 0 then c_lshr u Q (word_of_int (1 - e)) OR
      c_bool (c_shl u Q (of_nat LENGTH('r) - word_of_int (1 - e)) \<noteq> 0) else Q)"
    define e' where "e' = (if e \<le> 0 then 0 else e)"
    have Q': "unat Q' = (if e \<le> 0 then shr_sticky n (unat Q) else unat Q)"
    proof (cases "e \<le> 0")
      case True
      have n: "0 < n" "n < LENGTH('r)" using True se width by (auto simp: n_def)
      have "unat (word_of_int (1 - e) :: su_int) = n"
        using n True width_max unfolding n_def by (subst unat_word_of_int) simp_all
      from unat_shr_sticky [OF this n width_max(1), of u Q] show ?thesis using True by (simp add: Q'_def)
    qed (simp add: Q'_def)
    define y' where "y' = (if e \<le> 0 then y / 2 ^ n else y)"
    have g': "guarded (unat Q') y'"
      using g guarded_shr [OF g, of n] unfolding Q' y'_def n_def by (auto intro: sticky_guarded)
    define E where "E = nat (e - 1)"
    have x': "x = y' / 8 * 2 ^ E"
    proof (cases "e \<le> 0")
      case True
      then have "(2::real) powi (e - 1) = 1 / 2 ^ n"
        using power_int_minus [of "2::real" "1 - e"] by (simp add: n_def power_int_def field_simps)
      then show ?thesis using True x by (simp add: y'_def E_def)
    next
      case False
      then have "(2::real) powi (e - 1) = 2 ^ E" by (simp add: E_def power_int_def)
      then show ?thesis using False x by (simp add: y'_def)
    qed
    define q where "q = unat Q' div 8"
    have q: "q < 2 * 2 ^ ?s" "0 < E \<Longrightarrow> 2 ^ ?s \<le> q" "nat e' * 2 ^ ?s + q mod 2 ^ ?s = E * 2 ^ ?s + q"
    proof -
      have "q < (if e \<le> 0 then 1 else 2) * 2 ^ ?s"
        using q8 Q shr_sticky_less [of "unat Q" "8 * 2 ^ ?s" n] unfolding q_def Q' n_def
        by (auto simp: less_mult_imp_div_less)
      moreover have "0 < e \<Longrightarrow> 2 ^ ?s \<le> q" using q8 by (simp add: q_def Q')
      moreover have "2 ^ ?s \<le> q \<Longrightarrow> q < 2 * 2 ^ ?s \<Longrightarrow> q = 2 ^ ?s + q mod 2 ^ ?s"
        by (simp add: le_mod_geq)
      ultimately show "q < 2 * 2 ^ ?s" "0 < E \<Longrightarrow> 2 ^ ?s \<le> q"
          "nat e' * 2 ^ ?s + q mod 2 ^ ?s = E * 2 ^ ?s + q"
        by (auto simp: E_def e'_def nat_diff_distrib algebra_simps split: if_splits)
    qed
    define m where "m = drop_bit 3 Q' AND significandMask F"
    have um: "unat m = q mod 2 ^ ?s"
      by (simp add: m_def q_def significandMask_eq unat_and_mask unat_drop_bit)
    define r0 where "r0 = m OR push_bit ?s (word_of_int e') OR (if s then signBit F else 0)"
    have r0: "fp_abs r0 = E * 2 ^ ?s + q" "fp_sign r0 = s" "fp_abs r0 < fp_inf F"
      using fp_fields [OF _ _ _ r0_def] False eb(2) unfolding um q(3)
      by (auto simp: e'_def maxExponent_def)
    have r': "r = (let r1 = if 4 < unat Q' mod 8 then r0 + 1 else r0 in if unat Q' mod 8 = 4 then r1 + (r1 AND 1) else r1)"
    proof -
      have "unat (Q' AND 7) = unat Q' mod 8"
        using unat_and_mask [of Q' 3] by (simp add: mask_eq_exp_minus_1)
      then have c: "4 < Q' AND 7 \<longleftrightarrow> 4 < unat Q' mod 8" "Q' AND 7 = 4 \<longleftrightarrow> unat Q' mod 8 = 4"
        using unat_power [of 2] width by (simp_all add: word_less_nat_alt word_unat_eq_iff)
      have "fp_add_round F u (if s then signBit F else 0) e Q =
        (let r1 = if 4 < Q' AND 7 then r0 + 1 else r0 in if Q' AND 7 = 4 then r1 + (r1 AND 1) else r1)"
        using False unfolding fp_add_round_def r0_def m_def e'_def Q'_def
        by (simp add: Let_def or.assoc)
      then show ?thesis unfolding r c .
    qed
    note g8' = guarded_eighth [OF g', folded q_def]
    show ?thesis
      using fp_round_up [OF r0(1,3) q(1,2) g8'(1,2) x' _ _ r'] r0(2) unfolding g8'(3,4) by simp
  qed
  then show "fp_nearest F x (fp_abs r)" "fp_sign r = s" by simp_all
qed

text \<open>The sum and the difference of an exact significand \<open>a\<close> and a smaller one \<open>b\<close> with a sticky
  bit. Where the difference cancels more than one digit, \<open>b\<close> was not shifted by more than one.\<close>

lemma fp_combine_sum:
  fixes a b :: "'r word"
  assumes a: "even (unat a)" "8 * 2 ^ significandBits F \<le> unat a" "unat a < 16 * 2 ^ significandBits F"
    and b: "sticky (unat b) y" "y \<le> real (unat a)"
  obtains e' Q y' where "fp_add_combine F u False e a b = Some (e', Q)"
    "8 * 2 ^ significandBits F \<le> unat Q" "unat Q < 16 * 2 ^ significandBits F" "guarded (unat Q) y'"
    "(real (unat a) + y) / 8 * 2 powi (e - 1) = y' / 8 * 2 powi (e' - 1)"
proof -
  let ?s = "significandBits F"
  have ba: "unat b \<le> unat a" using sticky_le [OF b(1) a(1) b(2)] .
  have L: "(32::nat) * 2 ^ ?s \<le> 2 ^ LENGTH('r)"
    using power_increasing [OF width, of "2::nat"] by (simp add: power_add)
  have sum: "unat (a + b) = unat a + unat b"
    using ba a L by (intro unat_add_below) linarith
  have st: "sticky (unat (a + b)) (real (unat a) + y)" unfolding sum by (rule sticky_add [OF b(1) a(1)])
  have i4: "push_bit 4 (implicitBit F) = push_bit (?s + 4) 1"
    unfolding implicitBit_def push_bit_push_bit by (simp only: add.commute)
  have c: "a + b AND push_bit 4 (implicitBit F) \<noteq> 0 \<longleftrightarrow> 16 * 2 ^ ?s \<le> unat (a + b)"
    unfolding i4 using and_top_bit_iff [of "a + b" "?s + 4"] ba a sum by (simp add: power_add ac_simps)
  show ?thesis
  proof (cases "16 * 2 ^ ?s \<le> unat (a + b)")
    case True
    define Q where "Q = drop_bit 1 (a + b) OR c_bool (a + b AND 1 \<noteq> 0)"
    have Q: "unat Q = shr_sticky 1 (unat (a + b))"
    proof -
      have "unat (a + b AND 1) = unat (a + b) mod 2 ^ 1" using unat_and_mask [of "a + b" 1] by simp
      then have "a + b AND 1 \<noteq> 0 \<longleftrightarrow> unat (a + b) mod 2 ^ 1 \<noteq> 0" by (metis unsigned_0 unat_eq_zero)
      then show ?thesis
        unfolding Q_def shr_sticky_def unsigned_or_eq unat_drop_bit by (simp only: c_bool_def) simp
    qed
    then have "sticky (unat Q) ((real (unat a) + y) / 2)" using sticky_shr [OF st, of 1] by simp
    moreover have "fp_add_combine F u False e a b = Some (e + 1, Q)"
      using True c by (simp add: fp_add_combine_def Q_def Let_def)
    moreover have "unat Q < 16 * 2 ^ ?s" unfolding Q by (rule shr_sticky_less) (use ba a sum in simp_all)
    moreover have "8 * 2 ^ ?s \<le> unat Q"
    proof -
      have "unat (a + b) div 2 \<le> unat Q" unfolding Q shr_sticky_cases by simp
      then show ?thesis using True by simp
    qed
    moreover have "(2::real) powi e = 2 * 2 powi (e - 1)" by (simp add: power_int_diff)
    ultimately show ?thesis
      using that [of "e + 1" Q "(real (unat a) + y) / 2"] by (simp add: sticky_guarded)
  next
    case False
    then show ?thesis
      using that [of e "a + b" "real (unat a) + y"] sticky_guarded [OF st] c a sum
      by (simp add: fp_add_combine_def Let_def)
  qed
qed

lemma fp_combine_difference:
  fixes a b :: "'r word"
  assumes a: "even (unat a)" "8 * 2 ^ significandBits F \<le> unat a" "unat a < 16 * 2 ^ significandBits F"
    and b: "sticky (unat b) y" "0 < y" "y \<le> real (unat a)" "y = real (unat b) \<or> y \<le> 4 * 2 ^ significandBits F"
  obtains "fp_add_combine F u True e a b = None" "y = real (unat a)"
  | e' Q y' where "fp_add_combine F u True e a b = Some (e', Q)" "y < real (unat a)"
    "8 * 2 ^ significandBits F \<le> unat Q" "unat Q < 16 * 2 ^ significandBits F" "guarded (unat Q) y'"
    "(real (unat a) - y) / 8 * 2 powi (e - 1) = y' / 8 * 2 powi (e' - 1)"
proof -
  let ?s = "significandBits F" and ?d = "unat (a - b)"
  have ba: "unat b \<le> unat a" using sticky_le [OF b(1) a(1) b(3)] .
  have dif: "?d = unat a - unat b" using ba by (rule unat_sub_below)
  have st: "sticky ?d (real (unat a) - y)" unfolding dif by (rule sticky_sub [OF b(1) a(1) ba])
  have i3: "unat (push_bit 3 (implicitBit F)) = 8 * 2 ^ ?s"
    using power_strict_increasing [of "?s + 3" "LENGTH('r)" "2::nat"] width
    by (subst unat_push_below) (simp_all add: unat_implicitBit power_add)
  show ?thesis
  proof (cases "a - b = 0")
    case True
    then have "unat a = unat b" using ba dif by simp
    then have "y = real (unat a)" using b(1) a(1) by (simp add: sticky_def)
    then show ?thesis using that(1) True by (simp add: fp_add_combine_def)
  next
    case nz: False
    have lt: "y < real (unat a)"
    proof (rule ccontr)
      assume "\<not> ?thesis"
      then have "y = real (unat a)" using b(3) by simp
      moreover from this have "unat b = unat a" using b(1) a(1) ba by (auto simp: sticky_def split: if_splits)
      ultimately show False using nz dif by (simp add: word_unat_eq_iff)
    qed
    show ?thesis
    proof (cases "?d < 8 * 2 ^ ?s")
      case False
      then show ?thesis
        using that(2) [of e "a - b" "real (unat a) - y"] lt nz sticky_guarded [OF st] a dif i3
        by (simp add: fp_add_combine_def Let_def word_less_nat_alt)
    next
      case True
      have k: "8 * 2 ^ ?s = (2::nat) ^ (?s + 3)" "?s + 3 < LENGTH('r)" using width by (simp_all add: power_add)
      obtain n where n: "nlz (a - b) = LENGTH('r) - 1 - (?s + 3) + n" "0 < n" "n \<le> ?s + 3"
          "8 * 2 ^ ?s \<le> ?d * 2 ^ n" "?d * 2 ^ n < 16 * 2 ^ ?s"
        using nlz_shift [OF nz _ k(2)] True unfolding k(1) by (auto simp: power_add)
      have i0: "push_bit 3 (implicitBit F) \<noteq> 0" using i3 by auto
      have shift: "rep_clz F u (a - b) - rep_clz F u (push_bit 3 (implicitBit F)) = int n"
        unfolding clz [OF nz] clz [OF i0] n(1) using nlz_exp [OF k(2)] i3 by (simp add: k(1))
      define Q where "Q = push_bit n (a - b)"
      have Q: "unat Q = ?d * 2 ^ n"
        unfolding Q_def using n(5) power_increasing [OF width, of "2::nat"]
        by (intro unat_push_below) (simp add: power_add)
      have "unat (word_of_int (int n) :: su_int) = n"
        using n(3) k(2) width_max by (subst unat_word_of_int) simp_all
      then have "fp_add_combine F u True e a b = Some (e - int n, Q)"
        using nz True n(3) k(2) i3 unfolding fp_add_combine_def Let_def shift
        by (simp add: word_less_nat_alt c_shl_in Q_def)
      moreover have "guarded (unat Q) ((real (unat a) - y) * 2 ^ n)"
      proof (cases "y = real (unat b)")
        case True
        then have "(real (unat a) - y) * 2 ^ n = real (unat Q)" using ba by (simp add: Q dif of_nat_diff)
        then show ?thesis by (simp only: sticky_guarded sticky_exact)
      next
        case False
        then have "4 * 2 ^ ?s \<le> real (unat a) - y" using a(2) b(4) of_nat_mono [OF a(2), where ?'a = real] by simp
        then have "real (4 * 2 ^ ?s) < real ?d + 1" using st by (auto simp: sticky_def split: if_splits)
        then have d4: "4 * 2 ^ ?s \<le> ?d" by linarith
        have "n < 2"
        proof (rule ccontr)
          assume "\<not> n < 2"
          then have "2 ^ 2 \<le> (2::nat) ^ n" by (intro power_increasing) simp_all
          then have "4 * 2 ^ ?s * 2 ^ 2 \<le> ?d * 2 ^ n" using d4 by (intro mult_le_mono)
          then show False using n(5) by simp
        qed
        then have "n = 1" using n(2) by simp
        then show ?thesis using guarded_double [OF st] by (simp add: Q mult.commute)
      qed
      moreover have "(2::real) powi (e - 1) = 2 ^ n * 2 powi (e - int n - 1)"
        by (simp add: power_int_diff)
      ultimately show ?thesis using that(2) [of "e - int n" Q] lt n(4,5) Q by simp
    qed
  qed
qed

section \<open>The sum\<close>

lemma fp_value_eq: "fp_value F x * fp_scale F = (if fp_sign x then - 1 else 1) * real (fp_mag (significandBits F) (fp_abs x))"
  by (simp add: fp_value_def fp_scale_def)

text \<open>Both operands finite and not zero, the first the larger one.\<close>

lemma fp_add_ordered:
  assumes a: "fp_abs a < fp_inf F" and b: "0 < fp_abs b" and ba: "fp_abs b \<le> fp_abs a"
    and op: "fp_operand F u a = (ea, sa)" "fp_operand F u b = (eb, sb)"
    and x: "x = (fp_value F a + fp_value F b) * fp_scale F"
    and r: "r = (case fp_add_combine F u ((a XOR b) AND signBit F \<noteq> 0) ea (push_bit 3 (sa OR implicitBit F))
          (fp_add_align F u (word_of_int (ea - eb)) (push_bit 3 (sb OR implicitBit F))) of
        None \<Rightarrow> 0 | Some (e, s) \<Rightarrow> fp_add_round F u (a AND signBit F) e s)"
  shows "fp_nearest F \<bar>x\<bar> (fp_abs r)" and "fp_sign r = (if x = 0 then fp_sign a \<and> fp_sign b else x < 0)"
proof -
  let ?s = "significandBits F"
  let ?A = "real (fp_mag ?s (fp_abs a))" and ?B = "real (fp_mag ?s (fp_abs b))"
  define Sa where "Sa = unat (sa OR implicitBit F)"
  define Sb where "Sb = unat (sb OR implicitBit F)"
  have A: "2 ^ ?s \<le> Sa" "Sa < 2 * 2 ^ ?s" "?A = real Sa * 2 powi (ea - 1)" "ea < maxExponent F"
    using fp_operand_correct [of a u] a b ba unfolding op Sa_def by auto
  have B: "2 ^ ?s \<le> Sb" "Sb < 2 * 2 ^ ?s" "?B = real Sb * 2 powi (eb - 1)" "1 - int ?s \<le> eb"
    using fp_operand_correct [of b u] a b ba unfolding op Sb_def by auto
  have BA: "?B \<le> ?A" using ba by (simp add: fp_mag_mono_le)
  have rS: "real Sa < 2 * 2 ^ ?s" "real Sb < 2 * 2 ^ ?s" "2 ^ ?s \<le> real Sb"
  proof -
    have "real Sa < real (2 * 2 ^ ?s)" "real Sb < real (2 * 2 ^ ?s)" "real (2 ^ ?s) \<le> real Sb"
      using A(2) B(1,2) by (simp_all only: of_nat_less_iff of_nat_le_iff)
    then show "real Sa < 2 * 2 ^ ?s" "real Sb < 2 * 2 ^ ?s" "2 ^ ?s \<le> real Sb" by simp_all
  qed
  have eba: "eb \<le> ea"
  proof (rule ccontr)
    assume "\<not> eb \<le> ea"
    then have "(2::real) * 2 powi (ea - 1) \<le> 2 powi (eb - 1)"
      using power_int_increasing [of ea "eb - 1" "2::real"] by (simp add: power_int_diff)
    moreover have "?A < 2 * 2 ^ ?s * 2 powi (ea - 1)"
      unfolding A(3) using rS(1) by (rule mult_strict_right_mono) simp
    moreover have "2 ^ ?s * 2 powi (eb - 1) \<le> ?B"
      unfolding B(3) using rS(3) by (rule mult_right_mono) simp
    moreover from calculation(1) have "2 ^ ?s * (2 * 2 powi (ea - 1)) \<le> 2 ^ ?s * (2::real) powi (eb - 1)"
      by (rule mult_left_mono) simp
    ultimately show False using BA by simp
  qed
  define d where "d = nat (ea - eb)"
  have d: "ea - eb = int d" using eba by (simp add: d_def)
  have M: "maxExponent F \<le> 2 ^ 15"
    using power_increasing [of "exponentBits F" 15 "2::int"] eb(1) width_max by (simp add: maxExponent_def)
  have wd: "unat (word_of_int (ea - eb) :: su_int) = d"
    using A(4) B(4) width width_max eba M unfolding d_def by (subst unat_word_of_int) simp_all
  have L: "(32::nat) * 2 ^ ?s \<le> 2 ^ LENGTH('r)"
    using power_increasing [OF width, of "2::nat"] by (simp add: power_add)
  define a8 where "a8 = push_bit 3 (sa OR implicitBit F)"
  define b8 where "b8 = push_bit 3 (sb OR implicitBit F)"
  have u8: "unat a8 = 8 * Sa" "unat b8 = 8 * Sb"
    unfolding a8_def b8_def Sa_def Sb_def using A(2) B(2) L
    by (subst unat_push_below; simp add: Sa_def Sb_def)+
  define b' where "b' = fp_add_align F u (word_of_int (ea - eb)) b8"
  define y where "y = real (8 * Sb) / 2 ^ d"
  have st: "sticky (unat b') y" and b0: "d = 0 \<Longrightarrow> b' = b8"
    unfolding b'_def y_def
  proof -
    have "even (8 * Sb)" "8 * Sb = unat b8" "0 < 8 * Sb" "8 * Sb < 2 * 2 ^ LENGTH('r)"
      using u8 B(1,2) L one_le_power [of "2::nat" ?s] by (simp, simp, linarith, linarith)
    from fp_add_align_correct [OF wd this, of u]
    show "sticky (unat (fp_add_align F u (word_of_int (ea - eb)) b8)) (real (8 * Sb) / 2 ^ d)"
      "d = 0 \<Longrightarrow> fp_add_align F u (word_of_int (ea - eb)) b8 = b8" by auto
  qed
  have yB: "?B = y / 8 * 2 powi (ea - 1)"
  proof -
    have e: "ea - 1 = int d + (eb - 1)" using d by simp
    have "(2::real) powi (ea - 1) = 2 powi int d * 2 powi (eb - 1)"
      unfolding e by (rule power_int_add) simp
    then show ?thesis by (simp add: B(3) y_def)
  qed
  have yA: "0 < y" "y \<le> real (unat a8)"
  proof -
    have "0 < real Sb" using rS(3) by (rule less_le_trans [rotated]) simp
    then show "0 < y" by (simp add: y_def)
    show "y \<le> real (unat a8)" using BA unfolding yB A(3) u8 by simp
  qed
  have exact: "y = real (unat b') \<or> y \<le> 4 * 2 ^ ?s"
  proof -
    consider "d = 0" | "d = 1" | "2 \<le> d" by linarith
    then show ?thesis
    proof cases
      case 1
      then show ?thesis using b0 by (simp add: y_def u8)
    next
      case 2
      then have y: "y = real (4 * Sb)" by (simp add: y_def)
      with st have "unat b' = 4 * Sb" by (simp only: sticky_nat)
      with y show ?thesis by simp
    next
      case 3
      then have "(2::real) ^ 2 \<le> 2 ^ d" by (intro power_increasing) simp_all
      then have "y \<le> real (8 * Sb) / 2 ^ 2" unfolding y_def by (intro divide_left_mono) simp_all
      then show ?thesis using rS(2) by simp
    qed
  qed
  have a8: "even (unat a8)" "8 * 2 ^ ?s \<le> unat a8" "unat a8 < 16 * 2 ^ ?s" using A u8 by simp_all
  have Ax: "?A = real (unat a8) / 8 * 2 powi (ea - 1)" using A(3) by (simp add: u8)
  have sub: "(a XOR b) AND signBit F \<noteq> 0 \<longleftrightarrow> fp_sign a \<noteq> fp_sign b"
    using unat_signBit by (auto simp: and_signBit fp_sign_def bit_xor_iff)
  define z where "z = (if fp_sign a \<noteq> fp_sign b then ?A - ?B else ?A + ?B)"
  have z: "x = (if fp_sign a then - z else z)" "0 \<le> z"
    using BA by (auto simp: x distrib_right fp_value_eq z_def)
  have z1: "1 \<le> z" if "z \<noteq> 0"
  proof -
    define k where "k = (if fp_sign a \<noteq> fp_sign b then fp_mag ?s (fp_abs a) - fp_mag ?s (fp_abs b)
        else fp_mag ?s (fp_abs a) + fp_mag ?s (fp_abs b))"
    have "z = real k"
      using ba by (simp add: z_def k_def of_nat_diff fp_mag_mono_le)
    with that show ?thesis by simp
  qed
  have r': "r = (case fp_add_combine F u (fp_sign a \<noteq> fp_sign b) ea a8 b' of
      None \<Rightarrow> 0 | Some (e, s) \<Rightarrow> fp_add_round F u (if fp_sign a then signBit F else 0) e s)"
    unfolding r sub unfolding a8_def b'_def b8_def and_signBit ..
  have fin: "fp_nearest F z (fp_abs (fp_add_round F u (if fp_sign a then signBit F else 0) e Q))"
      "fp_sign (fp_add_round F u (if fp_sign a then signBit F else 0) e Q) = fp_sign a"
    if "8 * 2 ^ ?s \<le> unat Q" "unat Q < 16 * 2 ^ ?s" "guarded (unat Q) y'" "z = y' / 8 * 2 powi (e - 1)" "z \<noteq> 0"
    for e Q y'
    using fp_add_round_correct [OF that(1-4) z1 refl] that(5) by simp_all
  have main: "z = 0 \<and> r = 0 \<or> z \<noteq> 0 \<and> fp_nearest F z (fp_abs r) \<and> fp_sign r = fp_sign a"
  proof (cases "fp_sign a = fp_sign b")
    case True
    obtain e' Q y' where c: "fp_add_combine F u False ea a8 b' = Some (e', Q)"
        "8 * 2 ^ ?s \<le> unat Q" "unat Q < 16 * 2 ^ ?s" "guarded (unat Q) y'"
        "(real (unat a8) + y) / 8 * 2 powi (ea - 1) = y' / 8 * 2 powi (e' - 1)"
      by (rule fp_combine_sum [OF a8 st yA(2)])
    have z': "z = (real (unat a8) + y) / 8 * 2 powi (ea - 1)"
      using True by (simp add: z_def Ax yB field_simps)
    moreover have "z \<noteq> 0" using True fp_mag_mono [OF b, of ?s] by (simp add: z_def)
    ultimately show ?thesis using c fin [OF c(2-4)] True by (simp add: r')
  next
    case False
    have z': "z = (real (unat a8) - y) / 8 * 2 powi (ea - 1)"
      using False by (simp add: z_def Ax yB field_simps)
    show ?thesis
    proof (rule fp_combine_difference [OF a8 st yA exact, of u ea])
      assume "fp_add_combine F u True ea a8 b' = None" "y = real (unat a8)"
      then show ?thesis using z' False by (simp add: r')
    next
      fix e' Q y'
      assume c: "fp_add_combine F u True ea a8 b' = Some (e', Q)" "y < real (unat a8)"
        "8 * 2 ^ ?s \<le> unat Q" "unat Q < 16 * 2 ^ ?s" "guarded (unat Q) y'"
        "(real (unat a8) - y) / 8 * 2 powi (ea - 1) = y' / 8 * 2 powi (e' - 1)"
      have z0: "z \<noteq> 0" using c(2) unfolding z' by simp
      have zy: "z = y' / 8 * 2 powi (e' - 1)" unfolding z' by (rule c(6))
      have "r = fp_add_round F u (if fp_sign a then signBit F else 0) e' Q"
        using c(1) False by (simp add: r')
      then show ?thesis using fin [OF c(3-5) zy z0] z0 by (simp only: simp_thms)
    qed
  qed
  have x0: "x = 0 \<longleftrightarrow> z = 0" "\<bar>x\<bar> = z" "x \<noteq> 0 \<Longrightarrow> (x < 0) = fp_sign a"
    using z by (simp_all split: if_splits)
  have "fp_nearest F z (fp_abs r) \<and> fp_sign r = (if x = 0 then fp_sign a \<and> fp_sign b else x < 0)"
  proof (cases "z = 0")
    case True
    then have "fp_sign a \<noteq> fp_sign b" using BA fp_mag_mono [OF b, of ?s] by (auto simp: z_def split: if_splits)
    moreover have "r = 0" using main True by simp
    ultimately show ?thesis using True x0(1) fp_nearest_exact [of 0 F] by (auto simp: fp_abs_0 fp_sign_0)
  next
    case False
    then show ?thesis using main x0(1,3) by simp
  qed
  then show "fp_nearest F \<bar>x\<bar> (fp_abs r)" "fp_sign r = (if x = 0 then fp_sign a \<and> fp_sign b else x < 0)"
    unfolding x0(2) by simp_all
qed

lemma fp_value_zero_iff: "fp_value F a = 0 \<longleftrightarrow> fp_abs a = 0"
  and fp_value_neg_iff: "fp_value F a < 0 \<longleftrightarrow> fp_sign a \<and> fp_abs a \<noteq> 0"
  and fp_value_exact: "fp_finite F a \<Longrightarrow> fp_nearest F \<bar>fp_value F a * fp_scale F\<bar> (fp_abs a)"
proof -
  have m: "fp_mag (significandBits F) k = 0 \<longleftrightarrow> k = 0" for k
    using fp_mag_inject [of "significandBits F" k 0] by simp
  have p: "0 < fp_mag (significandBits F) k \<longleftrightarrow> 0 < k" for k
    using fp_mag_less_iff [of "significandBits F" 0 k] by simp
  have s: "0 < fp_scale F" by (simp add: fp_scale_def)
  show "fp_value F a = 0 \<longleftrightarrow> fp_abs a = 0" using s by (simp add: fp_value_def m)
  show "fp_value F a < 0 \<longleftrightarrow> fp_sign a \<and> fp_abs a \<noteq> 0"
    using s by (cases "fp_sign a"; cases "fp_abs a = 0") (simp_all add: fp_value_def divide_less_0_iff zero_less_divide_iff m p)
  show "fp_finite F a \<Longrightarrow> fp_nearest F \<bar>fp_value F a * fp_scale F\<bar> (fp_abs a)"
    unfolding fp_value_eq fp_finite_def using fp_nearest_exact [of "fp_abs a" F] by (cases "fp_sign a") simp_all
qed

lemma fp_add_correct:
  assumes a: "fp_finite F a" and b: "fp_finite F b"
  defines "x \<equiv> (fp_value F a + fp_value F b) * fp_scale F"
  shows "fp_nearest F \<bar>x\<bar> (fp_abs (fp_add F u a b))"
    and "fp_sign (fp_add F u a b) = (if x = 0 then fp_sign a \<and> fp_sign b else x < 0)"
proof -
  have s: "0 < fp_scale F" by (simp add: fp_scale_def)
  have fin: "\<not> fp_is_nan F a" "\<not> fp_is_nan F b" "\<not> fp_is_inf F a" "\<not> fp_is_inf F b"
    using a b by (auto simp: fp_finite_def fp_is_nan_def fp_is_inf_def)
  have "fp_nearest F \<bar>x\<bar> (fp_abs (fp_add F u a b)) \<and>
    fp_sign (fp_add F u a b) = (if x = 0 then fp_sign a \<and> fp_sign b else x < 0)"
  proof (cases "fp_abs a = 0 \<or> fp_abs b = 0")
    case True
    consider "fp_abs a = 0" "fp_abs b = 0" | "fp_abs a = 0" "fp_abs b \<noteq> 0" | "fp_abs a \<noteq> 0" "fp_abs b = 0"
      using True by auto
    then show ?thesis
    proof cases
      case 1
      then have "x = 0" by (simp add: x_def fp_value_zero_iff [THEN iffD2])
      moreover have "fp_add F u a b = a AND b"
        unfolding fp_add_def fp_add_special_eq using fin 1 by simp
      moreover have "fp_abs (a AND b) = 0"
        using 1 by (metis and_absMask_cmp(3) and.assoc and.right_neutral and_zero_eq)
      ultimately show ?thesis using fp_nearest_exact [of 0 F] by (simp add: fp_sign_def bit_and_iff)
    next
      case 2
      then have "x = fp_value F b * fp_scale F" by (simp add: x_def fp_value_zero_iff [THEN iffD2])
      moreover have "fp_add F u a b = b"
        unfolding fp_add_def fp_add_special_eq using fin 2 by simp
      ultimately show ?thesis
        using fp_value_exact [OF b] 2 s by (simp add: fp_value_zero_iff fp_value_neg_iff mult_less_0_iff)
    next
      case 3
      then have "x = fp_value F a * fp_scale F" by (simp add: x_def fp_value_zero_iff [THEN iffD2])
      moreover have "fp_add F u a b = a"
        unfolding fp_add_def fp_add_special_eq using fin 3 by simp
      ultimately show ?thesis
        using fp_value_exact [OF a] 3 s by (simp add: fp_value_zero_iff fp_value_neg_iff mult_less_0_iff)
    qed
  next
    case False
    define la lb where "la = (if fp_abs a < fp_abs b then b else a)" and "lb = (if fp_abs a < fp_abs b then a else b)"
    note l = la_def lb_def
    obtain ea sa eb sb where op: "fp_operand F u la = (ea, sa)" "fp_operand F u lb = (eb, sb)"
      by (cases "fp_operand F u la"; cases "fp_operand F u lb")
    have "fp_add F u a b = (case fp_add_combine F u ((la XOR lb) AND signBit F \<noteq> 0) ea (push_bit 3 (sa OR implicitBit F))
          (fp_add_align F u (word_of_int (ea - eb)) (push_bit 3 (sb OR implicitBit F))) of
        None \<Rightarrow> 0 | Some (e, s) \<Rightarrow> fp_add_round F u (la AND signBit F) e s)"
      unfolding fp_add_def fp_add_special_eq and_absMask_cmp l using op [unfolded l] False fin
      by (cases "fp_abs a < fp_abs b") (simp_all add: Let_def)
    moreover have "fp_abs la < fp_inf F" "0 < fp_abs lb" "fp_abs lb \<le> fp_abs la"
      using a b False by (auto simp: l fp_finite_def)
    moreover have "x = (fp_value F la + fp_value F lb) * fp_scale F" by (simp add: x_def l)
    moreover have "fp_sign la \<and> fp_sign lb \<longleftrightarrow> fp_sign a \<and> fp_sign b" by (auto simp: l)
    ultimately show ?thesis using fp_add_ordered [OF _ _ _ op] by metis
  qed
  then show "fp_nearest F \<bar>x\<bar> (fp_abs (fp_add F u a b))"
    "fp_sign (fp_add F u a b) = (if x = 0 then fp_sign a \<and> fp_sign b else x < 0)" by simp_all
qed

text \<open>Flipping the sign bit negates.\<close>

lemma xor_signBit:
  fixes a :: "'r word"
  shows "fp_abs (a XOR signBit F) = fp_abs a" and "fp_sign (a XOR signBit F) \<longleftrightarrow> \<not> fp_sign a"
    and "fp_value F (a XOR signBit F) = - fp_value F a"
    and "fp_finite F (a XOR signBit F) \<longleftrightarrow> fp_finite F a"
proof -
  show s: "fp_sign (a XOR signBit F) \<longleftrightarrow> \<not> fp_sign a"
    by (simp add: fp_sign_def bit_xor_iff bit_signBit)
  have "a XOR (a XOR signBit F) = signBit F" by (simp flip: xor.assoc)
  then show e: "fp_abs (a XOR signBit F) = fp_abs a" by (simp only: xor_signBit_iff)
  show "fp_value F (a XOR signBit F) = - fp_value F a" by (simp add: fp_value_def s e)
  show "fp_finite F (a XOR signBit F) \<longleftrightarrow> fp_finite F a" by (simp add: fp_finite_def e)
qed

lemma fp_add_nan: "fp_is_nan F a \<or> fp_is_nan F b \<Longrightarrow>
    fp_add F u a b = (if fp_is_nan F a then a else b) OR quietBit F"
  by (auto simp: fp_add_def fp_add_special_eq)

lemma fp_add_inf: "fp_is_inf F a \<or> fp_is_inf F b \<Longrightarrow> \<not> fp_is_nan F a \<Longrightarrow> \<not> fp_is_nan F b \<Longrightarrow>
    fp_add F u a b = (if fp_is_inf F a \<and> fp_is_inf F b \<and> fp_sign a \<noteq> fp_sign b then qnanRep F
                      else if fp_is_inf F a then a else b)"
  by (auto simp: fp_add_def fp_add_special_eq)

end

section \<open>Properties\<close>

text \<open>\<^verbatim>\<open>__adddf3\<close> is correctly rounded: for finite operands, denormal ones included, the soft-float
  branch returns the pattern nearest to the exact sum, ties to even, overflowing to infinity; a zero
  sum is \<open>-0\<close> only if both operands are. No shift in it is out of range, whatever the target would do
  there.\<close>

lemma adddf3_correctly_rounded:
  assumes "fp_finite double a" and "fp_finite double b"
  shows "\<exists>r. adddf3 u D 0 a b d = Some (r, d) \<and>
    fp_nearest double \<bar>(fp_value double a + fp_value double b) * fp_scale double\<bar> (fp_abs r) \<and>
    fp_sign r = (if fp_value double a + fp_value double b = 0 then fp_sign a \<and> fp_sign b
                 else fp_value double a + fp_value double b < 0)"
proof -
  have "0 < fp_scale double" by (simp add: fp_scale_def)
  then show ?thesis using dbl.fp_add_correct [OF assms, of u]
    by (simp add: adddf3_def mult_less_0_iff)
qed

text \<open>\<^verbatim>\<open>__subsf3\<close>, through \<^verbatim>\<open>__addsf3\<close>, is correctly rounded: the pattern nearest to the
  exact difference, for all finite single-precision operands.\<close>

lemma subsf3_correctly_rounded:
  assumes "fp_finite single a" and "fp_finite single b"
  shows "\<exists>r. subsf3 u D 0 a b d = Some (r, d) \<and>
    fp_nearest single \<bar>(fp_value single a - fp_value single b) * fp_scale single\<bar> (fp_abs r) \<and>
    fp_sign r = (if fp_value single a - fp_value single b = 0 then fp_sign a \<and> \<not> fp_sign b
                 else fp_value single a - fp_value single b < 0)"
proof -
  have "0 < fp_scale single" by (simp add: fp_scale_def)
  moreover have "fp_finite single (b XOR signBit single)" using assms(2) by (simp only: sgl.xor_signBit)
  ultimately show ?thesis using sgl.fp_add_correct [OF assms(1), of "b XOR signBit single" u]
    by (simp add: subsf3_def addsf3_def mult_less_0_iff sgl.xor_signBit)
qed

text \<open>The special operands of soft-float addition, in either format: a NaN is returned quieted, the
  first one first; infinity plus anything finite or of its sign is that infinity; infinities of
  opposite signs give the default NaN.\<close>

theorem add_special_values:
  shows "adddf3 u D 0 a b d = Some (
    if fp_is_nan double a then a OR quietBit double
    else if fp_is_nan double b then b OR quietBit double
    else if fp_is_inf double a \<and> fp_is_inf double b \<and> fp_sign a \<noteq> fp_sign b then qnanRep double
    else if fp_is_inf double a then a
    else if fp_is_inf double b then b else fp_add double u a b, d)"
  by (auto simp: adddf3_def dbl.fp_add_nan dbl.fp_add_inf)

text \<open>C9: The sum of two finite doubles and the difference of two finite singles are the numbers nearest to the
  exact ones, ties to even, with the sign IEEE 754 prescribes, also for exact zeros.\<close>

theorem addition_correctly_rounded:
  assumes "fp_finite double a" and "fp_finite double b" and "fp_finite single e" and "fp_finite single f"
  shows "(\<exists>r. adddf3 u D 0 a b d = Some (r, d) \<and>
    fp_nearest double \<bar>(fp_value double a + fp_value double b) * fp_scale double\<bar> (fp_abs r) \<and>
    fp_sign r = (if fp_value double a + fp_value double b = 0 then fp_sign a \<and> fp_sign b
                 else fp_value double a + fp_value double b < 0)) \<and>
    (\<exists>r. subsf3 u D 0 e f d = Some (r, d) \<and>
    fp_nearest single \<bar>(fp_value single e - fp_value single f) * fp_scale single\<bar> (fp_abs r) \<and>
    fp_sign r = (if fp_value single e - fp_value single f = 0 then fp_sign e \<and> \<not> fp_sign f
                 else fp_value single e - fp_value single f < 0))"
  by (rule conjI [OF adddf3_correctly_rounded [OF assms(1,2)] subsf3_correctly_rounded [OF assms(3,4)]])

theorem addition_correctly_rounded_witness:
  "\<forall>(D :: unit fpu) d. (\<exists>r. adddf3 (\<lambda>_ _ _ _. 0) D 0 0x3FF0000000000000 0x3CA0000000000000 d = Some (r, d) \<and>
      fp_nearest double \<bar>(fp_value double 0x3FF0000000000000 + fp_value double 0x3CA0000000000000) * fp_scale double\<bar> (fp_abs r) \<and>
      fp_sign r = (if fp_value double 0x3FF0000000000000 + fp_value double 0x3CA0000000000000 = 0
        then fp_sign (0x3FF0000000000000 :: du_int) \<and> fp_sign (0x3CA0000000000000 :: du_int)
        else fp_value double 0x3FF0000000000000 + fp_value double 0x3CA0000000000000 < 0)) \<and>
    (\<exists>r. subsf3 (\<lambda>_ _ _ _. 0) D 0 0x3F800000 0x00000001 d = Some (r, d) \<and>
      fp_nearest single \<bar>(fp_value single 0x3F800000 - fp_value single 0x00000001) * fp_scale single\<bar> (fp_abs r) \<and>
      fp_sign r = (if fp_value single 0x3F800000 - fp_value single 0x00000001 = 0
        then fp_sign (0x3F800000 :: su_int) \<and> \<not> fp_sign (0x00000001 :: su_int)
        else fp_value single 0x3F800000 - fp_value single 0x00000001 < 0))"
  by (intro allI addition_correctly_rounded) (simp_all add: fp_eval)

end
