(* ===== verification/Fp_Compare.thy ===== *)
theory Fp_Compare
  imports Fp_Add
begin

unbundle bit_operations_syntax

text \<open>
  Soft-float comparison: \<^verbatim>\<open>comparesf2.c\<close> and \<^verbatim>\<open>comparedf2.c\<close>, one text over the two
  formats. Both compare the bit patterns as integers. The properties: the results are those of
  comparing the numbers, infinities included, and a NaN makes every relation the compiler derives
  from them false. Negation (\<^verbatim>\<open>negsf2.c\<close>, \<^verbatim>\<open>negdf2.c\<close>) is here too.
\<close>

section \<open>The code\<close>

text \<open>The members of \<^verbatim>\<open>enum LE_RESULT\<close> and \<^verbatim>\<open>enum GE_RESULT\<close>; two names share a value.\<close>

definition LE_LESS :: si_int where "LE_LESS = - 1"
definition LE_EQUAL :: si_int where "LE_EQUAL = 0"
definition LE_GREATER :: si_int where "LE_GREATER = 1"
definition LE_UNORDERED :: si_int where "LE_UNORDERED = 1"

definition GE_LESS :: si_int where "GE_LESS = - 1"
definition GE_EQUAL :: si_int where "GE_EQUAL = 0"
definition GE_GREATER :: si_int where "GE_GREATER = 1"
definition GE_UNORDERED :: si_int where "GE_UNORDERED = - 1"

definition fp_le :: "'r::len word fp_lib \<Rightarrow> 'r word \<Rightarrow> 'r word \<Rightarrow> si_int" where
  "fp_le F aInt bInt =
    (let aAbs = aInt AND absMask F; bAbs = bInt AND absMask F in
     if aAbs > infRep F \<or> bAbs > infRep F then LE_UNORDERED
     else if aAbs OR bAbs = 0 then LE_EQUAL
     else if 0 \<le>s aInt AND bInt then
       (if aInt <s bInt then LE_LESS else if aInt = bInt then LE_EQUAL else LE_GREATER)
     else
       (if bInt <s aInt then LE_LESS else if aInt = bInt then LE_EQUAL else LE_GREATER))"

definition fp_ge :: "'r::len word fp_lib \<Rightarrow> 'r word \<Rightarrow> 'r word \<Rightarrow> si_int" where
  "fp_ge F aInt bInt =
    (let aAbs = aInt AND absMask F; bAbs = bInt AND absMask F in
     if aAbs > infRep F \<or> bAbs > infRep F then GE_UNORDERED
     else if aAbs OR bAbs = 0 then GE_EQUAL
     else if 0 \<le>s aInt AND bInt then
       (if aInt <s bInt then GE_LESS else if aInt = bInt then GE_EQUAL else GE_GREATER)
     else
       (if bInt <s aInt then GE_LESS else if aInt = bInt then GE_EQUAL else GE_GREATER))"

definition fp_unord :: "'r::len word fp_lib \<Rightarrow> 'r word \<Rightarrow> 'r word \<Rightarrow> si_int" where
  "fp_unord F a b =
    (let aAbs = a AND absMask F; bAbs = b AND absMask F
     in c_bool (aAbs > infRep F \<or> bAbs > infRep F))"

definition lesf2 :: "su_int \<Rightarrow> su_int \<Rightarrow> si_int" where "lesf2 = fp_le single"
definition gesf2 :: "su_int \<Rightarrow> su_int \<Rightarrow> si_int" where "gesf2 = fp_ge single"
definition unordsf2 :: "su_int \<Rightarrow> su_int \<Rightarrow> si_int" where "unordsf2 = fp_unord single"
definition eqsf2 :: "su_int \<Rightarrow> su_int \<Rightarrow> si_int" where "eqsf2 a b = lesf2 a b"
definition ltsf2 :: "su_int \<Rightarrow> su_int \<Rightarrow> si_int" where "ltsf2 a b = lesf2 a b"
definition nesf2 :: "su_int \<Rightarrow> su_int \<Rightarrow> si_int" where "nesf2 a b = lesf2 a b"
definition gtsf2 :: "su_int \<Rightarrow> su_int \<Rightarrow> si_int" where "gtsf2 a b = gesf2 a b"

definition ledf2 :: "du_int \<Rightarrow> du_int \<Rightarrow> si_int" where "ledf2 = fp_le double"
definition gedf2 :: "du_int \<Rightarrow> du_int \<Rightarrow> si_int" where "gedf2 = fp_ge double"
definition unorddf2 :: "du_int \<Rightarrow> du_int \<Rightarrow> si_int" where "unorddf2 = fp_unord double"
definition eqdf2 :: "du_int \<Rightarrow> du_int \<Rightarrow> si_int" where "eqdf2 a b = ledf2 a b"
definition ltdf2 :: "du_int \<Rightarrow> du_int \<Rightarrow> si_int" where "ltdf2 a b = ledf2 a b"
definition nedf2 :: "du_int \<Rightarrow> du_int \<Rightarrow> si_int" where "nedf2 a b = ledf2 a b"
definition gtdf2 :: "du_int \<Rightarrow> du_int \<Rightarrow> si_int" where "gtdf2 a b = gedf2 a b"

section \<open>Patterns as signed integers\<close>

context fp_format
begin

lemma sint_pattern: "sint (a :: 'r word) = int (fp_abs a) - (if fp_sign a then 2 ^ (LENGTH('r) - 1) else 0)"
proof -
  have "uint a = of_bool (fp_sign a) * 2 ^ (LENGTH('r) - 1) + int (fp_abs a)"
    using arg_cong [OF unat_sign_abs [of a], of int] by (simp add: of_nat_unat)
  moreover have "(2::int) ^ LENGTH('r) = 2 * 2 ^ (LENGTH('r) - 1)" by (rule two_power_length)
  ultimately show ?thesis by (simp add: sint_uint_cases fp_sign_def)
qed

lemma int_fp_abs_less: "int (fp_abs (a :: 'r word)) < 2 ^ (LENGTH('r) - 1)"
  using fp_abs_less [of a] by (metis of_nat_less_iff of_nat_numeral of_nat_power)

lemma sint_neg_iff: "0 \<le>s (a :: 'r word) \<longleftrightarrow> \<not> fp_sign a"
proof -
  have "0 \<le>s a \<longleftrightarrow> 0 \<le> int (fp_abs a) - (if fp_sign a then 2 ^ (LENGTH('r) - 1) else 0)"
    by (simp add: word_sle_eq flip: sint_pattern)
  moreover have "\<not> 0 \<le> int (fp_abs a) - 2 ^ (LENGTH('r) - 1)" using int_fp_abs_less [of a] by linarith
  ultimately show ?thesis
    by (cases "fp_sign a") (simp_all only: if_True if_False simp_thms of_nat_0_le_iff diff_zero)
qed

text \<open>Numbers are ordered as their patterns are, the negative ones backwards.\<close>

lemma fp_value_less_iff:
  "fp_value F a < fp_value F b \<longleftrightarrow>
    (if fp_sign a then if fp_sign b then fp_abs b < fp_abs a else fp_abs a \<noteq> 0 \<or> fp_abs b \<noteq> 0
     else \<not> fp_sign b \<and> fp_abs a < fp_abs b)"
proof -
  let ?m = "\<lambda>x. real (fp_mag (significandBits F) (fp_abs x))"
  have s: "0 < fp_scale F" by (simp add: fp_scale_def)
  have m0: "?m x = 0 \<longleftrightarrow> fp_abs x = 0" for x :: "'r word"
    using fp_mag_inject [of "significandBits F" "fp_abs x" 0] by simp
  have lt: "?m x < ?m y \<longleftrightarrow> fp_abs x < fp_abs y" for x y :: "'r word" by (simp add: fp_mag_less_iff)
  have "fp_value F a < fp_value F b \<longleftrightarrow> (if fp_sign a then - ?m a else ?m a) < (if fp_sign b then - ?m b else ?m b)"
    using s by (auto simp: fp_value_def divide_less_cancel minus_divide_left [symmetric] simp del: minus_divide_left)
  also have "\<dots> \<longleftrightarrow> (if fp_sign a then if fp_sign b then fp_abs b < fp_abs a else fp_abs a \<noteq> 0 \<or> fp_abs b \<noteq> 0
     else \<not> fp_sign b \<and> fp_abs a < fp_abs b)"
  proof (cases "fp_sign a"; cases "fp_sign b")
    assume "fp_sign a" "\<not> fp_sign b"
    moreover have "- ?m a < ?m b \<longleftrightarrow> ?m a \<noteq> 0 \<or> ?m b \<noteq> 0"
      using of_nat_0_le_iff [of "fp_mag (significandBits F) (fp_abs a)", where ?'a = real]
        of_nat_0_le_iff [of "fp_mag (significandBits F) (fp_abs b)", where ?'a = real] by linarith
    ultimately show ?thesis by (simp only: m0 if_True if_False)
  next
    assume "\<not> fp_sign a" "fp_sign b"
    moreover have "\<not> ?m a < - ?m b"
      using of_nat_0_le_iff [of "fp_mag (significandBits F) (fp_abs a)", where ?'a = real]
        of_nat_0_le_iff [of "fp_mag (significandBits F) (fp_abs b)", where ?'a = real] by linarith
    ultimately show ?thesis by simp
  qed (simp_all add: fp_mag_less_iff)
  finally show ?thesis .
qed

lemma fp_cmp_eq:
  assumes "\<not> fp_is_nan F a" "\<not> fp_is_nan F b"
  shows "fp_le F a b = (if fp_value F a < fp_value F b then - 1 else if fp_value F b < fp_value F a then 1 else 0)"
    and "fp_ge F a b = fp_le F a b"
proof -
  have or0: "(a AND absMask F) OR (b AND absMask F) = 0 \<longleftrightarrow> fp_abs a = 0 \<and> fp_abs b = 0"
    by (simp add: or_eq_0_iff and_absMask_cmp)
  have sg: "0 \<le>s a AND b \<longleftrightarrow> \<not> (fp_sign a \<and> fp_sign b)"
    unfolding sint_neg_iff by (simp add: fp_sign_def bit_and_iff)
  have lt: "x <s y \<longleftrightarrow> (if fp_sign x then if fp_sign y then fp_abs x < fp_abs y else True
      else \<not> fp_sign y \<and> fp_abs x < fp_abs y)" for x y :: "'r word"
    using int_fp_abs_less [of x] int_fp_abs_less [of y] unfolding word_sless_alt sint_pattern
    by (cases "fp_sign x"; cases "fp_sign y") (simp_all only: if_True if_False simp_thms, linarith+)
  have nan: "\<not> (a AND absMask F > infRep F \<or> b AND absMask F > infRep F)"
    using assms by (simp add: and_absMask_cmp fp_is_nan_def)
  show "fp_ge F a b = fp_le F a b"
    using nan by (simp add: fp_ge_def fp_le_def LE_LESS_def LE_EQUAL_def LE_GREATER_def GE_LESS_def GE_EQUAL_def GE_GREATER_def)
  show "fp_le F a b = (if fp_value F a < fp_value F b then - 1 else if fp_value F b < fp_value F a then 1 else 0)"
    unfolding fp_le_def Let_def if_not_P [OF nan] or0 sg lt fp_value_less_iff fp_eq_iff [of a b]
      LE_LESS_def LE_EQUAL_def LE_GREATER_def
    by (cases "fp_sign a"; cases "fp_sign b") auto
qed

lemma fp_cmp_nan:
  assumes "fp_is_nan F a \<or> fp_is_nan F b"
  shows "fp_le F a b = 1" "fp_ge F a b = - 1"
  using assms by (auto simp: fp_le_def fp_ge_def fp_is_nan_def and_absMask_cmp LE_UNORDERED_def GE_UNORDERED_def)

lemma fp_unord_eq: "fp_unord F a b = c_bool (fp_is_nan F a \<or> fp_is_nan F b)"
  by (simp add: fp_unord_def fp_is_nan_def and_absMask_cmp)

end

lemmas compare_defs = lesf2_def gesf2_def unordsf2_def eqsf2_def ltsf2_def nesf2_def gtsf2_def
  ledf2_def gedf2_def unorddf2_def eqdf2_def ltdf2_def nedf2_def gtdf2_def

section \<open>Properties\<close>

text \<open>C11: How the compiler uses \<^verbatim>\<open>comparedf2.c\<close>: a relation between doubles is the sign of the
  result of its routine, and it holds of numbers exactly if it holds of their values; all but
  \<open>\<noteq>\<close> are false, and \<open>\<noteq>\<close> is true, when an operand is a NaN.\<close>

theorem compare_double_relations:
  "(ltdf2 a b <s 0 \<longleftrightarrow> \<not> fp_is_nan double a \<and> \<not> fp_is_nan double b \<and> fp_value double a < fp_value double b) \<and>
   (ledf2 a b \<le>s 0 \<longleftrightarrow> \<not> fp_is_nan double a \<and> \<not> fp_is_nan double b \<and> fp_value double a \<le> fp_value double b) \<and>
   (0 <s gtdf2 a b \<longleftrightarrow> \<not> fp_is_nan double a \<and> \<not> fp_is_nan double b \<and> fp_value double a > fp_value double b) \<and>
   (0 \<le>s gedf2 a b \<longleftrightarrow> \<not> fp_is_nan double a \<and> \<not> fp_is_nan double b \<and> fp_value double a \<ge> fp_value double b) \<and>
   (eqdf2 a b = 0 \<longleftrightarrow> \<not> fp_is_nan double a \<and> \<not> fp_is_nan double b \<and> fp_value double a = fp_value double b) \<and>
   (nedf2 a b = 0 \<longleftrightarrow> \<not> fp_is_nan double a \<and> \<not> fp_is_nan double b \<and> fp_value double a = fp_value double b) \<and>
   (unorddf2 a b \<noteq> 0 \<longleftrightarrow> fp_is_nan double a \<or> fp_is_nan double b)"
proof -
  note c = dbl.fp_cmp_eq [of a b] dbl.fp_cmp_nan [of a b] dbl.fp_unord_eq [of a b]
  have w: "(- 1 :: si_int) <s 0" "(- 1 :: si_int) \<le>s 0" "(0 :: si_int) <s 1" "(0 :: si_int) \<le>s 1"
    "\<not> (1 :: si_int) <s 0" "\<not> (1 :: si_int) \<le>s 0" "\<not> (0 :: si_int) <s - 1" "\<not> (0 :: si_int) \<le>s - 1"
    by (simp_all add: word_sless_alt word_sle_eq)
  show ?thesis
    using c w unfolding compare_defs
    by (cases "fp_is_nan double a \<or> fp_is_nan double b";
        cases "fp_value double a" "fp_value double b" rule: linorder_cases) (auto simp: c_bool_def)
qed

text \<open>\<^verbatim>\<open>__lesf2\<close> and \<^verbatim>\<open>__gesf2\<close> return -1, 0 or 1 as the first single is less than, equal to or
  greater than the second; \<open>+0\<close> equals \<open>-0\<close>, and they differ only for a NaN.\<close>

theorem compare_single_results:
  "lesf2 a b = (if fp_is_nan single a \<or> fp_is_nan single b then 1
      else if fp_value single a < fp_value single b then - 1 else if fp_value single b < fp_value single a then 1 else 0) \<and>
   gesf2 a b = (if fp_is_nan single a \<or> fp_is_nan single b then - 1
      else if fp_value single a < fp_value single b then - 1 else if fp_value single b < fp_value single a then 1 else 0)"
  using sgl.fp_cmp_eq [of a b] sgl.fp_cmp_nan [of a b] unfolding compare_defs by auto

text \<open>\<^verbatim>\<open>__negdf2\<close> and \<^verbatim>\<open>__negsf2\<close> negate the number, for zeros and infinities too, and are
  their own inverses.\<close>

theorem negation_correct:
  "fp_value double (negdf2 a) = - fp_value double a \<and>
   fp_sign (negdf2 a) \<noteq> fp_sign a \<and>
   negdf2 (negdf2 a) = a \<and>
   fp_value single (negsf2 b) = - fp_value single b \<and>
   fp_sign (negsf2 b) \<noteq> fp_sign b \<and>
   negsf2 (negsf2 b) = b"
  unfolding negdf2_def negsf2_def by (simp_all add: dbl.xor_signBit sgl.xor_signBit xor.assoc)

end
