(* ===== verification/Fp_Mul.thy ===== *)
theory Fp_Mul
  imports Fp_Add
begin

unbundle bit_operations_syntax

text \<open>
  Soft-float multiplication: \<^verbatim>\<open>mulsf3.c\<close> and \<^verbatim>\<open>muldf3.c\<close>. They are one text over the two
  formats but for the underflow to zero, which only \<^verbatim>\<open>muldf3.c\<close> treats before shifting; the
  argument \<open>flush\<close> of the model says whether those lines are there. The theorem: the result is the
  exact product, rounded to nearest. The exact product is the pair of words \<^verbatim>\<open>wideMultiply\<close>
  returns, so the proof is about shifts of such pairs.
\<close>

section \<open>The code\<close>

definition fp_mul_special :: "'r::len word fp_lib \<Rightarrow> 'r word \<Rightarrow> 'r word \<Rightarrow> 'r word \<Rightarrow> 'r word option" where
  "fp_mul_special F productSign a b =
    (let aAbs = a AND absMask F; bAbs = b AND absMask F in
     if aAbs > infRep F then Some (a OR quietBit F)
     else if bAbs > infRep F then Some (b OR quietBit F)
     else if aAbs = infRep F then
       if bAbs \<noteq> 0 then Some (aAbs OR productSign) else Some (qnanRep F)
     else if bAbs = infRep F then
       if aAbs \<noteq> 0 then Some (bAbs OR productSign) else Some (qnanRep F)
     else if aAbs = 0 then Some productSign
     else if bAbs = 0 then Some productSign
     else None)"

text \<open>The part from the exponent and the wide significand on.\<close>

definition fp_mul_round ::
    "'r::len word fp_lib \<Rightarrow> ub \<Rightarrow> bool \<Rightarrow> 'r word \<Rightarrow> int \<Rightarrow> 'r word \<Rightarrow> 'r word \<Rightarrow> 'r word" where
  "fp_mul_round F u flush productSign productExponent productHi productLo =
    (if productExponent \<ge> maxExponent F then infRep F OR productSign
     else if productExponent \<le> 0 \<and> flush \<and> (1 - word_of_int productExponent :: su_int) \<ge> of_nat LENGTH('r)
       then productSign
     else
       let (productHi, productLo) =
             (if productExponent \<le> 0 then
                wideRightShiftWithSticky u productHi productLo (1 - word_of_int productExponent)
              else ((productHi AND significandMask F) OR
                    push_bit (significandBits F) (word_of_int productExponent), productLo));
           productHi = productHi OR productSign;
           productHi = (if productLo > signBit F then productHi + 1 else productHi);
           productHi = (if productLo = signBit F then productHi + (productHi AND 1) else productHi)
       in productHi)"

definition fp_mul :: "'r::len word fp_lib \<Rightarrow> ub \<Rightarrow> bool \<Rightarrow> 'r word \<Rightarrow> 'r word \<Rightarrow> 'r word" where
  "fp_mul F u flush a b =
    (let aExponent = ucast (drop_bit (significandBits F) a AND word_of_int (maxExponent F)) :: su_int;
         bExponent = ucast (drop_bit (significandBits F) b AND word_of_int (maxExponent F)) :: su_int;
         productSign = (a XOR b) AND signBit F;
         aSignificand = a AND significandMask F;
         bSignificand = b AND significandMask F;
         special = (aExponent - 1 \<ge> word_of_int (maxExponent F) - 1 \<or>
                    bExponent - 1 \<ge> word_of_int (maxExponent F) - 1)
     in case (if special then fp_mul_special F productSign a b else None) of Some r \<Rightarrow> r | None \<Rightarrow>
     let (aScale, aSignificand) =
           (if special \<and> a AND absMask F < implicitBit F then normalize F u aSignificand else (0, aSignificand));
         (bScale, bSignificand) =
           (if special \<and> b AND absMask F < implicitBit F then normalize F u bSignificand else (0, bSignificand));
         scale = aScale + bScale;
         aSignificand = aSignificand OR implicitBit F;
         bSignificand = bSignificand OR implicitBit F;
         (productHi, productLo) = wideMultiply F aSignificand (push_bit (exponentBits F) bSignificand);
         productExponent =
           sint (aExponent + bExponent - word_of_int (exponentBias F) + word_of_int scale :: su_int);
         (productExponent, productHi, productLo) =
           (if productHi AND implicitBit F \<noteq> 0 then (productExponent + 1, productHi, productLo)
            else (productExponent, wideLeftShift u productHi productLo 1))
     in fp_mul_round F u flush productSign productExponent productHi productLo)"

definition mulsf3 :: "ub \<Rightarrow> 'd fpu \<Rightarrow> su_int \<Rightarrow> su_int \<Rightarrow> su_int \<Rightarrow> 'd \<Rightarrow> (su_int \<times> 'd) option" where
  "mulsf3 u D USE_HWFPU a b d =
    (if USE_HWFPU \<noteq> 0 then fpu_single D 2 a b d else Some (fp_mul single u False a b, d))"

definition muldf3 :: "ub \<Rightarrow> 'd fpu \<Rightarrow> su_int \<Rightarrow> du_int \<Rightarrow> du_int \<Rightarrow> 'd \<Rightarrow> (du_int \<times> 'd) option" where
  "muldf3 u D USE_HWFPU a b d =
    (if USE_HWFPU \<noteq> 0 then fpu_double D 2 a b d else Some (fp_mul double u True a b, d))"

section \<open>Pairs of words\<close>

text \<open>The number a pair of words holds.\<close>

definition wide :: "'a::len word \<times> 'a word \<Rightarrow> nat" where
  "wide p = unat (fst p) * 2 ^ LENGTH('a) + unat (snd p)"

lemma wide_lt: "wide (hi, lo :: 'a::len word) < (unat hi + 1) * 2 ^ LENGTH('a)"
  and wide_div: "wide (hi, lo :: 'a::len word) div 2 ^ LENGTH('a) = unat hi"
  and wide_mod: "wide (hi, lo :: 'a::len word) mod 2 ^ LENGTH('a) = unat lo"
  using unsigned_less [where ?'a = nat, of lo] by (simp_all add: wide_def)

text \<open>Left by one, when nothing falls out.\<close>

lemma wideLeftShift_1:
  fixes hi lo :: "'a::len word"
  assumes "2 * unat hi < 2 ^ LENGTH('a)" and len: "1 < LENGTH('a)" "LENGTH('a) \<le> 64"
  shows "wide (wideLeftShift u hi lo 1) = 2 * wide (hi, lo)"
proof -
  have n: "unat (word_of_int 1 :: su_int) = 1" "unat (word_of_int (int LENGTH('a) - 1) :: su_int) = LENGTH('a) - 1"
    using len by (simp, subst unat_word_of_int) auto
  let ?c = "drop_bit (LENGTH('a) - 1) lo"
  have L: "(2::nat) ^ LENGTH('a) = 2 * 2 ^ (LENGTH('a) - 1)" using len by (simp flip: power_Suc)
  have c: "unat ?c < 2 ^ 1"
    unfolding unat_drop_bit using unsigned_less [where ?'a = nat, of lo] L by (simp add: less_mult_imp_div_less)
  have "wideLeftShift u hi lo 1 = (push_bit 1 hi OR ?c, push_bit 1 lo)"
    unfolding wideLeftShift_def using n len by (simp add: c_ops)
  moreover have "unat (push_bit 1 hi OR ?c) = 2 * unat hi + unat lo div 2 ^ (LENGTH('a) - 1)"
    using unat_push_or [OF c, of hi] assms(1) by (simp add: unat_drop_bit)
  moreover have "unat (push_bit 1 lo) = unat lo * 2 mod (2 * 2 ^ (LENGTH('a) - 1))"
    unfolding unat_push_bit L by simp
  moreover have "unat lo * 2 mod (2 * 2 ^ (LENGTH('a) - 1)) = 2 * (unat lo mod 2 ^ (LENGTH('a) - 1))"
    by (simp only: mult_mod_right mult.commute [of "unat lo"])
  ultimately have e: "wide (wideLeftShift u hi lo 1) =
      (2 * unat hi + unat lo div 2 ^ (LENGTH('a) - 1)) * (2 * 2 ^ (LENGTH('a) - 1)) + 2 * (unat lo mod 2 ^ (LENGTH('a) - 1))"
    by (simp only: wide_def fst_conv snd_conv L)
  have "2 * wide (hi, lo) = 2 * (unat hi * (2 * 2 ^ (LENGTH('a) - 1)) +
      (unat lo div 2 ^ (LENGTH('a) - 1) * 2 ^ (LENGTH('a) - 1) + unat lo mod 2 ^ (LENGTH('a) - 1)))"
    by (simp only: wide_def fst_conv snd_conv L div_mult_mod_eq)
  moreover have "(2 * h + d) * (2 * K) + 2 * m = 2 * (h * (2 * K) + (d * K + m))" for h d K m :: nat
    by (simp add: algebra_simps)
  ultimately show ?thesis by (simp only: e)
qed

lemma or_bit_mod: "0 < n \<Longrightarrow> m div 2 ^ n * 2 ^ n + (m mod 2 ^ n OR of_bool b) = (m :: nat) OR of_bool b"
proof -
  assume "0 < n"
  then have "even (m mod 2 ^ n) = even m" by (simp add: dvd_mod_iff)
  then show ?thesis
    by (cases b) (simp_all only: of_bool_eq or.right_neutral or_one_eq add.assoc [symmetric] div_mult_mod_eq)
qed

text \<open>Right with sticky: for counts within a word exactly as for a single word, and beyond that the
  low word is below one half. (A shift by one full word is among these, for which C does not define
  the value of the sticky bit; nothing depends on it.)\<close>

lemma wideRightShift_in:
  fixes hi lo :: "'a::len word"
  assumes n: "unat n = k" "0 < k" "k < LENGTH('a)" and len: "LENGTH('a) \<le> 64"
  shows "wide (wideRightShiftWithSticky u hi lo n) = shr_sticky k (wide (hi, lo))"
proof -
  let ?L = "LENGTH('a)"
  have uL: "unat (of_nat ?L :: su_int) = ?L" using len by (simp add: unat_of_nat)
  have c: "n < of_nat ?L" using n by (simp add: word_less_nat_alt uL)
  have d: "unat (of_nat ?L - n) = ?L - k" using n uL by (subst unat_sub_below) simp_all
  define M where "M = wide (hi, lo) div 2 ^ k"
  have P: "(2::nat) ^ ?L = 2 ^ (?L - k) * 2 ^ k" using n by (simp flip: power_add)
  have M: "M = unat hi * 2 ^ (?L - k) + unat lo div 2 ^ k"
    unfolding M_def wide_def P by (simp add: mult.assoc [symmetric] del: mult.assoc)
  have Mm: "wide (hi, lo) mod 2 ^ k = unat lo mod 2 ^ k"
    unfolding wide_def P by (simp add: mult.assoc [symmetric] del: mult.assoc)
  have lo: "unat lo div 2 ^ k < 2 ^ (?L - k)"
    using unsigned_less [where ?'a = nat, of lo] unfolding P by (rule less_mult_imp_div_less)
  have Md: "M div 2 ^ ?L = unat hi div 2 ^ k"
  proof -
    have "M div 2 ^ ?L = wide (hi, lo) div 2 ^ ?L div 2 ^ k"
      unfolding M_def by (simp only: div_mult2_eq [symmetric] mult.commute)
    then show ?thesis by (simp only: wide_div)
  qed
  note st = lost_digits [OF n len, of u lo]
  have lo': "unat (push_bit (?L - k) hi OR drop_bit k lo) = M mod 2 ^ ?L"
  proof -
    have "unat (drop_bit k lo) < 2 ^ (?L - k)" using lo by (simp add: unat_drop_bit)
    then have "unat (push_bit (?L - k) hi OR drop_bit k lo) = unat hi * 2 ^ (?L - k) mod 2 ^ ?L + unat lo div 2 ^ k"
      by (simp only: unat_push_or unat_drop_bit)
    moreover have "unat (push_bit (?L - k) hi OR drop_bit k lo) mod 2 ^ ?L = unat (push_bit (?L - k) hi OR drop_bit k lo)"
      by (rule mod_less) (rule unsigned_less)
    ultimately show ?thesis unfolding M by (metis mod_add_left_eq)
  qed
  have "wideRightShiftWithSticky u hi lo n =
      (drop_bit k hi, (push_bit (?L - k) hi OR drop_bit k lo) OR c_bool (unat lo mod 2 ^ k \<noteq> 0))"
    unfolding wideRightShiftWithSticky_def if_P [OF c] Let_def st using n d
    by (simp add: c_ops or.assoc)
  moreover have "unat (c_bool b :: 'a word) = of_bool b" for b by (simp add: c_bool_def)
  ultimately have "wide (wideRightShiftWithSticky u hi lo n) =
      M div 2 ^ ?L * 2 ^ ?L + (M mod 2 ^ ?L OR of_bool (unat lo mod 2 ^ k \<noteq> 0))"
    by (simp only: wide_def fst_conv snd_conv unat_drop_bit Md
      unsigned_or_eq [of "push_bit (?L - k) hi OR drop_bit k lo"] lo')
  also have "\<dots> = M OR of_bool (unat lo mod 2 ^ k \<noteq> 0)" by (rule or_bit_mod) simp
  finally show ?thesis unfolding shr_sticky_def Mm M_def .
qed

lemma wideRightShift_out:
  fixes hi lo :: "'a::len word"
  assumes n: "LENGTH('a) \<le> unat n" and hi: "unat hi < 2 ^ (LENGTH('a) - 1)" and len: "1 < LENGTH('a)" "LENGTH('a) \<le> 64"
  obtains lo' where "wideRightShiftWithSticky u hi lo n = (0, lo')" "unat lo' < 2 ^ (LENGTH('a) - 1)"
proof -
  let ?L = "LENGTH('a)" and ?r = "wideRightShiftWithSticky u hi lo n"
  have u: "unat (of_nat ?L :: su_int) = ?L" "unat (2 * of_nat ?L :: su_int) = 2 * ?L"
    using len by (simp add: unat_of_nat, subst unat_mult_below) (simp_all add: unat_of_nat)
  have b: "unat (c_bool b :: 'a word) = of_bool b" for b by (simp add: c_bool_def)
  have even: "(2::nat) dvd 2 ^ (?L - 1)" using len by simp
  have or1: "unat (x OR c_bool b) < 2 ^ (?L - 1)" if "unat x < 2 ^ (?L - 1)" for x :: "'a word" and b
  proof -
    have "even (unat x) \<Longrightarrow> unat x + 1 < 2 ^ (?L - 1)" using that even by presburger
    moreover have "unat (x OR c_bool b) = unat x OR of_bool b" by (simp only: unsigned_or_eq b)
    ultimately show ?thesis using that by (cases b) (simp_all add: or_one_eq del: One_nat_def)
  qed
  have c: "\<not> n < of_nat ?L" using n by (simp add: word_less_nat_alt u)
  show ?thesis
  proof (cases "n < 2 * of_nat ?L")
    case True
    then have k: "unat n - ?L < ?L" using n by (simp add: word_less_nat_alt u)
    have "unat (n - of_nat ?L) = unat n - ?L" using n u by (subst unat_sub_below) simp_all
    then have s: "c_lshr u hi (n - of_nat ?L) = drop_bit (unat n - ?L) hi" using k by (simp add: c_ops)
    have "unat hi div 2 ^ (unat n - ?L) < 2 ^ (?L - 1)" using hi by (rule le_less_trans [OF div_le_dividend])
    then show ?thesis
      using that c True or1 [of "drop_bit (unat n - ?L) hi"]
      by (simp add: wideRightShiftWithSticky_def Let_def s unat_drop_bit)
  next
    case False
    then show ?thesis
      using that c or1 [of 0] by (simp add: wideRightShiftWithSticky_def Let_def)
  qed
qed

section \<open>The rounding of a wide significand\<close>

context fp_format
begin

lemma fp_wide_round:
  fixes r0 hi lo :: "'r word"
  assumes r0: "fp_abs r0 = e * 2 ^ significandBits F + unat hi" "fp_abs r0 < fp_inf F"
    and q: "unat hi < 2 * 2 ^ significandBits F" "0 < e \<Longrightarrow> 2 ^ significandBits F \<le> unat hi"
    and st: "sticky (wide (hi, lo)) y" and x: "x = y / 2 ^ LENGTH('r) * 2 ^ e"
    and r: "r = (let r1 = if lo > signBit F then r0 + 1 else r0 in if lo = signBit F then r1 + (r1 AND 1) else r1)"
  shows "fp_nearest F x (fp_abs r)" and "fp_sign r = fp_sign r0"
proof -
  let ?L = "LENGTH('r)"
  have L: "2 \<le> ?L" using eb by simp
  note block = sticky_block [OF st L, unfolded wide_div wide_mod]
  have gt: "lo > signBit F \<longleftrightarrow> real (unat hi) + 1 / 2 < y / 2 ^ ?L"
    unfolding block(3) by (simp add: word_less_nat_alt unat_signBit)
  have tie: "lo = signBit F \<longleftrightarrow> y / 2 ^ ?L = real (unat hi) + 1 / 2"
    unfolding block(4) by (simp add: word_unat_eq_iff unat_signBit)
  show "fp_nearest F x (fp_abs r)" "fp_sign r = fp_sign r0"
    using fp_round_up [OF r0 q block(1,2) x gt tie r] by blast+
qed

lemma fp_mul_round_correct:
  fixes hi lo :: "'r word"
  assumes q: "2 ^ significandBits F \<le> unat hi" "unat hi < 2 * 2 ^ significandBits F"
    and p: "- (2 ^ 30) < p"
    and x: "x = real (wide (hi, lo)) / 2 ^ LENGTH('r) * 2 powi (p - 1)"
    and r: "r = fp_mul_round F u flush (if s then signBit F else 0) p hi lo"
  shows "fp_nearest F x (fp_abs r)" and "fp_sign r = s"
proof -
  let ?s = "significandBits F" and ?L = "LENGTH('r)"
  let ?sign = "if s then signBit F else 0 :: 'r word"
  let ?y = "real (wide (hi, lo)) / 2 ^ ?L"
  have y: "real (unat hi) \<le> ?y" "?y < real (unat hi) + 1"
  proof -
    have "real (unat hi * 2 ^ ?L) \<le> real (wide (hi, lo))" "real (wide (hi, lo)) < real ((unat hi + 1) * 2 ^ ?L)"
      using wide_lt [of hi lo] by (simp_all only: of_nat_le_iff of_nat_less_iff wide_def fst_conv snd_conv le_add1)
    then show "real (unat hi) \<le> ?y" "?y < real (unat hi) + 1" by (simp_all add: field_simps)
  qed
  have "fp_nearest F x (fp_abs r) \<and> fp_sign r = s"
  proof (cases "maxExponent F \<le> p")
    case True
    have "real (2 ^ ?s) \<le> real (unat hi)" using q(1) by (simp only: of_nat_le_iff)
    then have "2 ^ ?s \<le> real (unat hi)" by simp
    then have "2 ^ ?s \<le> ?y" using y(1) by linarith
    from fp_overflow [OF this True] have "real (fp_mag ?s (fp_inf F)) \<le> x" unfolding x .
    from fp_nearest_overflow [OF this] show ?thesis
      using True by (simp add: r fp_mul_round_def fp_sign_infRep)
  next
    case pM: False
    define k where "k = nat (1 - p)"
    have sh: "1 - word_of_int p = (word_of_int (1 - p) :: su_int)" by simp
    have uL: "unat (of_nat ?L :: su_int) = ?L" using width_max by (simp add: unat_of_nat)
    show ?thesis
    proof (cases "p \<le> 0")
      case False
      define r0 where "r0 = (hi AND significandMask F) OR push_bit ?s (word_of_int p) OR ?sign"
      have um: "unat (hi AND significandMask F) = unat hi - 2 ^ ?s"
        using q by (simp add: significandMask_eq unat_and_mask le_mod_geq)
      have r0: "fp_abs r0 = nat (p - 1) * 2 ^ ?s + unat hi" "fp_sign r0 = s" "fp_abs r0 < fp_inf F"
      proof -
        have "unat (hi AND significandMask F) < 2 ^ ?s" "0 \<le> p" "p < maxExponent F"
          using q um False pM by auto
        note f = fp_fields [OF this r0_def]
        have "nat p = Suc (nat (p - 1))" using False by simp
        then have "nat p * 2 ^ ?s = nat (p - 1) * 2 ^ ?s + 2 ^ ?s" by (simp only: mult_Suc add.commute)
        then show "fp_abs r0 = nat (p - 1) * 2 ^ ?s + unat hi" "fp_sign r0 = s" "fp_abs r0 < fp_inf F"
          using f q(1) um by auto
      qed
      have "(2::real) powi (p - 1) = 2 ^ nat (p - 1)" using False by (simp add: power_int_def)
      then have x': "x = ?y * 2 ^ nat (p - 1)" by (simp only: x)
      have "r = (let r1 = if lo > signBit F then r0 + 1 else r0 in if lo = signBit F then r1 + (r1 AND 1) else r1)"
        using pM False unfolding r r0_def by (simp add: fp_mul_round_def Let_def or.assoc)
      from fp_wide_round [OF r0(1,3) q(2,1) sticky_exact x' this] r0(2) show ?thesis by simp
    next
      case True
      have k: "0 < k" "unat (word_of_int (1 - p) :: su_int) = k"
        using True p unfolding k_def by (simp, subst unat_word_of_int) simp_all
      have "(2::real) powi (p - 1) = 1 / 2 ^ k"
        using True power_int_minus [of "2::real" "1 - p"] by (simp add: k_def power_int_def field_simps)
      then have xk: "x = ?y / 2 ^ k" by (simp add: x)
      show ?thesis
      proof (cases "k < ?L")
        case kL: True
        obtain hi' lo' where w: "wideRightShiftWithSticky u hi lo (word_of_int (1 - p)) = (hi', lo')"
          by (cases "wideRightShiftWithSticky u hi lo (word_of_int (1 - p))")
        have W: "wide (hi', lo') = shr_sticky k (wide (hi, lo))"
          using wideRightShift_in [OF k(2,1) kL width_max(1), of u hi lo] by (simp only: w)
        have "wide (hi, lo) < 2 * (2 ^ ?s * 2 ^ ?L)"
        proof -
          have "wide (hi, lo) < (unat hi + 1) * 2 ^ ?L" by (rule wide_lt)
          also have "\<dots> \<le> (2 * 2 ^ ?s) * 2 ^ ?L" using q(2) by (intro mult_le_mono1) simp
          finally show ?thesis by simp
        qed
        then have "wide (hi', lo') < 2 ^ ?s * 2 ^ ?L" unfolding W by (rule shr_sticky_less) (use k(1) in simp_all)
        then have hi': "unat hi' < 2 ^ ?s" using wide_div [of hi' lo'] by (metis less_mult_imp_div_less)
        define r0 where "r0 = hi' OR ?sign"
        have "(2::nat) ^ ?s < 2 ^ (?L - 1)" using width by (intro power_strict_increasing) simp_all
        then have "unat hi' < 2 ^ (?L - 1)" using hi' by linarith
        note f = fp_compose [OF this, of s, folded r0_def]
        have r0: "fp_abs r0 = 0 * 2 ^ ?s + unat hi'" "fp_sign r0 = s" using f by simp_all
        then have r0i: "fp_abs r0 < fp_inf F" using hi' fp_inf_ge by simp
        have st: "sticky (wide (hi', lo')) (real (wide (hi, lo)) / 2 ^ k)"
          unfolding W by (rule sticky_shr [OF sticky_exact])
        have x': "x = real (wide (hi, lo)) / 2 ^ k / 2 ^ ?L * 2 ^ 0" by (simp add: xk)
        have "\<not> of_nat ?L \<le> (word_of_int (1 - p) :: su_int)"
          using kL unfolding word_le_nat_alt uL k(2) by simp
        then have "r = (let r1 = if lo' > signBit F then r0 + 1 else r0 in if lo' = signBit F then r1 + (r1 AND 1) else r1)"
          using pM True w unfolding r r0_def fp_mul_round_def sh by (simp add: Let_def)
        from fp_wide_round [OF r0(1) r0i _ _ st x' this] hi' r0(2) show ?thesis by simp
      next
        case kL: False
        define r0 where "r0 = 0 OR ?sign"
        have r0: "fp_abs r0 = 0 * 2 ^ ?s + 0" "fp_sign r0 = s" "fp_abs r0 < fp_inf F"
          using fp_compose [of 0 s] fp_inf_pos unfolding r0_def by simp_all
        have "r = (let r1 = if False then r0 + 1 else r0 in if False then r1 + (r1 AND 1) else r1)"
        proof (cases flush)
          case True
          have "of_nat ?L \<le> (word_of_int (1 - p) :: su_int)" using kL unfolding word_le_nat_alt uL k(2) by simp
          then show ?thesis using pM \<open>p \<le> 0\<close> True unfolding r r0_def fp_mul_round_def sh by simp
        next
          case False
          have "unat hi < 2 ^ (?L - 1)"
            using q(2) width power_increasing [of "?s + 1" "?L - 1" "2::nat"] by simp
          from wideRightShift_out [OF _ this _ width_max(1), of "word_of_int (1 - p)" u lo] kL eb
          obtain lo' where w: "wideRightShiftWithSticky u hi lo (word_of_int (1 - p)) = (0, lo')" "unat lo' < 2 ^ (?L - 1)"
            unfolding k(2) by auto
          then have "\<not> lo' > signBit F" "lo' \<noteq> signBit F"
            by (auto simp: word_less_nat_alt unat_signBit)
          then show ?thesis using pM \<open>p \<le> 0\<close> False w(1) unfolding r r0_def fp_mul_round_def sh by (simp add: Let_def)
        qed
        moreover have "0 \<le> x" "x < 1 / 2"
        proof -
          have "(2::nat) ^ (?s + 5) \<le> 2 ^ k" using width kL by (intro power_increasing) simp_all
          then have "real (2 ^ (?s + 5)) \<le> real (2 ^ k)" by (simp only: of_nat_le_iff)
          moreover have "real (unat hi + 1) \<le> real (2 * 2 ^ ?s)" using q(2) by (intro of_nat_mono) simp
          ultimately have "2 * ?y < 2 ^ k" using y(2) by (simp add: power_add)
          then show "0 \<le> x" "x < 1 / 2" unfolding xk by (simp_all add: field_simps)
        qed
        ultimately show ?thesis
          using fp_round_up [of r0 0 0 x x False False r] r0 by simp
      qed
    qed
  qed
  then show "fp_nearest F x (fp_abs r)" "fp_sign r = s" by simp_all
qed

section \<open>The product\<close>

lemma exponent_word:
  fixes a :: "'r word"
  shows "unat (ucast (drop_bit (significandBits F) a AND word_of_int (maxExponent F)) :: su_int) =
    fp_abs a div 2 ^ significandBits F" (is "unat ?e = ?k")
    and "fp_abs a div 2 ^ significandBits F < 2 ^ 15"
proof -
  have "?k < 2 ^ exponentBits F"
    using fp_abs_less [of a] eb(1) by (intro less_mult_imp_div_less) (simp add: add.commute flip: power_add)
  also have "\<dots> \<le> 2 ^ 15" using exponentBits_le by (intro power_increasing) simp_all
  finally show k: "?k < 2 ^ 15" .
  then show "unat ?e = ?k" by (simp add: unsigned_ucast_eq exponent_field take_bit_eq_mod)
qed

lemma unat_maxExponent: "unat (word_of_int (maxExponent F) :: su_int) = 2 ^ exponentBits F - 1"
proof -
  have "(2::int) ^ exponentBits F \<le> 2 ^ 15" using exponentBits_le by (intro power_increasing) simp_all
  then have "maxExponent F < 2 ^ 32" "0 \<le> maxExponent F" by (simp_all add: maxExponent_def)
  then have "unat (word_of_int (maxExponent F) :: su_int) = nat (maxExponent F)"
    by (subst unat_word_of_int) simp_all
  then show ?thesis by (simp only: maxExponent_eq nat_int)
qed

lemma exponent_special:
  fixes a :: "'r word"
  shows "(ucast (drop_bit (significandBits F) a AND word_of_int (maxExponent F)) :: su_int) - 1 \<ge>
      word_of_int (maxExponent F) - 1 \<longleftrightarrow> fp_abs a < 2 ^ significandBits F \<or> fp_inf F \<le> fp_abs a"
proof -
  have M: "(word_of_int (maxExponent F) :: su_int) \<noteq> 0"
    using unat_maxExponent one_less_power [of "2::nat" "exponentBits F"] eb(2) by auto
  show ?thesis
    unfolding minus_one_range [OF M] unfolding word_le_nat_alt word_unat_eq_iff unat_maxExponent exponent_word fp_inf_def
    by (simp add: div_eq_0_iff less_eq_div_iff_mult_less_eq)
qed

lemma fp_mul_special_eq:
  "fp_mul_special F sign a b =
    (if fp_is_nan F a then Some (a OR quietBit F)
     else if fp_is_nan F b then Some (b OR quietBit F)
     else if fp_is_inf F a then Some (if fp_abs b = 0 then qnanRep F else infRep F OR sign)
     else if fp_is_inf F b then Some (if fp_abs a = 0 then qnanRep F else infRep F OR sign)
     else if fp_abs a = 0 \<or> fp_abs b = 0 then Some sign else None)"
proof -
  have e: "fp_abs x = fp_inf F \<Longrightarrow> x AND absMask F = infRep F" for x :: "'r word" by (simp add: and_absMask_cmp)
  show ?thesis
    unfolding fp_mul_special_def Let_def and_absMask_cmp by (auto simp: fp_is_nan_def fp_is_inf_def e)
qed

text \<open>A finite operand that is not zero, with the scale: the same as for addition.\<close>

lemma fp_scale_operand:
  fixes a :: "'r word"
  assumes "0 < fp_abs a" "fp_abs a < fp_inf F" and sp: "fp_abs a < 2 ^ significandBits F \<Longrightarrow> special"
    and op: "fp_operand F u a = (e, s)"
    and sc: "(if special \<and> a AND absMask F < implicitBit F then normalize F u (a AND significandMask F)
              else (0, a AND significandMask F)) = (c, s')"
  shows "s' = s" and "e = int (fp_abs a div 2 ^ significandBits F) + c"
proof -
  have d: "a AND absMask F < implicitBit F \<longleftrightarrow> fp_abs a < 2 ^ significandBits F"
    by (simp add: word_less_nat_alt unat_and_absMask unat_implicitBit)
  have ue: "uint (drop_bit (significandBits F) a AND word_of_int (maxExponent F)) =
      int (fp_abs a div 2 ^ significandBits F)"
    unfolding exponent_field [symmetric] by (simp add: of_nat_unat)
  have e0: "int (fp_abs a div 2 ^ significandBits F) = 0 \<longleftrightarrow> fp_abs a < 2 ^ significandBits F"
    by (simp add: div_eq_0_iff)
  show "s' = s" "e = int (fp_abs a div 2 ^ significandBits F) + c"
    using op sc sp unfolding fp_operand_def Let_def ue e0 d by (auto split: if_splits)
qed

text \<open>The wide product of two normalized significands, normalized, and its exponent.\<close>

lemma fp_mul_normalized:
  fixes sa sb hi lo :: "'r word"
  assumes a: "2 ^ significandBits F \<le> unat sa" "unat sa < 2 * 2 ^ significandBits F"
    and b: "2 ^ significandBits F \<le> unat sb" "unat sb < 2 * 2 ^ significandBits F"
    and w: "wideMultiply F sa (push_bit (exponentBits F) sb) = (hi, lo)"
    and n: "(if hi AND implicitBit F \<noteq> 0 then (e + 1, hi, lo) else (e, wideLeftShift u hi lo 1)) = (e', hi', lo')"
  shows "2 ^ significandBits F \<le> unat hi'" and "unat hi' < 2 * 2 ^ significandBits F"
    and "real (unat sa * unat sb) * 2 powi (e - 1 - int (significandBits F)) =
      real (wide (hi', lo')) / 2 ^ LENGTH('r) * 2 powi (e' - 1)"
    and "e \<le> e'"
proof -
  let ?s = "significandBits F" and ?L = "LENGTH('r)"
  define P where "P = unat sa * unat sb * 2 ^ exponentBits F"
  have L: "(2::nat) ^ ?L = 2 * 2 ^ ?s * 2 ^ exponentBits F" by (simp add: eb(1) power_add)
  have "unat sb * 2 ^ exponentBits F < 2 ^ ?L" unfolding L using b(2) by simp
  then have "unat (push_bit (exponentBits F) sb) = unat sb * 2 ^ exponentBits F" by (rule unat_push_below)
  then have P: "wide (hi, lo) = P" using mul [OF w] by (simp add: wide_def P_def mult.assoc)
  have "2 ^ ?s * 2 ^ ?s * 2 ^ exponentBits F \<le> P" unfolding P_def using a(1) b(1) by (intro mult_le_mono) simp_all
  then have Plo: "2 ^ ?s * 2 ^ ?L \<le> 2 * P" by (simp add: L)
  have "unat sa * unat sb < (2 * 2 ^ ?s) * (2 * 2 ^ ?s)" using a(2) b(2) by (intro mult_strict_mono') simp_all
  then have Phi: "P < 2 * 2 ^ ?s * 2 ^ ?L" by (simp add: P_def L)
  have hi: "unat hi < 2 * 2 ^ ?s"
    using Phi wide_div [of hi lo] unfolding P by (metis less_mult_imp_div_less)
  have top: "hi AND implicitBit F \<noteq> 0 \<longleftrightarrow> 2 ^ ?s \<le> unat hi"
    unfolding implicitBit_def by (rule and_top_bit_iff [OF hi])
  have e: "real (unat sa * unat sb) * 2 powi (e - 1 - int ?s) = real P / 2 ^ ?L * 2 powi e"
  proof -
    have "e = (e - 1 - int ?s) + 1 + int ?s" by simp
    then have "(2::real) powi e = 2 powi (e - 1 - int ?s) * 2 * 2 ^ ?s"
      by (metis power_int_1_right power_int_add power_int_of_nat zero_neq_numeral)
    moreover have "(2::real) ^ ?L = 2 * 2 ^ ?s * 2 ^ exponentBits F" by (simp add: eb(1) power_add)
    ultimately show ?thesis by (simp add: P_def field_simps)
  qed
  have "2 ^ ?s \<le> unat hi' \<and> unat hi' < 2 * 2 ^ ?s \<and>
    real P / 2 ^ ?L * 2 powi e = real (wide (hi', lo')) / 2 ^ ?L * 2 powi (e' - 1) \<and> e \<le> e'"
  proof (cases "2 ^ ?s \<le> unat hi")
    case True
    then show ?thesis using n top hi P by auto
  next
    case False
    then have n': "e' = e" "wideLeftShift u hi lo 1 = (hi', lo')" using n top by auto
    have "2 * unat hi < 2 ^ ?L"
    proof -
      have "(2::nat) * 2 ^ ?s \<le> 2 ^ ?L" unfolding L by simp
      then show ?thesis using False by linarith
    qed
    then have W: "wide (hi', lo') = 2 * P"
      using wideLeftShift_1 [of hi u lo] eb width_max unfolding n' P by simp
    have "unat hi' = 2 * P div 2 ^ ?L" using wide_div [of hi' lo'] W by simp
    moreover have "P < 2 ^ ?s * 2 ^ ?L"
    proof -
      have "P < (unat hi + 1) * 2 ^ ?L" using wide_lt [of hi lo] unfolding P .
      also have "\<dots> \<le> 2 ^ ?s * 2 ^ ?L" using False by (intro mult_le_mono1) simp
      finally show ?thesis .
    qed
    ultimately have "2 ^ ?s \<le> unat hi'" "unat hi' < 2 * 2 ^ ?s"
      using Plo by (simp_all add: less_eq_div_iff_mult_less_eq less_mult_imp_div_less)
    moreover have "(2::real) powi e = 2 * 2 powi (e - 1)" by (simp add: power_int_diff)
    ultimately show ?thesis using n' W by simp
  qed
  then show "2 ^ ?s \<le> unat hi'" "unat hi' < 2 * 2 ^ ?s" "e \<le> e'"
    "real (unat sa * unat sb) * 2 powi (e - 1 - int ?s) = real (wide (hi', lo')) / 2 ^ ?L * 2 powi (e' - 1)"
    unfolding e by simp_all
qed

lemma fp_mul_exponent:
  fixes a b :: "'r word"
  assumes "ea = int (fp_abs a div 2 ^ significandBits F) + ca" "eb' = int (fp_abs b div 2 ^ significandBits F) + cb"
    and "- 100 < ea" "- 100 < eb'" "ea < 2 ^ 15" "eb' < 2 ^ 15"
  shows "sint (ucast (drop_bit (significandBits F) a AND word_of_int (maxExponent F)) +
      ucast (drop_bit (significandBits F) b AND word_of_int (maxExponent F)) -
      word_of_int (exponentBias F) + word_of_int (ca + cb) :: su_int) = ea + eb' - exponentBias F"
proof -
  have "(ucast (drop_bit (significandBits F) x AND word_of_int (maxExponent F)) :: su_int) =
      word_of_int (int (fp_abs x div 2 ^ significandBits F))" for x :: "'r word"
    unfolding exponent_word(1) [symmetric] by (simp add: of_nat_unat)
  then have "(ucast (drop_bit (significandBits F) a AND word_of_int (maxExponent F)) +
      ucast (drop_bit (significandBits F) b AND word_of_int (maxExponent F)) -
      word_of_int (exponentBias F) + word_of_int (ca + cb) :: su_int) = word_of_int (ea + eb' - exponentBias F)"
    unfolding assms(1,2) by simp
  moreover have "sfits LENGTH(32) (ea + eb' - exponentBias F)"
    using assms(3-) exponentBias_bounds by (simp add: sfits_def)
  ultimately show ?thesis by (simp only: sint_of_int)
qed

lemma fp_mul_nonzero:
  fixes a b :: "'r word"
  assumes a: "0 < fp_abs a" "fp_abs a < fp_inf F" and b: "0 < fp_abs b" "fp_abs b < fp_inf F"
  shows "fp_nearest F \<bar>fp_value F a * fp_value F b * fp_scale F\<bar> (fp_abs (fp_mul F u flush a b))"
    and "fp_sign (fp_mul F u flush a b) = (fp_sign a \<noteq> fp_sign b)"
proof -
  let ?s = "significandBits F"
  define special where "special \<longleftrightarrow>
    ((ucast (drop_bit ?s a AND word_of_int (maxExponent F)) :: su_int) - 1 \<ge> word_of_int (maxExponent F) - 1 \<or>
     (ucast (drop_bit ?s b AND word_of_int (maxExponent F)) :: su_int) - 1 \<ge> word_of_int (maxExponent F) - 1)"
  have sp: "fp_abs a < 2 ^ ?s \<Longrightarrow> special" "fp_abs b < 2 ^ ?s \<Longrightarrow> special"
    unfolding special_def exponent_special by simp_all
  obtain ea sa where A: "fp_operand F u a = (ea, sa)" "2 ^ ?s \<le> unat (sa OR implicitBit F)"
    "unat (sa OR implicitBit F) < 2 * 2 ^ ?s"
    "real (fp_mag ?s (fp_abs a)) = real (unat (sa OR implicitBit F)) * 2 powi (ea - 1)"
    "1 - int ?s \<le> ea" "ea < maxExponent F" by (rule fp_operand_correct [OF a, of u])
  obtain eb' sb where B: "fp_operand F u b = (eb', sb)" "2 ^ ?s \<le> unat (sb OR implicitBit F)"
    "unat (sb OR implicitBit F) < 2 * 2 ^ ?s"
    "real (fp_mag ?s (fp_abs b)) = real (unat (sb OR implicitBit F)) * 2 powi (eb' - 1)"
    "1 - int ?s \<le> eb'" "eb' < maxExponent F" by (rule fp_operand_correct [OF b, of u])
  obtain ca sa' where ca: "(if special \<and> a AND absMask F < implicitBit F then normalize F u (a AND significandMask F)
      else (0, a AND significandMask F)) = (ca, sa')" by (rule prod.exhaust)
  obtain cb sb' where cb: "(if special \<and> b AND absMask F < implicitBit F then normalize F u (b AND significandMask F)
      else (0, b AND significandMask F)) = (cb, sb')" by (rule prod.exhaust)
  note oa = fp_scale_operand [OF a sp(1) A(1) ca] and ob = fp_scale_operand [OF b sp(2) B(1) cb]
  obtain hi lo where w: "wideMultiply F (sa OR implicitBit F) (push_bit (exponentBits F) (sb OR implicitBit F)) = (hi, lo)"
    by (rule prod.exhaust)
  define e where "e = ea + eb' - exponentBias F"
  obtain e' hi' lo' where n: "(if hi AND implicitBit F \<noteq> 0 then (e + 1, hi, lo) else (e, wideLeftShift u hi lo 1)) = (e', hi', lo')"
    by (metis prod.exhaust)
  note norm = fp_mul_normalized [OF A(2,3) B(2,3) w n]
  have M: "maxExponent F < 2 ^ 15"
    using power_increasing [OF exponentBits_le, of "2::int"] by (simp add: maxExponent_def)
  have pE: "sint (ucast (drop_bit ?s a AND word_of_int (maxExponent F)) +
      ucast (drop_bit ?s b AND word_of_int (maxExponent F)) -
      word_of_int (exponentBias F) + word_of_int (ca + cb) :: su_int) = e"
    unfolding e_def by (rule fp_mul_exponent [OF oa(2) ob(2)]) (use A(5,6) B(5,6) M width width_max in linarith)+
  have sign: "(a XOR b) AND signBit F = (if fp_sign a \<noteq> fp_sign b then signBit F else 0)"
    by (simp add: and_signBit fp_sign_def bit_xor_iff)
  have nosp: "fp_mul_special F p a b = None" for p
    using a b by (simp add: fp_mul_special_eq fp_is_nan_def fp_is_inf_def)
  have r: "fp_mul F u flush a b = fp_mul_round F u flush (if fp_sign a \<noteq> fp_sign b then signBit F else 0) e' hi' lo'"
    unfolding fp_mul_def Let_def special_def [symmetric] nosp if_cancel ca cb prod.case option.case pE sign
    by (simp only: oa(1) ob(1) w prod.case n)
  have x: "\<bar>fp_value F a * fp_value F b * fp_scale F\<bar> = real (wide (hi', lo')) / 2 ^ LENGTH('r) * 2 powi (e' - 1)"
  proof -
    have s: "0 < fp_scale F" by (simp add: fp_scale_def)
    have "fp_value F a * fp_value F b * fp_scale F = (fp_value F a * fp_scale F) * (fp_value F b * fp_scale F) / fp_scale F"
      using s by simp
    also have "\<bar>\<dots>\<bar> = real (fp_mag ?s (fp_abs a)) * real (fp_mag ?s (fp_abs b)) / fp_scale F"
      unfolding fp_value_eq using s by (cases "fp_sign a"; cases "fp_sign b") (simp_all add: abs_mult)
    finally have "\<bar>fp_value F a * fp_value F b * fp_scale F\<bar> =
        real (fp_mag ?s (fp_abs a)) * real (fp_mag ?s (fp_abs b)) / fp_scale F" .
    also have "\<dots> = real (unat (sa OR implicitBit F) * unat (sb OR implicitBit F)) *
        (2 powi (ea - 1) * 2 powi (eb' - 1) / fp_scale F)"
      unfolding A(4) B(4) by simp
    also have "2 powi (ea - 1) * 2 powi (eb' - 1) / fp_scale F = 2 powi (e - 1 - int ?s)"
    proof -
      have "e - 1 - int ?s = (ea - 1) + (eb' - 1) - (exponentBias F + int ?s - 1)" by (simp add: e_def)
      moreover have "(2::real) powi x * 2 powi y / 2 powi z = 2 powi (x + y - z)" for x y z
        by (simp add: power_int_add power_int_diff)
      ultimately show ?thesis by (simp only: fp_scale_powi)
    qed
    finally show ?thesis unfolding norm(3) .
  qed
  have "- (2 ^ 30) < e'" using norm(4) A(5) B(5) exponentBias_bounds width width_max unfolding e_def by simp
  from fp_mul_round_correct [OF norm(1,2) this x r]
  show "fp_nearest F \<bar>fp_value F a * fp_value F b * fp_scale F\<bar> (fp_abs (fp_mul F u flush a b))"
    "fp_sign (fp_mul F u flush a b) = (fp_sign a \<noteq> fp_sign b)" .
qed

lemma fp_mul_correct:
  fixes a b :: "'r word"
  assumes a: "fp_finite F a" and b: "fp_finite F b"
  shows "fp_nearest F \<bar>fp_value F a * fp_value F b * fp_scale F\<bar> (fp_abs (fp_mul F u flush a b))"
    and "fp_sign (fp_mul F u flush a b) = (fp_sign a \<noteq> fp_sign b)"
proof -
  have fin: "fp_abs a < fp_inf F" "fp_abs b < fp_inf F" using a b by (simp_all add: fp_finite_def)
  have "fp_nearest F \<bar>fp_value F a * fp_value F b * fp_scale F\<bar> (fp_abs (fp_mul F u flush a b)) \<and>
    fp_sign (fp_mul F u flush a b) = (fp_sign a \<noteq> fp_sign b)"
  proof (cases "fp_abs a = 0 \<or> fp_abs b = 0")
    case True
    have sign: "(a XOR b) AND signBit F = 0 OR (if fp_sign a \<noteq> fp_sign b then signBit F else 0)"
      by (simp add: and_signBit fp_sign_def bit_xor_iff)
    have sp: "fp_mul_special F p a b = Some p" for p
      using fin True by (auto simp: fp_mul_special_eq fp_is_nan_def fp_is_inf_def)
    have "(fp_abs a < 2 ^ significandBits F \<or> fp_inf F \<le> fp_abs a) \<or>
        fp_abs b < 2 ^ significandBits F \<or> fp_inf F \<le> fp_abs b" using True by auto
    then have "fp_mul F u flush a b = (a XOR b) AND signBit F"
      unfolding fp_mul_def Let_def exponent_special sp by (simp only: if_True option.case)
    then have "fp_abs (fp_mul F u flush a b) = 0" "fp_sign (fp_mul F u flush a b) = (fp_sign a \<noteq> fp_sign b)"
      unfolding sign using fp_compose [of 0 "fp_sign a \<noteq> fp_sign b"] by simp_all
    moreover have v: "fp_value F a * fp_value F b = 0" using True by (auto simp: fp_value_zero_iff)
    ultimately show ?thesis unfolding v using fp_nearest_exact [of 0 F] by simp
  next
    case False
    then show ?thesis using fp_mul_nonzero [of a b u flush] fin by simp
  qed
  then show "fp_nearest F \<bar>fp_value F a * fp_value F b * fp_scale F\<bar> (fp_abs (fp_mul F u flush a b))"
    "fp_sign (fp_mul F u flush a b) = (fp_sign a \<noteq> fp_sign b)" by simp_all
qed

lemma fp_mul_special_result:
  fixes a b :: "'r word"
  assumes "\<not> fp_finite F a \<or> \<not> fp_finite F b"
  shows "fp_mul F u flush a b =
    (if fp_is_nan F a then a OR quietBit F
     else if fp_is_nan F b then b OR quietBit F
     else if fp_abs a = 0 \<or> fp_abs b = 0 then qnanRep F
     else infRep F OR (if fp_sign a \<noteq> fp_sign b then signBit F else 0))"
proof -
  have sign: "(a XOR b) AND signBit F = (if fp_sign a \<noteq> fp_sign b then signBit F else 0)"
    by (simp add: and_signBit fp_sign_def bit_xor_iff)
  have inf: "fp_inf F \<le> fp_abs a \<or> fp_inf F \<le> fp_abs b" using assms by (auto simp: fp_finite_def)
  then have sp: "(fp_abs a < 2 ^ significandBits F \<or> fp_inf F \<le> fp_abs a) \<or>
      fp_abs b < 2 ^ significandBits F \<or> fp_inf F \<le> fp_abs b" by blast
  define p where "p = (a XOR b) AND signBit F"
  have "fp_mul_special F p a b \<noteq> None"
    using inf by (auto simp: fp_mul_special_eq fp_is_nan_def fp_is_inf_def)
  then obtain r where r: "fp_mul_special F p a b = Some r" by blast
  have "fp_mul F u flush a b = r"
    unfolding fp_mul_def Let_def exponent_special p_def [symmetric] r using sp by (simp only: if_True option.case)
  then show ?thesis
    using r inf fp_inf_pos unfolding sign [folded p_def, symmetric] fp_mul_special_eq
    by (auto simp: fp_is_nan_def fp_is_inf_def split: if_splits)
qed

end

section \<open>Properties\<close>

text \<open>\<^verbatim>\<open>__muldf3\<close> is correctly rounded: for finite operands, denormal ones included, the soft-float
  branch returns the pattern nearest to the exact product, ties to even, with the product's sign;
  overflow gives infinity and underflow a denormal number or a zero of the right sign.\<close>

lemma muldf3_correctly_rounded:
  assumes "fp_finite double a" and "fp_finite double b"
  shows "\<exists>r. muldf3 u D 0 a b d = Some (r, d) \<and>
    fp_nearest double \<bar>fp_value double a * fp_value double b * fp_scale double\<bar> (fp_abs r) \<and>
    fp_sign r = (fp_sign a \<noteq> fp_sign b)"
  using dbl.fp_mul_correct [OF assms, of u True] by (simp add: muldf3_def)

text \<open>\<^verbatim>\<open>__mulsf3\<close> is correctly rounded too, although it does not treat underflow separately: where
  its shift with sticky is by the whole width of a word, which C leaves undefined, the result is the
  same whatever the target does.\<close>

lemma mulsf3_correctly_rounded:
  assumes "fp_finite single a" and "fp_finite single b"
  shows "\<exists>r. mulsf3 u D 0 a b d = Some (r, d) \<and>
    fp_nearest single \<bar>fp_value single a * fp_value single b * fp_scale single\<bar> (fp_abs r) \<and>
    fp_sign r = (fp_sign a \<noteq> fp_sign b)"
  using sgl.fp_mul_correct [OF assms, of u False] by (simp add: mulsf3_def)

text \<open>C10: The product of two finite numbers, in either precision, is the number nearest to the exact one, ties to even,
  with the sign of the exact product, whatever an out-of-range shift yields.\<close>

theorem multiplication_correctly_rounded:
  assumes "fp_finite double a" and "fp_finite double b" and "fp_finite single e" and "fp_finite single f"
  shows "(\<exists>r. muldf3 u D 0 a b d = Some (r, d) \<and>
    fp_nearest double \<bar>fp_value double a * fp_value double b * fp_scale double\<bar> (fp_abs r) \<and>
    fp_sign r = (fp_sign a \<noteq> fp_sign b)) \<and>
    (\<exists>r. mulsf3 u D 0 e f d = Some (r, d) \<and>
    fp_nearest single \<bar>fp_value single e * fp_value single f * fp_scale single\<bar> (fp_abs r) \<and>
    fp_sign r = (fp_sign e \<noteq> fp_sign f))"
  by (rule conjI [OF muldf3_correctly_rounded [OF assms(1,2)] mulsf3_correctly_rounded [OF assms(3,4)]])

theorem multiplication_correctly_rounded_witness:
  "\<forall>(D :: unit fpu) d. (\<exists>r. muldf3 (\<lambda>_ _ _ _. 0) D 0 0x3FF8000000000000 0x0000000000000001 d = Some (r, d) \<and>
      fp_nearest double \<bar>fp_value double 0x3FF8000000000000 * fp_value double 0x0000000000000001 * fp_scale double\<bar> (fp_abs r) \<and>
      fp_sign r = (fp_sign (0x3FF8000000000000 :: du_int) \<noteq> fp_sign (0x0000000000000001 :: du_int))) \<and>
    (\<exists>r. mulsf3 (\<lambda>_ _ _ _. 0) D 0 0x00800000 0x3F000000 d = Some (r, d) \<and>
      fp_nearest single \<bar>fp_value single 0x00800000 * fp_value single 0x3F000000 * fp_scale single\<bar> (fp_abs r) \<and>
      fp_sign r = (fp_sign (0x00800000 :: su_int) \<noteq> fp_sign (0x3F000000 :: su_int)))"
  by (intro allI multiplication_correctly_rounded) (simp_all add: fp_eval)

end
