(* ===== verification/Fp_Convert.thy ===== *)
theory Fp_Convert
  imports Fp_Add
begin

unbundle bit_operations_syntax

text \<open>
  The conversions between the two formats: \<^verbatim>\<open>extendsfdf2.c\<close>, which is exact, and
  \<^verbatim>\<open>truncdfsf2.c\<close>, which rounds. They do not use \<^verbatim>\<open>fp_lib.h\<close>: each defines the constants of
  its source and destination formats itself, and so do the models.
\<close>

section \<open>The code\<close>

definition extendsfdf2 :: "ub \<Rightarrow> su_int \<Rightarrow> du_int" where
  "extendsfdf2 u a =
    (let srcSigBits = 23; dstSigBits = 52; srcBits = 32; dstBits = 64;
         srcExpBits = srcBits - srcSigBits - 1 :: nat;
         srcInfExp = 2 ^ srcExpBits - 1 :: int;
         srcExpBias = srcInfExp div 2;
         srcMinNormal = push_bit srcSigBits 1 :: su_int;
         srcInfinity = push_bit srcSigBits (word_of_int srcInfExp) :: su_int;
         srcSignMask = push_bit (srcSigBits + srcExpBits) 1 :: su_int;
         srcAbsMask = srcSignMask - 1;
         srcQNaN = push_bit (srcSigBits - 1) 1 :: su_int;
         srcNaNCode = srcQNaN - 1;
         dstExpBits = dstBits - dstSigBits - 1 :: nat;
         dstInfExp = 2 ^ dstExpBits - 1 :: int;
         dstExpBias = dstInfExp div 2;
         dstMinNormal = push_bit dstSigBits 1 :: du_int;
         aRep = a;
         aAbs = aRep AND srcAbsMask;
         sign = aRep AND srcSignMask;
         absResult =
           (if aAbs - srcMinNormal < srcInfinity - srcMinNormal then
              push_bit (dstSigBits - srcSigBits) (ucast aAbs) +
              push_bit dstSigBits (word_of_int (dstExpBias - srcExpBias))
            else if aAbs \<ge> srcInfinity then
              (push_bit dstSigBits (word_of_int dstInfExp) OR
               push_bit (dstSigBits - srcSigBits) (ucast (aAbs AND srcQNaN))) OR
              ucast (aAbs AND srcNaNCode)
            else if aAbs \<noteq> 0 then
              let scale = sint (builtin_clz u aAbs - builtin_clz u srcMinNormal);
                  absResult = c_shl u (ucast aAbs) (word_of_int (int dstSigBits - int srcSigBits + scale));
                  absResult = absResult XOR dstMinNormal;
                  resultExponent = dstExpBias - srcExpBias - scale + 1
              in absResult OR push_bit dstSigBits (word_of_int resultExponent)
            else 0) :: du_int
     in absResult OR push_bit (dstBits - srcBits) (ucast sign))"

definition truncdfsf2 :: "ub \<Rightarrow> du_int \<Rightarrow> su_int" where
  "truncdfsf2 u a =
    (let srcSigBits = 52; dstSigBits = 23; srcBits = 64; dstBits = 32;
         srcExpBits = srcBits - srcSigBits - 1 :: nat;
         srcInfExp = 2 ^ srcExpBits - 1 :: int;
         srcExpBias = srcInfExp div 2;
         srcMinNormal = push_bit srcSigBits 1 :: du_int;
         significandMask = srcMinNormal - 1;
         srcInfinity = push_bit srcSigBits (word_of_int srcInfExp) :: du_int;
         srcSignMask = push_bit (srcSigBits + srcExpBits) 1 :: du_int;
         srcAbsMask = srcSignMask - 1;
         roundMask = push_bit (srcSigBits - dstSigBits) 1 - 1 :: du_int;
         halfway = push_bit (srcSigBits - dstSigBits - 1) 1 :: du_int;
         dstExpBits = dstBits - dstSigBits - 1 :: nat;
         dstInfExp = 2 ^ dstExpBits - 1 :: int;
         dstExpBias = dstInfExp div 2;
         underflowExponent = srcExpBias + 1 - dstExpBias;
         overflowExponent = srcExpBias + dstInfExp - dstExpBias;
         underflow = push_bit srcSigBits (word_of_int underflowExponent) :: du_int;
         overflow = push_bit srcSigBits (word_of_int overflowExponent) :: du_int;
         dstQNaN = push_bit (dstSigBits - 1) 1 :: su_int;
         dstNaNCode = dstQNaN - 1;
         aRep = a;
         aAbs = aRep AND srcAbsMask;
         sign = aRep AND srcSignMask;
         absResult =
           (if aAbs - underflow < aAbs - overflow then
              let absResult = ucast (drop_bit (srcSigBits - dstSigBits) aAbs);
                  absResult = absResult - push_bit dstSigBits (word_of_int (srcExpBias - dstExpBias));
                  roundBits = aAbs AND roundMask
              in if roundBits > halfway then absResult + 1
                 else if roundBits = halfway then absResult + (absResult AND 1) else absResult
            else if aAbs > srcInfinity then
              (push_bit dstSigBits (word_of_int dstInfExp) OR dstQNaN) OR ucast (aAbs AND ucast dstNaNCode)
            else if aAbs > overflow then push_bit dstSigBits (word_of_int dstInfExp)
            else
              let aExp = uint (drop_bit srcSigBits aAbs);
                  shift = srcExpBias - dstExpBias - aExp + 1;
                  significand = (aRep AND significandMask) OR srcMinNormal
              in if shift > int srcSigBits then 0
                 else
                   let sticky = c_bool (c_shl u significand (of_nat srcBits - word_of_int shift) \<noteq> 0);
                       denormalizedSignificand = c_lshr u significand (word_of_int shift) OR sticky;
                       absResult = ucast (drop_bit (srcSigBits - dstSigBits) denormalizedSignificand);
                       roundBits = denormalizedSignificand AND roundMask
                   in if roundBits > halfway then absResult + 1
                      else if roundBits = halfway then absResult + (absResult AND 1) else absResult) :: su_int
     in absResult OR ucast (drop_bit (srcBits - dstBits) sign))"

section \<open>Extension\<close>

text \<open>The magnitude \<^verbatim>\<open>extendsfdf2\<close> computes, by cases.\<close>

definition extend_abs :: "ub \<Rightarrow> su_int \<Rightarrow> du_int" where
  "extend_abs u x =
    (if implicitBit single \<le> x \<and> x < infRep single then push_bit 29 (ucast x) + push_bit 52 896
     else if infRep single \<le> x then
       (infRep double OR push_bit 29 (ucast (x AND quietBit single))) OR ucast (x AND (quietBit single - 1))
     else if x \<noteq> 0 then
       let n = nlz x - nlz (implicitBit single)
       in (push_bit (29 + n) (ucast x) XOR implicitBit double) OR push_bit 52 (of_nat (897 - n))
     else 0)"

lemma extendsfdf2_eq:
  "extendsfdf2 u a = extend_abs u (a AND absMask single) OR (if fp_sign a then signBit double else 0)"
proof -
  define x where "x = a AND absMask single"
  have sign: "push_bit 32 (ucast (a AND signBit single)) = (if fp_sign a then signBit double else 0 :: du_int)"
    unfolding sgl.and_signBit by (simp add: format_words)
  have c1: "x - 0x800000 < 0x7F800000 - 0x800000 \<longleftrightarrow> 0x800000 \<le> x \<and> x < 0x7F800000" by (rule range_test) simp
  have clz: "sint (builtin_clz u x - builtin_clz u (0x800000 :: su_int)) = int (nlz x - nlz (0x800000 :: su_int)) \<and>
      nlz x - nlz (0x800000 :: su_int) \<le> 23"
    if "x \<noteq> 0" "x < 0x800000"
  proof -
    have "unat x < 2 ^ 23" using that(2) by (simp add: word_less_nat_alt)
    from nlz_shift [OF that(1) this] obtain n where n: "nlz x = 8 + n" "n \<le> 23" by auto
    have "nlz (0x800000 :: su_int) = 8" using nlz_exp [of 23 "0x800000 :: su_int"] by simp
    moreover have "builtin_clz u x - builtin_clz u (0x800000 :: su_int) = of_nat n"
      using that(1) by (simp add: builtin_clz_def n(1) calculation)
    ultimately show ?thesis using n by (simp add: sint_of_nat_small)
  qed
  define A where "A = (if x - 0x800000 < 0x7F800000 - 0x800000 then push_bit 29 (ucast x) + push_bit 52 896
    else if x \<ge> 0x7F800000 then
      (0x7FF0000000000000 OR push_bit 29 (ucast (x AND 0x400000))) OR ucast (x AND (0x400000 - 1))
    else if x \<noteq> 0 then
      let scale = sint (builtin_clz u x - builtin_clz u (0x800000 :: su_int))
      in (c_shl u (ucast x) (word_of_int (29 + scale)) XOR 0x10000000000000) OR push_bit 52 (word_of_int (897 - scale))
    else 0 :: du_int)"
  have "extendsfdf2 u a = A OR push_bit 32 (ucast (a AND signBit single))"
    unfolding extendsfdf2_def A_def x_def format_words Let_def by simp
  moreover have "A = extend_abs u x"
  proof (cases "x \<noteq> 0 \<and> x < 0x800000")
    case True
    define n where "n = nlz x - nlz (0x800000 :: su_int)"
    have n: "sint (builtin_clz u x - builtin_clz u (0x800000 :: su_int)) = int n" "n \<le> 23"
      using clz True by (auto simp: n_def)
    have "unat (word_of_int (29 + int n) :: su_int) = 29 + n" using n(2) by (subst unat_word_of_int) auto
    then have s: "c_shl u (ucast x :: du_int) (word_of_int (29 + int n)) = push_bit (29 + n) (ucast x)"
      using n(2) by (simp only: c_shl_def) simp
    have e: "(word_of_int (897 - int n) :: du_int) = of_nat (897 - n)" using n(2) by (simp add: of_nat_diff)
    have "\<not> 0x800000 \<le> x" "\<not> 0x7F800000 \<le> x" using True by (auto simp: word_less_nat_alt word_le_nat_alt)
    then show ?thesis
      unfolding A_def c1 extend_abs_def format_words Let_def n(1) s e n_def [symmetric] using True by simp
  next
    case False
    then show ?thesis
      unfolding A_def c1 extend_abs_def format_words Let_def by (auto simp: word_less_nat_alt word_le_nat_alt)
  qed
  ultimately show ?thesis by (simp only: sign x_def)
qed

lemma extend_abs_normal:
  assumes "2 ^ 23 \<le> unat x" "unat x < 255 * 2 ^ 23"
  shows "unat (extend_abs u x) = unat x * 2 ^ 29 + 896 * 2 ^ 52"
proof -
  have "unat (push_bit 29 (ucast x :: du_int)) = unat x * 2 ^ 29"
    using assms by (subst unat_push_below) (simp_all add: dw.unat_ucast_half)
  then have "unat (push_bit 29 (ucast x :: du_int) + push_bit 52 896) = unat x * 2 ^ 29 + 896 * 2 ^ 52"
    using assms by (subst unat_add_below) simp_all
  then show ?thesis
    using assms unfolding extend_abs_def format_words by (simp add: word_less_nat_alt word_le_nat_alt)
qed

lemma extend_abs_denormal:
  assumes x: "0 < unat x" "unat x < 2 ^ 23"
  obtains n where "0 < n" "n \<le> 23" "2 ^ 52 \<le> unat x * 2 ^ (29 + n)" "unat x * 2 ^ (29 + n) < 2 * 2 ^ 52"
    "unat (extend_abs u x) = (896 - n) * 2 ^ 52 + unat x * 2 ^ (29 + n)"
proof -
  have x0: "x \<noteq> 0" using x(1) by auto
  obtain n where n: "nlz x = 8 + n" "0 < n" "n \<le> 23" "2 ^ 23 \<le> unat x * 2 ^ n" "unat x * 2 ^ n < 2 * 2 ^ 23"
    using nlz_shift [OF x0 x(2)] by auto
  have n8: "nlz (0x800000 :: su_int) = 8" using nlz_exp [of 23 "0x800000 :: su_int"] by simp
  define P where "P = unat x * 2 ^ (29 + n)"
  have "P = unat x * 2 ^ n * 2 ^ 29" by (simp add: P_def power_add)
  then have P: "2 ^ 52 \<le> P" "P < 2 * 2 ^ 52" using n(4,5) by simp_all
  define p where "p = push_bit (29 + n) (ucast x :: du_int)"
  have up: "unat p = P"
    unfolding p_def using P unfolding P_def by (subst unat_push_below) (simp_all add: dw.unat_ucast_half)
  have "bit p 52" using top_bit_iff [of p 52] P up by simp
  then have "unat (p XOR push_bit 52 1) = P - 2 ^ 52" by (simp only: clear_bit up)
  then have lo: "unat (p XOR 0x10000000000000) = P - 2 ^ 52" "unat (p XOR 0x10000000000000) < 2 ^ 52"
    using P by simp_all
  have of_k: "unat (push_bit 52 (of_nat k) OR (p XOR 0x10000000000000)) = k * 2 ^ 52 + (P - 2 ^ 52)" if "k < 1000" for k
    using unat_push_or [OF lo(2), of "of_nat k"] that by (simp add: lo(1) unat_of_nat)
  have "unat (push_bit 52 (of_nat (897 - n)) OR (p XOR 0x10000000000000)) = (897 - n) * 2 ^ 52 + (P - 2 ^ 52)"
    by (rule of_k) simp
  also have "\<dots> = (896 - n) * 2 ^ 52 + P" using n(3) P by (simp add: diff_mult_distrib)
  finally have "unat (extend_abs u x) = (896 - n) * 2 ^ 52 + P"
    using x0 x n(1) n8 unfolding extend_abs_def format_words Let_def p_def
    by (simp add: word_less_nat_alt word_le_nat_alt or.commute)
  then show ?thesis using that [of n] n P unfolding P_def by simp
qed

text \<open>So it is the same number on the scale of the wider format.\<close>

lemma extend_abs_mag:
  assumes "unat x < 255 * 2 ^ 23"
  shows "fp_mag 52 (unat (extend_abs u x)) = fp_mag 23 (unat x) * 2 ^ 925"
    and "unat (extend_abs u x) < 2047 * 2 ^ 52"
proof -
  have "fp_mag 52 (unat (extend_abs u x)) = fp_mag 23 (unat x) * 2 ^ 925 \<and> unat (extend_abs u x) < 2047 * 2 ^ 52"
  proof (cases "unat x < 2 ^ 23")
    case True
    show ?thesis
    proof (cases "unat x = 0")
      case True
      then have "x = 0" by (simp add: word_unat_eq_iff)
      then have "unat (extend_abs u x) = 0" unfolding extend_abs_def format_words by simp
      then show ?thesis using True by simp
    next
      case False
      then have "0 < unat x" by simp
      from extend_abs_denormal [OF this \<open>unat x < 2 ^ 23\<close>, of u] obtain n where n: "0 < n" "n \<le> 23"
        and P: "2 ^ 52 \<le> unat x * 2 ^ (29 + n)" "unat x * 2 ^ (29 + n) < 2 * 2 ^ 52"
        and u: "unat (extend_abs u x) = (896 - n) * 2 ^ 52 + unat x * 2 ^ (29 + n)" by blast
      have "fp_mag 52 (unat (extend_abs u x)) = unat x * 2 ^ (29 + n) * 2 ^ (896 - n)"
        unfolding u using dbl.fp_mag_field(1) [of "unat x * 2 ^ (29 + n)" "896 - n"] P by (simp add: format_numbers)
      also have "\<dots> = unat x * 2 ^ (29 + n + (896 - n))" by (simp only: power_add mult.assoc)
      also have "29 + n + (896 - n) = 925" using n by simp
      finally have "fp_mag 52 (unat (extend_abs u x)) = fp_mag 23 (unat x) * 2 ^ 925"
        using \<open>unat x < 2 ^ 23\<close> fp_mag_compose(2) [of "unat x" 23] by simp
      moreover have "(896 - n) * 2 ^ 52 \<le> 895 * 2 ^ 52" using n by (intro mult_le_mono1) simp
      ultimately show ?thesis using P unfolding u by simp
    qed
  next
    case False
    define E m where Em: "E = unat x div 2 ^ 23 - 1" "m = unat x mod 2 ^ 23"
    have E: "1 \<le> unat x div 2 ^ 23" using False by (simp add: less_eq_div_iff_mult_less_eq)
    have ux: "unat x = (E + 1) * 2 ^ 23 + m"
      using E div_mult_mod_eq [of "unat x" "2 ^ 23"] unfolding Em by simp
    have m: "m < 2 ^ 23" by (simp add: Em)
    have u: "unat (extend_abs u x) = (E + 896 + 1) * 2 ^ 52 + m * 2 ^ 29"
      using extend_abs_normal [of x u] False assms unfolding ux by (simp add: algebra_simps)
    have "fp_mag 52 (unat (extend_abs u x)) = (2 ^ 52 + m * 2 ^ 29) * 2 ^ (E + 896)"
      unfolding u using m by (intro fp_mag_compose(1)) simp
    also have "\<dots> = (2 ^ 23 + m) * 2 ^ E * 2 ^ 925"
    proof -
      have "2 ^ 52 + m * 2 ^ 29 = (2 ^ 23 + m) * 2 ^ 29" by simp
      then have "(2 ^ 52 + m * 2 ^ 29) * 2 ^ (E + 896) = (2 ^ 23 + m) * (2 ^ 29 * 2 ^ (E + 896))"
        by (simp only: mult.assoc)
      also have "(2::nat) ^ 29 * 2 ^ (E + 896) = 2 ^ E * 2 ^ 925"
        by (simp only: power_add [symmetric] add.assoc add.commute add.left_commute) simp
      finally show ?thesis by (simp only: mult.assoc)
    qed
    also have "(2 ^ 23 + m) * 2 ^ E = fp_mag 23 (unat x)"
      unfolding ux using m by (intro fp_mag_compose(1) [symmetric]) simp
    finally show ?thesis using assms extend_abs_normal [of x u] False by simp
  qed
  then show "fp_mag 52 (unat (extend_abs u x)) = fp_mag 23 (unat x) * 2 ^ 925"
    "unat (extend_abs u x) < 2047 * 2 ^ 52" by simp_all
qed

section \<open>Truncation\<close>

definition round_half_even :: "du_int \<Rightarrow> su_int \<Rightarrow> su_int" where
  "round_half_even roundBits r =
    (if roundBits > 0x10000000 then r + 1 else if roundBits = 0x10000000 then r + (r AND 1) else r)"

definition trunc_abs :: "ub \<Rightarrow> du_int \<Rightarrow> su_int" where
  "trunc_abs u x =
    (if 0x3810000000000000 \<le> x \<and> x < 0x47F0000000000000 then
       round_half_even (x AND mask 29) (ucast (drop_bit 29 x) - 0x1C0000000)
     else if x > infRep double then
       (infRep single OR quietBit single) OR ucast (x AND ucast (quietBit single - 1 :: su_int))
     else if x > 0x47F0000000000000 then infRep single
     else
       let shift = 897 - int (unat x div 2 ^ 52); significand = (x AND mask 52) OR implicitBit double
       in if shift > 52 then 0
          else
            let d = c_lshr u significand (word_of_int shift) OR
                  c_bool (c_shl u significand (of_nat LENGTH(64) - word_of_int shift) \<noteq> 0)
            in round_half_even (d AND mask 29) (ucast (drop_bit 29 d)))"

lemma truncdfsf2_eq:
  "truncdfsf2 u a = trunc_abs u (a AND absMask double) OR (if fp_sign a then signBit single else 0)"
proof -
  define x where "x = a AND absMask double"
  have sign: "ucast (drop_bit 32 (a AND signBit double)) = (if fp_sign a then signBit single else 0 :: su_int)"
    unfolding dbl.and_signBit by (simp add: format_words)
  have c1: "x - 0x3810000000000000 < x - 0x47F0000000000000 \<longleftrightarrow> 0x3810000000000000 \<le> x \<and> x < 0x47F0000000000000"
    by (rule range_test_below) simp
  have m: "a AND 0xFFFFFFFFFFFFF = x AND mask 52" "(0x1FFFFFFF :: du_int) = mask 29"
    "(a AND 0x7FFFFFFFFFFFFFFF) = x"
  proof -
    have "(0xFFFFFFFFFFFFF :: du_int) = mask 52" by (simp add: mask_eq_exp_minus_1)
    moreover have "x AND mask 52 = a AND mask 52"
      unfolding x_def dbl.absMask_eq by (rule bit_word_eqI) (auto simp: bit_and_iff bit_mask_iff)
    ultimately show "a AND 0xFFFFFFFFFFFFF = x AND mask 52" by simp
    show "(0x1FFFFFFF :: du_int) = mask 29" by (simp add: mask_eq_exp_minus_1)
    show "(a AND 0x7FFFFFFFFFFFFFFF) = x" by (simp add: x_def format_words)
  qed
  have e: "uint (drop_bit 52 x) = int (unat x div 2 ^ 52)"
    by (simp only: of_nat_unat unat_drop_bit [symmetric])
  have "truncdfsf2 u a = trunc_abs u x OR ucast (drop_bit 32 (a AND signBit double))"
    unfolding truncdfsf2_def trunc_abs_def round_half_even_def format_words Let_def c1 [symmetric] m(2) [symmetric] m(1) [symmetric] e [symmetric]
    by (simp add: m)
  then show ?thesis by (simp only: sign x_def)
qed

lemma round_half_even_idiom:
  "round_half_even (x AND mask 29) r =
    (let r1 = if 2 ^ (29 - 1) < unat x mod 2 ^ 29 then r + 1 else r
     in if unat x mod 2 ^ 29 = 2 ^ (29 - 1) then r1 + (r1 AND 1) else r1)"
  unfolding round_half_even_def Let_def word_less_nat_alt word_unat_eq_iff unat_and_mask by simp

text \<open>Truncating 29 digits of a sticky significand.\<close>

lemma trunc_round:
  fixes r0 :: su_int
  assumes st: "sticky (unat d) y" and d: "unat d < 2 * 2 ^ 52" "0 < e \<Longrightarrow> 2 ^ 52 \<le> unat d"
    and r0: "unat r0 = e * 2 ^ 23 + unat d div 2 ^ 29" "unat r0 < fp_inf single"
    and x: "x = y / 2 ^ 29 * 2 ^ e"
  shows "fp_nearest single x (fp_abs (round_half_even (d AND mask 29) r0))"
    and "\<not> fp_sign (round_half_even (d AND mask 29) r0)"
proof -
  have r0': "fp_abs r0 = unat r0" "\<not> fp_sign r0"
    using sgl.fp_compose [of r0 False] sgl.fp_inf_less r0(2) by simp_all
  have q: "unat d div 2 ^ 29 < 2 * 2 ^ 23" "0 < e \<Longrightarrow> 2 ^ 23 \<le> unat d div 2 ^ 29"
    using d by (simp_all add: less_mult_imp_div_less less_eq_div_iff_mult_less_eq)
  note block = sticky_block [OF st, of 29]
  show "fp_nearest single x (fp_abs (round_half_even (d AND mask 29) r0))"
    "\<not> fp_sign (round_half_even (d AND mask 29) r0)"
    using sgl.fp_round_up [of r0 e "unat d div 2 ^ 29" "y / 2 ^ 29" x, OF _ _ _ _ _ _ x _ _ round_half_even_idiom]
      r0 r0' q block by (simp_all add: format_numbers)
qed

text \<open>The significand with its implicit digit.\<close>

lemma trunc_significand:
  fixes x :: du_int
  shows "unat ((x AND mask 52) OR implicitBit double) = 2 ^ 52 + unat x mod 2 ^ 52"
    and "((x AND mask 52) OR implicitBit double) AND mask 29 = x AND mask 29"
proof -
  have "unat (x AND mask 52) < 2 ^ significandBits double"
    unfolding format_numbers unat_and_mask by simp
  from dbl.or_implicitBit(1) [OF this] show "unat ((x AND mask 52) OR implicitBit double) = 2 ^ 52 + unat x mod 2 ^ 52"
    by (simp only: format_numbers unat_and_mask)
  show "((x AND mask 52) OR implicitBit double) AND mask 29 = x AND mask 29"
  proof -
    have "\<not> bit (implicitBit double) n" if "n < 29" for n
      using that unfolding implicitBit_def format_numbers by (simp only: bit_push_bit_iff) simp
    then show ?thesis by (intro bit_word_eqI) (auto simp: bit_and_iff bit_or_iff bit_mask_iff)
  qed
qed

lemma trunc_abs_normal:
  assumes k: "897 * 2 ^ 52 \<le> unat x" "unat x < 1151 * 2 ^ 52"
  shows "fp_nearest single (real (fp_mag 52 (unat x)) / 2 ^ 925) (fp_abs (trunc_abs u x))"
    and "\<not> fp_sign (trunc_abs u x)"
proof -
  define m where "m = unat x mod 2 ^ 52"
  define e where "e = unat x div 2 ^ 52 - 897"
  have "897 \<le> unat x div 2 ^ 52" using k(1) by (simp only: less_eq_div_iff_mult_less_eq zero_less_power zero_less_numeral)
  then have e: "unat x div 2 ^ 52 = e + 897" by (simp add: e_def)
  have ux: "unat x = (e + 897) * 2 ^ 52 + m"
    using div_mult_mod_eq [of "unat x" "2 ^ 52"] unfolding e m_def [symmetric] by simp
  have m: "m < 2 ^ 52" by (simp add: m_def)
  have e254: "e < 254" using k(2) unfolding ux by simp
  define d where "d = (x AND mask 52) OR implicitBit double"
  have ud: "unat d = 2 ^ 52 + m" "d AND mask 29 = x AND mask 29"
    unfolding d_def m_def by (rule trunc_significand)+
  define q where "q = m div 2 ^ 29"
  have q: "unat x div 2 ^ 29 = (e + 897) * 2 ^ 23 + q" "unat d div 2 ^ 29 = 2 ^ 23 + q" "q < 2 ^ 23"
    unfolding ux ud(1) q_def using m by (simp_all add: less_mult_imp_div_less)
  define r0 :: su_int where "r0 = ucast (drop_bit 29 x) - 0x1C0000000"
  have "r0 = of_nat (unat x div 2 ^ 29) - of_nat (896 * 2 ^ 23)"
    unfolding r0_def by (simp only: unat_drop_bit [symmetric] of_nat_unat) simp
  also have "\<dots> = of_nat (unat x div 2 ^ 29 - 896 * 2 ^ 23)"
    unfolding q(1) by (subst of_nat_diff) simp_all
  also have "unat x div 2 ^ 29 - 896 * 2 ^ 23 = (e + 1) * 2 ^ 23 + q" unfolding q(1) by simp
  finally have "r0 = of_nat ((e + 1) * 2 ^ 23 + q)" .
  then have ur: "unat r0 = (e + 1) * 2 ^ 23 + q"
    using e254 q(3) by (simp only: unat_of_nat take_bit_nat_eq_self) (simp add: take_bit_nat_eq_self)
  have "trunc_abs u x = round_half_even (d AND mask 29) r0"
    unfolding trunc_abs_def r0_def ud(2) using k by (simp add: word_less_nat_alt word_le_nat_alt)
  moreover have "unat x = (e + 896 + 1) * 2 ^ 52 + m" unfolding ux by simp
  then have "fp_mag 52 (unat x) = (2 ^ 52 + m) * 2 ^ (e + 896)"
    using fp_mag_compose(1) [of m 52 "e + 896"] m by (simp only: less_imp_le)
  then have x: "real (fp_mag 52 (unat x)) / 2 ^ 925 = real (unat d) / 2 ^ 29 * 2 ^ e"
    unfolding ud(1) by (simp add: power_add)
  have r0: "unat r0 = e * 2 ^ 23 + unat d div 2 ^ 29" unfolding ur q(2) by simp
  have inf: "unat r0 < fp_inf single" unfolding ur format_numbers using e254 q(3) by simp
  have d: "unat d < 2 * 2 ^ 52" "0 < e \<Longrightarrow> 2 ^ 52 \<le> unat d" using m unfolding ud(1) by simp_all
  ultimately show "fp_nearest single (real (fp_mag 52 (unat x)) / 2 ^ 925) (fp_abs (trunc_abs u x))"
    "\<not> fp_sign (trunc_abs u x)"
    using trunc_round [OF sticky_exact d r0 inf x] by simp_all
qed

lemma trunc_abs_small:
  assumes k: "unat x < 897 * 2 ^ 52"
  shows "fp_nearest single (real (fp_mag 52 (unat x)) / 2 ^ 925) (fp_abs (trunc_abs u x))"
    and "\<not> fp_sign (trunc_abs u x)"
proof -
  define m where "m = unat x mod 2 ^ 52"
  define e where "e = unat x div 2 ^ 52"
  have ux: "unat x = e * 2 ^ 52 + m" unfolding e_def m_def by (simp only: div_mult_mod_eq)
  have m: "m < 2 ^ 52" by (simp add: m_def)
  have e: "e < 897" unfolding e_def using k by (intro less_mult_imp_div_less)
  define S where "S = (x AND mask 52) OR implicitBit double"
  have uS: "unat S = 2 ^ 52 + m" unfolding S_def m_def by (rule trunc_significand)
  define d where "d = c_lshr u S (word_of_int (897 - int e)) OR
    c_bool (c_shl u S (of_nat LENGTH(64) - word_of_int (897 - int e)) \<noteq> 0)"
  have t: "trunc_abs u x = (if 52 < 897 - int e then 0 else round_half_even (d AND mask 29) (ucast (drop_bit 29 d)))"
  proof -
    have c: "\<not> (0x3810000000000000 \<le> x \<and> x < 0x47F0000000000000)" "\<not> x > infRep double"
        "\<not> x > 0x47F0000000000000"
      using k by (simp_all add: word_less_nat_alt word_le_nat_alt format_words)
    show ?thesis
      unfolding trunc_abs_def if_not_P [OF c(1)] if_not_P [OF c(2)] if_not_P [OF c(3)] Let_def
        e_def [symmetric] S_def [symmetric] d_def [symmetric] ..
  qed
  have "fp_nearest single (real (fp_mag 52 (unat x)) / 2 ^ 925) (fp_abs (trunc_abs u x)) \<and> \<not> fp_sign (trunc_abs u x)"
  proof (cases "52 < 897 - int e")
    case True
    then have "e < 845" by simp
    then have "(e + 1) * 2 ^ 52 \<le> 845 * 2 ^ 52" by (intro mult_le_mono1) simp
    then have "unat x < (844 + 1) * 2 ^ 52 + 0" using m unfolding ux by simp
    then have "fp_mag 52 (unat x) < fp_mag 52 ((844 + 1) * 2 ^ 52 + 0)" by (rule fp_mag_mono)
    also have "\<dots> = (2 ^ 52 + 0) * 2 ^ 844" by (rule fp_mag_compose(1)) simp
    finally have "real (fp_mag 52 (unat x)) < real (2 ^ 52 * 2 ^ 844)" by simp
    then have lt: "real (fp_mag 52 (unat x)) / 2 ^ 925 < 1 / 2" by simp
    have "fp_mag 23 1 = 1" by (simp add: fp_mag_def)
    then have "fp_nearest single (real (fp_mag 52 (unat x)) / 2 ^ 925) 0"
      using lt by (simp add: fp_nearest_def format_numbers Let_def)
    then show ?thesis using t True by (simp add: sgl.fp_abs_0 sgl.fp_sign_0)
  next
    case False
    define n where "n = 897 - e"
    have n: "0 < n" "n \<le> 52" "e = 897 - n" using False e by (auto simp: n_def)
    have "unat (word_of_int (897 - int e) :: su_int) = n" using n e by (subst unat_word_of_int) auto
    then have ud: "unat d = shr_sticky n (unat S)"
      unfolding d_def using n by (intro unat_shr_sticky) simp_all
    have st: "sticky (unat d) (real (unat S) / 2 ^ n)" unfolding ud by (rule sticky_shr [OF sticky_exact])
    have d52: "unat d < 2 ^ 52" unfolding ud uS by (rule shr_sticky_less) (use m n in simp_all)
    have ur: "unat (ucast (drop_bit 29 d) :: su_int) = unat d div 2 ^ 29"
      using d52 by (simp add: unsigned_ucast_eq unat_drop_bit take_bit_nat_eq_self)
    have x: "real (fp_mag 52 (unat x)) / 2 ^ 925 = real (unat S) / 2 ^ n / 2 ^ 29 * 2 ^ 0"
    proof -
      have "unat x = (e - 1 + 1) * 2 ^ 52 + m" using n e unfolding ux by simp
      then have "fp_mag 52 (unat x) = (2 ^ 52 + m) * 2 ^ (e - 1)"
        using fp_mag_compose(1) [of m 52 "e - 1"] m by (simp only: less_imp_le)
      then have "real (fp_mag 52 (unat x)) = real (2 ^ 52 + m) * 2 ^ (e - 1)" by simp
      moreover have "(2::real) ^ 925 = 2 ^ (e - 1) * (2 ^ n * 2 ^ 29)"
      proof -
        have "925 = e - 1 + (n + 29)" using n e by simp
        then show ?thesis by (simp only: power_add)
      qed
      moreover have "s * k / (k * (p * g)) = s / p / g * 2 ^ 0" if "k \<noteq> 0" for s k p g :: real
        using that by simp
      ultimately show ?thesis unfolding uS by (simp only: power_not_zero zero_neq_numeral not_False_eq_True)
    qed
    have inf: "unat (ucast (drop_bit 29 d) :: su_int) < fp_inf single"
      unfolding ur format_numbers using d52 by (intro less_mult_imp_div_less) simp
    have d: "unat d < 2 * 2 ^ 52" using d52 by simp
    have r0: "unat (ucast (drop_bit 29 d) :: su_int) = 0 * 2 ^ 23 + unat d div 2 ^ 29" using ur by simp
    show ?thesis
      unfolding t if_not_P [OF False] using trunc_round [OF st d _ r0 inf x] by simp
  qed
  then show "fp_nearest single (real (fp_mag 52 (unat x)) / 2 ^ 925) (fp_abs (trunc_abs u x))"
    "\<not> fp_sign (trunc_abs u x)" by simp_all
qed

section \<open>Infinities and NaNs\<close>

lemma extend_abs_special:
  assumes x: "255 * 2 ^ 23 \<le> unat x" "unat x < 2 ^ 31"
  shows "2047 * 2 ^ 52 \<le> unat (extend_abs u x)" and "unat (extend_abs u x) < 2 ^ 63"
    and "unat (extend_abs u x) = 2047 * 2 ^ 52 \<longleftrightarrow> unat x = 255 * 2 ^ 23"
proof -
  define q where "q = push_bit 29 (ucast (x AND quietBit single)) OR (ucast (x AND (quietBit single - 1)) :: du_int)"
  define c where "c = (of_bool (bit x 22) :: nat)"
  have quiet: "x AND quietBit single = (if bit x 22 then push_bit 22 1 else 0)"
  proof -
    have "quietBit single = push_bit 22 1" by (simp add: format_words)
    moreover have b: "bit (push_bit 22 (1 :: su_int)) n \<longleftrightarrow> n = 22" for n
      unfolding bit_push_bit_iff bit_1_iff by (cases "n = 22") auto
    have "x AND push_bit 22 1 = (if bit x 22 then push_bit 22 1 else 0)"
      by (rule bit_word_eqI) (simp add: bit_and_iff b if_distrib [of bit] split: if_split del: push_bit_of_1, auto)
    ultimately show ?thesis by (simp only:)
  qed
  then have hi: "push_bit 29 (ucast (x AND quietBit single)) = push_bit 51 (of_nat c :: du_int)"
    by (simp add: c_def)
  have payload: "unat (ucast (x AND (quietBit single - 1)) :: du_int) = unat x mod 2 ^ 22"
  proof -
    have "quietBit single - 1 = mask 22" by (simp add: format_words mask_eq_exp_minus_1)
    then show ?thesis by (simp only: dw.unat_ucast_half unat_and_mask)
  qed
  then have "unat (ucast (x AND (quietBit single - 1)) :: du_int) < 2 ^ 51"
    by (simp only:) (rule less_trans [OF mod_less_divisor], simp_all)
  from unat_push_or [OF this, of "of_nat c"] have uq: "unat q = c * 2 ^ 51 + unat x mod 2 ^ 22"
    unfolding q_def hi payload by (cases "bit x 22") (simp_all add: c_def)
  have "unat x mod 2 ^ 22 < 2 ^ 22" by simp
  then have q52: "unat q < 2 ^ 52" unfolding uq c_def by (cases "bit x 22") simp_all
  have "extend_abs u x = push_bit 52 2047 OR q"
    using x(1) unfolding extend_abs_def q_def by (simp add: format_words word_less_nat_alt word_le_nat_alt or.assoc)
  then have e: "unat (extend_abs u x) = 2047 * 2 ^ 52 + unat q"
    using unat_push_or [OF q52, of 2047] by simp
  then show "2047 * 2 ^ 52 \<le> unat (extend_abs u x)" "unat (extend_abs u x) < 2 ^ 63"
    using q52 by simp_all
  have "unat q = 0 \<longleftrightarrow> unat x = 255 * 2 ^ 23"
  proof
    assume "unat q = 0"
    then have "c = 0" "unat x mod 2 ^ 22 = 0" unfolding uq by simp_all
    moreover have "bit x 22 \<longleftrightarrow> odd (unat x div 2 ^ 22)"
      unfolding bit_iff_odd [symmetric] by (simp add: bit_unsigned_iff)
    ultimately have "even (unat x div 2 ^ 22)" "unat x mod 2 ^ 22 = 0" by (simp_all add: c_def split: if_splits)
    moreover have "510 \<le> unat x div 2 ^ 22" "unat x div 2 ^ 22 < 512"
      using x by (simp_all add: less_eq_div_iff_mult_less_eq less_mult_imp_div_less)
    moreover have "D = 510" if "even D" "510 \<le> D" "D < 512" for D :: nat using that by presburger
    ultimately have "unat x div 2 ^ 22 = 510" by blast
    then show "unat x = 255 * 2 ^ 23"
      using div_mult_mod_eq [of "unat x" "2 ^ 22"] \<open>unat x mod 2 ^ 22 = 0\<close> by simp
  next
    assume "unat x = 255 * 2 ^ 23"
    then have "x = 0x7F800000" by (simp add: word_unat_eq_iff)
    moreover have "\<not> bit (0x7F800000 :: su_int) 22" by code_simp
    ultimately show "unat q = 0" unfolding uq c_def using \<open>unat x = 255 * 2 ^ 23\<close> by simp
  qed
  then show "unat (extend_abs u x) = 2047 * 2 ^ 52 \<longleftrightarrow> unat x = 255 * 2 ^ 23" unfolding e by simp
qed

lemma trunc_abs_large:
  assumes "1151 * 2 ^ 52 < unat x" "unat x < 2 ^ 63"
  shows "unat x \<le> fp_inf double \<Longrightarrow> trunc_abs u x = infRep single"
    and "fp_inf double < unat x \<Longrightarrow> fp_inf single < unat (trunc_abs u x) \<and> unat (trunc_abs u x) < 2 ^ 31"
proof -
  have c: "\<not> (0x3810000000000000 \<le> x \<and> x < 0x47F0000000000000)" "0x47F0000000000000 < x"
    using assms by (simp_all add: word_less_nat_alt word_le_nat_alt)
  show "trunc_abs u x = infRep single" if "unat x \<le> fp_inf double"
    using that c unfolding trunc_abs_def by (simp add: word_less_nat_alt dbl.unat_infRep)
  show "fp_inf single < unat (trunc_abs u x) \<and> unat (trunc_abs u x) < 2 ^ 31" if "fp_inf double < unat x"
  proof -
    define p where "p = (ucast (x AND ucast (quietBit single - 1 :: su_int)) :: su_int)"
    have "(ucast (quietBit single - 1 :: su_int) :: du_int) = mask 22" by (simp add: format_words mask_eq_exp_minus_1)
    then have "unat p = unat x mod 2 ^ 22"
      unfolding p_def by (simp add: unsigned_ucast_eq unat_and_mask take_bit_eq_mod)
    then have p: "unat p < 2 ^ 22" by simp
    have "trunc_abs u x = (infRep single OR quietBit single) OR p"
      using that c unfolding trunc_abs_def p_def by (simp add: word_less_nat_alt dbl.unat_infRep)
    also have "\<dots> = push_bit 22 511 OR p" by (simp add: format_words)
    finally have "unat (trunc_abs u x) = 511 * 2 ^ 22 + unat p" using unat_push_or [OF p, of 511] by simp
    then show ?thesis using p by (simp add: format_numbers)
  qed
qed

section \<open>Properties\<close>

lemma extend_pattern:
  "fp_abs (extendsfdf2 u a) = unat (extend_abs u (a AND absMask single))" "fp_sign (extendsfdf2 u a) = fp_sign a"
proof -
  define x where "x = a AND absMask single"
  have x: "unat x < 2 ^ 31" using sgl.fp_abs_less [of a] unfolding x_def sgl.unat_and_absMask by simp
  have "unat (extend_abs u x) < 2 ^ 63"
    using extend_abs_mag(2) [of x u] extend_abs_special(2) [of x u] x by (cases "unat x < 255 * 2 ^ 23") simp_all
  then show "fp_abs (extendsfdf2 u a) = unat (extend_abs u x)" "fp_sign (extendsfdf2 u a) = fp_sign a"
    unfolding extendsfdf2_eq x_def [symmetric] by (intro dbl.fp_compose; simp)+
qed

lemma trunc_pattern:
  assumes "unat (trunc_abs u (a AND absMask double)) < 2 ^ 31"
  shows "fp_abs (truncdfsf2 u a) = unat (trunc_abs u (a AND absMask double))" "fp_sign (truncdfsf2 u a) = fp_sign a"
  unfolding truncdfsf2_eq using sgl.fp_compose [of "trunc_abs u (a AND absMask double)" "fp_sign a"] assms by simp_all

text \<open>\<^verbatim>\<open>__extendsfdf2\<close> is exact: the double it returns for a finite single, normal, denormal or zero,
  is the same number with the same sign.\<close>

lemma extendsfdf2_exact:
  assumes "fp_finite single a"
  shows "fp_finite double (extendsfdf2 u a) \<and> fp_value double (extendsfdf2 u a) = fp_value single a \<and>
    fp_sign (extendsfdf2 u a) = fp_sign a"
proof -
  have ua: "unat (a AND absMask single) = fp_abs a" by (rule sgl.unat_and_absMask)
  have "unat (a AND absMask single) < 255 * 2 ^ 23" using assms by (simp only: ua fp_finite_def format_numbers)
  note m = extend_abs_mag [OF this, of u, folded extend_pattern(1)]
  have "real (fp_mag 52 (fp_abs (extendsfdf2 u a))) / 2 ^ 1074 = real (fp_mag 23 (fp_abs a)) / 2 ^ 149"
    unfolding m(1) ua by simp
  then show ?thesis
    using m(2) by (simp only: fp_finite_def fp_value_def format_numbers extend_pattern(2) times_divide_eq_right [symmetric])
qed

text \<open>Both conversions keep the class of a special operand: an infinity stays one, with its sign,
  and a NaN, and nothing but a NaN, gives a NaN.\<close>

theorem conversions_special:
  "(fp_is_inf double (extendsfdf2 u a) \<longleftrightarrow> fp_is_inf single a) \<and>
   (fp_is_nan double (extendsfdf2 u a) \<longleftrightarrow> fp_is_nan single a) \<and>
   fp_sign (extendsfdf2 u a) = fp_sign a \<and>
   truncdfsf2 u (infRep double) = infRep single \<and>
   truncdfsf2 u (infRep double OR signBit double) = infRep single OR signBit single \<and>
   fp_is_nan single (truncdfsf2 u (qnanRep double))"
proof -
  define x where "x = a AND absMask single"
  have x: "unat x = fp_abs a" "unat x < 2 ^ 31"
    using sgl.fp_abs_less [of a] unfolding x_def sgl.unat_and_absMask by simp_all
  have e: "(unat (extend_abs u x) = 2047 * 2 ^ 52 \<longleftrightarrow> unat x = 255 * 2 ^ 23) \<and>
    (2047 * 2 ^ 52 < unat (extend_abs u x) \<longleftrightarrow> 255 * 2 ^ 23 < unat x)"
    using extend_abs_special [of x u] extend_abs_mag(2) [of x u] x(2)
    by (cases "unat x < 255 * 2 ^ 23") auto
  have "truncdfsf2 u (infRep double) = infRep single" "truncdfsf2 u (infRep double OR signBit double) = infRep single OR signBit single"
    "fp_is_nan single (truncdfsf2 u (qnanRep double))"
    unfolding qnanRep_def exponentMask_def [symmetric]
    by (simp_all add: truncdfsf2_eq trunc_abs_def format_words exponentMask_def fp_sign_def fp_is_nan_def fp_abs_def format_numbers)
  then show ?thesis
    using e unfolding fp_is_inf_def fp_is_nan_def extend_pattern x_def [symmetric] format_numbers x(1) by blast
qed

text \<open>\<^verbatim>\<open>__truncdfsf2\<close> is correctly rounded for every finite double but \<open>2 ^ 128\<close> and its negative: the single it returns is
  nearest to it, ties to even, denormal, zero or infinite where the number is that small or large.\<close>

lemma truncdfsf2_correctly_rounded:
  assumes "fp_finite double a" and "fp_abs a \<noteq> 0x47F0000000000000"
  shows "fp_nearest single \<bar>fp_value double a * fp_scale single\<bar> (fp_abs (truncdfsf2 u a)) \<and>
    fp_sign (truncdfsf2 u a) = fp_sign a"
proof -
  define x where "x = a AND absMask double"
  have x: "unat x = fp_abs a" "unat x < fp_inf double"
    using assms(1) unfolding x_def dbl.unat_and_absMask fp_finite_def by simp_all
  have v: "\<bar>fp_value double a * fp_scale single\<bar> = real (fp_mag 52 (unat x)) / 2 ^ 925"
    by (simp add: fp_value_def format_numbers x(1) abs_mult)
  have ne: "unat x \<noteq> 1151 * 2 ^ 52" using assms(2) by (simp add: x(1))
  have "fp_nearest single (real (fp_mag 52 (unat x)) / 2 ^ 925) (unat (trunc_abs u x)) \<and> unat (trunc_abs u x) < 2 ^ 31"
  proof -
    have small: "fp_nearest single X (unat w) \<and> unat w < 2 ^ 31"
      if "fp_nearest single X (fp_abs w)" "\<not> fp_sign w" for X and w :: su_int
      using that sgl.unat_sign_abs [of w] sgl.fp_abs_less [of w] by simp
    consider "unat x < 897 * 2 ^ 52" | "897 * 2 ^ 52 \<le> unat x" "unat x < 1151 * 2 ^ 52" | "1151 * 2 ^ 52 < unat x"
      using ne by linarith
    then show ?thesis
    proof cases
      case 1
      then show ?thesis by (intro small trunc_abs_small)
    next
      case 2
      then show ?thesis by (intro small trunc_abs_normal)
    next
      case 3
      have "trunc_abs u x = infRep single" using 3 x(2) by (intro trunc_abs_large) (simp_all add: format_numbers)
      moreover have "fp_nearest single (real (fp_mag 52 (unat x)) / 2 ^ 925) (fp_inf single)"
      proof (rule fp_nearest_overflow)
        have "fp_mag 52 ((1150 + 1) * 2 ^ 52 + 0) \<le> fp_mag 52 (unat x)" using 3 by (intro fp_mag_mono_le) simp
        then have "(2 ^ 52 + 0) * 2 ^ 1150 \<le> fp_mag 52 (unat x)" by (simp only: fp_mag_compose(1) zero_le)
        then have "real (2 ^ 52 * 2 ^ 1150) \<le> real (fp_mag 52 (unat x))" by (simp only: of_nat_le_iff add_0_right)
        moreover have "fp_mag 23 ((253 + 1) * 2 ^ 23 + 2 ^ 23) = (2 ^ 23 + 2 ^ 23) * 2 ^ 253"
          by (rule fp_mag_compose(1)) simp
        ultimately show "real (fp_mag (significandBits single) (fp_inf single)) \<le> real (fp_mag 52 (unat x)) / 2 ^ 925"
          by (simp add: format_numbers)
      qed
      ultimately show ?thesis by (simp add: sgl.unat_infRep) (simp add: format_numbers)
    qed
  qed
  then show ?thesis
    using trunc_pattern [of u a] unfolding v x_def [symmetric] by simp
qed

text \<open>The number left out: \<open>2 ^ 128\<close> must become infinity, but \<^verbatim>\<open>__truncdfsf2\<close> tests for
  \<open>>\<close> where it needs \<open>\<ge>\<close>, takes it for a denormal result and shifts by a negative count; on a target
  where such shifts yield zero it returns zero.\<close>

theorem truncdfsf2_wrong_at_overflow:
  "fp_value double 0x47F0000000000000 = 2 ^ 128 \<and>
   fp_nearest single \<bar>fp_value double 0x47F0000000000000 * fp_scale single\<bar> (fp_inf single) \<and>
   truncdfsf2 (\<lambda>_ _ _ _. 0) 0x47F0000000000000 = 0"
proof -
  have m: "fp_mag 52 0x47F0000000000000 = 2 ^ 52 * 2 ^ 1150" "fp_mag 23 (255 * 2 ^ 23) = 2 ^ 24 * 2 ^ 253"
    using fp_mag_compose(1) [of 0 52 1150] fp_mag_compose(1) [of "2 ^ 23" 23 253] by simp_all
  have "fp_abs (0x47F0000000000000 :: du_int) = 0x47F0000000000000" "\<not> fp_sign (0x47F0000000000000 :: du_int)"
    by (simp add: fp_abs_def) (simp add: fp_sign_def)
  then have v: "fp_value double 0x47F0000000000000 = 2 ^ 128"
    unfolding fp_value_def by (simp add: m format_numbers)
  moreover have "fp_nearest single \<bar>2 ^ 128 * fp_scale single\<bar> (fp_inf single)"
    by (rule fp_nearest_overflow) (use m in \<open>simp add: format_numbers\<close>)
  moreover have "truncdfsf2 (\<lambda>_ _ _ _. 0) 0x47F0000000000000 = 0"
    by (simp add: truncdfsf2_eq trunc_abs_def format_words Let_def c_lshr_def c_shl_def round_half_even_def
      fp_sign_def c_bool_def)
  ultimately show ?thesis by simp
qed

text \<open>C13: The conversions between the formats: \<^verbatim>\<open>__extendsfdf2\<close> is exact on every finite single, and
  \<^verbatim>\<open>__truncdfsf2\<close> returns the nearest single, ties to even, of every finite double but \<open>2 ^ 128\<close> and its negative.\<close>

theorem format_conversions:
  "(fp_finite single a \<longrightarrow> fp_finite double (extendsfdf2 u a) \<and> fp_value double (extendsfdf2 u a) = fp_value single a \<and>
      fp_sign (extendsfdf2 u a) = fp_sign a) \<and>
   (fp_finite double b \<and> fp_abs b \<noteq> 0x47F0000000000000 \<longrightarrow>
      fp_nearest single \<bar>fp_value double b * fp_scale single\<bar> (fp_abs (truncdfsf2 u b)) \<and>
      fp_sign (truncdfsf2 u b) = fp_sign b)"
  using extendsfdf2_exact truncdfsf2_correctly_rounded by blast

theorem format_conversions_witness:
  "fp_value double (extendsfdf2 (\<lambda>_ _ _ _. 0) 0x00000001) = fp_value single 0x00000001 \<and>
   fp_nearest single \<bar>fp_value double 0x3690000000000001 * fp_scale single\<bar> (fp_abs (truncdfsf2 (\<lambda>_ _ _ _. 0) 0x3690000000000001))"
proof -
  have "fp_finite single 0x00000001" "fp_finite double 0x3690000000000001" "fp_abs (0x3690000000000001 :: du_int) \<noteq> 0x47F0000000000000"
    by (simp_all add: fp_eval)
  then show ?thesis
    using format_conversions [of "0x00000001" "\<lambda>_ _ _ _. 0" "0x3690000000000001"] by blast
qed

end
