(* ===== verification/Fp_ToInt.thy ===== *)
theory Fp_ToInt
  imports Fp_Add
begin

unbundle bit_operations_syntax

text \<open>
  The conversions from the two formats to integers, which truncate toward zero: the signed ones
  (\<^verbatim>\<open>fixsfsi.c\<close> to \<^verbatim>\<open>fixdfti.c\<close>) and the unsigned ones (\<^verbatim>\<open>fixunssfsi.c\<close> to
  \<^verbatim>\<open>fixunsdfti.c\<close>). None of them checks the range; their theorems hold for the numbers the
  comments of the files allow.
\<close>

section \<open>The code\<close>

text \<open>\<^verbatim>\<open>fixsfsi.c\<close> and \<^verbatim>\<open>fixdfsi.c\<close> have the same body, over \<^verbatim>\<open>fp_lib.h\<close>. The product is
  one of \<^verbatim>\<open>rep_t\<close>, to which the sign is converted, and is then converted to \<^verbatim>\<open>int\<close>.\<close>

definition fp_fixsi :: "'r::len word fp_lib \<Rightarrow> ub \<Rightarrow> 'r word \<Rightarrow> si_int" where
  "fp_fixsi F u a =
    (let aRep = a;
         aAbs = aRep AND absMask F;
         sign = if aRep AND signBit F \<noteq> 0 then - 1 else 1;
         exponent = sint (ucast (drop_bit (significandBits F) aAbs - word_of_int (exponentBias F)) :: si_int);
         significand = (aAbs AND significandMask F) OR implicitBit F
     in if (word_of_int exponent :: su_int) < of_nat (significandBits F) then
          ucast (sign * c_lshr u significand (word_of_int (int (significandBits F) - exponent)))
        else if exponent < 0 then 0
        else ucast (sign * c_shl u significand (word_of_int (exponent - int (significandBits F)))))"

definition fixsfsi :: "ub \<Rightarrow> su_int \<Rightarrow> si_int" where "fixsfsi = fp_fixsi single"
definition fixdfsi :: "ub \<Rightarrow> du_int \<Rightarrow> si_int" where "fixdfsi = fp_fixsi double"

definition fixsfdi :: "ub \<Rightarrow> su_int \<Rightarrow> di_int" where
  "fixsfdi u a =
    (let e = sint (drop_bit 23 (a AND 0x7F800000) - 127 :: su_int)
     in if e < 0 then 0
        else
          let s = scast (signed_drop_bit 31 (a AND 0x80000000));
              r = ucast ((a AND 0x007FFFFF) OR 0x00800000);
              r = if e > 23 then c_shl u r (word_of_int (e - 23)) else c_ashr u r (word_of_int (23 - e))
          in (r XOR s) - s)"

definition fixsfti :: "ub \<Rightarrow> su_int \<Rightarrow> ti_int" where
  "fixsfti u a =
    (let e = sint (drop_bit 23 (a AND 0x7F800000) - 127 :: su_int)
     in if e < 0 then 0
        else
          let s = scast (signed_drop_bit 31 (a AND 0x80000000));
              r = ucast ((a AND 0x007FFFFF) OR 0x00800000);
              r = if e > 23 then c_shl u r (word_of_int (e - 23)) else c_ashr u r (word_of_int (23 - e))
          in (r XOR s) - s)"

definition fixdfdi :: "ub \<Rightarrow> du_int \<Rightarrow> di_int" where
  "fixdfdi u a =
    (let fb = dwords_of a;
         e = sint (drop_bit 20 (s_high fb AND 0x7FF00000) - 1023)
     in if e < 0 then 0
        else
          let s = scast (signed_drop_bit 31 (s_high fb AND 0x80000000));
              r = dwords_all \<lparr> s_high = (s_high fb AND 0x000FFFFF) OR 0x00100000, s_low = s_low fb \<rparr>;
              r = if e > 52 then c_shl u r (word_of_int (e - 52)) else c_ashr u r (word_of_int (52 - e))
          in (r XOR s) - s)"

definition fixdfti :: "ub \<Rightarrow> du_int \<Rightarrow> ti_int" where
  "fixdfti u a =
    (let fb = dwords_of a;
         e = sint (drop_bit 20 (s_high fb AND 0x7FF00000) - 1023)
     in if e < 0 then 0
        else
          let s = scast (signed_drop_bit 31 (s_high fb AND 0x80000000));
              r = ucast (0x0010000000000000 OR (0x000FFFFFFFFFFFFF AND dwords_all fb));
              r = if e > 52 then c_shl u r (word_of_int (e - 52)) else c_ashr u r (word_of_int (52 - e))
          in (r XOR s) - s)"

definition fixunssfsi :: "ub \<Rightarrow> su_int \<Rightarrow> su_int" where
  "fixunssfsi u a =
    (let e = sint (drop_bit 23 (a AND 0x7F800000) - 127 :: su_int)
     in if e < 0 \<or> a AND 0x80000000 \<noteq> 0 then 0
        else
          let r = (a AND 0x007FFFFF) OR 0x00800000
          in if e > 23 then c_shl u r (word_of_int (e - 23)) else c_lshr u r (word_of_int (23 - e)))"

definition fixunssfdi :: "ub \<Rightarrow> su_int \<Rightarrow> du_int" where
  "fixunssfdi u a =
    (let e = sint (drop_bit 23 (a AND 0x7F800000) - 127 :: su_int)
     in if e < 0 \<or> a AND 0x80000000 \<noteq> 0 then 0
        else
          let r = ucast ((a AND 0x007FFFFF) OR 0x00800000)
          in if e > 23 then c_shl u r (word_of_int (e - 23)) else c_lshr u r (word_of_int (23 - e)))"

definition fixunssfti :: "ub \<Rightarrow> su_int \<Rightarrow> tu_int" where
  "fixunssfti u a =
    (let e = sint (drop_bit 23 (a AND 0x7F800000) - 127 :: su_int)
     in if e < 0 \<or> a AND 0x80000000 \<noteq> 0 then 0
        else
          let r = ucast ((a AND 0x007FFFFF) OR 0x00800000)
          in if e > 23 then c_shl u r (word_of_int (e - 23)) else c_lshr u r (word_of_int (23 - e)))"

definition fixunsdfsi :: "ub \<Rightarrow> du_int \<Rightarrow> su_int" where
  "fixunsdfsi u a =
    (let fb = dwords_of a;
         e = sint (drop_bit 20 (s_high fb AND 0x7FF00000) - 1023)
     in if e < 0 \<or> s_high fb AND 0x80000000 \<noteq> 0 then 0
        else
          c_lshr u ((0x80000000 OR push_bit 11 (s_high fb AND 0x000FFFFF)) OR drop_bit 21 (s_low fb))
            (word_of_int (31 - e)))"

definition fixunsdfdi :: "ub \<Rightarrow> du_int \<Rightarrow> du_int" where
  "fixunsdfdi u a =
    (let fb = dwords_of a;
         e = sint (drop_bit 20 (s_high fb AND 0x7FF00000) - 1023)
     in if e < 0 \<or> s_high fb AND 0x80000000 \<noteq> 0 then 0
        else
          let r = dwords_all \<lparr> s_high = (s_high fb AND 0x000FFFFF) OR 0x00100000, s_low = s_low fb \<rparr>
          in if e > 52 then c_shl u r (word_of_int (e - 52)) else c_lshr u r (word_of_int (52 - e)))"

definition fixunsdfti :: "ub \<Rightarrow> du_int \<Rightarrow> tu_int" where
  "fixunsdfti u a =
    (let fb = dwords_of a;
         e = sint (drop_bit 20 (s_high fb AND 0x7FF00000) - 1023)
     in if e < 0 \<or> s_high fb AND 0x80000000 \<noteq> 0 then 0
        else
          let r = ucast (0x0010000000000000 OR (dwords_all fb AND 0x000FFFFFFFFFFFFF))
          in if e > 52 then c_shl u r (word_of_int (e - 52)) else c_lshr u r (word_of_int (52 - e)))"

section \<open>The number without its fraction\<close>

definition fp_trunc :: "'r::len word fp_lib \<Rightarrow> 'r word \<Rightarrow> int" where
  "fp_trunc F x = (if fp_sign x then - 1 else 1) * \<lfloor>\<bar>fp_value F x\<bar>\<rfloor>"

text \<open>The significand with its implicit digit, and the exponent.\<close>

definition fp_sig :: "'r::len word fp_lib \<Rightarrow> 'r word \<Rightarrow> nat" where
  "fp_sig F x = 2 ^ significandBits F + fp_abs x mod 2 ^ significandBits F"

definition fp_exp :: "'r::len word fp_lib \<Rightarrow> 'r word \<Rightarrow> int" where
  "fp_exp F x = int (fp_abs x div 2 ^ significandBits F) - exponentBias F"

definition fp_int_part :: "'r::len word fp_lib \<Rightarrow> 'r word \<Rightarrow> nat" where
  "fp_int_part F x =
    (if fp_exp F x < 0 then 0
     else if fp_exp F x > int (significandBits F) then fp_sig F x * 2 ^ nat (fp_exp F x - int (significandBits F))
     else fp_sig F x div 2 ^ nat (int (significandBits F) - fp_exp F x))"

lemma fp_sig_bounds: "2 ^ significandBits F \<le> fp_sig F x" "fp_sig F x < 2 * 2 ^ significandBits F"
  by (simp_all add: fp_sig_def)

context fp_format
begin

lemma fp_mag_sig:
  assumes "0 \<le> fp_exp F x"
  shows "real (fp_mag (significandBits F) (fp_abs x)) / fp_scale F =
    real (fp_sig F x) * 2 powi (fp_exp F x - int (significandBits F))"
proof -
  let ?s = "significandBits F"
  define B where "B = nat (exponentBias F)"
  have B: "exponentBias F = int B" "7 \<le> B" using exponentBias_nat by (simp_all add: B_def)
  define e where "e = fp_abs x div 2 ^ ?s - 1"
  have e1: "fp_abs x div 2 ^ ?s = e + 1" using assms B by (simp add: e_def fp_exp_def)
  then have x: "fp_abs x = (e + 1) * 2 ^ ?s + fp_abs x mod 2 ^ ?s"
    by (metis div_mult_mod_eq)
  have "fp_mag ?s (fp_abs x) = fp_sig F x * 2 ^ e"
    by (subst x, subst fp_mag_compose(1)) (simp_all add: fp_sig_def)
  moreover have "fp_scale F = 2 powi (int B + int ?s - 1)" by (simp only: fp_scale_powi B)
  moreover have "(2::real) powi (fp_exp F x - int ?s) = 2 ^ e / 2 powi (int B + int ?s - 1)"
  proof -
    have "fp_exp F x - int ?s = int e - (int B + int ?s - 1)" by (simp add: fp_exp_def e1 B)
    moreover have "(2::real) powi (int e - (int B + int ?s - 1)) = 2 powi (int e) / 2 powi (int B + int ?s - 1)"
      by (rule power_int_diff) simp
    ultimately show ?thesis by (simp only: power_int_of_nat)
  qed
  ultimately show ?thesis by simp
qed

lemma floor_fp_value: "\<lfloor>\<bar>fp_value F x\<bar>\<rfloor> = int (fp_int_part F x)"
proof -
  let ?s = "significandBits F"
  have v: "\<bar>fp_value F x\<bar> = real (fp_mag ?s (fp_abs x)) / fp_scale F"
    by (simp add: fp_value_def abs_mult fp_scale_def)
  consider "fp_exp F x < 0" | "0 \<le> fp_exp F x" "fp_exp F x \<le> int ?s" | "int ?s < fp_exp F x" by linarith
  then show ?thesis
  proof cases
    case 1
    define B where "B = nat (exponentBias F)"
    have B: "exponentBias F = int B" "7 \<le> B" using exponentBias_nat by (simp_all add: B_def)
    have "fp_abs x div 2 ^ ?s < B" using 1 by (simp add: fp_exp_def B)
    then have "fp_abs x < B * 2 ^ ?s" by (simp add: div_less_iff_less_mult)
    then have "fp_mag ?s (fp_abs x) < fp_mag ?s ((B - 1 + 1) * 2 ^ ?s + 0)" using B by (intro fp_mag_mono) simp
    also have "\<dots> = (2 ^ ?s + 0) * 2 ^ (B - 1)" by (rule fp_mag_compose(1)) simp
    also have "\<dots> = 2 ^ (B + ?s - 1)" using B by (simp add: power_add [symmetric])
    finally have "real (fp_mag ?s (fp_abs x)) < real (2 ^ (B + ?s - 1))" by (simp only: of_nat_less_iff)
    then have "real (fp_mag ?s (fp_abs x)) < fp_scale F" by (simp add: fp_scale_def B_def)
    moreover have "0 < fp_scale F" by (simp add: fp_scale_def)
    ultimately have "\<lfloor>\<bar>fp_value F x\<bar>\<rfloor> = 0" unfolding v by (simp add: floor_eq_iff)
    then show ?thesis using 1 by (simp add: fp_int_part_def)
  next
    case 2
    define k where "k = nat (int ?s - fp_exp F x)"
    have e: "fp_exp F x - int ?s = - int k" using 2 by (simp add: k_def)
    have "\<bar>fp_value F x\<bar> = real (fp_sig F x) / real (2 ^ k)"
      unfolding v fp_mag_sig [OF 2(1)] e by (simp add: power_int_minus divide_inverse)
    then have "\<lfloor>\<bar>fp_value F x\<bar>\<rfloor> = int (fp_sig F x div 2 ^ k)" by (simp only: floor_divide_of_nat_eq)
    then show ?thesis using 2 by (simp add: fp_int_part_def k_def)
  next
    case 3
    define k where "k = nat (fp_exp F x - int ?s)"
    have e: "fp_exp F x - int ?s = int k" "0 \<le> fp_exp F x" using 3 by (simp_all add: k_def)
    have "\<bar>fp_value F x\<bar> = real (fp_sig F x * 2 ^ k)"
      unfolding v fp_mag_sig [OF e(2)] e(1) by simp
    then have "\<lfloor>\<bar>fp_value F x\<bar>\<rfloor> = int (fp_sig F x * 2 ^ k)" by (simp only: floor_of_nat)
    then show ?thesis using 3 by (simp add: fp_int_part_def k_def)
  qed
qed

lemma fp_trunc_int_part: "fp_trunc F x = (if fp_sign x then - int (fp_int_part F x) else int (fp_int_part F x))"
  by (simp add: fp_trunc_def floor_fp_value)

end

section \<open>The fields of a pattern\<close>

lemma and_low_mask: "unat (x AND of_nat (2 ^ n - 1)) = unat (x :: 'a::len word) mod 2 ^ n"
proof -
  have "(of_nat (2 ^ n - 1) :: 'a word) = mask n" by (simp add: mask_eq_exp_minus_1 of_nat_diff)
  then show ?thesis by (simp only: unat_and_mask)
qed

text \<open>The exponent field of a word with \<open>n\<close> digits below it and \<open>k\<close> in it, less the bias.\<close>

lemma exponent_minus_bias:
  fixes w :: su_int
  assumes "M = push_bit n (mask k)" "n + k = 31" "k \<le> 11" "B < 2 ^ 11"
  shows "sint (drop_bit n (w AND M) - of_nat B) = int (fp_abs w div 2 ^ n) - int B"
proof -
  have "drop_bit n (w AND M) = drop_bit n w AND mask k"
    unfolding assms(1) by (rule bit_word_eqI) (use assms(2) in \<open>auto simp: bit_drop_bit_eq bit_and_iff bit_push_bit_iff bit_mask_iff\<close>)
  then have u: "unat (drop_bit n (w AND M)) = unat w div 2 ^ n mod 2 ^ k"
    by (simp only: unat_and_mask unat_drop_bit)
  have "unat w div 2 ^ n mod 2 ^ k = fp_abs w div 2 ^ n"
    unfolding fp_abs_def using mod_mult2_eq [of "unat w" "2 ^ n" "2 ^ k"] assms(2)
    by (simp add: power_add [symmetric])
  note e = u [unfolded this]
  have "fp_abs w div 2 ^ n < 2 ^ k"
    unfolding e [symmetric] u by simp
  also have "(2::nat) ^ k \<le> 2 ^ 11" using assms(3) by (intro power_increasing) simp_all
  finally have "fp_abs w div 2 ^ n < 2048" by simp
  then have "sfits LENGTH(32) (int (fp_abs w div 2 ^ n) - int B)" using assms(4) by (simp add: sfits_def)
  from sint_of_int [OF this]
  have "sint (of_nat (fp_abs w div 2 ^ n) - of_nat B :: su_int) = int (fp_abs w div 2 ^ n) - int B" by simp
  moreover have "drop_bit n (w AND M) = of_nat (fp_abs w div 2 ^ n)" by (simp add: e [symmetric] of_nat_unat)
  ultimately show ?thesis by simp
qed

lemma high_fields: "fp_abs (s_high (dwords_of a)) = fp_abs a div 2 ^ 32" "fp_sign (s_high (dwords_of a)) = fp_sign a"
  for a :: du_int
proof -
  have "unat a div 2 ^ 32 mod 2 ^ 31 = unat a mod 2 ^ 63 div 2 ^ 32"
    using mod_mult2_eq [of "unat a" "2 ^ 32" "2 ^ 31"] by simp
  then show "fp_abs (s_high (dwords_of a)) = fp_abs a div 2 ^ 32" by (simp add: fp_abs_def dw.high_eq)
  show "fp_sign (s_high (dwords_of a)) = fp_sign a" by (simp add: fp_sign_def dw.bit_high)
qed

lemma fp_exp_single: "sint (drop_bit 23 (a AND 0x7F800000) - 127 :: su_int) = fp_exp single a"
  using exponent_minus_bias [of "0x7F800000" 23 8 127 a]
  by (simp add: fp_exp_def format_numbers mask_eq_exp_minus_1 exponentBias_def maxExponent_def exponentBits_def)

lemma fp_exp_double: "sint (drop_bit 20 (s_high (dwords_of a) AND 0x7FF00000) - 1023) = fp_exp double a"
  using exponent_minus_bias [of "0x7FF00000" 20 11 1023 "s_high (dwords_of a)"]
  by (simp add: fp_exp_def format_numbers mask_eq_exp_minus_1 exponentBias_def maxExponent_def exponentBits_def
    high_fields div_mult2_eq [symmetric])

lemma fp_sig_single: "unat ((a AND 0x007FFFFF) OR 0x00800000 :: su_int) = fp_sig single a"
  using sgl.or_implicitBit(1) [of "a AND significandMask single"] sgl.significand_field [of a]
  by (simp add: format_words format_numbers fp_sig_def)

lemma mod_split: "n mod (a * b) = n div a mod b * a + n mod a" for n a b :: nat
  using mod_mult2_eq [of n a b] by simp

lemma fp_sig_double:
  "unat (dwords_all \<lparr> s_high = (s_high (dwords_of a) AND 0x000FFFFF) OR 0x00100000, s_low = s_low (dwords_of a) \<rparr>) =
    fp_sig double a"
  "unat (0x0010000000000000 OR (0x000FFFFFFFFFFFFF AND dwords_all (dwords_of a))) = fp_sig double a"
  "unat (0x0010000000000000 OR (dwords_all (dwords_of a) AND 0x000FFFFFFFFFFFFF)) = fp_sig double a"
proof -
  let ?h = "s_high (dwords_of a)"
  have "unat (?h AND 0x000FFFFF) = unat ?h mod 2 ^ 20" using and_low_mask [of ?h 20] by simp
  moreover from this have "unat (push_bit 20 1 OR (?h AND 0x000FFFFF)) = 2 ^ 20 + unat (?h AND 0x000FFFFF)"
    by (subst unat_push_or) simp_all
  ultimately have h: "unat ((?h AND 0x000FFFFF) OR 0x00100000) = 2 ^ 20 + unat a div 2 ^ 32 mod 2 ^ 20"
    by (simp add: or.commute dw.high_eq)
  have m: "fp_abs a mod 2 ^ 52 = unat a div 2 ^ 32 mod 2 ^ 20 * 2 ^ 32 + unat a mod 2 ^ 32"
    using mod_split [of "unat a" "2 ^ 32" "2 ^ 20"] by (simp add: fp_abs_def mod_mod_cancel)
  show "unat (dwords_all \<lparr> s_high = (?h AND 0x000FFFFF) OR 0x00100000, s_low = s_low (dwords_of a) \<rparr>) = fp_sig double a"
    by (simp only: dw.unat_join halves.simps h dw.low_eq fp_sig_def format_numbers m) simp
  have "unat (0x0010000000000000 OR (a AND 0x000FFFFFFFFFFFFF)) = fp_sig double a"
    using dbl.or_implicitBit(1) [of "a AND significandMask double"] dbl.significand_field [of a]
    by (simp add: format_words format_numbers fp_sig_def or.commute)
  then show "unat (0x0010000000000000 OR (0x000FFFFFFFFFFFFF AND dwords_all (dwords_of a))) = fp_sig double a"
    "unat (0x0010000000000000 OR (dwords_all (dwords_of a) AND 0x000FFFFFFFFFFFFF)) = fp_sig double a"
    by (simp_all add: dw.join_split and.commute)
qed

section \<open>The shift and the sign\<close>

lemma fix_shift:
  fixes r :: "'w::len word"
  assumes r: "unat r = fp_sig F a" and e: "0 \<le> fp_exp F a" and fit: "fp_int_part F a < 2 ^ LENGTH('w)"
    and w: "significandBits F < LENGTH('w)" "LENGTH('w) \<le> 128"
  shows "unat (if fp_exp F a > int (significandBits F)
      then c_shl u r (word_of_int (fp_exp F a - int (significandBits F)))
      else c_lshr u r (word_of_int (int (significandBits F) - fp_exp F a))) = fp_int_part F a"
proof (cases "fp_exp F a > int (significandBits F)")
  case True
  define k where "k = nat (fp_exp F a - int (significandBits F))"
  have k: "fp_exp F a - int (significandBits F) = int k" using True by (simp add: k_def)
  have N: "fp_int_part F a = fp_sig F a * 2 ^ k" using True e by (simp add: fp_int_part_def k_def)
  have "2 ^ k \<le> fp_sig F a * 2 ^ k"
    using fp_sig_bounds(1) [of F a] by (metis mult_le_mono1 mult_1 one_le_numeral one_le_power order_trans)
  then have "(2::nat) ^ k < 2 ^ LENGTH('w)" using fit N by linarith
  then have kw: "k < LENGTH('w)" by simp
  then have "unat (word_of_int (int k) :: su_int) = k" using w by (simp add: unat_of_nat)
  then have "c_shl u r (word_of_int (int k)) = push_bit k r" using kw by (simp only: c_shl_def) simp
  then show ?thesis using True fit by (simp add: k N r unat_push_below)
next
  case False
  define k where "k = nat (int (significandBits F) - fp_exp F a)"
  have k: "int (significandBits F) - fp_exp F a = int k" "k \<le> significandBits F" using False e by (simp_all add: k_def)
  have N: "fp_int_part F a = fp_sig F a div 2 ^ k" using False e by (simp add: fp_int_part_def k_def)
  have kw: "k < LENGTH('w)" using k w by simp
  then have "unat (word_of_int (int k) :: su_int) = k" using w by (simp add: unat_of_nat)
  then have "c_lshr u r (word_of_int (int k)) = drop_bit k r" using kw by (simp only: c_lshr_def) simp
  then show ?thesis using False by (simp add: k(1) N r unat_drop_bit)
qed

lemma c_ashr_pos:
  fixes r :: "'w::len word"
  assumes "unat r < 2 ^ (LENGTH('w) - 1)" "unat n < LENGTH('w)"
  shows "c_ashr u r n = c_lshr u r n"
proof -
  have "\<not> bit r (LENGTH('w) - 1)" using bit_imp_unat_ge [of r "LENGTH('w) - 1"] assms by auto
  then have "signed_drop_bit (unat n) r = drop_bit (unat n) r"
    by (intro bit_word_eqI) (auto simp: bit_signed_drop_bit_iff bit_drop_bit_eq dest: bit_imp_le_length)
  then show ?thesis using assms by (simp add: c_ops)
qed

lemma fix_shift_signed:
  fixes r :: "'w::len word"
  assumes r: "unat r = fp_sig F a" and e: "0 \<le> fp_exp F a" and fit: "fp_int_part F a < 2 ^ LENGTH('w)"
    and w: "significandBits F + 1 < LENGTH('w)" "LENGTH('w) \<le> 128"
  shows "unat (if fp_exp F a > int (significandBits F)
      then c_shl u r (word_of_int (fp_exp F a - int (significandBits F)))
      else c_ashr u r (word_of_int (int (significandBits F) - fp_exp F a))) = fp_int_part F a"
proof -
  have "c_ashr u r (word_of_int (int (significandBits F) - fp_exp F a)) =
      c_lshr u r (word_of_int (int (significandBits F) - fp_exp F a))" if "\<not> fp_exp F a > int (significandBits F)"
  proof (rule c_ashr_pos)
    have "2 * 2 ^ significandBits F \<le> (2::nat) ^ (LENGTH('w) - 1)"
      using w by (metis Suc_leI less_diff_conv one_le_numeral plus_1_eq_Suc power_Suc power_increasing add.commute)
    then show "unat r < 2 ^ (LENGTH('w) - 1)" using fp_sig_bounds(2) [of F a] r by linarith
    have "int (significandBits F) - fp_exp F a \<le> int (significandBits F)" "0 \<le> int (significandBits F) - fp_exp F a"
      using e that by simp_all
    then show "unat (word_of_int (int (significandBits F) - fp_exp F a) :: su_int) < LENGTH('w)"
      using w by (subst unat_word_of_int) auto
  qed
  then show ?thesis using fix_shift [OF r e fit] w by (auto split: if_splits)
qed

lemma apply_sign:
  fixes r :: "'w::len word"
  assumes "unat r = n" "sfits LENGTH('w) (if s then - int n else int n)"
  shows "sint ((r XOR (if s then - 1 else 0)) - (if s then - 1 else 0)) = (if s then - int n else int n)"
proof -
  have "(r XOR (if s then - 1 else 0)) - (if s then - 1 else 0) = word_of_int (if s then - int n else int n)"
    unfolding assms(1) [symmetric] by (simp add: not_eq_complement of_nat_unat)
  then show ?thesis using sint_of_int [OF assms(2)] by simp
qed

lemma sign_word:
  fixes w :: su_int
  shows "scast (signed_drop_bit 31 (w AND 0x80000000)) = (if fp_sign w then - 1 else 0 :: 'w::len word)"
    and "w AND 0x80000000 \<noteq> 0 \<longleftrightarrow> fp_sign w"
proof -
  have a: "w AND 0x80000000 = (if fp_sign w then 0x80000000 else 0)"
    using sgl.and_signBit [of w] by (simp add: format_words)
  then show "w AND 0x80000000 \<noteq> 0 \<longleftrightarrow> fp_sign w" by simp
  have "signed_drop_bit 31 (0x80000000 :: su_int) = - 1"
    by code_simp
  then show "scast (signed_drop_bit 31 (w AND 0x80000000)) = (if fp_sign w then - 1 else 0 :: 'w::len word)"
    unfolding a by simp
qed

lemma int_part_bound:
  assumes "sfits n (if fp_sign a then - int (fp_int_part F a) else int (fp_int_part F a))" and "0 < n"
  shows "fp_int_part F a < 2 ^ n"
proof -
  have "int (fp_int_part F a) \<le> int (2 ^ (n - 1))" using assms(1) by (auto simp: sfits_def split: if_splits)
  then have "fp_int_part F a \<le> 2 ^ (n - 1)" by (simp only: of_nat_le_iff)
  also have "(2::nat) ^ (n - 1) < 2 ^ n" using assms(2) by (intro power_strict_increasing) simp_all
  finally show ?thesis .
qed

lemma fix_signed:
  fixes r :: "'w::len word"
  assumes r: "unat r = fp_sig F a" and e: "0 \<le> fp_exp F a"
    and fit: "sfits LENGTH('w) (if fp_sign a then - int (fp_int_part F a) else int (fp_int_part F a))"
    and w: "significandBits F + 1 < LENGTH('w)" "LENGTH('w) \<le> 128"
  shows "sint (((if fp_exp F a > int (significandBits F)
      then c_shl u r (word_of_int (fp_exp F a - int (significandBits F)))
      else c_ashr u r (word_of_int (int (significandBits F) - fp_exp F a))) XOR (if fp_sign a then - 1 else 0)) -
      (if fp_sign a then - 1 else 0)) = (if fp_sign a then - int (fp_int_part F a) else int (fp_int_part F a))"
  by (intro apply_sign fix_shift_signed assms int_part_bound [OF fit]) simp

lemma int_part_fraction: "fp_exp F a < 0 \<Longrightarrow> fp_int_part F a = 0"
  by (simp add: fp_int_part_def)

lemmas fix_fields = fp_exp_single fp_exp_double fp_sig_single fp_sig_double sign_word high_fields
  dbl.fp_trunc_int_part sgl.fp_trunc_int_part

lemma unat_ucast_up: "LENGTH('a) \<le> LENGTH('b) \<Longrightarrow> unat (ucast (x :: 'a::len word) :: 'b::len word) = unat x"
  by (simp add: unsigned_ucast_eq take_bit_nat_eq_self less_le_trans [OF unsigned_less])

lemma ucast_of_int: "LENGTH('b) \<le> LENGTH('a) \<Longrightarrow> ucast (word_of_int i :: 'a::len word) = (word_of_int i :: 'b::len word)"
  by transfer (simp add: min_absorb1)

context fp_format
begin

lemma fp_fixsi_correct:
  assumes L: "32 \<le> LENGTH('r)" and fit: "sfits 32 (fp_trunc F a)"
  shows "sint (fp_fixsi F u a) = fp_trunc F a"
proof -
  let ?s = "significandBits F"
  define E where "E = fp_exp F a"
  define B where "B = nat (exponentBias F)"
  have B: "exponentBias F = int B" using exponentBias_nat by (simp add: B_def)
  have Eb: "- (2 ^ 15) \<le> E" "E < 2 ^ 16"
  proof -
    have "B < 2 ^ 15" using exponentBias_bounds by (simp add: B_def)
    moreover have "fp_abs a div 2 ^ ?s < 2 ^ 15"
    proof (rule less_mult_imp_div_less)
      have "(2::nat) ^ (LENGTH('r) - 1) \<le> 2 ^ (15 + ?s)" using width_max by (intro power_increasing) simp_all
      then show "fp_abs a < 2 ^ 15 * 2 ^ ?s" using fp_abs_less [of a] by (simp add: power_add)
    qed
    then have "int (fp_abs a div 2 ^ ?s) < int (2 ^ 15)" by (simp only: of_nat_less_iff)
    ultimately show "- (2 ^ 15) \<le> E" "E < 2 ^ 16" by (simp_all add: E_def fp_exp_def B)
  qed
  have e: "sint (ucast (drop_bit ?s (a AND absMask F) - word_of_int (exponentBias F)) :: si_int) = E"
  proof -
    have "drop_bit ?s (a AND absMask F) = word_of_int (int (fp_abs a div 2 ^ ?s))"
      by (simp add: unat_drop_bit [symmetric] unat_and_absMask [symmetric] of_nat_unat)
    then have "drop_bit ?s (a AND absMask F) - word_of_int (exponentBias F) = word_of_int E"
      by (simp only: E_def fp_exp_def of_int_diff)
    then show ?thesis using Eb L sint_of_int [of E, where ?'a = 32] by (simp add: ucast_of_int sfits_def)
  qed
  define r where "r = ((a AND absMask F) AND significandMask F) OR implicitBit F"
  have r: "unat r = fp_sig F a"
    using or_implicitBit(1) [of "(a AND absMask F) AND significandMask F"]
    by (simp add: r_def unat_and_significandMask unat_and_absMask fp_sig_def)
  have cmp: "(word_of_int E :: su_int) < of_nat ?s \<longleftrightarrow> 0 \<le> E \<and> E < int ?s"
  proof -
    have "uint (word_of_int E :: su_int) = (if E < 0 then E + 2 ^ 32 else E)"
    proof (cases "E < 0")
      case True
      have "(word_of_int E :: su_int) = word_of_int (E + 2 ^ 32)" by (simp add: word_of_int_eq_iff take_bit_eq_mod)
      moreover have "uint (word_of_int (E + 2 ^ 32) :: su_int) = E + 2 ^ 32"
        unfolding uint_word_of_int by (rule mod_pos_pos_trivial) (use True Eb in simp_all)
      ultimately have "uint (word_of_int E :: su_int) = E + 2 ^ 32" by metis
      then show ?thesis using True by simp
    qed (use Eb in \<open>simp add: uint_word_of_int\<close>)
    moreover have "uint (of_nat ?s :: su_int) = int ?s"
      using width width_max by (simp add: uint_word_of_int [of "int ?s", simplified])
    ultimately show ?thesis using width width_max Eb by (simp add: word_less_def)
  qed
  have fit': "sfits 32 (if fp_sign a then - int (fp_int_part F a) else int (fp_int_part F a))"
    using fit by (simp add: fp_trunc_int_part)
  have N: "fp_int_part F a < 2 ^ LENGTH('r)"
    using int_part_bound [OF fit'] power_increasing [OF L, of "2::nat"] by simp
  have sgn: "sint (ucast ((if a AND signBit F \<noteq> 0 then - 1 else 1) * x) :: si_int) = fp_trunc F a"
    if "unat x = fp_int_part F a" for x :: "'r word"
  proof -
    have "signBit F \<noteq> 0" using unat_signBit by (metis power_not_zero unsigned_0 zero_neq_numeral)
    then have "a AND signBit F \<noteq> 0 \<longleftrightarrow> fp_sign a" by (simp add: and_signBit)
    moreover have "x = word_of_int (int (fp_int_part F a))" by (simp add: that [symmetric] of_nat_unat)
    ultimately have "(if a AND signBit F \<noteq> 0 then - 1 else 1) * x = word_of_int (fp_trunc F a)"
      by (simp add: fp_trunc_int_part)
    then show ?thesis using L fit sint_of_int [of "fp_trunc F a", where ?'a = 32] by (simp add: ucast_of_int)
  qed
  have d: "fp_fixsi F u a =
    (if 0 \<le> E \<and> E < int ?s then ucast ((if a AND signBit F \<noteq> 0 then - 1 else 1) * c_lshr u r (word_of_int (int ?s - E)))
     else if E < 0 then 0 else ucast ((if a AND signBit F \<noteq> 0 then - 1 else 1) * c_shl u r (word_of_int (E - int ?s))))"
    unfolding fp_fixsi_def Let_def e cmp r_def ..
  show ?thesis
  proof (cases "E < 0")
    case True
    then show ?thesis unfolding d by (simp add: fp_trunc_int_part int_part_fraction E_def)
  next
    case False
    have sb: "?s < LENGTH('r)" "LENGTH('r) \<le> 128" using width width_max by simp_all
    have "unat (if E > int ?s then c_shl u r (word_of_int (E - int ?s)) else c_lshr u r (word_of_int (int ?s - E))) =
      fp_int_part F a"
      unfolding E_def by (rule fix_shift [OF r _ N sb]) (use False in \<open>simp add: E_def\<close>)
    moreover have "c_shl u r 0 = c_lshr u r 0" by (simp add: c_ops)
    ultimately have "unat (if E < int ?s then c_lshr u r (word_of_int (int ?s - E)) else c_shl u r (word_of_int (E - int ?s))) =
      fp_int_part F a"
      by (cases "E = int ?s") (auto split: if_splits)
    from sgn [OF this] show ?thesis unfolding d using False by (auto split: if_splits)
  qed
qed

end

section \<open>Properties\<close>

text \<open>The routines that shift a wider significand, under their own names.\<close>

lemma fix_guard: "(0 \<le> e \<Longrightarrow> sint y = n) \<Longrightarrow> (e < 0 \<Longrightarrow> n = 0) \<Longrightarrow> sint (if e < 0 then 0 else y) = n"
  for e :: int
  by simp

lemma fix_guard_unsigned:
  "(0 \<le> e \<Longrightarrow> \<not> s \<Longrightarrow> unat y = n) \<Longrightarrow> (e < 0 \<or> s \<Longrightarrow> n = 0) \<Longrightarrow> unat (if e < 0 \<or> s then 0 else y) = n"
  for e :: int
  by auto

lemmas fix_shape = fix_signed [where F = single, unfolded format_numbers of_nat_numeral]
  fix_signed [where F = double, unfolded format_numbers of_nat_numeral]
  fix_shift [where F = single, unfolded format_numbers of_nat_numeral]
  fix_shift [where F = double, unfolded format_numbers of_nat_numeral]

lemma fix_signed_routines:
  "sfits 64 (fp_trunc single a) \<Longrightarrow> sint (fixsfdi u a) = fp_trunc single a"
  "sfits 128 (fp_trunc single a) \<Longrightarrow> sint (fixsfti u a) = fp_trunc single a"
  "sfits 64 (fp_trunc double b) \<Longrightarrow> sint (fixdfdi u b) = fp_trunc double b"
  "sfits 128 (fp_trunc double b) \<Longrightarrow> sint (fixdfti u b) = fp_trunc double b"
  unfolding fixsfdi_def fixsfti_def fixdfdi_def fixdfti_def Let_def fix_fields
  by (intro fix_guard fix_shape;
    simp add: int_part_fraction unat_ucast_up fp_sig_single fp_sig_double)+

text \<open>The unsigned conversions: a negative number becomes zero.\<close>

definition fp_utrunc :: "'r::len word fp_lib \<Rightarrow> 'r word \<Rightarrow> nat" where
  "fp_utrunc F x = (if fp_sign x then 0 else fp_int_part F x)"

lemma fix_unsigned_routines:
  "fp_utrunc single a < 2 ^ 32 \<Longrightarrow> unat (fixunssfsi u a) = fp_utrunc single a"
  "fp_utrunc single a < 2 ^ 64 \<Longrightarrow> unat (fixunssfdi u a) = fp_utrunc single a"
  "fp_utrunc single a < 2 ^ 128 \<Longrightarrow> unat (fixunssfti u a) = fp_utrunc single a"
  "fp_utrunc double b < 2 ^ 64 \<Longrightarrow> unat (fixunsdfdi u b) = fp_utrunc double b"
  "fp_utrunc double b < 2 ^ 128 \<Longrightarrow> unat (fixunsdfti u b) = fp_utrunc double b"
  unfolding fixunssfsi_def fixunssfdi_def fixunssfti_def fixunsdfdi_def fixunsdfti_def fp_utrunc_def Let_def fix_fields
  by (intro fix_guard_unsigned;
    (simp only: simp_thms if_False, intro fix_shape)?;
    auto simp: int_part_fraction unat_ucast_up fp_sig_single fp_sig_double)+

lemma fixunsdfsi_correct:
  assumes "fp_utrunc double a < 2 ^ 32"
  shows "unat (fixunsdfsi u a) = fp_utrunc double a"
proof -
  let ?h = "s_high (dwords_of a)" and ?l = "s_low (dwords_of a)"
  define w where "w = (0x80000000 OR push_bit 11 (?h AND 0x000FFFFF)) OR drop_bit 21 ?l"
  have m: "unat (?h AND 0x000FFFFF) = unat a div 2 ^ 32 mod 2 ^ 20"
    using and_low_mask [of ?h 20] by (simp add: dw.high_eq)
  have l: "unat (drop_bit 21 ?l) < 2 ^ 11" "unat (drop_bit 21 ?l) = unat a mod 2 ^ 32 div 2 ^ 21"
    using unsigned_less [where ?'a = nat, of ?l]
    by (simp_all add: unat_drop_bit dw.low_eq less_mult_imp_div_less)
  have h: "unat (push_bit 20 1 OR (?h AND 0x000FFFFF)) = 2 ^ 20 + unat a div 2 ^ 32 mod 2 ^ 20"
    using m by (subst unat_push_or) simp_all
  have "w = push_bit 11 (push_bit 20 1 OR (?h AND 0x000FFFFF)) OR drop_bit 21 ?l"
    by (simp add: w_def push_bit_or)
  then have uw: "unat w = (2 ^ 20 + unat a div 2 ^ 32 mod 2 ^ 20) * 2 ^ 11 + unat a mod 2 ^ 32 div 2 ^ 21"
    using unat_push_or [OF l(1), of "push_bit 20 1 OR (?h AND 0x000FFFFF)"] h
    by (simp add: l(2) distrib_right)
  have "fp_abs a mod 2 ^ 52 = unat a div 2 ^ 32 mod 2 ^ 20 * 2 ^ 32 + unat a mod 2 ^ 32"
    using mod_split [of "unat a" "2 ^ 32" "2 ^ 20"] by (simp add: fp_abs_def mod_mod_cancel)
  moreover have "(2 ^ 52 + (A * 2 ^ 32 + R)) div 2 ^ 21 = (2 ^ 20 + A) * 2 ^ 11 + R div 2 ^ 21" for A R :: nat
    using div_mult_self3 [of "2 ^ 21" "(2 ^ 20 + A) * 2 ^ 11" R] by (simp add: distrib_right)
  ultimately have w: "unat w = fp_sig double a div 2 ^ 21"
    unfolding uw fp_sig_def format_numbers by (simp only:)
  have "unat (c_lshr u w (word_of_int (31 - fp_exp double a))) = fp_int_part double a"
    if e: "0 \<le> fp_exp double a" and s: "\<not> fp_sign a"
  proof -
    have e31: "fp_exp double a \<le> 31"
    proof (rule ccontr)
      assume "\<not> fp_exp double a \<le> 31"
      then have e32: "32 \<le> fp_exp double a" by simp
      have "2 ^ 32 \<le> fp_int_part double a"
      proof (cases "fp_exp double a > 52")
        case True
        have "2 ^ 52 * 1 \<le> fp_sig double a * 2 ^ nat (fp_exp double a - 52)"
          using fp_sig_bounds(1) [of double a] by (intro mult_mono) (simp_all add: format_numbers)
        then show ?thesis using True by (simp add: fp_int_part_def format_numbers)
      next
        case False
        have "(2::nat) ^ nat (52 - fp_exp double a) \<le> 2 ^ 20" using e32 by (intro power_increasing) simp_all
        then have "fp_sig double a div 2 ^ 20 \<le> fp_sig double a div 2 ^ nat (52 - fp_exp double a)"
          by (intro div_le_mono2) simp_all
        moreover have "2 ^ 52 div 2 ^ 20 \<le> fp_sig double a div 2 ^ 20"
          using fp_sig_bounds(1) [of double a] by (intro div_le_mono) (simp add: format_numbers)
        ultimately show ?thesis using False e by (simp add: fp_int_part_def format_numbers)
      qed
      then show False using assms s by (simp add: fp_utrunc_def)
    qed
    define k where "k = nat (31 - fp_exp double a)"
    have k: "31 - fp_exp double a = int k" "k < 32" using e e31 by (simp_all add: k_def)
    then have "unat (word_of_int (int k) :: su_int) = k" by (simp add: unat_of_nat)
    then have "unat (c_lshr u w (word_of_int (int k))) = unat w div 2 ^ k"
      using k(2) by (simp only: c_lshr_def) (simp add: unat_drop_bit)
    also have "\<dots> = fp_sig double a div 2 ^ (21 + k)" by (simp only: w div_mult2_eq power_add)
    also have "21 + k = nat (52 - fp_exp double a)" using k by simp
    finally show ?thesis using e e31 by (simp add: k(1) fp_int_part_def format_numbers)
  qed
  then show ?thesis
    unfolding fixunsdfsi_def fp_utrunc_def Let_def fix_fields w_def [symmetric]
    by (intro fix_guard_unsigned) (auto simp: int_part_fraction)
qed

lemma fp_utrunc_eq: "fp_utrunc single a = nat (fp_trunc single a)" "fp_utrunc double b = nat (fp_trunc double b)"
  by (simp_all add: fp_utrunc_def sgl.fp_trunc_int_part dbl.fp_trunc_int_part)

text \<open>The signed conversions return the number without its fraction, for every number for which that
  is a value of the result type, at all three widths and from both formats.\<close>

lemma float_to_signed:
  "(sfits 32 (fp_trunc single a) \<longrightarrow> sint (fixsfsi u a) = fp_trunc single a) \<and>
   (sfits 64 (fp_trunc single a) \<longrightarrow> sint (fixsfdi u a) = fp_trunc single a) \<and>
   (sfits 128 (fp_trunc single a) \<longrightarrow> sint (fixsfti u a) = fp_trunc single a) \<and>
   (sfits 32 (fp_trunc double b) \<longrightarrow> sint (fixdfsi u b) = fp_trunc double b) \<and>
   (sfits 64 (fp_trunc double b) \<longrightarrow> sint (fixdfdi u b) = fp_trunc double b) \<and>
   (sfits 128 (fp_trunc double b) \<longrightarrow> sint (fixdfti u b) = fp_trunc double b)"
  unfolding fixsfsi_def fixdfsi_def
  using fix_signed_routines sgl.fp_fixsi_correct [of a u] dbl.fp_fixsi_correct [of b u] by simp

lemmas fp_trunc_eval = sgl.fp_trunc_int_part dbl.fp_trunc_int_part fp_int_part_def fp_exp_def fp_sig_def
  fp_sign_def fp_abs_def format_numbers exponentBias_def maxExponent_def exponentBits_def sfits_def bit_iff_odd

text \<open>The unsigned conversions return the number without its fraction where that is in the range of the
  result type, and zero for every negative number.\<close>

lemma float_to_unsigned:
  "(fp_trunc single a < 2 ^ 32 \<longrightarrow> unat (fixunssfsi u a) = nat (fp_trunc single a)) \<and>
   (fp_trunc single a < 2 ^ 64 \<longrightarrow> unat (fixunssfdi u a) = nat (fp_trunc single a)) \<and>
   (fp_trunc single a < 2 ^ 128 \<longrightarrow> unat (fixunssfti u a) = nat (fp_trunc single a)) \<and>
   (fp_trunc double b < 2 ^ 32 \<longrightarrow> unat (fixunsdfsi u b) = nat (fp_trunc double b)) \<and>
   (fp_trunc double b < 2 ^ 64 \<longrightarrow> unat (fixunsdfdi u b) = nat (fp_trunc double b)) \<and>
   (fp_trunc double b < 2 ^ 128 \<longrightarrow> unat (fixunsdfti u b) = nat (fp_trunc double b))"
  using fix_unsigned_routines fixunsdfsi_correct [of b u] by (simp add: fp_utrunc_eq nat_less_iff)

text \<open>C14: Every conversion to an integer drops the fraction: the signed ones return the integer part of every number for which it is
  a value of the result type; the unsigned ones as well, and zero for every negative number.\<close>

theorem float_to_integer:
  "((sfits 32 (fp_trunc single a) \<longrightarrow> sint (fixsfsi u a) = fp_trunc single a) \<and>
   (sfits 64 (fp_trunc single a) \<longrightarrow> sint (fixsfdi u a) = fp_trunc single a) \<and>
   (sfits 128 (fp_trunc single a) \<longrightarrow> sint (fixsfti u a) = fp_trunc single a) \<and>
   (sfits 32 (fp_trunc double b) \<longrightarrow> sint (fixdfsi u b) = fp_trunc double b) \<and>
   (sfits 64 (fp_trunc double b) \<longrightarrow> sint (fixdfdi u b) = fp_trunc double b) \<and>
   (sfits 128 (fp_trunc double b) \<longrightarrow> sint (fixdfti u b) = fp_trunc double b)) \<and>
   ((fp_trunc single a < 2 ^ 32 \<longrightarrow> unat (fixunssfsi u a) = nat (fp_trunc single a)) \<and>
   (fp_trunc single a < 2 ^ 64 \<longrightarrow> unat (fixunssfdi u a) = nat (fp_trunc single a)) \<and>
   (fp_trunc single a < 2 ^ 128 \<longrightarrow> unat (fixunssfti u a) = nat (fp_trunc single a)) \<and>
   (fp_trunc double b < 2 ^ 32 \<longrightarrow> unat (fixunsdfsi u b) = nat (fp_trunc double b)) \<and>
   (fp_trunc double b < 2 ^ 64 \<longrightarrow> unat (fixunsdfdi u b) = nat (fp_trunc double b)) \<and>
   (fp_trunc double b < 2 ^ 128 \<longrightarrow> unat (fixunsdfti u b) = nat (fp_trunc double b)))"
  by (rule conjI [OF float_to_signed float_to_unsigned])

theorem float_to_integer_witness:
  "sint (fixsfdi (\<lambda>_ _ _ _. 0) 0xC0490FDB) = - 3 \<and> sint (fixdfsi (\<lambda>_ _ _ _. 0) 0xC1E0000000000000) = - (2 ^ 31) \<and>
   fixunssfsi (\<lambda>_ _ _ _. 0) 0xC0490FDB = 0 \<and> fixunsdfti (\<lambda>_ _ _ _. 0) 0xC1E0000000000000 = 0"
proof -
  have "fp_trunc single 0xC0490FDB = - 3" "fp_trunc double 0xC1E0000000000000 = - (2 ^ 31)"
    by (simp_all add: fp_trunc_eval)
  then show ?thesis
    using float_to_integer [of "0xC0490FDB" "\<lambda>_ _ _ _. 0" "0xC1E0000000000000"] by (simp add: sfits_def word_unat_eq_iff)
qed

end
