(* ===== verification/Fp_FromInt.thy ===== *)
theory Fp_FromInt
  imports Fp_Mul
begin

unbundle bit_operations_syntax

text \<open>
  The conversions from integers to the two formats. There are three kinds: those from 32 bits use
  \<^verbatim>\<open>fp_lib.h\<close>; those from 64 and 128 bits count the significant digits, shorten the number to
  two digits more than the format has, and round on those two; and \<^verbatim>\<open>floatdidf.c\<close> and
  \<^verbatim>\<open>floatundidf.c\<close> have a second version for machines with hardware floating point, which puts
  the halves of the number into the low digits of large doubles and adds.
\<close>

section \<open>From 32 bits\<close>

definition floatsidf :: "ub \<Rightarrow> si_int \<Rightarrow> du_int" where
  "floatsidf u a =
    (let aWidth = 32
     in if a = 0 then 0
        else
          let sign = if a <s 0 then signBit double else 0;
              a = if a <s 0 then - a else a;
              exponent = (aWidth - 1) - sint (builtin_clz u a);
              shift = int (significandBits double) - exponent;
              result = c_shl u (ucast a) (word_of_int shift) XOR implicitBit double;
              result = result + push_bit (significandBits double) (word_of_int (exponent + exponentBias double))
          in result OR sign)"

definition floatunsidf :: "ub \<Rightarrow> su_int \<Rightarrow> du_int" where
  "floatunsidf u a =
    (let aWidth = 32
     in if a = 0 then 0
        else
          let exponent = (aWidth - 1) - sint (builtin_clz u a);
              shift = int (significandBits double) - exponent;
              result = c_shl u (ucast a) (word_of_int shift) XOR implicitBit double
          in result + push_bit (significandBits double) (word_of_int (exponent + exponentBias double)))"

text \<open>The shift into the significand field, with its rounding, which the two conversions to single
  precision share.\<close>

definition floatsi_shift :: "ub \<Rightarrow> su_int \<Rightarrow> int \<Rightarrow> su_int" where
  "floatsi_shift u a exponent =
    (if exponent \<le> int (significandBits single) then
       let shift = int (significandBits single) - exponent
       in c_shl u a (word_of_int shift) XOR implicitBit single
     else
       let shift = exponent - int (significandBits single);
           result = c_lshr u a (word_of_int shift) XOR implicitBit single;
           round = c_shl u a (word_of_int (32 - shift));
           result = if round > signBit single then result + 1 else result
       in if round = signBit single then result + (result AND 1) else result)"

definition floatsisf :: "ub \<Rightarrow> si_int \<Rightarrow> su_int" where
  "floatsisf u a =
    (let aWidth = 32
     in if a = 0 then 0
        else
          let sign = if a <s 0 then signBit single else 0;
              a = if a <s 0 then - a else a;
              exponent = (aWidth - 1) - sint (builtin_clz u a);
              result = floatsi_shift u a exponent;
              result = result + push_bit (significandBits single) (word_of_int (exponent + exponentBias single))
          in result OR sign)"

definition floatunsisf :: "ub \<Rightarrow> su_int \<Rightarrow> su_int" where
  "floatunsisf u a =
    (let aWidth = 32
     in if a = 0 then 0
        else
          let exponent = (aWidth - 1) - sint (builtin_clz u a);
              result = floatsi_shift u a exponent
          in result + push_bit (significandBits single) (word_of_int (exponent + exponentBias single)))"

section \<open>From 64 and 128 bits\<close>

text \<open>The \<^verbatim>\<open>switch (sd)\<close>: to \<open>M + 2\<close> digits, the last of them sticky.\<close>

definition float_shorten :: "ub \<Rightarrow> nat \<Rightarrow> 'a::len word \<Rightarrow> int \<Rightarrow> 'a word" where
  "float_shorten u M a sd =
    (if sd = int M + 1 then push_bit 1 a
     else if sd = int M + 2 then a
     else c_lshr u a (word_of_int (sd - (int M + 2))) OR
       c_bool (a AND c_lshr u (- 1) (of_nat (LENGTH('a) + M + 2) - word_of_int sd) \<noteq> 0))"

text \<open>The part the nine routines of this shape share: \<open>M\<close> is \<^verbatim>\<open>FLT_MANT_DIG\<close> or
  \<^verbatim>\<open>DBL_MANT_DIG\<close>, \<open>clz\<close> the count of leading zeros the routine calls and \<open>shr\<close> its right shift,
  arithmetic where \<^verbatim>\<open>a\<close> is signed. The results are \<^verbatim>\<open>a\<close> and \<^verbatim>\<open>e\<close>.\<close>

definition float_digits ::
    "(nat \<Rightarrow> 'a word \<Rightarrow> 'a word) \<Rightarrow> ub \<Rightarrow> ('a word \<Rightarrow> si_int) \<Rightarrow> nat \<Rightarrow> 'a::len word \<Rightarrow> 'a word \<times> int" where
  "float_digits shr u clz M a =
    (let sd = sint (of_nat LENGTH('a) - clz a);
         e = sd - 1
     in if sd > int M then
          let a = float_shorten u M a sd;
              a = a OR c_bool (a AND 4 \<noteq> 0);
              a = a + 1;
              a = shr 2 a
          in if a AND push_bit M 1 \<noteq> 0 then (shr 1 a, e + 1) else (a, e)
        else (c_shl u a (word_of_int (int M - sd)), e))"

definition FLT_MANT_DIG :: nat where "FLT_MANT_DIG = 24"
definition DBL_MANT_DIG :: nat where "DBL_MANT_DIG = 53"

definition floatdisf :: "ub \<Rightarrow> di_int \<Rightarrow> su_int" where
  "floatdisf u a =
    (if a = 0 then 0
     else
       let s = signed_drop_bit (64 - 1) a;
           a = (a XOR s) - s;
           (a, e) = float_digits signed_drop_bit u (builtin_clz u) FLT_MANT_DIG a
       in ((ucast s AND 0x80000000) OR push_bit 23 (word_of_int (e + 127))) OR (ucast a AND 0x007FFFFF))"

definition floatundisf :: "ub \<Rightarrow> du_int \<Rightarrow> su_int" where
  "floatundisf u a =
    (if a = 0 then 0
     else
       let (a, e) = float_digits drop_bit u (builtin_clz u) FLT_MANT_DIG a
       in push_bit 23 (word_of_int (e + 127)) OR (ucast a AND 0x007FFFFF))"

definition floattisf :: "ub \<Rightarrow> ti_int \<Rightarrow> su_int" where
  "floattisf u a =
    (if a = 0 then 0
     else
       let s = signed_drop_bit (128 - 1) a;
           a = (a XOR s) - s;
           (a, e) = float_digits signed_drop_bit u (clzti2 u) FLT_MANT_DIG a
       in ((ucast s AND 0x80000000) OR push_bit 23 (word_of_int (e + 127))) OR (ucast a AND 0x007FFFFF))"

definition floatuntisf :: "ub \<Rightarrow> tu_int \<Rightarrow> su_int" where
  "floatuntisf u a =
    (if a = 0 then 0
     else
       let (a, e) = float_digits drop_bit u (clzti2 u) FLT_MANT_DIG a
       in push_bit 23 (word_of_int (e + 127)) OR (ucast a AND 0x007FFFFF))"

text \<open>The doubles are put together by halves. In \<^verbatim>\<open>floatdidf.c\<close> and \<^verbatim>\<open>floatundidf.c\<close> this
  version is the one for \<^verbatim>\<open>__SOFT_FP__\<close>; it writes \<^verbatim>\<open>fb.u.high\<close> where the union of
  \<^verbatim>\<open>int_types.h\<close> has \<^verbatim>\<open>fb.u.s.high\<close>, and is read here as if it said so.\<close>

definition floatdidf_soft :: "ub \<Rightarrow> di_int \<Rightarrow> du_int" where
  "floatdidf_soft u a =
    (if a = 0 then 0
     else
       let s = signed_drop_bit (64 - 1) a;
           a = (a XOR s) - s;
           (a, e) = float_digits signed_drop_bit u (builtin_clz u) DBL_MANT_DIG a
       in dwords_all
           \<lparr> s_high = ((ucast s AND 0x80000000) OR push_bit 20 (word_of_int (e + 1023))) OR
               (ucast (signed_drop_bit 32 a) AND 0x000FFFFF),
             s_low = ucast a \<rparr>)"

definition floatundidf_soft :: "ub \<Rightarrow> du_int \<Rightarrow> du_int" where
  "floatundidf_soft u a =
    (if a = 0 then 0
     else
       let (a, e) = float_digits drop_bit u (builtin_clz u) DBL_MANT_DIG a
       in dwords_all
           \<lparr> s_high = push_bit 20 (word_of_int (e + 1023)) OR (ucast (drop_bit 32 a) AND 0x000FFFFF),
             s_low = ucast a \<rparr>)"

definition floattidf :: "ub \<Rightarrow> ti_int \<Rightarrow> du_int" where
  "floattidf u a =
    (if a = 0 then 0
     else
       let s = signed_drop_bit (128 - 1) a;
           a = (a XOR s) - s;
           (a, e) = float_digits signed_drop_bit u (clzti2 u) DBL_MANT_DIG a
       in dwords_all
           \<lparr> s_high = ((ucast s AND 0x80000000) OR push_bit 20 (word_of_int (e + 1023))) OR
               (ucast (signed_drop_bit 32 a) AND 0x000FFFFF),
             s_low = ucast a \<rparr>)"

definition floatuntidf :: "ub \<Rightarrow> tu_int \<Rightarrow> du_int" where
  "floatuntidf u a =
    (if a = 0 then 0
     else
       let (a, e) = float_digits drop_bit u (clzti2 u) DBL_MANT_DIG a
       in dwords_all
           \<lparr> s_high = push_bit 20 (word_of_int (e + 1023)) OR (ucast (drop_bit 32 a) AND 0x000FFFFF),
             s_low = ucast a \<rparr>)"

section \<open>By adding large doubles\<close>

text \<open>On a target without hardware floating point the operators on \<^verbatim>\<open>double\<close> are calls of this
  library; \<open>sel\<close> is its selection of the soft-float branch or the memory-mapped unit.\<close>

definition twop52 :: du_int where "twop52 = 0x4330000000000000"
definition twop32 :: du_int where "twop32 = 0x41F0000000000000"
definition twop84 :: du_int where "twop84 = 0x4530000000000000"
definition twop84_plus_twop52 :: du_int where "twop84_plus_twop52 = 0x4530000000100000"

definition floatdidf :: "ub \<Rightarrow> 'd fpu \<Rightarrow> su_int \<Rightarrow> di_int \<Rightarrow> 'd \<Rightarrow> (du_int \<times> 'd) option" where
  "floatdidf u D sel a d =
    Option.bind (muldf3 u D sel (floatsidf u (ucast (signed_drop_bit 32 a))) twop32 d) (\<lambda>(high, d).
      let low = twop52 OR (a AND 0x00000000ffffffff)
      in Option.bind (subdf3 u D sel high twop52 d) (\<lambda>(diff, d). adddf3 u D sel diff low d))"

definition floatundidf :: "ub \<Rightarrow> 'd fpu \<Rightarrow> su_int \<Rightarrow> du_int \<Rightarrow> 'd \<Rightarrow> (du_int \<times> 'd) option" where
  "floatundidf u D sel a d =
    (let high = twop84 OR drop_bit 32 a;
         low = twop52 OR (a AND 0x00000000ffffffff)
     in Option.bind (subdf3 u D sel high twop84_plus_twop52 d) (\<lambda>(diff, d). adddf3 u D sel diff low d))"

section \<open>Shortening and rounding\<close>

lemma shorten_mask:
  assumes L: "LENGTH('a::len) \<le> 128" and k: "0 < k" "k + M + 2 \<le> LENGTH('a)"
  shows "c_lshr u (- 1 :: 'a word) (of_nat (LENGTH('a) + M + 2) - word_of_int (int (k + M + 2))) = mask k"
proof -
  have "(of_nat (LENGTH('a) + M + 2) - word_of_int (int (k + M + 2)) :: su_int) = word_of_int (int (LENGTH('a) - k))"
    using k by (simp add: of_nat_diff)
  moreover have "unat (word_of_int (int (LENGTH('a) - k)) :: su_int) = LENGTH('a) - k"
    using L by (subst unat_word_of_int) auto
  moreover have "drop_bit (LENGTH('a) - k) (- 1 :: 'a word) = mask k"
    using k by (intro bit_word_eqI) (auto simp: bit_drop_bit_eq bit_mask_iff)
  ultimately show ?thesis using k by (simp only: c_lshr_def) simp
qed

lemma shr_sticky_bounds:
  assumes "c * 2 ^ k \<le> n" "n < 2 * c * 2 ^ k" 
  shows "c \<le> shr_sticky k n" "shr_sticky k n < 2 * c"
proof -
  have b: "c \<le> n div 2 ^ k" "n div 2 ^ k < 2 * c"
    using assms by (simp_all add: less_eq_div_iff_mult_less_eq less_mult_imp_div_less)
  then show "c \<le> shr_sticky k n" by (simp add: shr_sticky_cases)
  have "even m \<Longrightarrow> m < 2 * c \<Longrightarrow> m + 1 < 2 * c" for m by presburger
  then show "shr_sticky k n < 2 * c" using b(2) by (simp add: shr_sticky_cases)
qed

lemma float_shorten_correct:
  fixes a :: "'a::len word"
  assumes a: "2 ^ e \<le> unat a" "unat a < 2 * 2 ^ e" and M: "1 \<le> M" "M \<le> e"
    and L: "M + 3 < LENGTH('a)" "LENGTH('a) \<le> 128"
  shows "sticky (unat (float_shorten u M a (int e + 1))) (real (unat a) * 2 ^ (M + 1) / 2 ^ e)"
    and "2 ^ (M + 1) \<le> unat (float_shorten u M a (int e + 1))"
    and "unat (float_shorten u M a (int e + 1)) < 2 * 2 ^ (M + 1)"
proof -
  let ?A = "float_shorten u M a (int e + 1)"
  have "(2::nat) ^ e < 2 ^ LENGTH('a)" using a(1) unsigned_less [where ?'a = nat, of a] by linarith
  then have eL: "e < LENGTH('a)" by simp
  consider "e = M" | "e = M + 1" | "M + 1 < e" using M(2) by linarith
  then have "sticky (unat ?A) (real (unat a) * 2 ^ (M + 1) / 2 ^ e) \<and> 2 ^ (M + 1) \<le> unat ?A \<and> unat ?A < 2 * 2 ^ (M + 1)"
  proof cases
    case 1
    have "(2::nat) * (2 * 2 ^ M) \<le> 2 ^ LENGTH('a)"
      using L(1) power_increasing [of "M + 2" "LENGTH('a)" "2::nat"] by simp
    then have "unat (push_bit 1 a) = 2 * unat a" using a 1 by (subst unat_push_below) simp_all
    moreover have "?A = push_bit 1 a" using 1 by (simp add: float_shorten_def)
    ultimately show ?thesis using a 1 sticky_exact [of "2 * unat a"] by (simp add: mult.commute)
  next
    case 2
    then have "?A = a" by (simp add: float_shorten_def)
    then show ?thesis using a 2 by simp
  next
    case 3
    define k where "k = e - (M + 1)"
    with 3 have k: "e = k + M + 1" "0 < k" by simp_all
    have "int e + 1 - (int M + 2) = int k" using k by simp
    moreover have "c_lshr u (- 1) (of_nat (LENGTH('a) + M + 2) - word_of_int (int e + 1)) = (mask k :: 'a word)"
      using shorten_mask [of k M u, where ?'a = 'a] L eL k by simp
    moreover have "c_lshr u a (word_of_int (int k)) = drop_bit k a"
    proof -
      have "unat (word_of_int (int k) :: su_int) = k" using L eL k by (subst unat_word_of_int) auto
      then show ?thesis using eL k by (simp only: c_lshr_def) simp
    qed
    ultimately have "?A = drop_bit k a OR c_bool (a AND mask k \<noteq> 0)"
      using k unfolding float_shorten_def by (simp only:) simp
    then have A: "unat ?A = shr_sticky k (unat a)"
      by (simp add: shr_sticky_def unsigned_or_eq unat_drop_bit c_bool_def word_unat_eq_iff unat_and_mask)
    have p: "(2::nat) ^ e = 2 ^ (M + 1) * 2 ^ k" "(2::real) ^ e = 2 ^ (M + 1) * 2 ^ k"
      using k by (simp_all add: power_add)
    have "real (unat a) * 2 ^ (M + 1) / 2 ^ e = real (unat a) / 2 ^ k" unfolding p by simp
    then show ?thesis
      using sticky_shr [OF sticky_exact, of k "unat a"] shr_sticky_bounds [of "2 ^ (M + 1)" k "unat a"] a
      unfolding A p by (simp add: mult.assoc)
  qed
  then show "sticky (unat ?A) (real (unat a) * 2 ^ (M + 1) / 2 ^ e)" "2 ^ (M + 1) \<le> unat ?A" "unat ?A < 2 * 2 ^ (M + 1)"
    by simp_all
qed

text \<open>Or the last digit kept into the last but two, add one, drop two digits.\<close>

lemma round_two_digits:
  "((n OR of_bool (bit n 2)) + 1) div 4 = n div 4 + of_bool (2 < n mod 4 \<or> n mod 4 = 2 \<and> odd (n div 4))" for n :: nat
proof -
  define c r where cr: "c = n div 8" "r = n mod 8"
  have n: "n = 8 * c + r" "r < 8" by (simp_all add: cr)
  have b: "bit n 2 \<longleftrightarrow> 4 \<le> r" unfolding bit_iff_odd n(1) using n(2) by (simp; presburger)
  have o: "n OR of_bool (bit n 2) = 8 * c + (if 4 \<le> r \<and> even r then r + 1 else r)"
    unfolding b using n(1) by (auto simp: or_one_eq simp del: One_nat_def)
  have d: "(8 * c + k) div 4 = 2 * c + k div 4" "(8 * c + k) mod 4 = k mod 4" for k by presburger+
  have "r = 0 \<or> r = 1 \<or> r = 2 \<or> r = 3 \<or> r = 4 \<or> r = 5 \<or> r = 6 \<or> r = 7" using n(2) by linarith
  then show ?thesis unfolding o unfolding n(1) add.assoc d by (elim disjE) simp_all
qed

lemma float_digits_wide:
  fixes a :: "'a::len word"
  assumes a: "2 ^ e \<le> unat a" "unat a < 2 * 2 ^ e" and e: "s < e"
    and L: "s + 5 < LENGTH('a)" "LENGTH('a) \<le> 128"
    and shr: "\<And>n x. unat x < 2 ^ (LENGTH('a) - 1) \<Longrightarrow> unat (shr n x) = unat x div 2 ^ n"
    and A: "A = float_shorten u (s + 1) a (int e + 1)" and t: "t = shr 2 ((A OR c_bool (A AND 4 \<noteq> 0)) + 1)"
    and y: "y = real (unat a) * 2 ^ s / 2 ^ e" and q: "q = unat A div 4"
  shows "unat t = q + of_bool (real q + 1 / 2 < y \<or> y = real q + 1 / 2 \<and> odd q)"
    and "real q \<le> y" "y < real q + 1" "2 ^ s \<le> q" "q < 2 * 2 ^ s"
proof -
  note sh = float_shorten_correct [OF a, of "s + 1" u, folded A]
  have st: "sticky (unat A) (4 * y)" and A1: "2 ^ (s + 2) \<le> unat A" "unat A < 2 * 2 ^ (s + 2)"
    using sh e L by (simp_all add: y ac_simps)
  note block = sticky_block [OF st, of 2]
  show "real q \<le> y" "y < real q + 1" using block(1,2) by (simp_all add: q)
  show q1: "2 ^ s \<le> q" and q2: "q < 2 * 2 ^ s" using A1 unfolding q by simp_all
  have cond: "2 < unat A mod 4 \<longleftrightarrow> real q + 1 / 2 < y" "unat A mod 4 = 2 \<longleftrightarrow> y = real q + 1 / 2"
    using block(3,4) by (simp_all add: q)
  have big: "2 * 2 ^ (s + 2) + 2 \<le> (2::nat) ^ (LENGTH('a) - 1)"
  proof -
    have "(2::nat) ^ (s + 4) \<le> 2 ^ (LENGTH('a) - 1)" using L by (intro power_increasing) simp_all
    moreover have "8 * p + 2 \<le> 16 * p" if "1 \<le> p" for p :: nat using that by linarith
    from this [of "2 ^ s"] have "2 * 2 ^ (s + 2) + 2 \<le> (2::nat) ^ (s + 4)" by (simp add: power_add)
    ultimately show ?thesis by linarith
  qed
  have "A AND 4 \<noteq> 0 \<longleftrightarrow> bit A 2" using and_exp_eq_0_iff_not_bit [of A 2] by simp
  then have "unat (A OR c_bool (A AND 4 \<noteq> 0)) = unat A OR of_bool (bit (unat A) 2)"
    using L by (simp add: unsigned_or_eq c_bool_def bit_unsigned_iff)
  then have o: "unat (A OR c_bool (A AND 4 \<noteq> 0)) = (unat A OR of_bool (bit (unat A) 2))" .
  have "unat A OR of_bool (bit (unat A) 2) \<le> unat A + 1" by (simp add: or_one_eq del: One_nat_def)
  then have o_le: "unat (A OR c_bool (A AND 4 \<noteq> 0)) + 1 < 2 ^ (LENGTH('a) - 1)"
    unfolding o using A1 big by linarith
  also have "(2::nat) ^ (LENGTH('a) - 1) \<le> 2 ^ LENGTH('a)" by (rule power_increasing) simp_all
  finally have p: "unat ((A OR c_bool (A AND 4 \<noteq> 0)) + 1) = (unat A OR of_bool (bit (unat A) 2)) + 1"
    using L unfolding o [symmetric] by (subst unat_add_below) simp_all
  then have "unat t = ((unat A OR of_bool (bit (unat A) 2)) + 1) div 4"
    using o_le unfolding t o by (subst shr) simp_all
  then show "unat t = q + of_bool (real q + 1 / 2 < y \<or> y = real q + 1 / 2 \<and> odd q)"
    unfolding round_two_digits cond q .
qed

lemma float_digits_correct:
  fixes a :: "'a::len word"
  assumes a: "2 ^ e \<le> unat a" "unat a < 2 * 2 ^ e" and clz: "clz a = of_nat (LENGTH('a) - 1 - e)"
    and L: "s + 5 < LENGTH('a)" "LENGTH('a) \<le> 128"
    and shr: "\<And>n x. unat x < 2 ^ (LENGTH('a) - 1) \<Longrightarrow> unat (shr n x) = unat x div 2 ^ n"
  obtains q y up a' e' where "float_digits shr u clz (s + 1) a = (a', int e')"
    "2 ^ s \<le> q" "q < 2 * 2 ^ s" "real q \<le> y" "y < real q + 1" "real (unat a) * 2 ^ s = y * 2 ^ e"
    "up \<longleftrightarrow> real q + 1 / 2 < y \<or> y = real q + 1 / 2 \<and> odd q"
    "2 ^ s \<le> unat a'" "unat a' < 2 * 2 ^ s" "e \<le> e'" "e' \<le> e + 1"
    "e' * 2 ^ s + unat a' = e * 2 ^ s + (q + of_bool up)"
proof -
  have "(2::nat) ^ e < 2 ^ LENGTH('a)" using a(1) unsigned_less [where ?'a = nat, of a] by linarith
  then have eL: "e < LENGTH('a)" by simp
  have "of_nat LENGTH('a) - clz a = (of_nat (e + 1) :: si_int)"
    unfolding clz using eL by (simp add: of_nat_diff)
  then have sd: "sint (of_nat LENGTH('a) - clz a) = int e + 1"
    using eL L by (simp add: sint_of_nat_small del: of_nat_add of_nat_Suc)
  have d: "float_digits shr u clz (s + 1) a =
    (if s < e then
       let t = shr 2 ((float_shorten u (s + 1) a (int e + 1) OR c_bool (float_shorten u (s + 1) a (int e + 1) AND 4 \<noteq> 0)) + 1)
       in if t AND push_bit (s + 1) 1 \<noteq> 0 then (shr 1 t, int (e + 1)) else (t, int e)
     else (c_shl u a (word_of_int (int (s - e))), int e))"
    unfolding float_digits_def sd Let_def by (auto simp: of_nat_diff)
  show ?thesis
  proof (cases "s < e")
    case False
    have "unat (word_of_int (int (s - e)) :: su_int) = s - e" using L by (subst unat_word_of_int) auto
    moreover have "s - e < LENGTH('a)" using L by linarith
    ultimately have sh: "c_shl u a (word_of_int (int (s - e))) = push_bit (s - e) a"
      by (simp only: c_shl_def) simp
    have b: "2 ^ s \<le> unat a * 2 ^ (s - e)" "unat a * 2 ^ (s - e) < 2 * 2 ^ s"
    proof -
      have p: "(2::nat) ^ s = 2 ^ e * 2 ^ (s - e)" using False by (simp add: power_add [symmetric])
      show "2 ^ s \<le> unat a * 2 ^ (s - e)" unfolding p using a(1) by (rule mult_le_mono1)
      show "unat a * 2 ^ (s - e) < 2 * 2 ^ s" unfolding p mult.assoc [symmetric] using a(2) by (intro mult_strict_right_mono) simp_all
    qed
    have "(2::nat) * 2 ^ s \<le> 2 ^ LENGTH('a)" using L power_increasing [of "s + 1" "LENGTH('a)" "2::nat"] by simp
    then have u: "unat (push_bit (s - e) a) = unat a * 2 ^ (s - e)" using b by (intro unat_push_below) linarith
    have "(2::real) ^ s = 2 ^ (s - e) * 2 ^ e" using False by (simp add: power_add [symmetric])
    moreover have "float_digits shr u clz (s + 1) a = (push_bit (s - e) a, int e)" unfolding d sh using False by simp
    ultimately show ?thesis
      using that [of "push_bit (s - e) a" e "unat a * 2 ^ (s - e)" "real (unat a * 2 ^ (s - e))" False] False b u
      by simp
  next
    case True
    define A where "A = float_shorten u (s + 1) a (int e + 1)"
    define t where "t = shr 2 ((A OR c_bool (A AND 4 \<noteq> 0)) + 1)"
    define y where "y = real (unat a) * 2 ^ s / 2 ^ e"
    define q where "q = unat A div 4"
    define up where "up \<longleftrightarrow> real q + 1 / 2 < y \<or> y = real q + 1 / 2 \<and> odd q"
    note w = float_digits_wide [OF a True L shr A_def t_def y_def q_def, folded up_def]
    have yN: "real (unat a) * 2 ^ s = y * 2 ^ e" by (simp add: y_def)
    have tb: "2 ^ s \<le> unat t" "unat t \<le> 2 * 2 ^ s" using w by (simp_all add: of_bool_def)
    have c: "t AND push_bit (s + 1) 1 \<noteq> 0 \<longleftrightarrow> unat t = 2 * 2 ^ s"
    proof -
      have "unat t < 2 * 2 ^ (s + 1)" using le_less_trans [OF tb(2)] by simp
      then show ?thesis using and_top_bit_iff [of t "s + 1"] tb(2) by auto
    qed
    show ?thesis
    proof (cases "unat t = 2 * 2 ^ s")
      case True
      have "unat t < 2 ^ (LENGTH('a) - 1)"
        unfolding True using L power_strict_increasing [of "s + 1" "LENGTH('a) - 1" "2::nat"] by simp
      from shr [OF this, of 1] have "unat (shr 1 t) = 2 ^ s" by (simp add: True)
      moreover have "float_digits shr u clz (s + 1) a = (shr 1 t, int (e + 1))"
        using \<open>s < e\<close> True c unfolding d Let_def A_def [symmetric] t_def [symmetric] by simp
      ultimately show ?thesis using that [OF _ w(4,5,2,3) yN up_def, of "shr 1 t" "e + 1"] w(1) True by simp
    next
      case False
      then have "float_digits shr u clz (s + 1) a = (t, int e)"
        using \<open>s < e\<close> c unfolding d Let_def A_def [symmetric] t_def [symmetric] by simp
      then show ?thesis using that [OF _ w(4,5,2,3) yN up_def, of t e] w(1) tb False by simp
    qed
  qed
qed

section \<open>The number of digits decides the exponent\<close>

text \<open>A whole number with leading digit at place \<open>e\<close>: its first digits \<open>q\<close>, rounded, at that
  exponent are the nearest pattern.\<close>

definition int_pattern :: "'r::len word fp_lib \<Rightarrow> nat \<Rightarrow> nat \<Rightarrow> nat" where
  "int_pattern F e q = (e + nat (exponentBias F) - 1) * 2 ^ significandBits F + q"

context fp_format
begin

lemma nearest_int:
  fixes y :: real
  assumes q: "2 ^ significandBits F \<le> q" "q < 2 * 2 ^ significandBits F"
    and e: "int e + exponentBias F < maxExponent F"
    and y: "real q \<le> y" "y < real q + 1" "real N * 2 ^ significandBits F = y * 2 ^ e"
    and up: "up \<longleftrightarrow> real q + 1 / 2 < y \<or> y = real q + 1 / 2 \<and> odd q"
  shows "fp_nearest F (real N * fp_scale F) (int_pattern F e q + of_bool up)"
    and "int_pattern F e q < fp_inf F"
proof -
  let ?s = "significandBits F"
  define B where "B = nat (exponentBias F)"
  have B: "exponentBias F = int B" "7 \<le> B" using exponentBias_nat by (simp_all add: B_def)
  have eB: "e + B + 1 \<le> 2 ^ exponentBits F - 1"
    using e unfolding B maxExponent_eq by (simp only: of_nat_add [symmetric] of_nat_less_iff)
  have p: "int_pattern F e q = (e + B - 1) * 2 ^ ?s + q" by (simp add: int_pattern_def B_def)
  have "e + B + 1 = (e + B - 1) + 2" using B by simp
  then have "(e + B + 1) * 2 ^ ?s = (e + B - 1) * 2 ^ ?s + 2 * 2 ^ ?s" by (simp only: distrib_right)
  then have "int_pattern F e q < (e + B + 1) * 2 ^ ?s" unfolding p using q by linarith
  also have "\<dots> \<le> fp_inf F" unfolding fp_inf_def using eB by (intro mult_le_mono1) simp
  finally show lt: "int_pattern F e q < fp_inf F" .
  have x: "real N * fp_scale F = y * 2 ^ (e + B - 1)"
  proof -
    have "real N * fp_scale F = (real N * 2 ^ ?s) * 2 ^ (B - 1)"
      using B by (simp add: fp_scale_def power_add [symmetric] add.commute B_def [symmetric])
    then show ?thesis using B by (simp add: y(3) power_add [symmetric])
  qed
  have par: "odd (int_pattern F e q) \<longleftrightarrow> odd q" unfolding p using sb_min by simp
  note mag = fp_mag_field [OF q(2), of "e + B - 1", folded p]
  show "fp_nearest F (real N * fp_scale F) (int_pattern F e q + of_bool up)"
    by (rule fp_nearest_round [OF lt mag y(1,2) x]) (use q up par in auto)
qed

end

section \<open>The pattern put together\<close>

text \<open>The pattern \<open>r\<close> is the one nearest to the whole number \<open>v\<close>.\<close>

definition nearest_to_int :: "'r::len word fp_lib \<Rightarrow> int \<Rightarrow> 'r word \<Rightarrow> bool" where
  "nearest_to_int F v r \<longleftrightarrow> fp_nearest F (\<bar>real_of_int v\<bar> * fp_scale F) (fp_abs r) \<and> (fp_sign r \<longleftrightarrow> v < 0)"

lemma nearest_to_int_0: "nearest_to_int F 0 0"
  using fp_nearest_exact [of 0 F] by (simp add: nearest_to_int_def fp_abs_def fp_sign_def)

lemma fp_join:
  "fp_abs (dwords_all p) = fp_abs (s_high p) * 2 ^ 32 + unat (s_low p)" "fp_sign (dwords_all p) = fp_sign (s_high p)"
proof -
  have "unat (dwords_all p) mod 2 ^ 63 = unat (s_high p) mod 2 ^ 31 * 2 ^ 32 + unat (s_low p)"
    using mod_mult2_eq [of "unat (dwords_all p)" "2 ^ 32" "2 ^ 31"] unsigned_less [where ?'a = nat, of "s_low p"]
    by (simp add: dw.unat_join)
  then show "fp_abs (dwords_all p) = fp_abs (s_high p) * 2 ^ 32 + unat (s_low p)" by (simp add: fp_abs_def)
  show "fp_sign (dwords_all p) = fp_sign (s_high p)" by (simp add: fp_sign_def dw.bit_join)
qed

lemma format_biases: "exponentBias single = 127" "exponentBias double = 1023" "maxExponent single = 255"
  "maxExponent double = 2047"
  by (simp_all add: exponentBias_def maxExponent_def exponentBits_def format_numbers)

lemma push_exponent:
  "unat m < 2 ^ n \<Longrightarrow> E * 2 ^ n < 2 ^ 31 \<Longrightarrow> unat (push_bit n (word_of_int (int E)) OR m :: su_int) = E * 2 ^ n + unat m"
proof -
  assume m: "unat m < 2 ^ n" and E: "E * 2 ^ n < 2 ^ 31"
  have "E * 1 \<le> E * 2 ^ n" by (intro mult_le_mono2) simp
  then have "E < 2 ^ 31" using E by linarith
  then have "unat (word_of_int (int E) :: su_int) = E" by (subst unat_word_of_int) auto
  then show ?thesis using unat_push_or [OF m, of "word_of_int (int E)"] E by simp
qed

lemma low_field: "LENGTH('b::len) \<le> LENGTH('a::len) \<Longrightarrow> n < LENGTH('b) \<Longrightarrow>
    unat (ucast (x :: 'a word) AND of_nat (2 ^ n - 1) :: 'b word) = unat x mod 2 ^ n"
proof -
  assume l: "LENGTH('b) \<le> LENGTH('a)" "n < LENGTH('b)"
  have "(of_nat (2 ^ n - 1) :: 'b word) = mask n" by (simp add: mask_eq_exp_minus_1 of_nat_diff)
  then have "unat (ucast x AND of_nat (2 ^ n - 1) :: 'b word) = unat (ucast x :: 'b word) mod 2 ^ n"
    by (simp only: unat_and_mask)
  also have "unat (ucast x :: 'b word) = unat x mod 2 ^ LENGTH('b)" by (simp add: unsigned_ucast_eq take_bit_eq_mod)
  also have "unat x mod 2 ^ LENGTH('b) mod 2 ^ n = unat x mod 2 ^ n"
    using l by (intro mod_mod_cancel) (simp add: le_imp_power_dvd)
  finally show ?thesis .
qed

text \<open>The fields, with the significand's leading digit at its place, make the rounded pattern.\<close>

lemma float_single:
  fixes a :: "'a::len word"
  assumes a: "2 ^ e \<le> unat a" "unat a < 2 * 2 ^ e" and clz: "clz a = of_nat (LENGTH('a) - 1 - e)"
    and L: "32 \<le> LENGTH('a)" "LENGTH('a) \<le> 128"
    and shr: "\<And>n x. unat x < 2 ^ (LENGTH('a) - 1) \<Longrightarrow> unat (shr n x) = unat x div 2 ^ n"
    and v: "\<bar>v\<bar> = int (unat a)" and sw: "sw = (if v < 0 then 0x80000000 else 0)"
    and r: "r = (case float_digits shr u clz 24 a of (a, e) \<Rightarrow>
      (sw OR push_bit 23 (word_of_int (e + 127))) OR (ucast a AND 0x007FFFFF))"
  shows "nearest_to_int single v r"
proof -
  have e: "e < 128" using a(1) unsigned_less [where ?'a = nat, of a] L(2)
    by (metis le_less_trans less_le_trans nat_power_less_imp_less zero_less_numeral)
  have s: "23 + 5 < LENGTH('a)" using L by simp
  obtain q y up a' e' where d: "float_digits shr u clz (23 + 1) a = (a', int e')"
    and q: "2 ^ 23 \<le> q" "q < 2 * 2 ^ 23" "real q \<le> y" "y < real q + 1" "real (unat a) * 2 ^ 23 = y * 2 ^ e"
    "up \<longleftrightarrow> real q + 1 / 2 < y \<or> y = real q + 1 / 2 \<and> odd q"
    and a': "2 ^ 23 \<le> unat a'" "unat a' < 2 * 2 ^ 23" "e \<le> e'" "e' \<le> e + 1"
    "e' * 2 ^ 23 + unat a' = e * 2 ^ 23 + (q + of_bool up)"
    by (rule float_digits_correct [of e a clz 23 shr u, OF a clz s L(2) shr])
  have near: "fp_nearest single (real (unat a) * fp_scale single) (int_pattern single e q + of_bool up)"
    and lt: "int_pattern single e q < fp_inf single"
    using sgl.nearest_int [of q e y "unat a" up] q e by (simp_all add: format_numbers format_biases)
  define m :: su_int where "m = ucast a' AND 0x007FFFFF"
  have "unat m = unat a' mod 2 ^ 23" using low_field [of 23 a', where ?'b = 32] L by (simp add: m_def)
  also have "\<dots> = unat a' - 2 ^ 23" using a' by (simp add: mod_if)
  finally have m: "unat m = unat a' - 2 ^ 23" "unat m < 2 ^ 23" using a' by simp_all
  have "unat (push_bit 23 (word_of_int (int (e' + 127))) OR m) = (e' + 127) * 2 ^ 23 + unat m"
    using m e a' by (intro push_exponent) simp_all
  also have "\<dots> = int_pattern single e q + of_bool up"
    using a' by (simp add: int_pattern_def format_numbers format_biases m(1))
  finally have w: "unat (push_bit 23 (word_of_int (int (e' + 127))) OR m) = int_pattern single e q + of_bool up" .
  have "r = (push_bit 23 (word_of_int (int (e' + 127))) OR m) OR (if v < 0 then signBit single else 0)"
    using d unfolding r m_def sw format_words by (simp add: or.assoc or.commute or.left_commute)
  moreover have "unat (push_bit 23 (word_of_int (int (e' + 127))) OR m) < 2 ^ (LENGTH(32) - 1)"
    unfolding w using lt sgl.fp_inf_less by simp
  ultimately have "fp_abs r = int_pattern single e q + of_bool up" "fp_sign r \<longleftrightarrow> v < 0"
    using sgl.fp_compose w by simp_all
  moreover have "\<bar>real_of_int v\<bar> = real (unat a)" using v by (metis of_int_abs of_int_of_nat_eq)
  ultimately show ?thesis using near by (simp add: nearest_to_int_def)
qed

lemma float_double:
  fixes a :: "'a::len word"
  assumes a: "2 ^ e \<le> unat a" "unat a < 2 * 2 ^ e" and clz: "clz a = of_nat (LENGTH('a) - 1 - e)"
    and L: "64 \<le> LENGTH('a)" "LENGTH('a) \<le> 128"
    and shr: "\<And>n x. unat x < 2 ^ (LENGTH('a) - 1) \<Longrightarrow> unat (shr n x) = unat x div 2 ^ n"
    and v: "\<bar>v\<bar> = int (unat a)" and sw: "sw = (if v < 0 then 0x80000000 else 0)"
    and r: "r = (case float_digits shr u clz 53 a of (a, e) \<Rightarrow> dwords_all
      \<lparr> s_high = (sw OR push_bit 20 (word_of_int (e + 1023))) OR (ucast (shr 32 a) AND 0x000FFFFF), s_low = ucast a \<rparr>)"
  shows "nearest_to_int double v r"
proof -
  have e: "e < 128" using a(1) unsigned_less [where ?'a = nat, of a] L(2)
    by (metis le_less_trans less_le_trans nat_power_less_imp_less zero_less_numeral)
  have s: "52 + 5 < LENGTH('a)" using L by simp
  obtain q y up a' e' where d: "float_digits shr u clz (52 + 1) a = (a', int e')"
    and q: "2 ^ 52 \<le> q" "q < 2 * 2 ^ 52" "real q \<le> y" "y < real q + 1" "real (unat a) * 2 ^ 52 = y * 2 ^ e"
    "up \<longleftrightarrow> real q + 1 / 2 < y \<or> y = real q + 1 / 2 \<and> odd q"
    and a': "2 ^ 52 \<le> unat a'" "unat a' < 2 * 2 ^ 52" "e \<le> e'" "e' \<le> e + 1"
    "e' * 2 ^ 52 + unat a' = e * 2 ^ 52 + (q + of_bool up)"
    by (rule float_digits_correct [of e a clz 52 shr u, OF a clz s L(2) shr])
  have near: "fp_nearest double (real (unat a) * fp_scale double) (int_pattern double e q + of_bool up)"
    and lt: "int_pattern double e q < fp_inf double"
    using dbl.nearest_int [of q e y "unat a" up] q e by (simp_all add: format_numbers format_biases)
  define m :: su_int where "m = ucast (shr 32 a') AND 0x000FFFFF"
  have "(2::nat) ^ 63 \<le> 2 ^ (LENGTH('a) - 1)" using L by (intro power_increasing) simp_all
  then have "unat (shr 32 a') = unat a' div 2 ^ 32" using a' by (intro shr) simp
  then have m_eq: "unat m = unat a' div 2 ^ 32 mod 2 ^ 20" using low_field [of 20 "shr 32 a'", where ?'b = 32] L by (simp add: m_def)
  then have m: "unat m < 2 ^ 20" by simp
  define h :: su_int where "h = push_bit 20 (word_of_int (int (e' + 1023))) OR m"
  have h: "unat h = (e' + 1023) * 2 ^ 20 + unat m"
    unfolding h_def using m e a' by (intro push_exponent) simp_all
  have r_eq: "r = dwords_all \<lparr> s_high = h OR (if v < 0 then signBit single else 0), s_low = ucast a' \<rparr>"
    using d unfolding r h_def m_def sw format_words by (simp add: or.assoc or.commute or.left_commute)
  have "unat h < 2 ^ (LENGTH(32) - 1)" unfolding h using m e a' by simp
  note c = sgl.fp_compose [OF this]
  have "fp_abs r = unat h * 2 ^ 32 + unat (ucast a' :: su_int)" "fp_sign r \<longleftrightarrow> v < 0"
    unfolding r_eq fp_join using c by simp_all
  moreover have "unat (ucast a' :: su_int) = unat a' mod 2 ^ 32" by (simp add: unsigned_ucast_eq take_bit_eq_mod)
  moreover have "unat m * 2 ^ 32 + unat a' mod 2 ^ 32 = unat a' - 2 ^ 52"
  proof -
    have "unat a' mod (2 ^ 32 * 2 ^ 20) = 2 ^ 32 * (unat a' div 2 ^ 32 mod 2 ^ 20) + unat a' mod 2 ^ 32"
      by (rule mod_mult2_eq)
    moreover have "unat a' mod 2 ^ 52 = unat a' - 2 ^ 52" using a' by (simp add: mod_if)
    ultimately show ?thesis by (simp add: m_eq)
  qed
  ultimately have "fp_abs r = (e' + 1023) * 2 ^ 52 + (unat a' - 2 ^ 52)" "fp_sign r \<longleftrightarrow> v < 0"
    unfolding h by (simp_all add: distrib_right)
  moreover have "(e' + 1023) * 2 ^ 52 + (unat a' - 2 ^ 52) = int_pattern double e q + of_bool up"
    using a' by (simp add: int_pattern_def format_numbers format_biases)
  moreover have "\<bar>real_of_int v\<bar> = real (unat a)" using v by (metis of_int_abs of_int_of_nat_eq)
  ultimately show ?thesis using near by (simp add: nearest_to_int_def)
qed

text \<open>The leading digit, the absolute value and the shifts of the routines.\<close>

lemma leading_digit:
  fixes a :: "'a::len word"
  assumes "a \<noteq> 0"
  obtains e where "2 ^ e \<le> unat a" "unat a < 2 * 2 ^ e" "nlz a = LENGTH('a) - 1 - e" "e < LENGTH('a)"
proof -
  note b = nlz_bounds [OF assms]
  have "LENGTH('a) - nlz a = Suc (LENGTH('a) - 1 - nlz a)" using b(1) by simp
  then have "unat a < 2 * 2 ^ (LENGTH('a) - 1 - nlz a)" using b(3) by simp
  then show ?thesis using that [of "LENGTH('a) - 1 - nlz a"] b by simp
qed

lemma abs_word:
  fixes a :: "'a::len word"
  shows "\<bar>sint a\<bar> = int (unat (if a <s 0 then - a else a))" and "a \<noteq> 0 \<Longrightarrow> (if a <s 0 then - a else a) \<noteq> 0"
    and "(a XOR signed_drop_bit (LENGTH('a) - 1) a) - signed_drop_bit (LENGTH('a) - 1) a = (if a <s 0 then - a else a)"
proof -
  show "\<bar>sint a\<bar> = int (unat (if a <s 0 then - a else a))"
  proof (cases "a <s 0")
    case True
    then have s: "sint a < 0" "a \<noteq> 0" by (auto simp: word_sless_alt)
    then have "bit a (LENGTH('a) - 1)" by (simp add: bit_last_iff)
    then have "sint a = uint a - 2 ^ LENGTH('a)" by (simp add: sint_uint_cases)
    moreover have "int (unat (- a)) = 2 ^ LENGTH('a) - uint a"
      using s unat_minus_word [of a] unsigned_less [where ?'a = nat, of a]
      by (simp add: of_nat_diff less_imp_le of_nat_unat)
    ultimately show ?thesis using True s by simp
  next
    case False
    then have s: "0 \<le> sint a" by (auto simp: word_sless_alt)
    then have "\<not> bit a (LENGTH('a) - 1)" by (simp add: bit_last_iff)
    then have "sint a = uint a" by (simp add: sint_uint_cases)
    then show ?thesis using False s by (simp add: of_nat_unat)
  qed
  show "(a XOR signed_drop_bit (LENGTH('a) - 1) a) - signed_drop_bit (LENGTH('a) - 1) a = (if a <s 0 then - a else a)"
    unfolding sign_mask by (simp add: not_eq_complement)
qed simp

lemma drop_bit_signed:
  fixes x :: "'a::len word"
  assumes "unat x < 2 ^ (LENGTH('a) - 1)"
  shows "unat (signed_drop_bit n x) = unat x div 2 ^ n"
proof -
  have "\<not> bit x (LENGTH('a) - 1)" using bit_imp_unat_ge [of x "LENGTH('a) - 1"] assms by auto
  then have "signed_drop_bit n x = drop_bit n x"
    by (intro bit_word_eqI) (auto simp: bit_signed_drop_bit_iff bit_drop_bit_eq dest: bit_imp_le_length)
  then show ?thesis by (simp add: unat_drop_bit)
qed

lemma sign_field:
  assumes "32 \<le> LENGTH('a)"
  shows "(ucast (signed_drop_bit (LENGTH('a) - 1) (a :: 'a::len word)) AND 0x80000000 :: su_int) =
    (if sint a < 0 then 0x80000000 else 0)"
proof -
  have "(ucast (- 1 :: 'a word) :: su_int) = - 1"
    using assms by (intro bit_word_eqI) (auto simp: bit_ucast_iff)
  then show ?thesis unfolding sign_mask by (simp add: word_sless_alt)
qed

section \<open>The routines\<close>

lemma float_wide_signed:
  "nearest_to_int single (sint a) (floatdisf u a)"
  "nearest_to_int double (sint a) (floatdidf_soft u a)"
  "nearest_to_int single (sint b) (floattisf u b)"
  "nearest_to_int double (sint b) (floattidf u b)"
proof -
  have di: "nearest_to_int single (sint a) (floatdisf u a) \<and> nearest_to_int double (sint a) (floatdidf_soft u a)"
  proof (cases "a = 0")
    case False
    define x where "x = (if a <s 0 then - a else a)"
    have x: "x \<noteq> 0" "\<bar>sint a\<bar> = int (unat x)" "(a XOR signed_drop_bit (64 - 1) a) - signed_drop_bit (64 - 1) a = x"
      using abs_word [of a] False by (simp_all add: x_def)
    obtain e where e: "2 ^ e \<le> unat x" "unat x < 2 * 2 ^ e" "nlz x = LENGTH(64) - 1 - e"
      by (rule leading_digit [OF x(1)])
    have c: "builtin_clz u x = of_nat (LENGTH(64) - 1 - e)" using x(1) e(3) by (simp add: builtin_clz_def)
    note sg = sign_field [of a, simplified]
    show ?thesis
      using False float_single [where clz = "builtin_clz u" and u = u and shr = signed_drop_bit, OF e(1,2) c _ _ drop_bit_signed x(2) refl refl]
        float_double [where clz = "builtin_clz u" and u = u and shr = signed_drop_bit, OF e(1,2) c _ _ drop_bit_signed x(2) refl refl]
      by (simp add: floatdisf_def floatdidf_soft_def Let_def x(3) [simplified] sg FLT_MANT_DIG_def DBL_MANT_DIG_def)
  qed (simp add: floatdisf_def floatdidf_soft_def nearest_to_int_0)
  have ti: "nearest_to_int single (sint b) (floattisf u b) \<and> nearest_to_int double (sint b) (floattidf u b)"
  proof (cases "b = 0")
    case False
    define x where "x = (if b <s 0 then - b else b)"
    have x: "x \<noteq> 0" "\<bar>sint b\<bar> = int (unat x)" "(b XOR signed_drop_bit (128 - 1) b) - signed_drop_bit (128 - 1) b = x"
      using abs_word [of b] False by (simp_all add: x_def)
    obtain e where e: "2 ^ e \<le> unat x" "unat x < 2 * 2 ^ e" "nlz x = LENGTH(128) - 1 - e"
      by (rule leading_digit [OF x(1)])
    have c: "clzti2 u x = of_nat (LENGTH(128) - 1 - e)" using x(1) e(3) by (simp add: clzti2_eq)
    note sg = sign_field [of b, simplified]
    show ?thesis
      using False float_single [where clz = "clzti2 u" and u = u and shr = signed_drop_bit, OF e(1,2) c _ _ drop_bit_signed x(2) refl refl]
        float_double [where clz = "clzti2 u" and u = u and shr = signed_drop_bit, OF e(1,2) c _ _ drop_bit_signed x(2) refl refl]
      by (simp add: floattisf_def floattidf_def Let_def x(3) [simplified] sg FLT_MANT_DIG_def DBL_MANT_DIG_def)
  qed (simp add: floattisf_def floattidf_def nearest_to_int_0)
  show "nearest_to_int single (sint a) (floatdisf u a)" "nearest_to_int double (sint a) (floatdidf_soft u a)"
    "nearest_to_int single (sint b) (floattisf u b)" "nearest_to_int double (sint b) (floattidf u b)"
    using di ti by simp_all
qed

lemma float_wide_unsigned:
  "nearest_to_int single (uint a) (floatundisf u a)"
  "nearest_to_int double (uint a) (floatundidf_soft u a)"
  "nearest_to_int single (uint b) (floatuntisf u b)"
  "nearest_to_int double (uint b) (floatuntidf u b)"
proof -
  have v: "\<bar>uint x\<bar> = int (unat x)" "\<not> uint x < 0" for x :: "'a::len word" by (simp_all add: of_nat_unat)
  have di: "nearest_to_int single (uint a) (floatundisf u a) \<and> nearest_to_int double (uint a) (floatundidf_soft u a)"
  proof (cases "a = 0")
    case False
    obtain e where e: "2 ^ e \<le> unat a" "unat a < 2 * 2 ^ e" "nlz a = LENGTH(64) - 1 - e"
      by (rule leading_digit [OF False])
    have c: "builtin_clz u a = of_nat (LENGTH(64) - 1 - e)" using False e(3) by (simp add: builtin_clz_def)
    show ?thesis
      using False float_single [where clz = "builtin_clz u" and u = u and shr = drop_bit, OF e(1,2) c _ _ unat_drop_bit v(1) refl refl]
        float_double [where clz = "builtin_clz u" and u = u and shr = drop_bit, OF e(1,2) c _ _ unat_drop_bit v(1) refl refl] v(2)
      by (simp add: floatundisf_def floatundidf_soft_def FLT_MANT_DIG_def DBL_MANT_DIG_def)
  qed (simp add: floatundisf_def floatundidf_soft_def nearest_to_int_0)
  have ti: "nearest_to_int single (uint b) (floatuntisf u b) \<and> nearest_to_int double (uint b) (floatuntidf u b)"
  proof (cases "b = 0")
    case False
    obtain e where e: "2 ^ e \<le> unat b" "unat b < 2 * 2 ^ e" "nlz b = LENGTH(128) - 1 - e"
      by (rule leading_digit [OF False])
    have c: "clzti2 u b = of_nat (LENGTH(128) - 1 - e)" using False e(3) by (simp add: clzti2_eq)
    show ?thesis
      using False float_single [where clz = "clzti2 u" and u = u and shr = drop_bit, OF e(1,2) c _ _ unat_drop_bit v(1) refl refl]
        float_double [where clz = "clzti2 u" and u = u and shr = drop_bit, OF e(1,2) c _ _ unat_drop_bit v(1) refl refl] v(2)
      by (simp add: floatuntisf_def floatuntidf_def FLT_MANT_DIG_def DBL_MANT_DIG_def)
  qed (simp add: floatuntisf_def floatuntidf_def nearest_to_int_0)
  show "nearest_to_int single (uint a) (floatundisf u a)" "nearest_to_int double (uint a) (floatundidf_soft u a)"
    "nearest_to_int single (uint b) (floatuntisf u b)" "nearest_to_int double (uint b) (floatuntidf u b)"
    using di ti by simp_all
qed

text \<open>The routines for 32 bits.\<close>

lemma floatsi_shift_correct:
  fixes a :: su_int
  assumes a: "2 ^ e \<le> unat a" "unat a < 2 * 2 ^ e"
  obtains q y up where "2 ^ 23 \<le> q" "q < 2 * 2 ^ 23" "real q \<le> y" "y < real q + 1"
    "real (unat a) * 2 ^ 23 = y * 2 ^ e" "up \<longleftrightarrow> real q + 1 / 2 < y \<or> y = real q + 1 / 2 \<and> odd q"
    "unat (floatsi_shift u a (int e)) = q - 2 ^ 23 + of_bool up"
proof -
  have "(2::nat) ^ e < 2 ^ 32" using a(1) unsigned_less [where ?'a = nat, of a] by simp
  then have e32: "e < 32" by (rule power_less_imp_less_exp [rotated]) simp
  have i: "implicitBit single = push_bit 23 1" by (simp add: implicitBit_def format_numbers)
  show ?thesis
  proof (cases "e \<le> 23")
    case True
    have w: "unat (word_of_int (int 23 - int e) :: su_int) = 23 - e" using True by (subst unat_word_of_int) auto
    have p: "(2::nat) ^ 23 = 2 ^ e * 2 ^ (23 - e)" "(2::real) ^ 23 = 2 ^ (23 - e) * 2 ^ e"
      using True by (simp_all only: power_add [symmetric]) simp_all
    define q where "q = unat a * 2 ^ (23 - e)"
    have q: "2 ^ 23 \<le> q" "q < 2 * 2 ^ 23"
      unfolding q_def p mult.assoc [symmetric] using a by (simp_all only: mult_le_mono1, intro mult_strict_right_mono) simp_all
    then have u: "unat (push_bit (23 - e) a) = q" unfolding q_def by (intro unat_push_below) simp
    then have "bit (push_bit (23 - e) a) 23" using top_bit_iff [of "push_bit (23 - e) a" 23] q by simp
    from clear_bit [OF this] have "unat (push_bit (23 - e) a XOR implicitBit single) = q - 2 ^ 23" unfolding u i .
    moreover have "floatsi_shift u a (int e) = push_bit (23 - e) a XOR implicitBit single"
    proof -
      have "23 - e < 32" by simp
      then show ?thesis using True w unfolding floatsi_shift_def Let_def format_numbers c_shl_def by simp
    qed
    moreover have "real (unat a) * 2 ^ 23 = real q * 2 ^ e" unfolding p(2) q_def by simp
    ultimately show ?thesis using that [of q "real q" False] q by simp
  next
    case False
    define k where "k = e - 23"
    have k: "e = 23 + k" "0 < k" "k < 9" using False e32 by (simp_all add: k_def)
    define q where "q = unat a div 2 ^ k"
    define r where "r = unat a mod 2 ^ k"
    have N: "unat a = q * 2 ^ k + r" "r < 2 ^ k" unfolding q_def r_def by (rule div_mult_mod_eq [symmetric]) simp
    have p: "(2::nat) ^ e = 2 ^ 23 * 2 ^ k" "(2::real) ^ e = 2 ^ 23 * 2 ^ k" by (simp_all add: k power_add)
    have q: "2 ^ 23 \<le> q" "q < 2 * 2 ^ 23"
      using a unfolding q_def p by (simp_all add: less_eq_div_iff_mult_less_eq less_mult_imp_div_less)
    have half: "(2::nat) ^ k = 2 * 2 ^ (k - 1)" using k(2) by (simp flip: power_Suc)
    define y where "y = real (unat a) / 2 ^ k"
    have y: "y = real q + real r / 2 ^ k" by (simp add: y_def N add_divide_distrib)
    have hr: "(2::real) ^ k = 2 * 2 ^ (k - 1)" using k(2) by (simp flip: power_Suc)
    have rr: "real r < 2 ^ k" using N(2) by (metis of_nat_less_iff of_nat_numeral of_nat_power)
    have gt: "real q + 1 / 2 < y \<longleftrightarrow> 2 ^ (k - 1) < r"
    proof -
      have "real q + 1 / 2 < y \<longleftrightarrow> real (2 ^ (k - 1)) < real r" unfolding y hr by (simp add: field_simps)
      then show ?thesis by (simp only: of_nat_less_iff)
    qed
    have tie: "y = real q + 1 / 2 \<longleftrightarrow> r = 2 ^ (k - 1)"
    proof -
      have "y = real q + 1 / 2 \<longleftrightarrow> real r = real (2 ^ (k - 1))" unfolding y hr by (simp add: field_simps)
      then show ?thesis by (simp only: of_nat_eq_iff)
    qed
    have w: "unat (word_of_int (int e - int 23) :: su_int) = k" "unat (word_of_int (32 - (int e - int 23)) :: su_int) = 32 - k"
      using k by (subst unat_word_of_int; auto)+
    have u: "unat (drop_bit k a) = q" by (simp add: unat_drop_bit q_def)
    then have "bit (drop_bit k a) 23" using top_bit_iff [of "drop_bit k a" 23] q by simp
    from clear_bit [OF this] have R: "unat (drop_bit k a XOR implicitBit single) = q - 2 ^ 23" unfolding u i .
    define R where "R = drop_bit k a XOR implicitBit single"
    have round: "unat (push_bit (32 - k) a) = r * 2 ^ (32 - k)"
    proof -
      have P: "(2::nat) ^ 32 = 2 ^ k * 2 ^ (32 - k)" using k by (simp flip: power_add)
      have "unat (push_bit (32 - k) a) = unat a * 2 ^ (32 - k) mod 2 ^ 32" using unat_push_bit [of "32 - k" a] by simp
      also have "\<dots> = r * 2 ^ (32 - k)" unfolding P r_def by (rule mod_mult_mult2)
      finally show ?thesis .
    qed
    have s31: "unat (signBit single) = 2 ^ (k - 1) * 2 ^ (32 - k)" using k by (simp add: sgl.unat_signBit flip: power_add)
    have c: "push_bit (32 - k) a > signBit single \<longleftrightarrow> 2 ^ (k - 1) < r" "push_bit (32 - k) a = signBit single \<longleftrightarrow> r = 2 ^ (k - 1)"
      unfolding word_less_nat_alt word_unat_eq_iff round s31 by simp_all
    have "R AND 1 = of_bool (odd q)"
    proof -
      have "fp_abs R = q - 2 ^ 23" using R q by (simp add: R_def fp_abs_def)
      then have "R AND 1 = of_bool (odd (q - 2 ^ 23))" by (simp only: sgl.odd_fp_abs)
      also have "odd (q - 2 ^ 23) \<longleftrightarrow> odd q" using q(1) by simp
      finally show ?thesis .
    qed
    define up where "up \<longleftrightarrow> real q + 1 / 2 < y \<or> y = real q + 1 / 2 \<and> odd q"
    have "floatsi_shift u a (int e) =
      (let R = if push_bit (32 - k) a > signBit single then R + 1 else R
       in if push_bit (32 - k) a = signBit single then R + (R AND 1) else R)"
      using k w unfolding floatsi_shift_def Let_def format_numbers c_shl_def c_lshr_def R_def by simp
    also have "\<dots> = R + of_bool up"
      unfolding c Let_def up_def gt tie using \<open>R AND 1 = of_bool (odd q)\<close> by auto
    finally have "floatsi_shift u a (int e) = R + of_bool up" .
    moreover have "unat (R + of_bool up) = q - 2 ^ 23 + of_bool up"
      using R q unfolding R_def by (subst unat_add_below) (auto simp: of_bool_def)
    ultimately have "unat (floatsi_shift u a (int e)) = q - 2 ^ 23 + of_bool up" by simp
    moreover have "real (unat a) * 2 ^ 23 = y * 2 ^ e" by (simp add: y_def p)
    moreover have "real q \<le> y" "y < real q + 1" using rr by (simp_all add: y)
    ultimately show ?thesis using that [of q y up] q up_def by blast
  qed
qed

lemma add_exponent:
  fixes R :: "'r::len word"
  assumes "unat R = m" "(E + 1) * 2 ^ n < 2 ^ LENGTH('r)" "m \<le> 2 ^ n"
  shows "unat (R + push_bit n (word_of_int (int E))) = E * 2 ^ n + m"
proof -
  have "E \<le> E * 2 ^ n" by simp
  then have "E < 2 ^ LENGTH('r)" using assms(2) unfolding distrib_right by linarith
  then have "unat (word_of_int (int E) :: 'r word) = E" by (simp add: unat_of_nat take_bit_eq_mod)
  then have "unat (push_bit n (word_of_int (int E) :: 'r word)) = E * 2 ^ n"
    using assms(2) by (subst unat_push_below) (simp_all add: distrib_right)
  then show ?thesis using assms by (subst unat_add_below) (simp_all add: distrib_right)
qed

lemma floatsi_exponent: "x \<noteq> 0 \<Longrightarrow> nlz x = LENGTH(32) - 1 - e \<Longrightarrow> e < LENGTH(32) \<Longrightarrow>
    31 - sint (builtin_clz u (x :: su_int)) = int e"
  using sint_builtin_clz [of x u] by simp

lemma floatsi_single:
  fixes x :: su_int
  assumes x: "x \<noteq> 0" and v: "\<bar>v\<bar> = int (unat x)"
  shows "nearest_to_int single v ((floatsi_shift u x (31 - sint (builtin_clz u x)) +
    push_bit (significandBits single) (word_of_int (31 - sint (builtin_clz u x) + exponentBias single))) OR
    (if v < 0 then signBit single else 0))"
proof -
  obtain e where e: "2 ^ e \<le> unat x" "unat x < 2 * 2 ^ e" "nlz x = LENGTH(32) - 1 - e" "e < LENGTH(32)"
    by (rule leading_digit [OF x])
  obtain q y up where q: "2 ^ 23 \<le> q" "q < 2 * 2 ^ 23" "real q \<le> y" "y < real q + 1"
    "real (unat x) * 2 ^ 23 = y * 2 ^ e" "up \<longleftrightarrow> real q + 1 / 2 < y \<or> y = real q + 1 / 2 \<and> odd q"
    and R: "unat (floatsi_shift u x (int e)) = q - 2 ^ 23 + of_bool up"
    by (rule floatsi_shift_correct [OF e(1,2)])
  have near: "fp_nearest single (real (unat x) * fp_scale single) (int_pattern single e q + of_bool up)"
    and lt: "int_pattern single e q < fp_inf single"
    using sgl.nearest_int [of q e y "unat x" up] q e(4) by (simp_all add: format_numbers format_biases)
  define w where "w = floatsi_shift u x (int e) + push_bit 23 (word_of_int (int (e + 127)))"
  have "unat w = (e + 127) * 2 ^ 23 + (q - 2 ^ 23 + of_bool up)"
    unfolding w_def using R q(1,2) e(4) by (intro add_exponent) (auto simp: of_bool_def)
  also have "\<dots> = int_pattern single e q + of_bool up"
    using q by (simp add: int_pattern_def format_numbers format_biases)
  finally have w: "unat w = int_pattern single e q + of_bool up" .
  then have "unat w < 2 ^ (LENGTH(32) - 1)" using lt sgl.fp_inf_less by simp
  note c = sgl.fp_compose [OF this, of "v < 0"]
  have "\<bar>real_of_int v\<bar> = real (unat x)" using v by (metis of_int_abs of_int_of_nat_eq)
  then show ?thesis
    unfolding floatsi_exponent [OF x e(3,4)] format_numbers(3,4) format_biases nearest_to_int_def
    using c near w by (simp add: w_def add.commute)
qed

lemma floatsi_double:
  fixes x :: su_int
  assumes x: "x \<noteq> 0" and v: "\<bar>v\<bar> = int (unat x)"
  shows "nearest_to_int double v (((c_shl u (ucast x) (word_of_int (int (significandBits double) - (31 - sint (builtin_clz u x)))) XOR
      implicitBit double) + push_bit (significandBits double) (word_of_int (31 - sint (builtin_clz u x) + exponentBias double))) OR
    (if v < 0 then signBit double else 0))"
proof -
  obtain e where e: "2 ^ e \<le> unat x" "unat x < 2 * 2 ^ e" "nlz x = LENGTH(32) - 1 - e" "e < LENGTH(32)"
    by (rule leading_digit [OF x])
  define k where "k = 52 - e"
  have k: "52 = e + k" "0 < k" using e(4) by (simp_all add: k_def)
  define q where "q = unat x * 2 ^ k"
  have p: "(2::nat) ^ 52 = 2 ^ e * 2 ^ k" "(2::real) ^ 52 = 2 ^ k * 2 ^ e"
    by (simp_all only: k(1) power_add mult.commute)
  have q: "2 ^ 52 \<le> q" "q < 2 * 2 ^ 52"
    unfolding q_def p mult.assoc [symmetric] using e by (simp_all only: mult_le_mono1, intro mult_strict_right_mono) simp_all
  have near: "fp_nearest double (real (unat x) * fp_scale double) (int_pattern double e q + of_bool False)"
    and lt: "int_pattern double e q < fp_inf double"
    using dbl.nearest_int [of q e "real q" "unat x" False] q e(4) p(2)
    by (simp_all only: format_numbers format_biases) (simp_all add: q_def)
  have i: "implicitBit double = push_bit 52 1" by (simp add: implicitBit_def format_numbers)
  have u: "unat (push_bit k (ucast x :: du_int)) = q"
    using q by (subst unat_push_below) (simp_all add: q_def dw.unat_ucast_half)
  then have "bit (push_bit k (ucast x :: du_int)) 52" using top_bit_iff [of "push_bit k (ucast x :: du_int)" 52] q by simp
  from clear_bit [OF this] have R: "unat (push_bit k (ucast x :: du_int) XOR implicitBit double) = q - 2 ^ 52" unfolding u i .
  define w where "w = (push_bit k (ucast x :: du_int) XOR implicitBit double) + push_bit 52 (word_of_int (int (e + 1023)))"
  have "unat w = (e + 1023) * 2 ^ 52 + (q - 2 ^ 52)"
    unfolding w_def using R q e(4) by (intro add_exponent) simp_all
  also have "\<dots> = int_pattern double e q" using q by (simp add: int_pattern_def format_numbers format_biases)
  finally have w: "unat w = int_pattern double e q" .
  then have "unat w < 2 ^ (LENGTH(64) - 1)" using lt dbl.fp_inf_less by simp
  note c = dbl.fp_compose [OF this, of "v < 0"]
  have "int 52 - int e = int k" using k(1) by simp
  moreover have "unat (word_of_int (int k) :: su_int) = k" using k by (subst unat_word_of_int) auto
  ultimately have sh: "c_shl u (ucast x :: du_int) (word_of_int (int 52 - int e)) = push_bit k (ucast x)"
    using k by (simp only: c_shl_def) simp
  have "\<bar>real_of_int v\<bar> = real (unat x)" using v by (metis of_int_abs of_int_of_nat_eq)
  then show ?thesis
    unfolding floatsi_exponent [OF x e(3,4)] format_numbers(3,4) format_biases nearest_to_int_def sh
    using c near w by (simp add: w_def add.commute)
qed

lemma float_si_routines:
  "nearest_to_int single (sint a) (floatsisf u a)" "nearest_to_int single (uint a) (floatunsisf u a)"
  "nearest_to_int double (sint a) (floatsidf u a)" "nearest_to_int double (uint a) (floatunsidf u a)"
proof -
  have "nearest_to_int single (sint a) (floatsisf u a) \<and> nearest_to_int single (uint a) (floatunsisf u a) \<and>
    nearest_to_int double (sint a) (floatsidf u a) \<and> nearest_to_int double (uint a) (floatunsidf u a)"
  proof (cases "a = 0")
    case False
    have s: "a <s 0 \<longleftrightarrow> sint a < 0" by (simp add: word_sless_alt)
    define x where "x = (if sint a < 0 then - a else a)"
    have x: "x \<noteq> 0" "\<bar>sint a\<bar> = int (unat x)" using abs_word [of a] False by (simp_all add: x_def s)
    have v: "\<bar>uint a\<bar> = int (unat a)" "\<not> uint a < 0" by (simp_all add: of_nat_unat)
    have w: "(32 - 1 :: int) = 31" by simp
    show ?thesis
      using floatsi_single [OF x, of u] floatsi_single [OF False v(1), of u]
        floatsi_double [OF x, of u] floatsi_double [OF False v(1), of u] False v(2)
      unfolding floatsisf_def floatunsisf_def floatsidf_def floatunsidf_def Let_def s x_def [symmetric] w
      by (simp only: if_False or.right_neutral)
  qed (simp add: floatsisf_def floatunsisf_def floatsidf_def floatunsidf_def nearest_to_int_0)
  then show "nearest_to_int single (sint a) (floatsisf u a)" "nearest_to_int single (uint a) (floatunsisf u a)"
    "nearest_to_int double (sint a) (floatsidf u a)" "nearest_to_int double (uint a) (floatunsidf u a)" by simp_all
qed

section \<open>The sum of large doubles\<close>

text \<open>A whole number with few significant digits is a double, and the only nearest one.\<close>

lemma int_has_pattern:
  assumes N: "N = m * 2 ^ j" "m < 2 * 2 ^ 52" and j: "j \<le> 40"
  obtains k where "k < fp_inf double" "fp_nearest double (real N * fp_scale double) k" "fp_mag 52 k = N * 2 ^ 1074"
proof (cases "N = 0")
  case True
  then show ?thesis using that [of 0] fp_nearest_exact [of 0 double] by (simp add: format_numbers)
next
  case False
  define e where "e = floorlog 2 N - 1"
  have "2 ^ (floorlog 2 N - 1) \<le> N \<and> N < 2 ^ floorlog 2 N" using floorlog_bounds [of N 2] False by simp
  moreover have "0 < floorlog 2 N" using False by (simp add: floorlog_def)
  then have "(2::nat) ^ floorlog 2 N = 2 * 2 ^ e" unfolding e_def by (simp flip: power_Suc)
  ultimately have e: "2 ^ e \<le> N" "N < 2 * 2 ^ e" by (simp_all add: e_def)
  have "N < 2 * 2 ^ 52 * 2 ^ j" unfolding N(1) using N(2) by (intro mult_strict_right_mono) simp_all
  then have "(2::nat) ^ e < 2 ^ (53 + j)" using e(1) by (simp add: power_add)
  then have ej: "e \<le> 52 + j" by simp
  obtain q where q: "N * 2 ^ 52 = q * 2 ^ e"
  proof (cases "e \<le> 52")
    case True
    then have "(2::nat) ^ 52 = 2 ^ (52 - e) * 2 ^ e" by (simp only: power_add [symmetric]) simp
    then show ?thesis using that [of "N * 2 ^ (52 - e)"] by (simp only: mult.assoc)
  next
    case False
    then have "(2::nat) ^ j * 2 ^ 52 = 2 ^ (j + 52 - e) * 2 ^ e" using ej by (simp only: power_add [symmetric]) simp
    then show ?thesis using that [of "m * 2 ^ (j + 52 - e)"] by (simp only: N(1) mult.assoc)
  qed
  have "2 ^ e * 2 ^ 52 \<le> q * 2 ^ e" "q * 2 ^ e < 2 * 2 ^ 52 * 2 ^ e"
    using e unfolding q [symmetric] by simp_all
  then have qb: "2 ^ 52 \<le> q" "q < 2 * 2 ^ 52" by (simp_all add: mult.commute)
  have "real N * 2 ^ 52 = real q * 2 ^ e"
    using q by (metis of_nat_mult of_nat_numeral of_nat_power)
  then have near: "fp_nearest double (real N * fp_scale double) (int_pattern double e q + of_bool False)"
    and lt: "int_pattern double e q < fp_inf double"
    using dbl.nearest_int [of q e "real q" N False] qb ej j by (simp_all only: format_numbers format_biases) simp_all
  have "fp_mag 52 ((e + 1022) * 2 ^ 52 + q) = q * 2 ^ (e + 1022)"
    using dbl.fp_mag_field(1) [of q "e + 1022"] qb by (simp only: format_numbers)
  also have "\<dots> = N * 2 ^ 52 * 2 ^ 1022" by (simp only: q power_add mult.assoc)
  finally have "fp_mag 52 ((e + 1022) * 2 ^ 52 + q) = N * 2 ^ 52 * 2 ^ 1022" .
  moreover have "(2::nat) ^ 1074 = 2 ^ 52 * 2 ^ 1022" by (simp only: power_add [symmetric]) simp
  moreover have "int_pattern double e q = (e + 1022) * 2 ^ 52 + q" by (simp add: int_pattern_def format_numbers format_biases)
  ultimately have "fp_mag 52 (int_pattern double e q) = N * 2 ^ 1074" by (simp only: mult.assoc)
  then show ?thesis using that near lt by simp
qed

lemma exact_result:
  assumes near: "fp_nearest double \<bar>V * fp_scale double\<bar> (fp_abs r)" and V: "V = real_of_int v"
    and sign: "v \<noteq> 0 \<Longrightarrow> fp_sign r \<longleftrightarrow> v < 0"
    and v: "\<bar>v\<bar> = int (m * 2 ^ j)" "m < 2 * 2 ^ 52" "j \<le> 40"
  shows "fp_value double r = real_of_int v" and "fp_finite double r"
proof -
  obtain k where k: "k < fp_inf double" "fp_nearest double (real (m * 2 ^ j) * fp_scale double) k"
    "fp_mag 52 k = m * 2 ^ j * 2 ^ 1074"
    by (rule int_has_pattern [OF refl v(2,3)])
  have "\<bar>real_of_int v\<bar> = real (m * 2 ^ j)" using v(1) by (metis of_int_abs of_int_of_nat_eq)
  moreover have "0 < fp_scale double" by (simp add: fp_scale_def)
  ultimately have V': "\<bar>V * fp_scale double\<bar> = real (m * 2 ^ j) * fp_scale double" by (simp only: V abs_mult abs_of_pos)
  have a: "fp_abs r = k" by (rule fp_nearest_unique [OF near [unfolded V'] k(2)])
  then show "fp_finite double r" using k(1) by (simp add: fp_finite_def)
  have "real (fp_mag 52 (fp_abs r)) = \<bar>real_of_int v\<bar> * 2 ^ 1074"
    unfolding a k(3) \<open>\<bar>real_of_int v\<bar> = real (m * 2 ^ j)\<close> by simp
  then have "fp_value double r = (if fp_sign r then - 1 else 1) * (\<bar>real_of_int v\<bar> * 2 ^ 1074) / 2 ^ 1074"
    by (simp only: fp_value_def format_numbers)
  also have "\<dots> = (if fp_sign r then - 1 else 1) * \<bar>real_of_int v\<bar>"
    by (simp only: times_divide_eq_right [symmetric] mult.assoc) simp
  also have "\<dots> = real_of_int v" using sign by (cases "v = 0") (auto simp: abs_if)
  finally show "fp_value double r = real_of_int v" .
qed

text \<open>The patterns whose low digits hold a half of the number.\<close>

lemma pattern_value:
  assumes w: "unat (w :: du_int) = (E + 1) * 2 ^ 52 + m" "m < 2 ^ 52" "E \<le> 1500"
  shows "fp_value double w = (2 ^ 52 + real m) * 2 ^ E / 2 ^ 1074" "fp_finite double w" "\<not> fp_sign w"
proof -
  have lt: "(E + 1) * 2 ^ 52 + m < 1502 * 2 ^ 52"
    using w(2) mult_le_mono1 [of "E + 1" 1501 "2 ^ 52"] w(3) by simp
  then have a: "fp_abs w = (E + 1) * 2 ^ 52 + m" by (simp add: fp_abs_def w(1))
  show f: "fp_finite double w" using lt by (simp add: fp_finite_def a format_numbers)
  have "unat w < 2 ^ 63" using lt by (simp add: w(1))
  then show s: "\<not> fp_sign w" using bit_imp_unat_ge [of w 63] by (auto simp: fp_sign_def)
  have "fp_mag 52 (fp_abs w) = (2 ^ 52 + m) * 2 ^ E" unfolding a by (rule fp_mag_compose(1)) (use w(2) in simp)
  then show "fp_value double w = (2 ^ 52 + real m) * 2 ^ E / 2 ^ 1074"
    using s by (simp only: fp_value_def format_numbers if_False) simp
qed

lemma low_pattern:
  fixes a :: du_int
  shows "fp_value double (twop52 OR (a AND 0x00000000ffffffff)) = 2 ^ 52 + real (unat a mod 2 ^ 32)"
    "fp_finite double (twop52 OR (a AND 0x00000000ffffffff))" "\<not> fp_sign (twop52 OR (a AND 0x00000000ffffffff))"
proof -
  have l: "unat (a AND 0x00000000ffffffff) = unat a mod 2 ^ 32" using unat_loWord [of a] by (simp add: loWord_def)
  then have "unat (push_bit 52 1075 OR (a AND 0x00000000ffffffff)) = 1075 * 2 ^ 52 + unat a mod 2 ^ 32"
    by (subst unat_push_or) (simp_all add: less_trans [OF mod_less_divisor])
  then have "unat (twop52 OR (a AND 0x00000000ffffffff)) = (1074 + 1) * 2 ^ 52 + unat a mod 2 ^ 32"
    by (simp add: twop52_def)
  note v = pattern_value [OF this]
  have "unat a mod 2 ^ 32 < 2 ^ 32" by simp
  then have b: "unat a mod 2 ^ 32 < 2 ^ 52" by simp
  show "fp_value double (twop52 OR (a AND 0x00000000ffffffff)) = 2 ^ 52 + real (unat a mod 2 ^ 32)"
    using v(1) [OF b] by simp
  show "fp_finite double (twop52 OR (a AND 0x00000000ffffffff))" "\<not> fp_sign (twop52 OR (a AND 0x00000000ffffffff))"
    using v(2,3) [OF b] by simp_all
qed

lemma constants:
  "fp_value double twop52 = 2 ^ 52" "fp_finite double twop52"
  "fp_value double twop32 = 2 ^ 32" "fp_finite double twop32" "\<not> fp_sign twop32"
  "fp_value double twop84_plus_twop52 = 2 ^ 84 + 2 ^ 52" "fp_finite double twop84_plus_twop52"
  using pattern_value [of twop52 1074 0] pattern_value [of twop32 1054 0] pattern_value [of twop84_plus_twop52 1106 "2 ^ 20"]
  by (simp_all add: twop52_def twop32_def twop84_plus_twop52_def)

lemma high_pattern:
  fixes a :: du_int
  shows "fp_value double (twop84 OR drop_bit 32 a) = 2 ^ 84 + real (unat a div 2 ^ 32) * 2 ^ 32"
    "fp_finite double (twop84 OR drop_bit 32 a)"
proof -
  have b: "unat a div 2 ^ 32 < 2 ^ 32"
    using unsigned_less [where ?'a = nat, of a] by (intro less_mult_imp_div_less) simp
  then have "unat (push_bit 52 1107 OR drop_bit 32 a) = 1107 * 2 ^ 52 + unat a div 2 ^ 32"
    by (subst unat_push_or) (simp_all add: unat_drop_bit)
  then have "unat (twop84 OR drop_bit 32 a) = (1106 + 1) * 2 ^ 52 + unat a div 2 ^ 32" by (simp add: twop84_def)
  note v = pattern_value [OF this]
  have b: "unat a div 2 ^ 32 < 2 ^ 52" using b by simp
  show "fp_value double (twop84 OR drop_bit 32 a) = 2 ^ 84 + real (unat a div 2 ^ 32) * 2 ^ 32"
    using v(1) [OF b] by (simp add: distrib_right)
  show "fp_finite double (twop84 OR drop_bit 32 a)" using v(2) [OF b] by simp
qed

text \<open>The final addition is the only one that rounds.\<close>

lemma sub_exact:
  assumes a: "fp_value double a = real_of_int x" "fp_finite double a"
    and b: "fp_value double b = real_of_int y" "fp_finite double b"
    and v: "\<bar>x - y\<bar> = int (m * 2 ^ j)" "m < 2 * 2 ^ 52" "j \<le> 40"
  shows "fp_value double (fp_add double u a (b XOR signBit double)) = real_of_int (x - y)"
    and "fp_finite double (fp_add double u a (b XOR signBit double))"
proof -
  note f = dbl.fp_add_correct [OF a(2), of "b XOR signBit double" u, unfolded dbl.xor_signBit, OF b(2)]
  have V: "fp_value double a + - fp_value double b = real_of_int (x - y)" by (simp add: a b)
  have "0 < fp_scale double" by (simp add: fp_scale_def)
  then have sg: "fp_sign (fp_add double u a (b XOR signBit double)) \<longleftrightarrow> x - y < 0" if "x - y \<noteq> 0"
    using f(2) that unfolding V by (simp add: mult_less_0_iff)
  note r = exact_result [OF f(1)  V sg v]
  then show "fp_value double (fp_add double u a (b XOR signBit double)) = real_of_int (x - y)"
    "fp_finite double (fp_add double u a (b XOR signBit double))" by simp_all
qed

lemma add_nearest:
  assumes a: "fp_value double a = real_of_int x" "fp_finite double a"
    and b: "fp_value double b = real_of_int y" "fp_finite double b" "\<not> fp_sign b"
  shows "nearest_to_int double (x + y) (fp_add double u a b)"
proof -
  note f = dbl.fp_add_correct [OF a(2) b(2), of u]
  have V: "fp_value double a + fp_value double b = real_of_int (x + y)" by (simp add: a b)
  have s: "0 < fp_scale double" by (simp add: fp_scale_def)
  then have "\<bar>real_of_int (x + y) * fp_scale double\<bar> = \<bar>real_of_int (x + y)\<bar> * fp_scale double" by (simp add: abs_mult)
  moreover have "real_of_int (x + y) * fp_scale double < 0 \<longleftrightarrow> x + y < 0" "real_of_int (x + y) * fp_scale double = 0 \<longleftrightarrow> x + y = 0"
    using s by (simp_all only: mult_less_0_iff mult_eq_0_iff of_int_less_0_iff of_int_eq_0_iff) auto
  ultimately show ?thesis using f b(3) unfolding V nearest_to_int_def by (auto split: if_splits)
qed

lemma int_halves: "sint a = sint (s_high (dwords_of a)) * 2 ^ 32 + int (unat a mod 2 ^ 32)" for a :: di_int
proof -
  have "int (unat a) = int (unat (s_high (dwords_of a)) * 2 ^ 32 + unat a mod 2 ^ 32)"
    using dw.unat_split [of a] unfolding dw.low_eq by simp
  then have "uint a = uint (s_high (dwords_of a)) * 2 ^ 32 + int (unat a mod 2 ^ 32)"
    by (simp only: of_nat_add of_nat_mult of_nat_unat of_nat_power of_nat_numeral)
  moreover have "bit a 63 = bit (s_high (dwords_of a)) 31" by (simp add: dw.bit_high)
  ultimately show ?thesis by (simp add: sint_uint_cases)
qed

lemma floatdidf_correct: "\<exists>r. floatdidf u D 0 a d = Some (r, d) \<and> nearest_to_int double (sint a) r"
proof -
  define h :: si_int where "h = ucast (signed_drop_bit 32 a)"
  have h: "h = s_high (dwords_of a)"
    unfolding h_def dwords_of_def union_s_def
    by (rule bit_word_eqI) (auto simp: bit_ucast_iff bit_signed_drop_bit_iff bit_drop_bit_eq)
  have hb: "- (2 ^ 31) \<le> sint h" "sint h < 2 ^ 31" using sint_ge [of h] sint_lt [of h] by simp_all
  define f where "f = floatsidf u h"
  have fn: "fp_nearest double \<bar>real_of_int (sint h) * fp_scale double\<bar> (fp_abs f)" "fp_sign f \<longleftrightarrow> sint h < 0"
    using float_si_routines(3) [of h u] by (simp_all add: nearest_to_int_def f_def abs_mult fp_scale_def)
  have m: "\<bar>sint h\<bar> = int (nat \<bar>sint h\<bar> * 2 ^ 0)" "nat \<bar>sint h\<bar> < 2 * 2 ^ 52" using hb by auto
  note fv = exact_result [OF fn(1) refl fn(2) m]
  define p where "p = fp_mul double u True f twop32"
  note pc = dbl.fp_mul_correct [OF fv(2) constants(4), of u True, folded p_def]
  have V: "fp_value double f * fp_value double twop32 = real_of_int (sint h * 2 ^ 32)" using fv(1) constants(3) by simp
  have pv: "fp_value double p = real_of_int (sint h * 2 ^ 32)" "fp_finite double p"
    by (rule exact_result [OF pc(1) V, of "nat \<bar>sint h\<bar>" 32]; use pc(2) fn(2) constants(5) m in \<open>auto simp: abs_mult mult_less_0_iff\<close>)+
  have c: "fp_value double twop52 = real_of_int (2 ^ 52)" by (simp add: constants)
  have "\<bar>sint h * 2 ^ 32 - 2 ^ 52\<bar> = \<bar>(sint h - 2 ^ 20) * 2 ^ 32\<bar>" by (simp add: left_diff_distrib)
  also have "\<dots> = \<bar>sint h - 2 ^ 20\<bar> * 2 ^ 32" by (simp only: abs_mult) simp
  finally have d: "\<bar>sint h * 2 ^ 32 - 2 ^ 52\<bar> = int (nat \<bar>sint h - 2 ^ 20\<bar> * 2 ^ 32)" by simp
  have "nat \<bar>sint h - 2 ^ 20\<bar> < 2 * 2 ^ 52" using hb by auto
  note sv = sub_exact [OF pv c constants(2) d this, of u]
  define q where "q = fp_add double u p (twop52 XOR signBit double)"
  have lv: "fp_value double (twop52 OR (a AND 0x00000000ffffffff)) = real_of_int (2 ^ 52 + int (unat a mod 2 ^ 32))"
    by (simp only: low_pattern) simp
  have "nearest_to_int double ((sint h * 2 ^ 32 - 2 ^ 52) + (2 ^ 52 + int (unat a mod 2 ^ 32)))
      (fp_add double u q (twop52 OR (a AND 0x00000000ffffffff)))"
    unfolding q_def by (rule add_nearest [OF sv(1) _ lv low_pattern(2,3)]) (use sv(2) in simp_all)
  moreover have "(sint h * 2 ^ 32 - 2 ^ 52) + (2 ^ 52 + int (unat a mod 2 ^ 32)) = sint a"
    unfolding h by (subst int_halves [of a]) simp
  moreover have "floatdidf u D 0 a d = Some (fp_add double u q (twop52 OR (a AND 0x00000000ffffffff)), d)"
    by (simp add: floatdidf_def muldf3_def subdf3_def adddf3_def q_def p_def f_def h_def)
  ultimately show ?thesis by simp
qed

lemma floatundidf_correct: "\<exists>r. floatundidf u D 0 a d = Some (r, d) \<and> nearest_to_int double (uint a) r"
proof -
  define h where "h = int (unat a div 2 ^ 32)"
  have "unat a div 2 ^ 32 < 2 ^ 32"
    using unsigned_less [where ?'a = nat, of a] by (intro less_mult_imp_div_less) simp
  then have hb: "0 \<le> h" "h < 2 ^ 32" unfolding h_def by simp_all
  have hv: "fp_value double (twop84 OR drop_bit 32 a) = real_of_int (2 ^ 84 + h * 2 ^ 32)"
    unfolding high_pattern h_def by simp
  have cv: "fp_value double twop84_plus_twop52 = real_of_int (2 ^ 84 + 2 ^ 52)" by (simp add: constants)
  have "\<bar>(2 ^ 84 + h * 2 ^ 32) - (2 ^ 84 + 2 ^ 52)\<bar> = \<bar>(h - 2 ^ 20) * 2 ^ 32\<bar>" by (simp add: left_diff_distrib)
  also have "\<dots> = \<bar>h - 2 ^ 20\<bar> * 2 ^ 32" by (simp only: abs_mult) simp
  finally have d: "\<bar>(2 ^ 84 + h * 2 ^ 32) - (2 ^ 84 + 2 ^ 52)\<bar> = int (nat \<bar>h - 2 ^ 20\<bar> * 2 ^ 32)" by simp
  have "nat \<bar>h - 2 ^ 20\<bar> < 2 * 2 ^ 52" using hb by auto
  note sv = sub_exact [OF hv high_pattern(2) cv constants(7) d this, of u]
  define q where "q = fp_add double u (twop84 OR drop_bit 32 a) (twop84_plus_twop52 XOR signBit double)"
  have lv: "fp_value double (twop52 OR (a AND 0x00000000ffffffff)) = real_of_int (2 ^ 52 + int (unat a mod 2 ^ 32))"
    by (simp only: low_pattern) simp
  have "nearest_to_int double (((2 ^ 84 + h * 2 ^ 32) - (2 ^ 84 + 2 ^ 52)) + (2 ^ 52 + int (unat a mod 2 ^ 32)))
      (fp_add double u q (twop52 OR (a AND 0x00000000ffffffff)))"
    unfolding q_def by (rule add_nearest [OF sv(1) _ lv low_pattern(2,3)]) (use sv(2) in simp_all)
  moreover have "((2 ^ 84 + h * 2 ^ 32) - (2 ^ 84 + 2 ^ 52)) + (2 ^ 52 + int (unat a mod 2 ^ 32)) = uint a"
  proof -
    have "h * int (2 ^ 32) + int (unat a mod 2 ^ 32) = uint a"
      unfolding h_def of_nat_mult [symmetric] of_nat_add [symmetric] div_mult_mod_eq by (simp add: of_nat_unat)
    then show ?thesis by simp
  qed
  moreover have "floatundidf u D 0 a d = Some (fp_add double u q (twop52 OR (a AND 0x00000000ffffffff)), d)"
    by (simp add: floatundidf_def subdf3_def adddf3_def q_def)
  ultimately show ?thesis by simp
qed

section \<open>Properties\<close>



text \<open>The conversions by addition of large doubles agree: with the arithmetic of this library, the
  product and the differences are exact and the last sum rounds once, so that \<^verbatim>\<open>__floatdidf\<close> and
  \<^verbatim>\<open>__floatundidf\<close> return what their versions without floating-point operators return.\<close>

theorem floatdidf_versions_agree:
  "floatdidf u D 0 a d = Some (floatdidf_soft u a, d) \<and> floatundidf u D 0 b d = Some (floatundidf_soft u b, d)"
proof -
  have eq: "r = s" if "nearest_to_int double v r" "nearest_to_int double v s" for r s v
    using that fp_nearest_unique unfolding nearest_to_int_def dbl.fp_eq_iff by blast
  obtain r s where "floatdidf u D 0 a d = Some (r, d)" "nearest_to_int double (sint a) r"
    "floatundidf u D 0 b d = Some (s, d)" "nearest_to_int double (uint b) s"
    using floatdidf_correct floatundidf_correct by meson
  then show ?thesis using eq float_wide_signed(2) float_wide_unsigned(2) by simp
qed


end
