(* ===== verification/Fp_Div.thy ===== *)
theory Fp_Div
  imports Fp_Mul
begin

unbundle bit_operations_syntax

text \<open>
  \<^verbatim>\<open>lib/divsf3.c\<close> and \<^verbatim>\<open>lib/divdf3.c\<close>. The quotient of the significands is computed from
  an approximate reciprocal of the divisor, found by three Newton steps with 32 bits (and a fourth
  with 64 for doubles); it is rounded down so that it lies strictly below the exact quotient by less
  than three halves of a unit, and an integer residual decides on the last unit. The two files are the
  same text but for that approximation, so the model has one function \<open>fp_div\<close> with the approximate
  quotient as its argument; the locale \<open>fp_divider\<close> states what is needed of it, and is
  interpreted on the code of both files.

  The results: normal quotients are correctly rounded; a denormal result may be off by up to three
  quarters of its unit, for the digits shifted out come from the quotient that was rounded down.
\<close>

section \<open>The code\<close>

text \<open>One Newton step, \<^verbatim>\<open>x1 = x0 * (2 - x0 * b)\<close>, and the three steps from the linear estimate.\<close>

definition newton32 :: "su_int \<Rightarrow> su_int \<Rightarrow> su_int" where
  "newton32 q31b reciprocal =
    (let correction = - ucast (drop_bit 32 ((ucast reciprocal :: du_int) * ucast q31b)) :: su_int
     in ucast (drop_bit 31 ((ucast reciprocal :: du_int) * ucast correction)))"

definition recip32 :: "su_int \<Rightarrow> su_int" where
  "recip32 q31b =
    (let reciprocal = 0x7504f333 - q31b;
         reciprocal = newton32 q31b reciprocal;
         reciprocal = newton32 q31b reciprocal
     in newton32 q31b reciprocal)"

definition div_quotient_single :: "su_int \<Rightarrow> su_int \<Rightarrow> su_int" where
  "div_quotient_single aSignificand bSignificand =
    (let q31b = push_bit 8 bSignificand;
         reciprocal = recip32 q31b;
         reciprocal = reciprocal - 2
     in ucast (drop_bit 32 ((ucast reciprocal :: du_int) * ucast (push_bit 1 aSignificand))))"

definition div_quotient_double :: "du_int \<Rightarrow> du_int \<Rightarrow> du_int" where
  "div_quotient_double aSignificand bSignificand =
    (let q31b = ucast (drop_bit 21 bSignificand) :: su_int;
         recip = recip32 q31b;
         recip = recip - 1;
         q63blo = ucast (push_bit 11 bSignificand) :: su_int;
         correction = - (ucast recip * ucast q31b + drop_bit 32 (ucast recip * ucast q63blo)) :: du_int;
         cHi = ucast (drop_bit 32 correction) :: su_int;
         cLo = ucast correction :: su_int;
         reciprocal = ucast recip * ucast cHi + drop_bit 32 (ucast recip * ucast cLo);
         reciprocal = reciprocal - 2
     in fst (wideMultiply double (push_bit 2 aSignificand) reciprocal))"

definition fp_div_special :: "'r::len word fp_lib \<Rightarrow> 'r word \<Rightarrow> 'r word \<Rightarrow> 'r word \<Rightarrow> 'r word option" where
  "fp_div_special F quotientSign a b =
    (let aAbs = a AND absMask F; bAbs = b AND absMask F in
     if aAbs > infRep F then Some (a OR quietBit F)
     else if bAbs > infRep F then Some (b OR quietBit F)
     else if aAbs = infRep F then
       if bAbs = infRep F then Some (qnanRep F) else Some (aAbs OR quotientSign)
     else if bAbs = infRep F then Some quotientSign
     else if aAbs = 0 then
       if bAbs = 0 then Some (qnanRep F) else Some quotientSign
     else if bAbs = 0 then Some (infRep F OR quotientSign)
     else None)"

definition fp_div_round ::
    "'r::len word fp_lib \<Rightarrow> ub \<Rightarrow> 'r word \<Rightarrow> int \<Rightarrow> 'r word \<Rightarrow> 'r word \<Rightarrow> 'r word \<Rightarrow> 'r word" where
  "fp_div_round F u quotientSign quotientExponent quo residual bSignificand =
    (let writtenExponent = quotientExponent + exponentBias F
     in if writtenExponent \<ge> maxExponent F then infRep F OR quotientSign
        else if writtenExponent < 1 then
          let shift = 1 - word_of_int writtenExponent :: su_int
          in if shift \<ge> of_nat LENGTH('r) then quotientSign
             else
               let (quo, residual) = wideRightShiftWithSticky u quo residual shift;
                   absResult = quo;
                   absResult = (if residual > signBit F then absResult + 1 else absResult);
                   absResult = (if residual = signBit F then absResult + (absResult AND 1) else absResult)
               in absResult OR quotientSign
        else
          let round = push_bit 1 residual > bSignificand;
              absResult = quo AND significandMask F;
              absResult = absResult OR push_bit (significandBits F) (word_of_int writtenExponent);
              absResult = absResult + c_bool round
          in absResult OR quotientSign)"

text \<open>\<open>quot\<close> is the approximate quotient of the significands.\<close>

definition fp_div ::
    "'r::len word fp_lib \<Rightarrow> ub \<Rightarrow> ('r word \<Rightarrow> 'r word \<Rightarrow> 'r word) \<Rightarrow> 'r word \<Rightarrow> 'r word \<Rightarrow> 'r word" where
  "fp_div F u quot a b =
    (let aExponent = ucast (drop_bit (significandBits F) a AND word_of_int (maxExponent F)) :: su_int;
         bExponent = ucast (drop_bit (significandBits F) b AND word_of_int (maxExponent F)) :: su_int;
         quotientSign = (a XOR b) AND signBit F;
         aSignificand = a AND significandMask F;
         bSignificand = b AND significandMask F;
         special = (aExponent - 1 \<ge> word_of_int (maxExponent F) - 1 \<or>
                    bExponent - 1 \<ge> word_of_int (maxExponent F) - 1)
     in case (if special then fp_div_special F quotientSign a b else None) of Some r \<Rightarrow> r | None \<Rightarrow>
     let (aScale, aSignificand) =
           (if special \<and> a AND absMask F < implicitBit F then normalize F u aSignificand else (0, aSignificand));
         (bScale, bSignificand) =
           (if special \<and> b AND absMask F < implicitBit F then normalize F u bSignificand else (0, bSignificand));
         scale = aScale - bScale;
         aSignificand = aSignificand OR implicitBit F;
         bSignificand = bSignificand OR implicitBit F;
         quotientExponent = sint (aExponent - bExponent + word_of_int scale :: su_int);
         quo = quot aSignificand bSignificand;
         (quo, residual, quotientExponent) =
           (if quo < push_bit 1 (implicitBit F) then
              (quo, push_bit (significandBits F + 1) aSignificand - quo * bSignificand, quotientExponent - 1)
            else
              let quo = drop_bit 1 quo
              in (quo, push_bit (significandBits F) aSignificand - quo * bSignificand, quotientExponent))
     in fp_div_round F u quotientSign quotientExponent quo residual bSignificand)"

definition divsf3 :: "ub \<Rightarrow> 'd fpu \<Rightarrow> su_int \<Rightarrow> su_int \<Rightarrow> su_int \<Rightarrow> 'd \<Rightarrow> (su_int \<times> 'd) option" where
  "divsf3 u D USE_HWFPU a b d =
    (if USE_HWFPU \<noteq> 0 then fpu_single D 3 a b d else Some (fp_div single u div_quotient_single a b, d))"

definition divdf3 :: "ub \<Rightarrow> 'd fpu \<Rightarrow> su_int \<Rightarrow> du_int \<Rightarrow> du_int \<Rightarrow> 'd \<Rightarrow> (du_int \<times> 'd) option" where
  "divdf3 u D USE_HWFPU a b d =
    (if USE_HWFPU \<noteq> 0 then fpu_double D 3 a b d else Some (fp_div double u div_quotient_double a b, d))"

section \<open>Newton's iteration\<close>

text \<open>The steps on natural numbers, and how they change the relative error \<open>1 - x * b\<close>: it is squared,
  but for what the truncations add.\<close>

lemma div_real_bounds:
  assumes "0 < d"
  shows "real (n div d) \<le> real n / real d" and "real n / real d < real (n div d) + 1"
proof -
  show "real (n div d) \<le> real n / real d" by (rule of_nat_div_le_of_nat)
  have "n < (n div d + 1) * d"
    using div_mult_mod_eq [of n d] mod_less_divisor [OF assms, of n] unfolding distrib_right by linarith
  then have "real n < real ((n div d + 1) * d)" by (simp only: of_nat_less_iff)
  then show "real n / real d < real (n div d) + 1" using assms by (simp add: field_simps)
qed

lemma newton_step:
  fixes X b :: nat
  assumes b: "b < 2 ^ 32" 
  defines "P \<equiv> X * b div 2 ^ 32"
  defines "Y \<equiv> X * (2 ^ 32 - P) div 2 ^ 31"
  defines "e \<equiv> 1 - real X * real b / 2 ^ 63"
  assumes X: "X < 2 ^ 32"
  shows "e\<^sup>2 - (1 - e) / 2 ^ 31 \<le> 1 - real Y * real b / 2 ^ 63" and "1 - real Y * real b / 2 ^ 63 \<le> e\<^sup>2 + 1 / 2 ^ 31"
    and "real Y \<le> real X * (2 ^ 32 - real X * real b / 2 ^ 32 + 1) / 2 ^ 31"
proof -
  have "X * b < 2 ^ 32 * 2 ^ 32" using X b by (intro mult_strict_mono') simp_all
  then have P: "P < 2 ^ 32" unfolding P_def by (rule less_mult_imp_div_less)
  define x \<beta> where x\<beta>: "x = real X" "\<beta> = real b"
  have x0: "0 \<le> x" "0 \<le> \<beta>" "\<beta> \<le> 2 ^ 32" using b by (simp_all add: x\<beta>)
  have p: "real P \<le> x * \<beta> / 2 ^ 32" "x * \<beta> / 2 ^ 32 \<le> real P + 1"
    using div_real_bounds [of "2 ^ 32" "X * b"]
    by (simp_all add: P_def x\<beta>)
  have y: "real Y \<le> x * (2 ^ 32 - real P) / 2 ^ 31" "x * (2 ^ 32 - real P) / 2 ^ 31 \<le> real Y + 1"
    using div_real_bounds [of "2 ^ 31" "X * (2 ^ 32 - P)"] P
    by (simp_all add: Y_def x\<beta> of_nat_diff)
  have "x * (2 ^ 32 - real P) \<le> x * (2 ^ 32 - x * \<beta> / 2 ^ 32 + 1)" using p x0 by (intro mult_left_mono) simp_all
  then have yu: "real Y \<le> x * (2 ^ 32 - x * \<beta> / 2 ^ 32 + 1) / 2 ^ 31" using y(1) by simp
  then show "real Y \<le> real X * (2 ^ 32 - real X * real b / 2 ^ 32 + 1) / 2 ^ 31" by (simp add: x\<beta>)
  have "x * (2 ^ 32 - x * \<beta> / 2 ^ 32) \<le> x * (2 ^ 32 - real P)" using p x0 by (intro mult_left_mono) simp_all
  from divide_right_mono [OF this, of "2 ^ 31"] have yl: "x * (2 ^ 32 - x * \<beta> / 2 ^ 32) / 2 ^ 31 - 1 \<le> real Y"
    unfolding diff_le_eq by (rule order_trans [OF _ y(2)]) simp_all
  have w: "x * \<beta> = 2 ^ 63 * (1 - e)" by (simp add: e_def x\<beta>)
  have "real Y * \<beta> \<le> x * (2 ^ 32 - x * \<beta> / 2 ^ 32 + 1) / 2 ^ 31 * \<beta>" using yu x0 by (intro mult_right_mono) simp_all
  also have "\<dots> = (x * \<beta>) * (2 ^ 32 - x * \<beta> / 2 ^ 32 + 1) / 2 ^ 31" by simp
  also have "\<dots> = 2 ^ 63 * (1 - e\<^sup>2 + (1 - e) / 2 ^ 31)" unfolding w by (simp add: power2_eq_square field_simps)
  finally show "e\<^sup>2 - (1 - e) / 2 ^ 31 \<le> 1 - real Y * real b / 2 ^ 63" by (simp add: x\<beta> field_simps)
  have "(x * (2 ^ 32 - x * \<beta> / 2 ^ 32) / 2 ^ 31 - 1) * \<beta> \<le> real Y * \<beta>" using yl x0 by (intro mult_right_mono) simp_all
  moreover have "(x * (2 ^ 32 - x * \<beta> / 2 ^ 32) / 2 ^ 31 - 1) * \<beta> = (x * \<beta>) * (2 ^ 32 - x * \<beta> / 2 ^ 32) / 2 ^ 31 - \<beta>"
  proof -
    have "(x * K / c - 1) * \<beta> = x * \<beta> * K / c - \<beta>" for K c by (simp add: left_diff_distrib)
    then show ?thesis .
  qed
  moreover have "(x * \<beta>) * (2 ^ 32 - x * \<beta> / 2 ^ 32) / 2 ^ 31 = 2 ^ 63 * (1 - e\<^sup>2)"
    unfolding w by (simp add: power2_eq_square field_simps)
  ultimately have "2 ^ 63 * (1 - e\<^sup>2) - \<beta> \<le> real Y * \<beta>" by (simp only:)
  then show "1 - real Y * real b / 2 ^ 63 \<le> e\<^sup>2 + 1 / 2 ^ 31" using x0 by (simp add: x\<beta>)
qed

definition newton_nat :: "nat \<Rightarrow> nat \<Rightarrow> nat" where
  "newton_nat b X = X * (2 ^ 32 - X * b div 2 ^ 32) div 2 ^ 31"

definition recip_err :: "nat \<Rightarrow> nat \<Rightarrow> real" where
  "recip_err b X = 1 - real X * real b / 2 ^ 63"

lemma newton_err:
  assumes "b < 2 ^ 32" "X < 2 ^ 32"
  shows "(recip_err b X)\<^sup>2 - (1 - recip_err b X) / 2 ^ 31 \<le> recip_err b (newton_nat b X)"
    and "recip_err b (newton_nat b X) \<le> (recip_err b X)\<^sup>2 + 1 / 2 ^ 31"
  using newton_step(1,2) [OF assms] by (simp_all only: recip_err_def newton_nat_def)

lemma recip_below:
  assumes "1 - recip_err b X < real b / 2 ^ 31"
  shows "X < 2 ^ 32"
proof (rule ccontr)
  assume "\<not> X < 2 ^ 32"
  then have "real (2 ^ 32) \<le> real X" by (simp only: of_nat_le_iff not_less)
  then have "2 ^ 32 * real b \<le> real X * real b" by (intro mult_right_mono) simp_all
  with assms show False by (simp add: recip_err_def)
qed

lemma sq_le: "- h \<le> e \<Longrightarrow> e \<le> h \<Longrightarrow> h * h \<le> k \<Longrightarrow> e\<^sup>2 \<le> k" for e h k :: real
  using abs_le_square_iff [of e h] by (auto simp: power2_eq_square)

text \<open>The linear estimate the iteration starts from.\<close>

definition recip_start :: "nat \<Rightarrow> nat" where "recip_start b = 0x17504f333 - b"

lemma recip_start_err:
  assumes b: "2 ^ 31 \<le> b" "b < 2 ^ 32"
  shows "recip_err b (recip_start b) \<le> 858 / 10000" "- (617 / 10000) \<le> recip_err b (recip_start b)"
    and "real b \<le> 2 ^ 31 * (100001 / 100000) \<Longrightarrow> 428 / 10000 \<le> recip_err b (recip_start b)"
    and "recip_start b < 2 ^ 32"
proof -
  define B where "B = real b / 2 ^ 31"
  have rb: "real b = 2 ^ 31 * B" by (simp add: B_def)
  have "real (2 ^ 31) \<le> real b" "real b < real (2 ^ 32)" using b by (simp_all only: of_nat_le_iff of_nat_less_iff)
  then have B: "1 \<le> B" "B < 2" by (simp_all add: rb)
  have e: "recip_err b (recip_start b) = 1 - 6258225971 / 4294967296 * B + B\<^sup>2 / 2"
  proof -
    have r: "real (recip_start b) = 6258225971 - 2 ^ 31 * B" using b by (simp add: recip_start_def of_nat_diff rb)
    show ?thesis unfolding recip_err_def rb r by (simp add: power2_eq_square field_simps)
  qed
  have "(B - 1) * (B - 2) \<le> 0" using B by (intro mult_nonneg_nonpos) simp_all
  then have "B\<^sup>2 \<le> 3 * B - 2" by (simp add: power2_eq_square algebra_simps)
  then show "recip_err b (recip_start b) \<le> 858 / 10000" unfolding e using B by simp
  have "0 \<le> (B - 6258225971 / 4294967296)\<^sup>2" by simp
  then have "2 * (6258225971 / 4294967296) * B - (6258225971 / 4294967296)\<^sup>2 \<le> B\<^sup>2"
    by (simp add: power2_eq_square algebra_simps)
  then show "- (617 / 10000) \<le> recip_err b (recip_start b)" unfolding e by (simp add: power2_eq_square)
  show "428 / 10000 \<le> recip_err b (recip_start b)" if "real b \<le> 2 ^ 31 * (100001 / 100000)"
  proof -
    have "B \<le> 100001 / 100000" using that by (simp add: rb)
    moreover have "1 \<le> B\<^sup>2" using B by simp
    ultimately show ?thesis unfolding e by simp
  qed
  show "recip_start b < 2 ^ 32" using b by (simp add: recip_start_def)
qed

lemma recip_iterate:
  assumes b: "2 ^ 31 \<le> b" "b < 2 ^ 32"
  defines "X1 \<equiv> newton_nat b (recip_start b)"
  defines "X2 \<equiv> newton_nat b X1"
  defines "X3 \<equiv> newton_nat b X2"
  shows "X1 < 2 ^ 32" "X2 < 2 ^ 32" "X3 \<le> 2 ^ 32"
    and "real X3 * real b < 2 ^ 63 + 2 * real b"
    and "recip_err b X3 \<le> 341 / 10 ^ 11" "- (5 / 10 ^ 10) \<le> recip_err b X3"
    and "\<bar>recip_err b X1\<bar> \<le> 1 / 100" "\<bar>recip_err b X2\<bar> \<le> 1 / 100"
proof -
  note s = recip_start_err [OF b]
  define e0 e1 e2 where e_def: "e0 = recip_err b (recip_start b)" "e1 = recip_err b X1" "e2 = recip_err b X2"
  define s0 s1 s2 where s_def: "s0 = e0\<^sup>2" "s1 = e1\<^sup>2" "s2 = e2\<^sup>2"
  note n0 = newton_err [OF b(2) s(4), folded X1_def, folded e_def, folded s_def]
  have e0: "- (858 / 10000) \<le> e0" "e0 \<le> 858 / 10000" using s(1,2) by (simp_all add: e_def)
  have s0: "0 \<le> s0" "s0 \<le> 736165 / 10 ^ 8" unfolding s_def by (simp, rule sq_le [OF e0]) simp
  have e1: "e1 \<le> 7362 / 10 ^ 6" "- (1 / 10 ^ 9) \<le> e1" using n0 s0 e0 by (simp_all add: diff_divide_distrib)
  have near: "428 / 10000 \<le> e0" if "real b \<le> 2 ^ 31 * (100001 / 100000)" using s(3) that by (simp add: e_def)
  have near1: "18 / 10000 \<le> e1" if "real b \<le> 2 ^ 31 * (100001 / 100000)"
  proof -
    have "(428 / 10000)\<^sup>2 \<le> s0" unfolding s_def using near [OF that] by (intro power_mono) simp_all
    then show ?thesis using n0(1) e0 by (simp add: power2_eq_square diff_divide_distrib)
  qed
  have "real (2 ^ 31) \<le> real b" "real b < real (2 ^ 32)" using b by (simp_all only: of_nat_le_iff of_nat_less_iff)
  then have rb: "2 ^ 31 \<le> real b" "real b < 2 ^ 32" by simp_all
  show X1: "X1 < 2 ^ 32"
    by (rule recip_below [of b]) (use e1 near1 rb in \<open>cases "real b \<le> 2 ^ 31 * (100001 / 100000)"; simp add: e_def\<close>)
  note n1 = newton_err [OF b(2) X1, folded X2_def, folded e_def, folded s_def]
  have "- (7362 / 10 ^ 6) \<le> e1" using e1 by simp
  then have s1: "0 \<le> s1" "s1 \<le> 541991 / 10 ^ 10" unfolding s_def by (simp, intro sq_le [OF _ e1(1)]) simp_all
  have e2: "e2 \<le> 542005 / 10 ^ 10" "- (47 / 10 ^ 11) \<le> e2" using n1 e1 s1 by (simp_all add: diff_divide_distrib)
  have near2: "32 / 10 ^ 7 \<le> e2" if "real b \<le> 2 ^ 31 * (100001 / 100000)"
  proof -
    have "(18 / 10000)\<^sup>2 \<le> s1" unfolding s_def using near1 [OF that] by (intro power_mono) simp_all
    then show ?thesis using n1(1) e1 by (simp add: power2_eq_square diff_divide_distrib)
  qed
  have margin: "1 - e2 \<le> real b / 2 ^ 31 * (1 - 1 / 10 ^ 6)"
    using e2 near2 rb by (cases "real b \<le> 2 ^ 31 * (100001 / 100000)") simp_all
  show X2: "X2 < 2 ^ 32"
    by (rule recip_below [of b]) (use margin rb in \<open>simp add: e_def\<close>)
  note n2 = newton_err [OF b(2) X2, folded X3_def, folded e_def, folded s_def]
  have "- (542005 / 10 ^ 10) \<le> e2" using e2 by simp
  then have s2: "0 \<le> s2" "s2 \<le> 294 / 10 ^ 11" unfolding s_def by (simp, intro sq_le [OF _ e2(1)]) simp_all
  show "recip_err b X3 \<le> 341 / 10 ^ 11" "- (5 / 10 ^ 10) \<le> recip_err b X3" using n2 e2 s2 by (simp_all add: diff_divide_distrib)
  have x2b: "real X2 * real b = 2 ^ 63 * (1 - e2)" by (simp add: e_def recip_err_def)
  have "real X3 * real b \<le> 2 ^ 63 * (1 - s2 + (1 - e2) / 2 ^ 31)"
    using n2(1) by (simp add: recip_err_def field_simps)
  also have "\<dots> = 2 ^ 63 - 2 ^ 63 * s2 + 2 ^ 32 * (1 - e2)" by (simp add: algebra_simps diff_divide_distrib)
  finally have u: "real X3 * real b \<le> 2 ^ 63 - 2 ^ 63 * s2 + 2 ^ 32 * (1 - e2)" .
  have "2 ^ 32 * (1 - e2) \<le> 2 * real b * (1 - 1 / 10 ^ 6)" using margin by simp
  then have u': "real X3 * real b \<le> 2 ^ 63 + 2 * real b * (1 - 1 / 10 ^ 6)" using u s2 by simp
  then show "real X3 * real b < 2 ^ 63 + 2 * real b" using rb by simp
  show "\<bar>recip_err b X1\<bar> \<le> 1 / 100" "\<bar>recip_err b X2\<bar> \<le> 1 / 100"
    using e1 e2 unfolding e_def [symmetric] by (simp_all add: abs_le_iff)
  show "X3 \<le> 2 ^ 32"
  proof (cases "b = 2 ^ 31")
    case True
    define x where "x = real X2"
    have "real X2 < real (2 ^ 32)" using X2 by (simp only: of_nat_less_iff)
    then have x: "0 \<le> x" "x < 2 ^ 32" by (simp_all add: x_def)
    have h: "X2 * b div 2 ^ 32 = X2 div 2" unfolding True by simp
    have "real X3 \<le> real (X2 * (2 ^ 32 - X2 div 2)) / real (2 ^ 31)"
      unfolding X3_def newton_nat_def h by (rule div_real_bounds) simp
    also have "\<dots> = x * (2 ^ 32 - real (X2 div 2)) / 2 ^ 31" using X2 by (simp add: x_def of_nat_diff)
    also have "\<dots> \<le> x * (2 ^ 32 - x / 2 + 1 / 2) / 2 ^ 31"
    proof -
      have "x \<le> 2 * real (X2 div 2) + 1"
      proof -
        have "X2 \<le> 2 * (X2 div 2) + 1" by presburger
        then have "real X2 \<le> real (2 * (X2 div 2) + 1)" by (simp only: of_nat_le_iff)
        then show ?thesis by (simp add: x_def)
      qed
      then show ?thesis using x by (intro divide_right_mono mult_left_mono) simp_all
    qed
    also have "\<dots> = 2 ^ 32 - (2 ^ 32 - x)\<^sup>2 / 2 ^ 32 + x / 2 ^ 32" by (simp add: power2_eq_square field_simps)
    also have "\<dots> < 2 ^ 32 + 1"
    proof -
      have "0 \<le> (2 ^ 32 - x)\<^sup>2 / 2 ^ 32" "x / 2 ^ 32 < 1" using x by simp_all
      then show ?thesis by linarith
    qed
    finally have "real X3 < real (2 ^ 32 + 1)" by simp
    then show ?thesis by (simp only: of_nat_less_iff)
  next
    case False
    then have "real (2 ^ 31 + 1) \<le> real b" using b by (intro of_nat_mono) simp
    then have b1: "2 ^ 31 + 1 \<le> real b" by simp
    show ?thesis
    proof (rule ccontr)
      assume "\<not> X3 \<le> 2 ^ 32"
      then have "real (2 ^ 32 + 1) \<le> real X3" by (intro of_nat_mono) simp
      then have "(2 ^ 32 + 1) * real b \<le> real X3 * real b" by (intro mult_right_mono) simp_all
      then show False using u' b1 by simp
    qed
  qed
qed

section \<open>The steps of the code\<close>

lemma unat_wide32: "unat ((ucast (x :: su_int) :: du_int) * ucast (y :: su_int)) = unat x * unat y"
proof -
  have "unat x * unat y < 2 ^ 32 * 2 ^ 32"
    using unsigned_less [where ?'a = nat, of x] unsigned_less [where ?'a = nat, of y]
    by (intro mult_strict_mono') simp_all
  then show ?thesis by (simp add: unat_mult_below dw.unat_ucast_half)
qed

lemma unat_low32: "unat (ucast (x :: du_int) :: su_int) = unat x mod 2 ^ 32"
  by (simp add: unsigned_ucast_eq take_bit_eq_mod)

lemma unat_high32: "unat (ucast (drop_bit 32 (x :: du_int)) :: su_int) = unat x div 2 ^ 32"
proof -
  have "unat x div 2 ^ 32 < 2 ^ 32"
    using unsigned_less [where ?'a = nat, of x] by (intro less_mult_imp_div_less) simp
  then show ?thesis by (simp add: unat_low32 unat_drop_bit)
qed

lemma newton32_nat:
  assumes "2 ^ 32 \<le> unat x * unat b"
  shows "unat (newton32 b x) = newton_nat (unat b) (unat x) mod 2 ^ 32"
proof -
  let ?P = "unat x * unat b div 2 ^ 32"
  define c :: su_int where "c = ucast (drop_bit 32 ((ucast x :: du_int) * ucast b))"
  have c: "unat c = ?P" by (simp only: c_def unat_high32 unat_wide32)
  have "0 < ?P" using assms by (simp only: div_greater_zero_iff zero_less_power zero_less_numeral)
  then have "c \<noteq> 0" using c by auto
  then have "unat (- c) = 2 ^ 32 - ?P" using unat_minus_word [of c] c by simp
  then have "unat (drop_bit 31 ((ucast x :: du_int) * ucast (- c))) = unat x * (2 ^ 32 - ?P) div 2 ^ 31"
    by (simp only: unat_drop_bit unat_wide32)
  then show ?thesis by (simp only: newton32_def Let_def c_def unat_low32 newton_nat_def)
qed

lemma err_product:
  assumes "- (1 / 2) \<le> recip_err b X" "recip_err b X \<le> 1 / 2"
  shows "2 ^ 32 \<le> X * b"
proof -
  have "real X * real b = 2 ^ 63 * (1 - recip_err b X)" by (simp add: recip_err_def)
  then have "real (2 ^ 32) \<le> real (X * b)" using assms by simp
  then show ?thesis by (simp only: of_nat_le_iff)
qed

lemma recip32_correct:
  assumes b: "2 ^ 31 \<le> unat b"
  obtains X where "unat (recip32 b) = X mod 2 ^ 32" "X \<le> 2 ^ 32" "real X * real (unat b) < 2 ^ 63 + 2 * real (unat b)"
    "recip_err (unat b) X \<le> 341 / 10 ^ 11" "- (5 / 10 ^ 10) \<le> recip_err (unat b) X"
proof -
  let ?b = "unat b"
  have b32: "?b < 2 ^ 32" using unsigned_less [where ?'a = nat, of b] by simp
  note it = recip_iterate [OF b b32] and st = recip_start_err [OF b b32]
  define X1 where "X1 = newton_nat ?b (recip_start ?b)"
  define X2 where "X2 = newton_nat ?b X1"
  note it = it [folded X1_def, folded X2_def]
  have x0: "unat (0x7504f333 - b) = recip_start ?b"
  proof -
    have "(0x7504f333 :: su_int) = of_nat 0x17504f333" by simp
    then have "0x7504f333 - b = of_nat 0x17504f333 - of_nat ?b" by (simp add: of_nat_unat)
    also have "\<dots> = of_nat (recip_start ?b)" using b32 unfolding recip_start_def by (subst of_nat_diff) simp_all
    finally show ?thesis using st(4) by (simp add: unat_of_nat)
  qed
  have e1: "recip_err ?b X1 \<le> 1 / 2" "- (1 / 2) \<le> recip_err ?b X1"
    and e2: "recip_err ?b X2 \<le> 1 / 2" "- (1 / 2) \<le> recip_err ?b X2"
    using it(7,8) by (simp_all add: abs_le_iff)
  have "unat (newton32 b (0x7504f333 - b)) = X1"
    using newton32_nat [of "0x7504f333 - b" b] err_product [of ?b "recip_start ?b"] st it(1) by (simp add: x0 X1_def)
  moreover from this have "unat (newton32 b (newton32 b (0x7504f333 - b))) = X2"
    using newton32_nat [of "newton32 b (0x7504f333 - b)" b] err_product [of ?b X1] e1 it(2) by (simp add: X2_def)
  ultimately have "unat (recip32 b) = newton_nat ?b X2 mod 2 ^ 32"
    using newton32_nat [of "newton32 b (newton32 b (0x7504f333 - b))" b] err_product [of ?b X2] e2
    by (simp add: recip32_def)
  then show ?thesis using that [of "newton_nat ?b X2"] it by simp
qed

section \<open>The quotient of the significands, rounded down\<close>

lemma sub_small:
  fixes x k :: "'a::len word"
  assumes "unat x = X mod 2 ^ LENGTH('a)" "X \<le> 2 ^ LENGTH('a)" "unat k = n" "0 < n" "n \<le> X"
  shows "unat (x - k) = X - n"
proof -
  have "x = of_nat X" using assms(1) by (metis of_nat_unat ucast_id unat_of_nat unsigned_word_eqI take_bit_eq_mod)
  moreover have "k = of_nat n" using assms(3) by (metis of_nat_unat ucast_id)
  ultimately have "x - k = of_nat (X - n)" using assms(5) by (simp add: of_nat_diff)
  moreover have "X - n < 2 ^ LENGTH('a)" using assms(2,4,5) by linarith
  ultimately show ?thesis by (simp add: unat_of_nat take_bit_eq_mod)
qed

text \<open>What the routine relies on.\<close>

definition quotient_bounds :: "nat \<Rightarrow> nat \<Rightarrow> nat \<Rightarrow> nat \<Rightarrow> bool" where
  "quotient_bounds s a b q \<longleftrightarrow> q * b < a * 2 ^ (s + 1) \<and> 2 * (a * 2 ^ (s + 1)) < (2 * q + 3) * b"

lemma div_quotient_single_bounds:
  assumes a: "2 ^ 23 \<le> unat a" "unat a < 2 * 2 ^ 23" and b: "2 ^ 23 \<le> unat b" "unat b < 2 * 2 ^ 23"
  shows "quotient_bounds 23 (unat a) (unat b) (unat (div_quotient_single a b))"
proof -
  define \<beta> where "\<beta> = push_bit 8 b"
  have u\<beta>: "unat \<beta> = unat b * 2 ^ 8" unfolding \<beta>_def using b(2) by (intro unat_push_below) simp
  have "2 ^ 31 \<le> unat \<beta>" using b(1) by (simp add: u\<beta>)
  then obtain X where X: "unat (recip32 \<beta>) = X mod 2 ^ 32" "X \<le> 2 ^ 32"
    "real X * real (unat \<beta>) < 2 ^ 63 + 2 * real (unat \<beta>)"
    "recip_err (unat \<beta>) X \<le> 341 / 10 ^ 11" "- (5 / 10 ^ 10) \<le> recip_err (unat \<beta>) X"
    by (rule recip32_correct)
  have "2 ^ 32 \<le> X * unat \<beta>" using X(4,5) by (intro err_product) simp_all
  moreover have "unat \<beta> < 2 ^ 32" using b by (simp add: u\<beta>)
  ultimately have X2: "2 \<le> X" by (cases "X = 0 \<or> X = 1") auto
  define R where "R = X - 2"
  have R: "unat (recip32 \<beta> - 2) = R" unfolding R_def by (rule sub_small) (use X X2 in simp_all)
  have ua: "unat (push_bit 1 a) = 2 * unat a" using a(2) by (subst unat_push_below) simp_all
  define q where "q = R * (2 * unat a) div 2 ^ 32"
  have q: "unat (div_quotient_single a b) = q"
    by (simp only: div_quotient_single_def Let_def \<beta>_def [symmetric] unat_high32 unat_wide32 R ua q_def)
  define A B where AB: "A = real (unat a)" "B = real (unat \<beta>)"
  have "real (2 ^ 23) \<le> A" "A < real (2 * 2 ^ 23)" "real (2 ^ 31) \<le> B" "B < real (2 ^ 32)"
    unfolding AB of_nat_le_iff of_nat_less_iff using a b u\<beta> by simp_all
  then have r: "2 ^ 23 \<le> A" "A < 2 ^ 24" "2 ^ 31 \<le> B" "B < 2 ^ 32" by simp_all
  have rR: "real R * B = real X * B - 2 * B" using X2 by (simp add: R_def of_nat_diff left_diff_distrib)
  have XB: "real X * B = 2 ^ 63 * (1 - recip_err (unat \<beta>) X)" by (simp add: recip_err_def AB)
  have up: "real R * B < 2 ^ 63" using X(3) rR by (simp add: AB)
  have lo: "2 ^ 63 * (1 - 341 / 10 ^ 11) - 2 * B \<le> real R * B" using X(4) unfolding rR XB by simp
  note d = div_real_bounds [of "2 ^ 32" "R * (2 * unat a)", folded q_def]
  have "real q * B \<le> real (R * (2 * unat a)) / real (2 ^ 32) * B" using d(1) r by (intro mult_right_mono) simp_all
  also have "\<dots> = real R * B * A / 2 ^ 31" by (simp add: AB)
  also have "\<dots> < 2 ^ 63 * A / 2 ^ 31" using up r by (intro divide_strict_right_mono mult_strict_right_mono) simp_all
  finally have "real q * B < 2 ^ 32 * A" by simp
  then have "real (q * unat b) < real (unat a * 2 ^ (23 + 1))" by (simp add: AB u\<beta>)
  then have 1: "q * unat b < unat a * 2 ^ (23 + 1)" by (simp only: of_nat_less_iff)
  have "(2 ^ 63 * (1 - 341 / 10 ^ 11) - 2 * B) * A / 2 ^ 31 \<le> real R * B * A / 2 ^ 31"
    using lo r by (intro divide_right_mono mult_right_mono) simp_all
  also have "\<dots> = real (R * (2 * unat a)) / real (2 ^ 32) * B" by (simp add: AB)
  also have "\<dots> \<le> (real q + 1) * B" using d(2) r by (intro mult_right_mono) simp_all
  finally have "2 ^ 32 * A * (1 - 341 / 10 ^ 11) - A * B / 2 ^ 30 \<le> (real q + 1) * B" by (simp add: field_simps)
  moreover have "A * B / 2 ^ 30 \<le> B / 2 ^ 6"
    using r mult_right_mono [of A "2 ^ 24" B] by simp
  moreover have "2 ^ 32 * A * (341 / 10 ^ 11) + B / 2 ^ 6 < B / 2" using r by simp
  ultimately have "2 * (2 ^ 32 * A) < (2 * real q + 3) * B" by (simp add: algebra_simps)
  then have "real (2 * (unat a * 2 ^ (23 + 1))) < real ((2 * q + 3) * unat b)" by (simp add: AB u\<beta> mult.commute)
  then have "2 * (unat a * 2 ^ (23 + 1)) < (2 * q + 3) * unat b" by (simp only: of_nat_less_iff)
  with 1 show ?thesis by (simp add: quotient_bounds_def q)
qed

text \<open>The wider product of the last step of \<^verbatim>\<open>divdf3.c\<close>, in two halves.\<close>

lemma mul_32_64:
  fixes r h l :: nat
  assumes "r < 2 ^ 32"
  shows "r * h + r * l div 2 ^ 32 = r * (h * 2 ^ 32 + l) div 2 ^ 32"
proof -
  have "r * (h * 2 ^ 32 + l) = r * h * 2 ^ 32 + r * l" by (simp add: algebra_simps)
  then show ?thesis by (simp only: div_mult_self3) simp
qed

lemma unat_mul_32_64:
  fixes r h l :: su_int
  shows "unat (ucast r * ucast h + drop_bit 32 (ucast r * ucast l) :: du_int) =
    unat r * (unat h * 2 ^ 32 + unat l) div 2 ^ 32"
proof -
  have r: "unat r < 2 ^ 32" and l: "unat l < 2 ^ 32" and h: "unat h < 2 ^ 32"
    using unsigned_less [where ?'a = nat, of r] unsigned_less [where ?'a = nat, of l]
      unsigned_less [where ?'a = nat, of h] by simp_all
  have e: "unat r * unat h + unat r * unat l div 2 ^ 32 = unat r * (unat h * 2 ^ 32 + unat l) div 2 ^ 32"
    by (rule mul_32_64 [OF r])
  have "unat h * 2 ^ 32 + unat l < 2 ^ 32 * 2 ^ 32" using h l by simp
  then have "unat r * (unat h * 2 ^ 32 + unat l) < 2 ^ 32 * (2 ^ 32 * 2 ^ 32)"
    using r by (intro mult_strict_mono') simp_all
  then have "unat r * (unat h * 2 ^ 32 + unat l) div 2 ^ 32 < 2 ^ 64" by (intro less_mult_imp_div_less) simp
  then show ?thesis
    unfolding e [symmetric] by (subst unat_add_below) (simp_all add: unat_wide32 unat_drop_bit)
qed

text \<open>The fourth step on natural numbers: \<open>C\<close> is the divisor with 63 digits after the point.\<close>

lemma last_step_bounds:
  fixes a C X r S R q :: nat
  assumes a: "a < 2 ^ 53" and C: "2 ^ 63 \<le> C" "C < 2 ^ 64" "C = h * 2 ^ 32 + l" "l < 2 ^ 32"
    and X: "X \<le> 2 ^ 32" "recip_err h X \<le> 341 / 10 ^ 11" "- (5 / 10 ^ 10) \<le> recip_err h X" "0 < X"
    and r: "r = X - 1" and S: "S = r * C div 2 ^ 32" and R: "R = r * (2 ^ 64 - S) div 2 ^ 32 - 2"
    and q: "q = 4 * a * R div 2 ^ 64"
  shows "0 < S" "2 \<le> r * (2 ^ 64 - S) div 2 ^ 32" "0 < a \<Longrightarrow> real q * real C < real a * 2 ^ 64"
    and "2 * real a * 2 ^ 64 < (2 * real q + 3) * real C"
proof -
  define \<rho> \<gamma> \<alpha> where g: "\<rho> = real r" "\<gamma> = real C" "\<alpha> = real a"
  have r32: "r < 2 ^ 32" using X(1,4) by (simp add: r)
  have "real r < real (2 ^ 32)" "real (2 ^ 63) \<le> real C" "real C < real (2 ^ 64)" "real a < real (2 ^ 53)"
    using r32 C a by (simp_all only: of_nat_less_iff of_nat_le_iff)
  then have b: "0 \<le> \<rho>" "\<rho> < 2 ^ 32" "2 ^ 63 \<le> \<gamma>" "\<gamma> < 2 ^ 64" "0 \<le> \<alpha>" "\<alpha> < 2 ^ 53" by (simp_all add: g)
  define e where "e = 1 - \<rho> * \<gamma> / 2 ^ 95"
  have \<rho>\<gamma>: "\<rho> * \<gamma> = 2 ^ 95 * (1 - e)" by (simp add: e_def)
  have e: "e \<le> 39 / 10 ^ 10" "- (1 / 10 ^ 9) \<le> e"
  proof -
    have Xr: "real X = \<rho> + 1" using X(4) by (simp add: g r of_nat_diff)
    have Xh: "real X * real h = 2 ^ 63 * (1 - recip_err h X)" by (simp add: recip_err_def)
    have "\<gamma> = real h * 2 ^ 32 + real l" by (simp add: g C(3))
    then have "\<rho> * \<gamma> = real X * real h * 2 ^ 32 + real X * real l - \<gamma>"
      using Xr by (simp add: algebra_simps)
    then have m: "\<rho> * \<gamma> = 2 ^ 95 * (1 - recip_err h X) + real X * real l - \<gamma>" unfolding Xh by simp
    define y where "y = real X * real l"
    have "real X * real l \<le> real (2 ^ 32) * real (2 ^ 32)"
      using X(1) C(4) by (intro mult_mono) (simp_all only: of_nat_le_iff less_imp_le of_nat_0_le_iff)
    then have y: "0 \<le> y" "y \<le> 2 ^ 64" by (simp_all add: y_def)
    have "2 ^ 95 * e = 2 ^ 95 * recip_err h X - y + \<gamma>" using m unfolding e_def y_def by (simp add: algebra_simps)
    then show "e \<le> 39 / 10 ^ 10" "- (1 / 10 ^ 9) \<le> e" using y b X(2,3) by simp_all
  qed
  define s where "s = e\<^sup>2"
  have "- (39 / 10 ^ 10) \<le> e" using e by simp
  then have s: "0 \<le> s" "s \<le> 1521 / 10 ^ 20" unfolding s_def by (simp, intro sq_le [OF _ e(1)]) simp_all
  note dS = div_real_bounds [of "2 ^ 32" "r * C", folded S]
  have S64: "S < 2 ^ 64"
  proof -
    have "r * C < 2 ^ 32 * 2 ^ 64" using r32 C(2) by (intro mult_strict_mono') simp_all
    then show ?thesis unfolding S by (intro less_mult_imp_div_less) simp
  qed
  have Sr: "real S \<le> \<rho> * \<gamma> / 2 ^ 32" "\<rho> * \<gamma> / 2 ^ 32 \<le> real S + 1" using dS by (simp_all add: g)
  have "2 ^ 62 \<le> \<rho> * \<gamma> / 2 ^ 32" unfolding \<rho>\<gamma> using e by simp
  then have "0 < real S" using Sr(2) by simp
  then show S0: "0 < S" by (simp only: of_nat_0_less_iff)
  have sq: "(\<rho> * \<gamma>) * (2 ^ 64 - \<rho> * \<gamma> / 2 ^ 32) / 2 ^ 32 = 2 ^ 126 * (1 - s)"
    unfolding \<rho>\<gamma> s_def by (simp add: power2_eq_square field_simps)
  define R1 where "R1 = r * (2 ^ 64 - S) div 2 ^ 32"
  note d1 = div_real_bounds [of "2 ^ 32" "r * (2 ^ 64 - S)", folded R1_def]
  have rc: "real (r * (2 ^ 64 - S)) = \<rho> * (2 ^ 64 - real S)" using S64 by (simp add: g of_nat_diff)
  have "real R1 \<le> \<rho> * (2 ^ 64 - real S) / 2 ^ 32" using d1(1) unfolding rc by simp
  also have "\<dots> \<le> \<rho> * (2 ^ 64 - \<rho> * \<gamma> / 2 ^ 32 + 1) / 2 ^ 32"
    using Sr b by (intro divide_right_mono mult_left_mono) simp_all
  finally have "real R1 * \<gamma> \<le> \<rho> * (2 ^ 64 - \<rho> * \<gamma> / 2 ^ 32 + 1) / 2 ^ 32 * \<gamma>"
    using b by (intro mult_right_mono) simp_all
  also have "\<dots> = (\<rho> * \<gamma>) * (2 ^ 64 - \<rho> * \<gamma> / 2 ^ 32) / 2 ^ 32 + \<rho> * \<gamma> / 2 ^ 32"
  proof -
    have "\<rho> * (K + 1) / c * \<gamma> = \<rho> * \<gamma> * K / c + \<rho> * \<gamma> / c" for K c by (simp add: algebra_simps add_divide_distrib)
    then show ?thesis .
  qed
  also have "(\<rho> * \<gamma>) * (2 ^ 64 - \<rho> * \<gamma> / 2 ^ 32) / 2 ^ 32 = 2 ^ 126 * (1 - s)" by (rule sq)
  finally have u1: "real R1 * \<gamma> \<le> 2 ^ 126 * (1 - s) + \<rho> * \<gamma> / 2 ^ 32" .
  have "\<rho> * \<gamma> / 2 ^ 32 \<le> \<gamma>" using b mult_right_mono [of \<rho> "2 ^ 32" \<gamma>] by simp
  then have u2: "real R1 * \<gamma> \<le> 2 ^ 126 + \<gamma>" using u1 s by simp
  have "\<rho> * (2 ^ 64 - \<rho> * \<gamma> / 2 ^ 32) / 2 ^ 32 \<le> \<rho> * (2 ^ 64 - real S) / 2 ^ 32"
    using Sr b by (intro divide_right_mono mult_left_mono) simp_all
  also have "\<dots> \<le> real R1 + 1" using d1(2) unfolding rc by simp
  finally have "\<rho> * (2 ^ 64 - \<rho> * \<gamma> / 2 ^ 32) / 2 ^ 32 * \<gamma> \<le> (real R1 + 1) * \<gamma>"
    using b by (intro mult_right_mono) simp_all
  moreover have "\<rho> * (2 ^ 64 - \<rho> * \<gamma> / 2 ^ 32) / 2 ^ 32 * \<gamma> = 2 ^ 126 * (1 - s)"
  proof -
    have "\<rho> * K / c * \<gamma> = \<rho> * \<gamma> * K / c" for K c by simp
    then show ?thesis by (simp only: sq)
  qed
  ultimately have l1: "2 ^ 126 * (1 - s) \<le> (real R1 + 1) * \<gamma>" by simp
  have "2 \<le> real R1"
  proof (rule ccontr)
    assume "\<not> 2 \<le> real R1"
    then have "(real R1 + 1) * \<gamma> \<le> 3 * 2 ^ 64" using b by (intro mult_mono) simp_all
    then show False using l1 s by simp
  qed
  then have R1: "2 \<le> R1" by simp
  then show "2 \<le> r * (2 ^ 64 - S) div 2 ^ 32" by (simp only: R1_def)
  have "R = R1 - 2" by (simp only: R R1_def)
  then have rR: "real R = real R1 - 2" using R1 by (simp add: of_nat_diff)
  have up: "real R * \<gamma> < 2 ^ 126" using u2 b unfolding rR by (simp add: algebra_simps)
  have lo: "2 ^ 126 * (1 - s) - 3 * \<gamma> \<le> real R * \<gamma>" using l1 unfolding rR by (simp add: algebra_simps)
  note d = div_real_bounds [of "2 ^ 64" "4 * a * R", folded q]
  have "real q * \<gamma> \<le> real (4 * a * R) / real (2 ^ 64) * \<gamma>" using d(1) b by (intro mult_right_mono) simp_all
  also have "\<dots> = real R * \<gamma> * \<alpha> / 2 ^ 62" by (simp add: g)
  finally have q1: "real q * \<gamma> \<le> real R * \<gamma> * \<alpha> / 2 ^ 62" .
  show "real q * real C < real a * 2 ^ 64" if "0 < a"
  proof -
    have "real R * \<gamma> * \<alpha> / 2 ^ 62 < 2 ^ 126 * \<alpha> / 2 ^ 62"
      using up that by (intro divide_strict_right_mono mult_strict_right_mono) (simp_all add: g)
    then have "real q * \<gamma> < 2 ^ 126 * \<alpha> / 2 ^ 62" using q1 by (rule le_less_trans [rotated])
    then show ?thesis by (simp add: g mult.commute)
  qed
  have "(2 ^ 126 * (1 - s) - 3 * \<gamma>) * \<alpha> / 2 ^ 62 \<le> real R * \<gamma> * \<alpha> / 2 ^ 62"
    using lo b by (intro divide_right_mono mult_right_mono) simp_all
  also have "\<dots> = real (4 * a * R) / real (2 ^ 64) * \<gamma>" by (simp add: g)
  also have "\<dots> \<le> (real q + 1) * \<gamma>" using d(2) b by (intro mult_right_mono) simp_all
  finally have f: "2 ^ 64 * \<alpha> - 2 ^ 64 * (s * \<alpha>) - 3 * (\<gamma> * \<alpha>) / 2 ^ 62 \<le> (real q + 1) * \<gamma>"
    by (simp add: field_simps)
  define y z where yz: "y = s * \<alpha>" "z = \<gamma> * \<alpha>"
  have "y \<le> 1521 / 10 ^ 20 * 2 ^ 53" "z \<le> \<gamma> * 2 ^ 53" unfolding yz using s b by (intro mult_mono; simp)+
  then have "2 ^ 64 * (s * \<alpha>) + 3 * (\<gamma> * \<alpha>) / 2 ^ 62 < \<gamma> / 2" using b unfolding yz [symmetric] by simp
  then show "2 * real a * 2 ^ 64 < (2 * real q + 3) * real C" using f by (simp add: g algebra_simps)
qed

lemma div_quotient_double_bounds:
  assumes a: "2 ^ 52 \<le> unat a" "unat a < 2 * 2 ^ 52" and b: "2 ^ 52 \<le> unat b" "unat b < 2 * 2 ^ 52"
  shows "quotient_bounds 52 (unat a) (unat b) (unat (div_quotient_double a b))"
proof -
  define h :: su_int where "h = ucast (drop_bit 21 b)"
  define l :: su_int where "l = ucast (push_bit 11 b)"
  define C where "C = unat b * 2 ^ 11"
  have "unat b div 2 ^ 21 < 2 ^ 32" using b(2) by (intro less_mult_imp_div_less) simp
  then have uh: "unat h = unat b div 2 ^ 21" by (simp add: h_def unat_low32 unat_drop_bit)
  have "unat (push_bit 11 b) = C" unfolding C_def using b(2) by (intro unat_push_below) simp
  then have ul: "unat l = C mod 2 ^ 32" by (simp add: l_def unat_low32)
  have "C div 2 ^ 32 = unat b div 2 ^ 21"
    using div_mult_mult2 [of "2 ^ 11" "unat b" "2 ^ 21"] by (simp add: C_def)
  then have C: "C = unat h * 2 ^ 32 + unat l" unfolding uh ul by (metis div_mult_mod_eq)
  have Cb: "2 ^ 63 \<le> C" "C < 2 ^ 64" using b by (simp_all add: C_def)
  have "2 ^ 52 div 2 ^ 21 \<le> unat b div 2 ^ 21" using b(1) by (rule div_le_mono)
  then have "2 ^ 31 \<le> unat h" by (simp add: uh)
  then obtain X where X: "unat (recip32 h) = X mod 2 ^ 32" "X \<le> 2 ^ 32"
    "recip_err (unat h) X \<le> 341 / 10 ^ 11" "- (5 / 10 ^ 10) \<le> recip_err (unat h) X"
    by (rule recip32_correct)
  have "2 ^ 32 \<le> X * unat h" using X(3,4) by (intro err_product) simp_all
  then have X0: "0 < X" by (cases "X = 0") auto
  define r where "r = X - 1"
  have r: "unat (recip32 h - 1) = r" unfolding r_def by (rule sub_small) (use X X0 in simp_all)
  define S where "S = r * C div 2 ^ 32"
  define R where "R = r * (2 ^ 64 - S) div 2 ^ 32 - 2"
  define q where "q = 4 * unat a * R div 2 ^ 64"
  have a53: "unat a < 2 ^ 53" using a(2) by simp
  have l32: "unat l < 2 ^ 32" using unsigned_less [where ?'a = nat, of l] by simp
  note last = last_step_bounds [OF a53 Cb C l32 X(2-4) X0 r_def S_def R_def q_def]
  define s :: du_int where "s = ucast (recip32 h - 1) * ucast h + drop_bit 32 (ucast (recip32 h - 1) * ucast l)"
  have us: "unat s = S" unfolding s_def unat_mul_32_64 r C [symmetric] S_def ..
  then have "s \<noteq> 0" using last(1) by auto
  then have uc: "unat (- s) = 2 ^ 64 - S" using unat_minus_word [of s] us by simp
  define R1 :: du_int where "R1 = ucast (recip32 h - 1) * ucast (ucast (drop_bit 32 (- s)) :: su_int) +
    drop_bit 32 (ucast (recip32 h - 1) * ucast (ucast (- s) :: su_int))"
  have "unat R1 = r * (2 ^ 64 - S) div 2 ^ 32"
    unfolding R1_def unat_mul_32_64 r unat_high32 unfolding unat_low32 uc div_mult_mod_eq ..
  then have uR: "unat (R1 - 2) = R" using last(2) by (subst unat_sub_below) (simp_all add: R_def)
  have ua: "unat (push_bit 2 a) = 4 * unat a" using a(2) by (subst unat_push_below) simp_all
  obtain hi lo where w: "wideMultiply double (push_bit 2 a) (R1 - 2) = (hi, lo)" by (rule prod.exhaust)
  from dbl.mul [OF w] have "unat hi * 2 ^ 64 + unat lo = 4 * unat a * R" by (simp add: ua uR)
  moreover have "unat lo < 2 ^ 64" using unsigned_less [where ?'a = nat, of lo] by simp
  ultimately have "unat hi = q" unfolding q_def by (metis add.commute div_mult_self3 div_less add_0 power_not_zero zero_neq_numeral)
  moreover have "div_quotient_double a b = hi"
    by (simp only: div_quotient_double_def Let_def h_def [symmetric] l_def [symmetric] s_def [symmetric]
      R1_def [symmetric] w fst_conv)
  ultimately have q: "unat (div_quotient_double a b) = q" by simp
  have rC: "real C = real (unat b) * 2 ^ 11" by (simp add: C_def)
  have "0 < unat a" using a(1) by (rule less_le_trans [rotated]) simp
  from last(3) [OF this] have "real (q * unat b) < real (unat a * 2 ^ (52 + 1))" by (simp add: rC)
  then have "q * unat b < unat a * 2 ^ (52 + 1)" by (simp only: of_nat_less_iff)
  moreover have "real (2 * (unat a * 2 ^ (52 + 1))) < real ((2 * q + 3) * unat b)"
    using last(4) by (simp add: rC mult.commute)
  then have "2 * (unat a * 2 ^ (52 + 1)) < (2 * q + 3) * unat b" by (simp only: of_nat_less_iff)
  ultimately show ?thesis by (simp add: quotient_bounds_def q)
qed

text \<open>Rounding the truncated quotient to a multiple of \<open>2 ^ k\<close>, away from zero in the middle, is off by
  at most three quarters: the truncated quotient may be below the middle while the exact one is above.\<close>

lemma truncated_round:
  fixes T :: real
  assumes k: "0 < k" and T: "real Q < T" "T < real Q + 3 / 2"
    and m: "m = Q div 2 ^ k + of_bool (2 ^ (k - 1) \<le> Q mod 2 ^ k)"
  shows "\<bar>T / 2 ^ k - real m\<bar> \<le> 3 / 4"
    and "Q < 2 * N \<Longrightarrow> 4 \<le> N \<Longrightarrow> real N \<le> T / 2 ^ k \<Longrightarrow> m = N \<and> T / 2 ^ k < real N + 1 / 4"
proof -
  define K :: nat where "K = 2 ^ (k - 1)"
  have K: "2 ^ k = 2 * K" "1 \<le> K" using k by (simp_all add: K_def flip: power_Suc)
  then have rK: "(2::real) ^ k = 2 * real K" by (metis of_nat_mult of_nat_numeral of_nat_power)
  define d \<rho> where d\<rho>: "d = Q div 2 ^ k" "\<rho> = Q mod 2 ^ k"
  have Q: "Q = d * (2 * K) + \<rho>" unfolding d\<rho> K(1) [symmetric] by (rule div_mult_mod_eq [symmetric])
  have \<rho>: "\<rho> < 2 * K" unfolding d\<rho> K(1) using K(2) by simp
  have rQ: "real Q = 2 * (real d * real K) + real \<rho>" by (simp add: Q)
  have K1: "1 \<le> real K" using K(2) by simp
  show "\<bar>T / 2 ^ k - real m\<bar> \<le> 3 / 4"
  proof (cases "K \<le> \<rho>")
    case True
    then have "m = d + 1" unfolding m by (simp add: K_def d\<rho>)
    moreover have "real K \<le> real \<rho>" "real \<rho> + 1 \<le> 2 * real K" using True \<rho> by linarith+
    then have "2 * (real d * real K) + real K \<le> T" "T \<le> 2 * (real d * real K) + 2 * real K + real K"
      using T K1 unfolding rQ by linarith+
    ultimately show ?thesis using K1 unfolding rK by (intro abs_leI) (simp_all add: field_simps)
  next
    case False
    then have "m = d" unfolding m by (simp add: K_def d\<rho>)
    moreover have "real \<rho> + 1 \<le> real K" using False by linarith
    then have "2 * (real d * real K) \<le> T" "T \<le> 2 * (real d * real K) + 3 / 2 * real K"
      using T K1 unfolding rQ by linarith+
    ultimately show ?thesis using K1 unfolding rK by (intro abs_leI) (simp_all add: field_simps)
  qed
  show "m = N \<and> T / 2 ^ k < real N + 1 / 4" if N: "Q < 2 * N" "4 \<le> N" "real N \<le> T / 2 ^ k"
  proof -
    have t: "real N * (2 * real K) \<le> T" using N(3) K1 unfolding rK by (simp add: field_simps)
    have "real Q + 1 \<le> 2 * real N" using N(1) by linarith
    then have t': "T < 2 * real N + 1 / 2" using T by simp
    have "K = 1"
    proof (rule ccontr)
      assume "K \<noteq> 1"
      then have "4 \<le> 2 * real K" using K(2) by linarith
      then have "real N * 4 \<le> real N * (2 * real K)" by (intro mult_left_mono) simp_all
      then have "real N * 4 \<le> T" using t by (rule order_trans)
      moreover have "4 \<le> real N" using N(2) by simp
      ultimately show False using t' by linarith
    qed
    have "real Q + 3 / 2 > 2 * real N" using t T(2) unfolding \<open>K = 1\<close> by simp
    then have "Q + 1 = 2 * N" using N(1) by linarith
    have "2 * N = 2 * d + \<rho> + 1" "\<rho> < 2" using Q \<rho> \<open>Q + 1 = 2 * N\<close> unfolding \<open>K = 1\<close> by simp_all
    then have "\<rho> = 1" "d + 1 = N" by presburger+
    moreover have "m = d + of_bool (K \<le> \<rho>)" by (simp only: m d\<rho> K_def)
    ultimately have "m = N" using \<open>K = 1\<close> by simp
    moreover have "T / 2 ^ k < real N + 1 / 4" using t' unfolding rK \<open>K = 1\<close> by simp
    ultimately show ?thesis by simp
  qed
qed

text \<open>A number strictly between \<open>Q\<close> and \<open>Q + 1\<close>, with \<open>k\<close> digits shifted out.\<close>

lemma truncated_digits:
  fixes z :: real
  assumes k: "0 < k" and z: "real Q / 2 ^ k < z" "z < (real Q + 1) / 2 ^ k" and h: "real h \<le> z" "z < real h + 1"
  shows "h = Q div 2 ^ k" and "real h + 1 / 2 < z \<longleftrightarrow> 2 ^ (k - 1) \<le> Q mod 2 ^ k" and "z \<noteq> real h + 1 / 2"
proof -
  define K :: nat where "K = 2 ^ (k - 1)"
  have K: "2 ^ k = 2 * K" "1 \<le> K" using k by (simp_all add: K_def flip: power_Suc)
  then have rK: "(2::real) ^ k = 2 * real K" by (metis of_nat_mult of_nat_numeral of_nat_power)
  define d \<rho> where d\<rho>: "d = Q div 2 ^ k" "\<rho> = Q mod 2 ^ k"
  have Q: "Q = d * (2 * K) + \<rho>" unfolding d\<rho> K(1) [symmetric] by (rule div_mult_mod_eq [symmetric])
  have \<rho>: "\<rho> < 2 * K" unfolding d\<rho> K(1) using K(2) by simp
  have K1: "1 \<le> real K" using K(2) by simp
  define y where "y = z * (2 * real K)"
  have y: "2 * (real d * real K) + real \<rho> < y" "y < 2 * (real d * real K) + real \<rho> + 1"
    using z K1 unfolding rK by (simp_all add: y_def Q field_simps)
  have zy: "z = y / (2 * real K)" using K1 by (simp add: y_def)
  have r1: "real \<rho> + 1 \<le> 2 * real K" using \<rho> by linarith
  have "real d < z" "z < real d + 1"
    using y r1 K1 unfolding zy by (simp_all add: field_simps)
  then have hd: "h = d" using h by linarith
  then show "h = Q div 2 ^ k" by (simp add: d\<rho>)
  have c: "(real h + 1 / 2 < z \<longleftrightarrow> K \<le> \<rho>) \<and> z \<noteq> real h + 1 / 2"
  proof (cases "K \<le> \<rho>")
    case True
    then have "real K \<le> real \<rho>" by simp
    then have "real d + 1 / 2 < z" using y K1 unfolding zy by (simp add: field_simps)
    then show ?thesis using True hd by simp
  next
    case False
    then have "real \<rho> + 1 \<le> real K" by linarith
    then have "z < real d + 1 / 2" using y K1 unfolding zy by (simp add: field_simps)
    then show ?thesis using False hd by simp
  qed
  then show "real h + 1 / 2 < z \<longleftrightarrow> 2 ^ (k - 1) \<le> Q mod 2 ^ k" "z \<noteq> real h + 1 / 2"
    by (simp_all add: K_def d\<rho>)
qed

section \<open>Division with such a quotient\<close>

locale fp_divider = fp_format F for F :: "'r::len word fp_lib" +
  fixes quot :: "'r word \<Rightarrow> 'r word \<Rightarrow> 'r word"
  assumes quot: "2 ^ significandBits F \<le> unat a \<Longrightarrow> unat a < 2 * 2 ^ significandBits F \<Longrightarrow>
    2 ^ significandBits F \<le> unat b \<Longrightarrow> unat b < 2 * 2 ^ significandBits F \<Longrightarrow>
    quotient_bounds (significandBits F) (unat a) (unat b) (unat (quot a b))"

context fp_divider
begin

text \<open>The quotient shifted into place and its residual: \<open>T\<close> is the exact quotient in units of the last
  digit. The residual is an integer below one and a half divisors, and never exactly half of one.\<close>

lemma quotient_step:
  fixes sa sb Q res :: "'r word"
  assumes a: "2 ^ significandBits F \<le> unat sa" "unat sa < 2 * 2 ^ significandBits F"
    and b: "2 ^ significandBits F \<le> unat sb" "unat sb < 2 * 2 ^ significandBits F"
    and n: "(if quot sa sb < push_bit 1 (implicitBit F)
      then (quot sa sb, push_bit (significandBits F + 1) sa - quot sa sb * sb, e - 1)
      else let quo = drop_bit 1 (quot sa sb) in (quo, push_bit (significandBits F) sa - quo * sb, e)) = (Q, res, e')"
  obtains T where "T * 2 powi e' = real (unat sa) / real (unat sb) * 2 ^ significandBits F * 2 powi e"
    "real (unat Q) < T" "T < real (unat Q) + 3 / 2" "2 ^ significandBits F \<le> unat Q" "unat Q < 2 * 2 ^ significandBits F"
    "real (unat res) = (T - real (unat Q)) * real (unat sb)" "2 * unat res \<noteq> unat sb" "0 < unat res"
    "2 * unat res < 3 * unat sb"
proof -
  let ?s = "significandBits F" and ?L = "LENGTH('r)"
  define q where "q = unat (quot sa sb)"
  have qb: "q * unat sb < unat sa * 2 ^ (?s + 1)" "2 * (unat sa * 2 ^ (?s + 1)) < (2 * q + 3) * unat sb"
    using quot [OF a b] by (simp_all add: quotient_bounds_def q_def)
  have c: "quot sa sb < push_bit 1 (implicitBit F) \<longleftrightarrow> q < 2 * 2 ^ ?s"
  proof -
    have "(2::nat) * 2 ^ ?s < 2 ^ ?L"
      using width power_strict_increasing [of "?s + 1" ?L "2::nat"] by simp
    then have "unat (push_bit 1 (implicitBit F)) = 2 * 2 ^ ?s"
      by (subst unat_push_below) (simp_all add: unat_implicitBit)
    then show ?thesis by (simp add: word_less_nat_alt q_def)
  qed
  have B: "0 < unat sb" using b(1) by (rule less_le_trans [rotated]) simp
  define d where "d = (if q < 2 * 2 ^ ?s then ?s + 1 else ?s)"
  define QQ where "QQ = (if q < 2 * 2 ^ ?s then q else q div 2)"
  have d2: "unat sa * 2 ^ (?s + 1) = (if q < 2 * 2 ^ ?s then 1 else 2) * (unat sa * 2 ^ d)" by (simp add: d_def)
  have lo: "QQ * unat sb < unat sa * 2 ^ d"
  proof (cases "q < 2 * 2 ^ ?s")
    case True
    have e: "unat sa * 2 ^ (?s + 1) = unat sa * 2 ^ d" using True by (simp add: d_def)
    show ?thesis using qb(1) True unfolding e by (simp add: QQ_def)
  next
    case False
    have e: "unat sa * 2 ^ (?s + 1) = 2 * (unat sa * 2 ^ d)" using d2 False by simp
    have "2 * (q div 2) \<le> q" by presburger
    then have "2 * (q div 2) * unat sb \<le> q * unat sb" by (rule mult_le_mono1)
    then have "2 * (q div 2 * unat sb) \<le> q * unat sb" by (simp only: mult.assoc)
    then have "q div 2 * unat sb < unat sa * 2 ^ d" using qb(1) unfolding e by linarith
    then show ?thesis using False by (simp add: QQ_def)
  qed
  have hi: "2 * (unat sa * 2 ^ d) < (2 * QQ + 3) * unat sb"
  proof (cases "q < 2 * 2 ^ ?s")
    case True
    have e: "unat sa * 2 ^ (?s + 1) = unat sa * 2 ^ d" using True by (simp add: d_def)
    show ?thesis using qb(2) True unfolding e by (simp add: QQ_def)
  next
    case False
    have e: "unat sa * 2 ^ (?s + 1) = 2 * (unat sa * 2 ^ d)" using d2 False by simp
    have "2 * q + 3 \<le> 2 * (2 * (q div 2) + 3)" by presburger
    then have "(2 * q + 3) * unat sb \<le> 2 * (2 * (q div 2) + 3) * unat sb" by (rule mult_le_mono1)
    then have "(2 * q + 3) * unat sb \<le> 2 * ((2 * (q div 2) + 3) * unat sb)" by (simp only: mult.assoc)
    then have "2 * (unat sa * 2 ^ d) < (2 * (q div 2) + 3) * unat sb" using qb(2) unfolding e by linarith
    then show ?thesis using False by (simp add: QQ_def)
  qed
  define N where "N = unat sa * 2 ^ d - QQ * unat sb"
  have N: "0 < N" "2 * N < 3 * unat sb" using lo hi by (simp_all add: N_def diff_mult_distrib2 algebra_simps)
  have "(2::nat) ^ (?s + 4) \<le> 2 ^ ?L" using width by (intro power_increasing) simp_all
  then have NL: "N < 2 ^ ?L" using N(2) b(2) by (simp add: power_add)
  have Q: "Q = of_nat QQ" "e' = (if q < 2 * 2 ^ ?s then e - 1 else e)" "res = push_bit d sa - Q * sb"
    using n c unfolding QQ_def d_def q_def
    by (auto simp: Let_def of_nat_unat unat_drop_bit [of 1, simplified, symmetric] split: if_splits)
  have Qb: "2 ^ ?s \<le> QQ" "QQ < 2 * 2 ^ ?s"
  proof -
    define M :: nat where "M = 2 * 2 ^ ?s"
    have q1: "2 ^ ?s \<le> q"
    proof (rule ccontr)
      assume "\<not> 2 ^ ?s \<le> q"
      then have "2 * q + 3 \<le> M + 1" "unat sb \<le> M - 1" using b(2) by (simp_all add: M_def)
      then have "(2 * q + 3) * unat sb \<le> (M + 1) * (M - 1)" by (rule mult_le_mono)
      also have "\<dots> < M * M" by (simp add: M_def algebra_simps diff_mult_distrib2)
      finally have "(2 * q + 3) * unat sb < 2 * (2 ^ ?s * 2 ^ (?s + 1))" by (simp add: M_def)
      moreover have "2 ^ ?s * 2 ^ (?s + 1) \<le> unat sa * 2 ^ (?s + 1)" using a(1) by (rule mult_le_mono1)
      ultimately show False using qb(2) by linarith
    qed
    have "q * 2 ^ ?s \<le> q * unat sb" using b(1) by (rule mult_le_mono2)
    also have "\<dots> < 2 * 2 ^ ?s * 2 ^ (?s + 1)" using qb(1) a(2) by (rule less_trans [OF _ mult_strict_right_mono]) simp
    finally have q2: "q < 2 * (2 * 2 ^ ?s)" by (simp add: mult.commute)
    then show "2 ^ ?s \<le> QQ" "QQ < 2 * 2 ^ ?s" using q1 by (auto simp: QQ_def)
  qed
  have uQ: "unat Q = QQ"
  proof -
    have "(2::nat) * 2 ^ ?s < 2 ^ ?L"
      using width power_strict_increasing [of "?s + 1" ?L "2::nat"] by simp
    then show ?thesis using Qb unfolding Q(1) by (simp add: unat_of_nat take_bit_eq_mod)
  qed
  have "push_bit d sa = of_nat (unat sa * 2 ^ d)" by (simp add: push_bit_eq_mult of_nat_unat)
  then have "res = of_nat N" unfolding Q(3) Q(1) N_def using lo by (simp add: of_nat_diff of_nat_unat)
  then have ures: "unat res = N" using NL by (simp add: unat_of_nat take_bit_eq_mod)
  define T where "T = real (unat sa * 2 ^ d) / real (unat sb)"
  have TB: "T * real (unat sb) = real (unat sa * 2 ^ d)" using B by (simp add: T_def)
  show ?thesis
  proof (rule that [of T])
    show "T * 2 powi e' = real (unat sa) / real (unat sb) * 2 ^ ?s * 2 powi e"
      unfolding T_def Q(2) d_def by (simp add: power_int_diff)
    have "real (2 * (unat sa * 2 ^ d)) < real ((2 * QQ + 3) * unat sb)" using hi by (simp only: of_nat_less_iff)
    then have h: "2 * real (unat sa * 2 ^ d) < (2 * real QQ + 3) * real (unat sb)" by simp
    have "real (QQ * unat sb) < T * real (unat sb)" "2 * (T * real (unat sb)) < (2 * real QQ + 3) * real (unat sb)"
      unfolding TB using lo h by (simp_all only: of_nat_less_iff)
    then have "real QQ * real (unat sb) < T * real (unat sb)" "T * real (unat sb) < (real QQ + 3 / 2) * real (unat sb)"
      by (simp_all add: algebra_simps)
    then show "real (unat Q) < T" "T < real (unat Q) + 3 / 2" using B by (simp_all add: uQ)
    show "2 ^ ?s \<le> unat Q" "unat Q < 2 * 2 ^ ?s" using Qb uQ by simp_all
    show "real (unat res) = (T - real (unat Q)) * real (unat sb)"
      unfolding ures uQ left_diff_distrib TB N_def using lo by (simp add: of_nat_diff)
    show "0 < unat res" "2 * unat res < 3 * unat sb" using N ures by simp_all
    show "2 * unat res \<noteq> unat sb"
    proof
      assume "2 * unat res = unat sb"
      then have "2 * (unat sa * 2 ^ d) = (2 * QQ + 1) * unat sb"
        using lo unfolding ures N_def by (simp add: diff_mult_distrib2 algebra_simps)
      then have "2 ^ (d + 1) * unat sa = (2 * QQ + 1) * unat sb" by (simp add: mult.commute)
      then have "2 ^ (d + 1) dvd (2 * QQ + 1) * unat sb" by (rule dvdI [OF sym])
      moreover have "coprime (2 ^ (d + 1)) (2 * QQ + 1)" by (simp add: coprime_power_left_iff)
      ultimately have "2 ^ (d + 1) dvd unat sb" by (simp only: coprime_dvd_mult_right_iff)
      then have "2 ^ (d + 1) \<le> unat sb" using B by (rule dvd_imp_le)
      moreover have "(2::nat) ^ (?s + 1) \<le> 2 ^ (d + 1)" by (intro power_increasing) (simp_all add: d_def)
      ultimately have "2 ^ (?s + 1) \<le> unat sb" by (rule order_trans [rotated])
      then show False using b(2) by simp
    qed
  qed
qed

text \<open>Rounding a quotient that is known to lie above \<open>Q\<close> by less than three halves.\<close>

lemma fp_mag_field_2:
  assumes "q < 2 * 2 ^ significandBits F" and "0 < e \<Longrightarrow> 2 ^ significandBits F \<le> q"
  shows "(q + 2) * 2 ^ e \<le> fp_mag (significandBits F) (e * 2 ^ significandBits F + q + 2)"
proof (cases "q + 1 < 2 * 2 ^ significandBits F")
  case True
  then show ?thesis using fp_mag_field(2) [of "q + 1" e] assms(2) by (simp add: add.assoc le_SucI)
next
  case False
  then have q: "q + 2 = 2 * 2 ^ significandBits F + 1" using assms(1) by simp
  have "e * 2 ^ significandBits F + (2 * 2 ^ significandBits F + 1) =
      (e + 1) * 2 ^ significandBits F + 2 ^ significandBits F + 1" by simp
  moreover have "fp_mag (significandBits F) ((e + 1) * 2 ^ significandBits F + 2 ^ significandBits F + 1) =
      (2 ^ significandBits F + 1) * 2 ^ (e + 1)" by (rule fp_mag_field(2)) simp_all
  moreover have "(2 * 2 ^ significandBits F + 1) * 2 ^ e \<le> (2 ^ significandBits F + 1) * (2::nat) ^ (e + 1)"
    by (simp add: algebra_simps)
  ultimately show ?thesis by (simp only: add.assoc q)
qed

lemma fp_nearest_above:
  fixes T x :: real
  assumes k: "k = e * 2 ^ significandBits F + q" "k < fp_inf F"
    and q: "q < 2 * 2 ^ significandBits F" "0 < e \<Longrightarrow> 2 ^ significandBits F \<le> q"
    and T: "real q < T" "T < real q + 3 / 2" "T \<noteq> real q + 1 / 2" and x: "x = T * 2 ^ e"
  shows "fp_nearest F x (k + of_bool (real q + 1 / 2 < T))"
proof (cases "T < real q + 1")
  case True
  show ?thesis
    by (rule fp_nearest_round [OF k(2) _ _ _ True x])
      (use fp_mag_field [OF q] T in \<open>simp_all add: k(1)\<close>)
next
  case False
  have m1: "real (fp_mag (significandBits F) k) = real q * 2 ^ e"
    "real (fp_mag (significandBits F) (k + 1)) = (real q + 1) * 2 ^ e"
    using fp_mag_field [OF q] by (simp_all add: k(1) distrib_right)
  have "real ((q + 2) * 2 ^ e) \<le> real (fp_mag (significandBits F) (k + 2))"
    using fp_mag_field_2 [OF q] by (simp only: of_nat_le_iff k(1))
  then have m2: "(real q + 2) * 2 ^ e \<le> real (fp_mag (significandBits F) (k + 2))" by (simp add: distrib_right)
  have e: "(0::real) < 2 ^ e" by simp
  have "(real q + 1) * 2 ^ e \<le> x" "x < (real q + 3 / 2) * 2 ^ e"
    unfolding x using False T(2) by simp_all
  then have "real q * 2 ^ e + (real q + 1) * 2 ^ e < 2 * x"
    "2 * x < (real q + 1) * 2 ^ e + real (fp_mag (significandBits F) (k + 2))"
    using m2 e by (simp_all add: algebra_simps)
  then have "fp_nearest F x (k + 1)"
    using k(2) m1 by (simp add: fp_nearest_def Let_def)
  then show ?thesis using False by simp
qed

lemma fp_compose_inc:
  fixes m :: "'r word"
  assumes "unat m + of_bool b < 2 ^ (LENGTH('r) - 1)"
  shows "fp_abs ((m + of_bool b) OR (if s then signBit F else 0)) = unat m + of_bool b"
    and "fp_sign ((m + of_bool b) OR (if s then signBit F else 0)) = s"
proof -
  have L: "(2::nat) ^ LENGTH('r) = 2 * 2 ^ (LENGTH('r) - 1)" by (simp add: eb(1))
  have "unat (m + of_bool b) = unat m + of_bool b"
    using assms by (subst unat_add_below) (simp_all add: L)
  then show "fp_abs ((m + of_bool b) OR (if s then signBit F else 0)) = unat m + of_bool b"
    "fp_sign ((m + of_bool b) OR (if s then signBit F else 0)) = s"
    using fp_compose [of "m + of_bool b" s] assms by simp_all
qed

text \<open>The exponent of the quotient is that of a normal number.\<close>

lemma fp_div_round_normal:
  fixes Q res sb :: "'r word"
  assumes q: "2 ^ significandBits F \<le> unat Q" "unat Q < 2 * 2 ^ significandBits F"
    and T: "real (unat Q) < T" "T < real (unat Q) + 3 / 2"
    and res: "real (unat res) = (T - real (unat Q)) * real (unat sb)" "2 * unat res \<noteq> unat sb"
      "2 * unat res < 3 * unat sb" and b: "0 < unat sb" "unat sb < 2 * 2 ^ significandBits F"
    and p: "p = e + exponentBias F" "1 \<le> p"
    and x: "x = T * 2 powi (p - 1)"
    and r: "r = fp_div_round F u (if s then signBit F else 0) e Q res sb"
  shows "fp_nearest F x (fp_abs r)" and "fp_sign r = s"
proof -
  let ?s = "significandBits F" and ?L = "LENGTH('r)"
  have "fp_nearest F x (fp_abs r) \<and> fp_sign r = s"
  proof (cases "maxExponent F \<le> p")
    case True
    have "real (2 ^ ?s) \<le> real (unat Q)" using q(1) by (simp only: of_nat_le_iff)
    then have "2 ^ ?s \<le> real (unat Q)" by simp
    then have "2 ^ ?s \<le> T" using T(1) by (rule order_trans [OF _ less_imp_le])
    from fp_overflow [OF this True] have "real (fp_mag ?s (fp_inf F)) \<le> x" unfolding x .
    from fp_nearest_overflow [OF this] show ?thesis
      using True p(1) by (simp add: r fp_div_round_def Let_def fp_sign_infRep)
  next
    case pM: False
    define r0 where "r0 = (Q AND significandMask F) OR push_bit ?s (word_of_int p)"
    have um: "unat (Q AND significandMask F) = unat Q - 2 ^ ?s"
      using q by (simp add: significandMask_eq unat_and_mask le_mod_geq)
    define k where "k = nat (p - 1) * 2 ^ ?s + unat Q"
    have r0: "fp_abs r0 = k" "\<not> fp_sign r0" "k < fp_inf F"
    proof -
      have "unat (Q AND significandMask F) < 2 ^ ?s" "0 \<le> p" "p < maxExponent F"
        using q um p(2) pM by auto
      note f = fp_fields [OF this, of r0 False]
      have "nat p = Suc (nat (p - 1))" using p(2) by simp
      then have "nat p * 2 ^ ?s = nat (p - 1) * 2 ^ ?s + 2 ^ ?s" by (simp only: mult_Suc add.commute)
      then show "fp_abs r0 = k" "\<not> fp_sign r0" "k < fp_inf F"
        using f q(1) um by (auto simp: r0_def k_def)
    qed
    have ur: "unat r0 = k" using unat_sign_abs [of r0] r0 by simp
    have "(2::nat) ^ (?s + 4) \<le> 2 ^ ?L" using width by (intro power_increasing) simp_all
    then have "2 * unat res < 2 ^ ?L" using res(3) b by (simp add: power_add)
    then have "unat (push_bit 1 res) = 2 * unat res" by (subst unat_push_below) simp_all
    then have "push_bit 1 res > sb \<longleftrightarrow> real (unat sb) < real (2 * unat res)"
      unfolding word_less_nat_alt by (simp only: of_nat_less_iff)
    also have "real (2 * unat res) = 2 * (T - real (unat Q)) * real (unat sb)" using res(1) by simp
    also have "real (unat sb) < 2 * (T - real (unat Q)) * real (unat sb) \<longleftrightarrow> 1 < 2 * (T - real (unat Q))"
      using b(1) by simp
    finally have round: "push_bit 1 res > sb \<longleftrightarrow> real (unat Q) + 1 / 2 < T" by auto
    have "T \<noteq> real (unat Q) + 1 / 2"
    proof
      assume "T = real (unat Q) + 1 / 2"
      then have "real (2 * unat res) = real (unat sb)" using res(1) by simp
      then show False using res(2) by (simp only: of_nat_eq_iff)
    qed
    moreover have "x = T * 2 ^ nat (p - 1)" using p(2) by (simp add: x power_int_def)
    ultimately have n: "fp_nearest F x (k + of_bool (real (unat Q) + 1 / 2 < T))"
      using T q r0 by (intro fp_nearest_above [of k "nat (p - 1)" "unat Q"]) (simp_all add: k_def)
    have "r = (r0 + of_bool (real (unat Q) + 1 / 2 < T)) OR (if s then signBit F else 0)"
      using pM p unfolding r fp_div_round_def round by (simp add: Let_def r0_def c_bool_def)
    then show ?thesis
      using fp_compose_inc [of r0 "real (unat Q) + 1 / 2 < T" s] n r0(3) fp_inf_less by (simp add: ur)
  qed
  then show "fp_nearest F x (fp_abs r)" "fp_sign r = s" by simp_all
qed

lemma fp_inf_two: "2 * 2 ^ significandBits F \<le> fp_inf F"
proof -
  have "(2::nat) ^ 2 \<le> 2 ^ exponentBits F" using eb(2) by (intro power_increasing) simp_all
  then have "2 \<le> (2::nat) ^ exponentBits F - 1" by simp
  then show ?thesis unfolding fp_inf_def by (rule mult_le_mono1)
qed

text \<open>The exponent is below that of the normal numbers.\<close>

lemma fp_div_round_denormal:
  fixes Q res sb :: "'r word"
  assumes q: "2 ^ significandBits F \<le> unat Q" "unat Q < 2 * 2 ^ significandBits F"
    and T: "real (unat Q) < T" "T < real (unat Q) + 3 / 2" and res: "0 < unat res"
    and p: "p = e + exponentBias F" "p < 1" "- (2 ^ 30) < p"
    and x: "x = T * 2 powi (p - 1)"
    and r: "r = fp_div_round F u (if s then signBit F else 0) e Q res sb"
  shows "\<bar>x - real (fp_mag (significandBits F) (fp_abs r))\<bar> \<le> 3 / 4"
    and "2 ^ significandBits F \<le> x \<Longrightarrow> fp_nearest F x (fp_abs r)" and "fp_sign r = s"
proof -
  let ?s = "significandBits F" and ?L = "LENGTH('r)"
  define k where "k = nat (1 - p)"
  have sh: "1 - word_of_int p = (word_of_int (1 - p) :: su_int)" by simp
  have uL: "unat (of_nat ?L :: su_int) = ?L" using width_max by (simp add: unat_of_nat)
  have k: "0 < k" "unat (word_of_int (1 - p) :: su_int) = k"
    using p unfolding k_def by (simp, subst unat_word_of_int) simp_all
  have "(1::nat) \<le> 2 ^ exponentBits F - 1" using fp_inf_pos by (simp add: fp_inf_def)
  then have pM: "\<not> maxExponent F \<le> p" using p(2) unfolding maxExponent_eq by linarith
  have "(2::real) powi (p - 1) = 1 / 2 ^ k"
    using p(2) power_int_minus [of "2::real" "1 - p"] by (simp add: k_def power_int_def field_simps)
  then have xk: "x = T / 2 ^ k" by (simp add: x)
  have big: "of_nat ?L \<le> (word_of_int (1 - p) :: su_int) \<longleftrightarrow> ?L \<le> k"
    unfolding word_le_nat_alt uL k(2) ..
  have ns: "(4::nat) \<le> 2 ^ ?s" using power_increasing [OF sb_min, of "2::nat"] by simp
  define m where "m = unat Q div 2 ^ k + of_bool (2 ^ (k - 1) \<le> unat Q mod 2 ^ k)"
  note near = truncated_round [OF k(1) T m_def, folded xk]
  have m: "fp_abs r = m \<and> fp_sign r = s"
  proof (cases "k < ?L")
    case False
    have "(2::nat) ^ (?s + 2) \<le> 2 ^ (k - 1)" using False width by (intro power_increasing) simp_all
    moreover have "(2::nat) ^ (k - 1) \<le> 2 ^ k" by (intro power_increasing) simp_all
    moreover have "2 * 2 ^ ?s \<le> (2::nat) ^ (?s + 2)" by simp
    ultimately have "unat Q < 2 ^ (k - 1)" "unat Q < 2 ^ k" using q(2) by linarith+
    then have "m = 0" by (simp add: m_def)
    moreover have "r = 0 OR (if s then signBit F else 0)"
      using False pM p big unfolding r fp_div_round_def sh by (simp add: Let_def)
    ultimately show ?thesis using fp_compose [of 0 s] by simp
  next
    case True
    obtain hi lo where w: "wideRightShiftWithSticky u Q res (word_of_int (1 - p)) = (hi, lo)"
      by (cases "wideRightShiftWithSticky u Q res (word_of_int (1 - p))")
    have W: "wide (hi, lo) = shr_sticky k (wide (Q, res))"
      using wideRightShift_in [OF k(2,1) True width_max(1), of u Q res] by (simp only: w)
    have "sticky (wide (hi, lo)) (real (wide (Q, res)) / 2 ^ k)"
      unfolding W by (rule sticky_shr [OF sticky_exact])
    note block = sticky_block [OF this, of ?L, unfolded wide_div wide_mod]
    define z where "z = real (wide (Q, res)) / 2 ^ k / 2 ^ ?L"
    have zq: "real (unat Q) / 2 ^ k < z" "z < (real (unat Q) + 1) / 2 ^ k"
    proof -
      have "unat Q * 2 ^ ?L < wide (Q, res)" using res by (simp add: wide_def)
      then have "real (unat Q * 2 ^ ?L) < real (wide (Q, res))" "real (wide (Q, res)) < real ((unat Q + 1) * 2 ^ ?L)"
        using wide_lt [of Q res] by (simp_all only: of_nat_less_iff)
      then show "real (unat Q) / 2 ^ k < z" "z < (real (unat Q) + 1) / 2 ^ k"
        by (simp_all add: z_def field_simps)
    qed
    have z: "real (unat hi) \<le> z" "z < real (unat hi) + 1"
      "real (unat hi) + 1 / 2 < z \<longleftrightarrow> lo > signBit F" "z = real (unat hi) + 1 / 2 \<longleftrightarrow> lo = signBit F"
      using block eb by (simp_all add: z_def word_less_nat_alt word_unat_eq_iff unat_signBit)
    note dz = truncated_digits [OF k(1) zq z(1,2)]
    have ntie: "lo \<noteq> signBit F" and gt: "lo > signBit F \<longleftrightarrow> 2 ^ (k - 1) \<le> unat Q mod 2 ^ k"
      using dz(2,3) unfolding z(3,4) by simp_all
    have hm: "m = unat hi + of_bool (lo > signBit F)" by (simp only: m_def gt dz(1))
    have "unat Q div 2 ^ k < 2 ^ ?s"
    proof (rule less_mult_imp_div_less)
      have "(2::nat) ^ 1 \<le> 2 ^ k" using k(1) by (intro power_increasing) simp_all
      then have "2 ^ ?s * 2 \<le> 2 ^ ?s * (2::nat) ^ k" by simp
      then show "unat Q < 2 ^ ?s * 2 ^ k" using q(2) by linarith
    qed
    then have "unat hi + of_bool (lo > signBit F) \<le> 2 ^ ?s" using dz(1) by simp
    moreover have "(2::nat) ^ ?s < 2 ^ (?L - 1)" using width by (intro power_strict_increasing) simp_all
    ultimately have "unat hi + of_bool (lo > signBit F) < 2 ^ (?L - 1)" by (rule le_less_trans)
    note c = fp_compose_inc [OF this, of s]
    have "r = (hi + of_bool (lo > signBit F)) OR (if s then signBit F else 0)"
      using True pM p(1,2) big w ntie unfolding r fp_div_round_def sh by (simp add: Let_def)
    then show ?thesis using c hm by simp
  qed
  have "unat Q div 2 ^ k \<le> unat Q div 2 ^ 1" using k(1) by (intro div_le_mono2 power_increasing) simp_all
  then have ms: "m \<le> 2 ^ ?s" using q(2) by (auto simp: m_def)
  have mag: "fp_mag ?s (fp_abs r) = m" using m fp_mag_compose(2) [OF ms] by simp
  show "\<bar>x - real (fp_mag ?s (fp_abs r))\<bar> \<le> 3 / 4" unfolding mag by (rule near(1))
  show "fp_sign r = s" using m by simp
  show "fp_nearest F x (fp_abs r)" if "2 ^ ?s \<le> x"
  proof -
    have "real (2 ^ ?s) \<le> x" using that by simp
    from near(2) [OF q(2) ns this] have x': "m = 2 ^ ?s" "x < real (2 ^ ?s) + 1 / 4" by simp_all
    have "fp_nearest F x (2 ^ ?s + of_bool (real (2 ^ ?s) + 1 / 2 < x))"
    proof (rule fp_nearest_round [where y = x and e = 0])
      have "2 * 2 ^ ?s \<le> fp_inf F" using fp_inf_two .
      then show "2 ^ ?s < fp_inf F" using ns by linarith
      show "fp_mag ?s (2 ^ ?s) = 2 ^ ?s * 2 ^ 0" "fp_mag ?s (2 ^ ?s + 1) = (2 ^ ?s + 1) * 2 ^ 0"
        using fp_mag_field [of "2 ^ ?s" 0] by simp_all
    qed (use that x' in simp_all)
    then show ?thesis using x' m by simp
  qed
qed

section \<open>The quotient\<close>

lemma fp_div_special_eq:
  "fp_div_special F sign a b =
    (if fp_is_nan F a then Some (a OR quietBit F)
     else if fp_is_nan F b then Some (b OR quietBit F)
     else if fp_is_inf F a then Some (if fp_is_inf F b then qnanRep F else infRep F OR sign)
     else if fp_is_inf F b then Some sign
     else if fp_abs a = 0 then Some (if fp_abs b = 0 then qnanRep F else sign)
     else if fp_abs b = 0 then Some (infRep F OR sign) else None)"
proof -
  have e: "fp_abs x = fp_inf F \<Longrightarrow> x AND absMask F = infRep F" for x :: "'r word" by (simp add: and_absMask_cmp)
  show ?thesis
    unfolding fp_div_special_def Let_def and_absMask_cmp by (auto simp: fp_is_nan_def fp_is_inf_def e)
qed

lemma fp_div_exponent:
  fixes a b :: "'r word"
  assumes "ea = int (fp_abs a div 2 ^ significandBits F) + ca" "eb' = int (fp_abs b div 2 ^ significandBits F) + cb"
    and "- 100 < ea" "- 100 < eb'" "ea < 2 ^ 15" "eb' < 2 ^ 15"
  shows "sint (ucast (drop_bit (significandBits F) a AND word_of_int (maxExponent F)) -
      ucast (drop_bit (significandBits F) b AND word_of_int (maxExponent F)) +
      word_of_int (ca - cb) :: su_int) = ea - eb'"
proof -
  have "(ucast (drop_bit (significandBits F) x AND word_of_int (maxExponent F)) :: su_int) =
      word_of_int (int (fp_abs x div 2 ^ significandBits F))" for x :: "'r word"
    unfolding exponent_word(1) [symmetric] by (simp add: of_nat_unat)
  then have "(ucast (drop_bit (significandBits F) a AND word_of_int (maxExponent F)) -
      ucast (drop_bit (significandBits F) b AND word_of_int (maxExponent F)) +
      word_of_int (ca - cb) :: su_int) = word_of_int (ea - eb')"
    unfolding assms(1,2) by simp
  moreover have "sfits LENGTH(32) (ea - eb')" using assms(3-) by (simp add: sfits_def)
  ultimately show ?thesis by (simp only: sint_of_int)
qed

lemma fp_div_nonzero:
  fixes a b :: "'r word"
  assumes a: "0 < fp_abs a" "fp_abs a < fp_inf F" and b: "0 < fp_abs b" "fp_abs b < fp_inf F"
    and x: "x = \<bar>fp_value F a / fp_value F b * fp_scale F\<bar>"
  shows "fp_sign (fp_div F u quot a b) = (fp_sign a \<noteq> fp_sign b)"
    and "2 ^ significandBits F \<le> x \<Longrightarrow> fp_nearest F x (fp_abs (fp_div F u quot a b))"
    and "x < 2 ^ significandBits F \<Longrightarrow>
      \<bar>x - real (fp_mag (significandBits F) (fp_abs (fp_div F u quot a b)))\<bar> \<le> 3 / 4"
proof -
  let ?s = "significandBits F" and ?sign = "if fp_sign a \<noteq> fp_sign b then signBit F else 0"
  define special where "special \<longleftrightarrow>
    ((ucast (drop_bit ?s a AND word_of_int (maxExponent F)) :: su_int) - 1 \<ge> word_of_int (maxExponent F) - 1 \<or>
     (ucast (drop_bit ?s b AND word_of_int (maxExponent F)) :: su_int) - 1 \<ge> word_of_int (maxExponent F) - 1)"
  have sp: "fp_abs a < 2 ^ ?s \<Longrightarrow> special" "fp_abs b < 2 ^ ?s \<Longrightarrow> special"
    unfolding special_def exponent_special by simp_all
  obtain ea sa where A: "fp_operand F u a = (ea, sa)" "2 ^ ?s \<le> unat (sa OR implicitBit F)"
    "unat (sa OR implicitBit F) < 2 * 2 ^ ?s"
    "real (fp_mag ?s (fp_abs a)) = real (unat (sa OR implicitBit F)) * 2 powi (ea - 1)"
    "1 - int ?s \<le> ea" "ea < maxExponent F" by (rule fp_operand_correct [OF a, of u])
  obtain eb' sb where B: "fp_operand F u b = (eb', sb)" "2 ^ ?s \<le> unat (sb OR implicitBit F)"
    "unat (sb OR implicitBit F) < 2 * 2 ^ ?s"
    "real (fp_mag ?s (fp_abs b)) = real (unat (sb OR implicitBit F)) * 2 powi (eb' - 1)"
    "1 - int ?s \<le> eb'" "eb' < maxExponent F" by (rule fp_operand_correct [OF b, of u])
  obtain ca sa' where ca: "(if special \<and> a AND absMask F < implicitBit F then normalize F u (a AND significandMask F)
      else (0, a AND significandMask F)) = (ca, sa')" by (rule prod.exhaust)
  obtain cb sb' where cb: "(if special \<and> b AND absMask F < implicitBit F then normalize F u (b AND significandMask F)
      else (0, b AND significandMask F)) = (cb, sb')" by (rule prod.exhaust)
  note oa = fp_scale_operand [OF a sp(1) A(1) ca] and ob = fp_scale_operand [OF b sp(2) B(1) cb]
  define e where "e = ea - eb'"
  let ?sa = "sa OR implicitBit F" and ?sb = "sb OR implicitBit F"
  obtain Q res e' where n: "(if quot ?sa ?sb < push_bit 1 (implicitBit F)
      then (quot ?sa ?sb, push_bit (?s + 1) ?sa - quot ?sa ?sb * ?sb, e - 1)
      else let quo = drop_bit 1 (quot ?sa ?sb) in (quo, push_bit ?s ?sa - quo * ?sb, e)) = (Q, res, e')"
    by (rule prod_cases3)
  obtain T where T: "T * 2 powi e' = real (unat ?sa) / real (unat ?sb) * 2 ^ ?s * 2 powi e"
    "real (unat Q) < T" "T < real (unat Q) + 3 / 2" "2 ^ ?s \<le> unat Q" "unat Q < 2 * 2 ^ ?s"
    "real (unat res) = (T - real (unat Q)) * real (unat ?sb)" "2 * unat res \<noteq> unat ?sb" "0 < unat res"
    "2 * unat res < 3 * unat ?sb" by (rule quotient_step [OF A(2,3) B(2,3) n])
  have M: "maxExponent F < 2 ^ 15"
    using power_increasing [OF exponentBits_le, of "2::int"] by (simp add: maxExponent_def)
  have pE: "sint (ucast (drop_bit ?s a AND word_of_int (maxExponent F)) -
      ucast (drop_bit ?s b AND word_of_int (maxExponent F)) + word_of_int (ca - cb) :: su_int) = e"
    unfolding e_def by (rule fp_div_exponent [OF oa(2) ob(2)]) (use A(5,6) B(5,6) M width width_max in linarith)+
  have sign: "(a XOR b) AND signBit F = ?sign"
    by (simp add: and_signBit fp_sign_def bit_xor_iff)
  have nosp: "fp_div_special F p a b = None" for p
    using a b by (simp add: fp_div_special_eq fp_is_nan_def fp_is_inf_def)
  have r: "fp_div F u quot a b = fp_div_round F u ?sign e' Q res ?sb"
    unfolding fp_div_def Let_def special_def [symmetric] nosp if_cancel ca cb prod.case option.case pE sign
    by (simp only: oa(1) ob(1) prod.case n [unfolded Let_def])
  define p where "p = e' + exponentBias F"
  have x': "x = T * 2 powi (p - 1)"
  proof -
    have s: "0 < fp_scale F" by (simp add: fp_scale_def)
    have "fp_value F a / fp_value F b = (fp_value F a * fp_scale F) / (fp_value F b * fp_scale F)"
      using s by simp
    also have "\<bar>\<dots>\<bar> = real (fp_mag ?s (fp_abs a)) / real (fp_mag ?s (fp_abs b))"
      unfolding fp_value_eq by (cases "fp_sign a"; cases "fp_sign b") (simp_all add: abs_divide)
    finally have q: "\<bar>fp_value F a / fp_value F b\<bar> = real (fp_mag ?s (fp_abs a)) / real (fp_mag ?s (fp_abs b))" .
    have "x = \<bar>fp_value F a / fp_value F b\<bar> * fp_scale F" unfolding x using s by (simp only: abs_mult abs_of_pos)
    then have "x = real (fp_mag ?s (fp_abs a)) / real (fp_mag ?s (fp_abs b)) * fp_scale F" by (simp only: q)
    also have "\<dots> = real (unat ?sa) / real (unat ?sb) * (2 powi (ea - 1) / 2 powi (eb' - 1) * fp_scale F)"
      unfolding A(4) B(4) by simp
    also have "2 powi (ea - 1) / 2 powi (eb' - 1) * fp_scale F = 2 ^ ?s * 2 powi e * 2 powi (exponentBias F - 1)"
    proof -
      have "e + (exponentBias F - 1) + int ?s = (ea - 1) - (eb' - 1) + (exponentBias F + int ?s - 1)"
        by (simp add: e_def)
      then have "(2::real) powi (e + (exponentBias F - 1) + int ?s) =
          2 powi ((ea - 1) - (eb' - 1) + (exponentBias F + int ?s - 1))" by (simp only:)
      then show ?thesis unfolding fp_scale_powi by (simp add: power_int_add power_int_diff mult_ac)
    qed
    also have "real (unat ?sa) / real (unat ?sb) * (2 ^ ?s * 2 powi e * 2 powi (exponentBias F - 1)) =
        T * 2 powi e' * 2 powi (exponentBias F - 1)" unfolding T(1) by (simp only: mult.assoc)
    also have "\<dots> = T * 2 powi (p - 1)" by (simp add: p_def power_int_add power_int_diff)
    finally show ?thesis .
  qed
  have sb0: "0 < unat ?sb" using B(2) by (rule less_le_trans [rotated]) simp
  have "e - 1 \<le> e'" using n by (auto simp: Let_def split: if_splits)
  then have pl: "- (2 ^ 30) < p" using A(5) B(6) M exponentBias_bounds width width_max unfolding e_def p_def by simp
  show "fp_sign (fp_div F u quot a b) = (fp_sign a \<noteq> fp_sign b)"
    using fp_div_round_normal(2) [OF T(4,5,2,3,6,7,9) sb0 B(3) p_def _ x' r]
      fp_div_round_denormal(3) [OF T(4,5,2,3,8) p_def _ pl x' r] by linarith
  show "fp_nearest F x (fp_abs (fp_div F u quot a b))" if "2 ^ ?s \<le> x"
    using fp_div_round_normal(1) [OF T(4,5,2,3,6,7,9) sb0 B(3) p_def _ x' r]
      fp_div_round_denormal(2) [OF T(4,5,2,3,8) p_def _ pl x' r that] by linarith
  show "\<bar>x - real (fp_mag ?s (fp_abs (fp_div F u quot a b)))\<bar> \<le> 3 / 4" if "x < 2 ^ ?s"
  proof -
    have "p < 1"
    proof (rule ccontr)
      assume "\<not> p < 1"
      then have "1 \<le> (2::real) powi (p - 1)" by (intro one_le_power_int) simp_all
      moreover have "real (2 ^ ?s) \<le> real (unat Q)" using T(4) by (simp only: of_nat_le_iff)
      then have "2 ^ ?s \<le> real (unat Q)" by simp
      then have t: "2 ^ ?s \<le> T" using T(2) by (rule order_trans [OF _ less_imp_le])
      ultimately have "2 ^ ?s * 1 \<le> T * 2 powi (p - 1)" by (intro mult_mono) (simp_all add: order_trans [OF _ t])
      then show False using that unfolding x' by simp
    qed
    then show ?thesis by (rule fp_div_round_denormal(1) [OF T(4,5,2,3,8) p_def _ pl x' r])
  qed
qed

lemma fp_div_special_result:
  fixes a b :: "'r word"
  assumes "\<not> fp_finite F a \<or> \<not> fp_finite F b \<or> fp_abs a = 0 \<or> fp_abs b = 0"
  shows "fp_div F u quot a b =
    (let sign = if fp_sign a \<noteq> fp_sign b then signBit F else 0 in
     if fp_is_nan F a then a OR quietBit F
     else if fp_is_nan F b then b OR quietBit F
     else if fp_is_inf F a \<and> fp_is_inf F b \<or> fp_abs a = 0 \<and> fp_abs b = 0 then qnanRep F
     else if fp_is_inf F a \<or> fp_abs b = 0 then infRep F OR sign
     else sign)"
proof -
  have sign: "(a XOR b) AND signBit F = (if fp_sign a \<noteq> fp_sign b then signBit F else 0)"
    by (simp add: and_signBit fp_sign_def bit_xor_iff)
  have inf: "fp_inf F \<le> fp_abs a \<or> fp_inf F \<le> fp_abs b \<or> fp_abs a = 0 \<or> fp_abs b = 0"
    using assms by (auto simp: fp_finite_def)
  then have sp: "(fp_abs a < 2 ^ significandBits F \<or> fp_inf F \<le> fp_abs a) \<or>
      fp_abs b < 2 ^ significandBits F \<or> fp_inf F \<le> fp_abs b" by auto
  define p where "p = (a XOR b) AND signBit F"
  have "fp_div_special F p a b \<noteq> None"
    using inf by (auto simp: fp_div_special_eq fp_is_nan_def fp_is_inf_def)
  then obtain r where r: "fp_div_special F p a b = Some r" by blast
  have "fp_div F u quot a b = r"
    unfolding fp_div_def Let_def exponent_special p_def [symmetric] r using sp by (simp only: if_True option.case)
  then show ?thesis
    using r inf fp_inf_pos unfolding Let_def sign [folded p_def, symmetric] fp_div_special_eq
    by (auto simp: fp_is_nan_def fp_is_inf_def split: if_splits)
qed

text \<open>To evaluate a concrete division of normal numbers: the approximate quotient is taken once.\<close>

lemma fp_div_normal_eval:
  fixes a b :: "'r word"
  assumes "2 ^ significandBits F \<le> fp_abs a" "fp_abs a < fp_inf F"
    and "2 ^ significandBits F \<le> fp_abs b" "fp_abs b < fp_inf F"
    and q: "quot ((a AND significandMask F) OR implicitBit F) ((b AND significandMask F) OR implicitBit F) = q"
  shows "fp_div F u quot a b = fp_div F u (\<lambda>_ _. q) a b"
proof -
  have s: "\<not> (fp_abs a < 2 ^ significandBits F \<or> fp_inf F \<le> fp_abs a)"
    "\<not> (fp_abs b < 2 ^ significandBits F \<or> fp_inf F \<le> fp_abs b)" using assms by simp_all
  show ?thesis unfolding fp_div_def Let_def exponent_special using s by (simp add: q)
qed

end

interpretation sgl_div: fp_divider single div_quotient_single
  by unfold_locales (use div_quotient_single_bounds in \<open>simp add: format_numbers\<close>)

interpretation dbl_div: fp_divider double div_quotient_double
  by unfold_locales (use div_quotient_double_bounds in \<open>simp add: format_numbers\<close>)

section \<open>Properties\<close>

text \<open>Double division is correctly rounded where the result is normal: for finite operands that are
  not zero, and an exact quotient of at least the least normal number (\<open>2 ^ 52\<close> units of the least
  denormal), \<^verbatim>\<open>__divdf3\<close> returns the nearest pattern, ties to even, overflow being infinity; the
  reciprocal is only an approximation, and never decides wrongly.\<close>

lemma divdf3_correctly_rounded:
  assumes "fp_finite double a" and "fp_finite double b" and "0 < fp_abs a" and "0 < fp_abs b"
    and "2 ^ 52 \<le> \<bar>fp_value double a / fp_value double b * fp_scale double\<bar>"
  shows "\<exists>r. divdf3 u D 0 a b d = Some (r, d) \<and>
    fp_nearest double \<bar>fp_value double a / fp_value double b * fp_scale double\<bar> (fp_abs r) \<and>
    fp_sign r = (fp_sign a \<noteq> fp_sign b)"
  using dbl_div.fp_div_nonzero(1,2) [of a b _ u] assms by (simp add: divdf3_def fp_finite_def format_numbers)

text \<open>Single division likewise.\<close>

lemma divsf3_correctly_rounded:
  assumes "fp_finite single a" and "fp_finite single b" and "0 < fp_abs a" and "0 < fp_abs b"
    and "2 ^ 23 \<le> \<bar>fp_value single a / fp_value single b * fp_scale single\<bar>"
  shows "\<exists>r. divsf3 u D 0 a b d = Some (r, d) \<and>
    fp_nearest single \<bar>fp_value single a / fp_value single b * fp_scale single\<bar> (fp_abs r) \<and>
    fp_sign r = (fp_sign a \<noteq> fp_sign b)"
  using sgl_div.fp_div_nonzero(1,2) [of a b _ u] assms by (simp add: divsf3_def fp_finite_def format_numbers)

text \<open>C17: A denormal quotient is off by at most three quarters of a unit (the theorem says it of both
  precisions): the digits shifted out are those of the truncated quotient, so the rounding may go wrong,
  but not far.\<close>

theorem division_denormal_error:
  assumes "fp_finite single a" and "fp_finite single b" and "0 < fp_abs a" and "0 < fp_abs b"
    and "\<bar>fp_value single a / fp_value single b * fp_scale single\<bar> < 2 ^ 23"
    and "fp_finite double a'" and "fp_finite double b'" and "0 < fp_abs a'" and "0 < fp_abs b'"
    and "\<bar>fp_value double a' / fp_value double b' * fp_scale double\<bar> < 2 ^ 52"
  shows "\<exists>r r'. divsf3 u D 0 a b d = Some (r, d) \<and> divdf3 u D 0 a' b' d = Some (r', d) \<and>
    \<bar>\<bar>fp_value single a / fp_value single b * fp_scale single\<bar> - real (fp_mag 23 (fp_abs r))\<bar> \<le> 3 / 4 \<and>
    \<bar>\<bar>fp_value double a' / fp_value double b' * fp_scale double\<bar> - real (fp_mag 52 (fp_abs r'))\<bar> \<le> 3 / 4"
proof -
  have fin: "fp_abs a < fp_inf single" "fp_abs b < fp_inf single" "fp_abs a' < fp_inf double" "fp_abs b' < fp_inf double"
    using assms by (simp_all only: fp_finite_def)
  note sgl_div.fp_div_nonzero(3) [OF assms(3) fin(1) assms(4) fin(2) refl, of u, unfolded format_numbers(3), OF assms(5)]
    dbl_div.fp_div_nonzero(3) [OF assms(8) fin(3) assms(9) fin(4) refl, of u, unfolded format_numbers(4), OF assms(10)]
  then show ?thesis by (simp only: divsf3_def divdf3_def) simp
qed

lemma least_normal_quotients:
  "fp_value single 0x00800003 / fp_value single 0x40000000 * fp_scale single = 4194305 + 1 / 2"
  "fp_value double 0x0010000000000003 / fp_value double 0x4000000000000000 * fp_scale double = 2251799813685249 + 1 / 2"
proof -
  have "fp_abs (0x00800003 :: su_int) = 1 * 2 ^ 23 + 3" "fp_abs (0x40000000 :: su_int) = 128 * 2 ^ 23"
    "fp_abs (0x0010000000000003 :: du_int) = 1 * 2 ^ 52 + 3" "fp_abs (0x4000000000000000 :: du_int) = 1024 * 2 ^ 52"
    by (simp_all add: fp_abs_def)
  moreover have "\<not> fp_sign (0x00800003 :: su_int)" "\<not> fp_sign (0x40000000 :: su_int)"
    "\<not> fp_sign (0x0010000000000003 :: du_int)" "\<not> fp_sign (0x4000000000000000 :: du_int)"
    by (simp_all add: fp_sign_def)
  ultimately show
    "fp_value single 0x00800003 / fp_value single 0x40000000 * fp_scale single = 4194305 + 1 / 2"
    "fp_value double 0x0010000000000003 / fp_value double 0x4000000000000000 * fp_scale double = 2251799813685249 + 1 / 2"
    unfolding fp_value_def by (simp_all add: fp_mag_def format_numbers)
qed

theorem division_denormal_error_witness:
  "\<forall>u (D :: unit fpu) d. \<exists>r r'. divsf3 u D 0 0x00800003 0x40000000 d = Some (r, d) \<and>
    divdf3 u D 0 0x0010000000000003 0x4000000000000000 d = Some (r', d) \<and>
    \<bar>\<bar>fp_value single 0x00800003 / fp_value single 0x40000000 * fp_scale single\<bar> - real (fp_mag 23 (fp_abs r))\<bar> \<le> 3 / 4 \<and>
    \<bar>\<bar>fp_value double 0x0010000000000003 / fp_value double 0x4000000000000000 * fp_scale double\<bar> -
      real (fp_mag 52 (fp_abs r'))\<bar> \<le> 3 / 4"
  by (intro allI division_denormal_error; (simp only: least_normal_quotients)?; simp add: fp_eval)

text \<open>And it does go wrong: half of the third normal number after the least is a tie between two
  denormal numbers, and in both precisions the division returns the odd one, not the even one.\<close>

theorem division_denormal_tie_wrong:
  "divsf3 u D 0 0x00800003 0x40000000 d = Some (0x00400001, d) \<and>
   fp_nearest single (fp_value single 0x00800003 / fp_value single 0x40000000 * fp_scale single)
     (fp_abs (0x00400002 :: su_int)) \<and>
   divdf3 u D 0 0x0010000000000003 0x4000000000000000 d = Some (0x0008000000000001, d) \<and>
   fp_nearest double (fp_value double 0x0010000000000003 / fp_value double 0x4000000000000000 * fp_scale double)
     (fp_abs (0x0008000000000002 :: du_int))"
proof -
  have "div_quotient_single 0x800003 0x800000 = 0x1000005" "div_quotient_double 0x10000000000003 0x10000000000000 = 0x20000000000005"
    by code_simp+
  then have "fp_div single u div_quotient_single 0x00800003 0x40000000 = fp_div single u (\<lambda>_ _. 0x1000005) 0x00800003 0x40000000"
    "fp_div double u div_quotient_double 0x0010000000000003 0x4000000000000000 =
      fp_div double u (\<lambda>_ _. 0x20000000000005) 0x0010000000000003 0x4000000000000000"
    by (intro sgl_div.fp_div_normal_eval dbl_div.fp_div_normal_eval;
      simp add: fp_eval fp_abs_def format_numbers significandMask_def implicitBit_def)+
  moreover have "fp_div single u (\<lambda>_ _. 0x1000005) 0x00800003 0x40000000 = 0x00400001" by code_simp
  moreover have "fp_div double u (\<lambda>_ _. 0x20000000000005) 0x0010000000000003 0x4000000000000000 = 0x0008000000000001"
    by code_simp
  ultimately show ?thesis
    unfolding least_normal_quotients
    by (simp add: divsf3_def divdf3_def fp_nearest_def Let_def fp_mag_def fp_abs_def format_numbers)
qed

text \<open>Division of what is not finite or is zero, in both precisions: a NaN operand is returned quiet,
  the left one first; infinity by infinity and zero by zero are the default NaN; infinity by anything and
  anything by zero are infinity, and anything by infinity and zero by anything are zero, with the sign
  of the quotient.\<close>

theorem division_special_values:
  assumes "\<not> fp_finite single a \<or> \<not> fp_finite single b \<or> fp_abs a = 0 \<or> fp_abs b = 0"
    and "\<not> fp_finite double a' \<or> \<not> fp_finite double b' \<or> fp_abs a' = 0 \<or> fp_abs b' = 0"
  shows "divsf3 u D 0 a b d = Some (
      if fp_is_nan single a then a OR 0x400000
      else if fp_is_nan single b then b OR 0x400000
      else if fp_is_inf single a \<and> fp_is_inf single b \<or> fp_abs a = 0 \<and> fp_abs b = 0 then 0x7FC00000
      else (if fp_is_inf single a \<or> fp_abs b = 0 then 0x7F800000 else 0) OR
        (if fp_sign a \<noteq> fp_sign b then 0x80000000 else 0), d) \<and>
    divdf3 u D 0 a' b' d = Some (
      if fp_is_nan double a' then a' OR 0x8000000000000
      else if fp_is_nan double b' then b' OR 0x8000000000000
      else if fp_is_inf double a' \<and> fp_is_inf double b' \<or> fp_abs a' = 0 \<and> fp_abs b' = 0 then 0x7FF8000000000000
      else (if fp_is_inf double a' \<or> fp_abs b' = 0 then 0x7FF0000000000000 else 0) OR
        (if fp_sign a' \<noteq> fp_sign b' then 0x8000000000000000 else 0), d)"
proof -
  have q: "qnanRep single = 0x7FC00000" "qnanRep double = 0x7FF8000000000000" by code_simp+
  show ?thesis
    using sgl_div.fp_div_special_result [OF assms(1), of u] dbl_div.fp_div_special_result [OF assms(2), of u]
    by (simp add: divsf3_def divdf3_def Let_def format_words q)
qed

theorem division_special_values_witness:
  "\<forall>u (D :: unit fpu) d. divsf3 u D 0 0x3F800000 0x80000000 d = Some (0xFF800000, d) \<and>
    divdf3 u D 0 0x7FF0000000000000 0xFFF0000000000000 d = Some (0x7FF8000000000000, d)"
proof (intro allI)
  fix u :: ub and D :: "unit fpu" and d
  show "divsf3 u D 0 0x3F800000 0x80000000 d = Some (0xFF800000, d) \<and>
    divdf3 u D 0 0x7FF0000000000000 0xFFF0000000000000 d = Some (0x7FF8000000000000, d)"
    using division_special_values [of "0x3F800000" "0x80000000" "0x7FF0000000000000" "0xFFF0000000000000" u D d]
    by (simp add: fp_eval fp_sign_def)
qed

text \<open>C16: The quotient of two finite nonzero numbers, in either precision, is the number nearest to the exact one,
  ties to even, when the quotient is not denormal.\<close>

theorem division_correctly_rounded:
  assumes "fp_finite double a" and "fp_finite double b" and "0 < fp_abs a" and "0 < fp_abs b" and "2 ^ 52 \<le> \<bar>fp_value double a / fp_value double b * fp_scale double\<bar>" and "fp_finite single e" and "fp_finite single f" and "0 < fp_abs e" and "0 < fp_abs f" and "2 ^ 23 \<le> \<bar>fp_value single e / fp_value single f * fp_scale single\<bar>"
  shows "(\<exists>r. divdf3 u D 0 a b d = Some (r, d) \<and>
    fp_nearest double \<bar>fp_value double a / fp_value double b * fp_scale double\<bar> (fp_abs r) \<and>
    fp_sign r = (fp_sign a \<noteq> fp_sign b)) \<and>
    (\<exists>r. divsf3 u D 0 e f d = Some (r, d) \<and>
    fp_nearest single \<bar>fp_value single e / fp_value single f * fp_scale single\<bar> (fp_abs r) \<and>
    fp_sign r = (fp_sign e \<noteq> fp_sign f))"
  by (rule conjI [OF divdf3_correctly_rounded [OF assms(1-5)] divsf3_correctly_rounded [OF assms(6-10)]])

theorem division_correctly_rounded_witness:
  "\<forall>(D :: unit fpu) d. (\<exists>r. divdf3 (\<lambda>_ _ _ _. 0) D 0 0x3FF0000000000000 0x4008000000000000 d = Some (r, d) \<and>
      fp_nearest double \<bar>fp_value double 0x3FF0000000000000 / fp_value double 0x4008000000000000 * fp_scale double\<bar> (fp_abs r) \<and>
      fp_sign r = (fp_sign (0x3FF0000000000000 :: du_int) \<noteq> fp_sign (0x4008000000000000 :: du_int))) \<and>
    (\<exists>r. divsf3 (\<lambda>_ _ _ _. 0) D 0 0x3F800000 0x40400000 d = Some (r, d) \<and>
      fp_nearest single \<bar>fp_value single 0x3F800000 / fp_value single 0x40400000 * fp_scale single\<bar> (fp_abs r) \<and>
      fp_sign r = (fp_sign (0x3F800000 :: su_int) \<noteq> fp_sign (0x40400000 :: su_int)))"
proof -
  have "fp_abs (0x3FF0000000000000 :: du_int) = 1023 * 2 ^ 52 + 0" "fp_abs (0x4008000000000000 :: du_int) = 1024 * 2 ^ 52 + 2 ^ 51"
    "fp_abs (0x3F800000 :: su_int) = 127 * 2 ^ 23 + 0" "fp_abs (0x40400000 :: su_int) = 128 * 2 ^ 23 + 2 ^ 22"
    by (simp_all add: fp_abs_def)
  then have "\<bar>fp_value double 0x3FF0000000000000 / fp_value double 0x4008000000000000 * fp_scale double\<bar> = 2 ^ 1074 / 3"
    "\<bar>fp_value single 0x3F800000 / fp_value single 0x40400000 * fp_scale single\<bar> = 2 ^ 149 / 3"
    unfolding fp_value_def by (simp_all add: fp_mag_def format_numbers abs_divide abs_mult)
  moreover have "2 ^ 52 \<le> (2::real) ^ 1074 / 3" "2 ^ 23 \<le> (2::real) ^ 149 / 3"
  proof -
    have "(2::real) ^ 54 \<le> 2 ^ 1074" "(2::real) ^ 25 \<le> 2 ^ 149" by (intro power_increasing; simp)+
    then show "2 ^ 52 \<le> (2::real) ^ 1074 / 3" "2 ^ 23 \<le> (2::real) ^ 149 / 3" by simp_all
  qed
  ultimately show ?thesis
    by (intro allI division_correctly_rounded) (simp_all only:, simp_all add: fp_eval)
qed

end
