(* ===== verification/Popcount.thy ===== *)
theory Popcount
  imports BitCount
begin

unbundle bit_operations_syntax

text \<open>
  The population counts: \<^verbatim>\<open>lib/popcountsi2.c\<close>, \<^verbatim>\<open>lib/popcountdi2.c\<close> and
  \<^verbatim>\<open>lib/popcountti2.c\<close>. The code adds up the bits in fields of two, four and eight digits of
  the same word, and then the fields. \<open>fields\<close> is a word all of whose fields have been replaced by
  a function of the digits in them; each step of the code turns one such word into the next.
\<close>

section \<open>The code\<close>

definition popcountsi2 :: "si_int \<Rightarrow> si_int" where
  "popcountsi2 a =
    (let x = a;
         x = x - (drop_bit 1 x AND 0x55555555);
         x = (drop_bit 2 x AND 0x33333333) + (x AND 0x33333333);
         x = (x + drop_bit 4 x) AND 0x0F0F0F0F;
         x = x + drop_bit 16 x
     in (x + drop_bit 8 x) AND 0x3F)"

definition popcountdi2 :: "di_int \<Rightarrow> si_int" where
  "popcountdi2 a =
    (let x2 = a;
         x2 = x2 - (drop_bit 1 x2 AND 0x5555555555555555);
         x2 = (drop_bit 2 x2 AND 0x3333333333333333) + (x2 AND 0x3333333333333333);
         x2 = (x2 + drop_bit 4 x2) AND 0x0F0F0F0F0F0F0F0F;
         x = ucast (x2 + drop_bit 32 x2) :: su_int;
         x = x + drop_bit 16 x
     in (x + drop_bit 8 x) AND 0x7F)"

definition popcountti2 :: "ti_int \<Rightarrow> si_int" where
  "popcountti2 a =
    (let x3 = a;
         x3 = x3 - (drop_bit 1 x3 AND (push_bit 64 0x5555555555555555 OR 0x5555555555555555));
         x3 = (drop_bit 2 x3 AND (push_bit 64 0x3333333333333333 OR 0x3333333333333333)) +
              (x3 AND (push_bit 64 0x3333333333333333 OR 0x3333333333333333));
         x3 = (x3 + drop_bit 4 x3) AND (push_bit 64 0x0F0F0F0F0F0F0F0F OR 0x0F0F0F0F0F0F0F0F);
         x2 = ucast (x3 + drop_bit 64 x3) :: du_int;
         x = ucast (x2 + drop_bit 32 x2) :: su_int;
         x = x + drop_bit 16 x
     in (x + drop_bit 8 x) AND 0xFF)"

section \<open>Fields\<close>

fun fields :: "nat \<Rightarrow> (nat \<Rightarrow> nat) \<Rightarrow> nat \<Rightarrow> nat \<Rightarrow> nat" where
  "fields w f 0 n = 0"
| "fields w f (Suc k) n = f (n mod 2 ^ w) + 2 ^ w * fields w f k (n div 2 ^ w)"

lemma and_join:
  "l < 2 ^ w \<Longrightarrow> c < 2 ^ w \<Longrightarrow> (l + 2 ^ w * h) AND (c + 2 ^ w * m) = (l AND c) + 2 ^ w * (h AND m :: nat)"
proof (induction w arbitrary: l c)
  case (Suc w)
  have d: "(x + 2 ^ Suc w * y) div 2 = x div 2 + 2 ^ w * y" "odd (x + 2 ^ Suc w * y) = odd x" for x y :: nat
    by simp_all
  have "(l + 2 ^ Suc w * h) AND (c + 2 ^ Suc w * m) =
      of_bool (odd l \<and> odd c) + 2 * ((l div 2 + 2 ^ w * h) AND (c div 2 + 2 ^ w * m))"
    unfolding and_rec [of "l + 2 ^ Suc w * h"] d ..
  also have "(l div 2 + 2 ^ w * h) AND (c div 2 + 2 ^ w * m) = (l div 2 AND c div 2) + 2 ^ w * (h AND m)"
    using Suc.prems by (intro Suc.IH) simp_all
  finally show ?case unfolding and_rec [of l c] by simp
qed simp

lemma and_digits: "W = 2 ^ w \<Longrightarrow> l < W \<Longrightarrow> c < W \<Longrightarrow> (l + W * h) AND (c + W * m) = (l AND c) + W * (h AND m :: nat)"
  using and_join [of l w c h m] by simp

lemmas and_digit = and_digits [where W = 4 and w = 2, OF _] and_digits [where W = 16 and w = 4, OF _]
  and_digits [where W = 256 and w = 8, OF _]

text \<open>The masks of the code are words all of whose fields hold the same constant.\<close>

lemma pair_step:
  assumes "d < 4" "e < 2"
  shows "(d div 2 + 2 * e) AND 1 = d div 2 AND (1 :: nat)" "d - (d div 2 AND 1) = pop_nat d" "d div 2 AND 1 \<le> d"
    "d div 2 + 2 * e < 4"
proof -
  have "\<forall>d \<in> {0,1,2,3}. \<forall>e \<in> {0,1}. (d div 2 + 2 * e) AND 1 = d div 2 AND (1 :: nat) \<and>
    d - (d div 2 AND 1) = pop_nat d \<and> d div 2 AND 1 \<le> d \<and> d div 2 + 2 * e < 4" by code_simp
  moreover have "d \<in> {0,1,2,3}" "e \<in> {0,1}" using assms by auto
  ultimately show "(d div 2 + 2 * e) AND 1 = d div 2 AND (1 :: nat)" "d - (d div 2 AND 1) = pop_nat d" "d div 2 AND 1 \<le> d"
    "d div 2 + 2 * e < 4" by blast+
qed

lemma count_pairs:
  "n < 2 ^ (2 * k) \<Longrightarrow> (n div 2 AND fields 2 (\<lambda>_. 1) k 0) \<le> n \<and>
    n - (n div 2 AND fields 2 (\<lambda>_. 1) k 0) = fields 2 pop_nat k n"
proof (induction k arbitrary: n)
  case (Suc k)
  define d m where dm: "d = n mod 4" "m = n div 4"
  have n: "n = d + 4 * m" by (simp add: dm)
  have d: "d < 4" by (simp add: dm)
  let ?M = "fields 2 (\<lambda>_. 1) k 0"
  have "m < 2 ^ (2 * k)" using Suc.prems by (simp add: dm less_mult_imp_div_less)
  from Suc.IH [OF this] have IH: "(m div 2 AND ?M) \<le> m" "m - (m div 2 AND ?M) = fields 2 pop_nat k m" by simp_all
  have "n div 2 = (d div 2 + 2 * (m mod 2)) + 4 * (m div 2)" unfolding n by presburger
  then have "n div 2 AND fields 2 (\<lambda>_. 1) (Suc k) 0 =
      ((d div 2 + 2 * (m mod 2)) + 4 * (m div 2)) AND (1 + 4 * ?M)" by simp
  also have "\<dots> = (d div 2 AND 1) + 4 * (m div 2 AND ?M)"
    using pair_step(1,4) [OF d, of "m mod 2"] by (subst and_digit(1)) simp_all
  finally have e: "n div 2 AND fields 2 (\<lambda>_. 1) (Suc k) 0 = (d div 2 AND 1) + 4 * (m div 2 AND ?M)" by simp
  have "fields 2 pop_nat (Suc k) n = pop_nat d + 4 * fields 2 pop_nat k m" by (simp add: dm)
  moreover have "n - ((d div 2 AND 1) + 4 * (m div 2 AND ?M)) = (d - (d div 2 AND 1)) + 4 * (m - (m div 2 AND ?M))"
    "(d div 2 AND 1) + 4 * (m div 2 AND ?M) \<le> n"
    using IH(1) pair_step(3) [OF d, of 0] unfolding n by linarith+
  ultimately show ?case unfolding e IH(2) pair_step(2) [OF d, of 0, OF zero_less_numeral] by simp
qed simp

lemma pop_nat_join: "pop_nat (n mod 2 ^ w) + pop_nat (n div 2 ^ w mod 2 ^ v) = pop_nat (n mod 2 ^ (w + v))"
proof -
  have "n mod 2 ^ (w + v) = n mod 2 ^ w + 2 ^ w * (n div 2 ^ w mod 2 ^ v)"
    unfolding power_add mod_mult2_eq by (rule add.commute)
  then show ?thesis by (simp add: pop_nat_append)
qed

lemma pop_nat_le: "n < 2 ^ w \<Longrightarrow> pop_nat n \<le> w"
proof (induction w arbitrary: n)
  case (Suc w)
  then have "pop_nat (n div 2) \<le> w" by simp
  then show ?case unfolding pop_nat_rec [of n] by presburger
qed simp

lemma count_nibbles:
  assumes x: "x = fields 2 pop_nat (2 * k) n"
  shows "(x div 4 AND fields 4 (\<lambda>_. 3) k 0) + (x AND fields 4 (\<lambda>_. 3) k 0) = fields 4 pop_nat k n"
  using x
proof (induction k arbitrary: n x)
  case (Suc k)
  define p q where pq: "p = pop_nat (n mod 4)" "q = pop_nat (n div 4 mod 4)"
  define X where "X = fields 2 pop_nat (2 * k) (n div 16)"
  let ?M = "fields 4 (\<lambda>_. 3) k 0"
  have b: "p \<le> 2" "q \<le> 2" using pop_nat_le [of _ 2] by (simp_all add: pq)
  have x: "x = (p + 4 * q) + 16 * X" unfolding Suc.prems by (simp add: pq X_def div_mult2_eq [symmetric])
  then have x4: "x div 4 = (q + 4 * (X mod 4)) + 16 * (X div 4)" using b by simp presburger
  have m: "fields 4 (\<lambda>_. 3) (Suc k) 0 = 3 + 16 * ?M" by simp
  have t: "(l + 4 * h) AND 3 = l" if "l < 4" for l h :: nat
  proof -
    have "(3 :: nat) = mask 2" by (simp add: mask_eq_exp_minus_1)
    then have "(l + 4 * h) AND 3 = take_bit 2 (l + 4 * h)" by (simp only: take_bit_eq_mask)
    then show ?thesis using that by (simp add: take_bit_eq_mod)
  qed
  have "X mod 4 < 4" by simp
  then have q16: "q + 4 * (X mod 4) < 16" and p16: "p + 4 * q < 16" using b by linarith+
  have "x div 4 AND (3 + 16 * ?M) = q + 16 * (X div 4 AND ?M)"
    unfolding x4 using b q16 by (subst and_digit(2)) (simp_all add: t)
  moreover have "x AND (3 + 16 * ?M) = p + 16 * (X AND ?M)"
    unfolding x using b p16 by (subst and_digit(2)) (simp_all add: t)
  ultimately have "(x div 4 AND fields 4 (\<lambda>_. 3) (Suc k) 0) + (x AND fields 4 (\<lambda>_. 3) (Suc k) 0) =
      (q + p) + 16 * ((X div 4 AND ?M) + (X AND ?M))" by (simp only: m distrib_left ac_simps)
  also have "(X div 4 AND ?M) + (X AND ?M) = fields 4 pop_nat k (n div 16)" by (rule Suc.IH) (rule X_def)
  also have "q + p = pop_nat (n mod 16)" using pop_nat_join [of n 2 2] by (simp add: pq)
  finally show ?case by simp
qed simp

lemma and_15: "l < 16 \<Longrightarrow> (l + 16 * h) AND 15 = (l :: nat)"
proof -
  have "(15 :: nat) = mask 4" by (simp add: mask_eq_exp_minus_1)
  then have "(l + 16 * h) AND 15 = take_bit 4 (l + 16 * h)" by (simp only: take_bit_eq_mask)
  then show "l < 16 \<Longrightarrow> ?thesis" by (simp add: take_bit_eq_mod)
qed

lemma count_bytes:
  assumes x: "x = fields 4 pop_nat (2 * k) n"
  shows "(x + x div 16) AND fields 8 (\<lambda>_. 15) k 0 = fields 8 pop_nat k n \<and> x mod 16 \<le> 4"
  using x
proof (induction k arbitrary: n x)
  case (Suc k)
  define p q where pq: "p = pop_nat (n mod 16)" "q = pop_nat (n div 16 mod 16)"
  define X where "X = fields 4 pop_nat (2 * k) (n div 256)"
  let ?M = "fields 8 (\<lambda>_. 15) k 0"
  have b: "p \<le> 4" "q \<le> 4" using pop_nat_le [of _ 4] by (simp_all add: pq)
  have IH: "(X + X div 16) AND ?M = fields 8 pop_nat k (n div 256)" "X mod 16 \<le> 4"
    using Suc.IH [OF X_def] by simp_all
  have x: "x = p + 16 * q + 256 * X" unfolding Suc.prems by (simp add: pq X_def div_mult2_eq [symmetric])
  define r t where rt: "r = X mod 16" "t = X div 16"
  have X: "X = r + 16 * t" unfolding rt by simp
  have "x div 16 = q + 16 * X" using b unfolding x by presburger
  then have "x + x div 16 = (p + q + 16 * (q + r)) + 256 * (X + t)" unfolding x by (simp add: X)
  then have s: "x + x div 16 = (p + q + 16 * (q + X mod 16)) + 256 * (X + X div 16)" by (simp only: rt)
  have m: "fields 8 (\<lambda>_. 15) (Suc k) 0 = 15 + 256 * ?M" by simp
  have "p + q + 16 * (q + X mod 16) < 256" using b IH(2) by simp
  then have "(x + x div 16) AND fields 8 (\<lambda>_. 15) (Suc k) 0 = (p + q) + 256 * ((X + X div 16) AND ?M)"
    unfolding s m using b and_15 [of "p + q" "q + X mod 16"] by (subst and_digit(3)) simp_all
  moreover have "p + q = pop_nat (n mod 256)" using pop_nat_join [of n 4 4] by (simp add: pq)
  moreover have "x mod 16 \<le> 4" using b unfolding x by presburger
  ultimately show ?case using IH(1) by simp
qed simp

lemma fields_4_below: "2 * fields 4 pop_nat k n + 1 \<le> 2 ^ (4 * k)"
proof (induction k arbitrary: n)
  case (Suc k)
  have "pop_nat (n mod 16) \<le> 4" by (rule pop_nat_le) simp
  then show ?case using Suc.IH [of "n div 16"] by (simp add: power_add)
qed simp

lemma fields_8_append: "fields 8 f (j + k) n = fields 8 f j n + 2 ^ (8 * j) * fields 8 f k (n div 2 ^ (8 * j))"
proof (induction j arbitrary: n)
  case (Suc j)
  have "n div 256 div 2 ^ (8 * j) = n div (256 * 2 ^ (8 * j))" by (rule div_mult2_eq [symmetric])
  then show ?case using Suc.IH [of "n div 256"] by (simp add: power_add distrib_left mult.assoc)
qed simp

text \<open>The common part of the three routines, at the width of the word.\<close>

lemma count_steps:
  fixes x m1 m2 m3 :: "'a::len word"
  assumes L: "LENGTH('a) = 8 * k"
    and m: "unat m1 = fields 2 (\<lambda>_. 1) (4 * k) 0" "unat m2 = fields 4 (\<lambda>_. 3) (2 * k) 0" "unat m3 = fields 8 (\<lambda>_. 15) k 0"
    and x1: "x1 = x - (drop_bit 1 x AND m1)" and x2: "x2 = (drop_bit 2 x1 AND m2) + (x1 AND m2)"
  shows "unat ((x2 + drop_bit 4 x2) AND m3) = fields 8 pop_nat k (unat x)"
proof -
  have "unat x < 2 ^ (2 * (4 * k))" using unsigned_less [where ?'a = nat, of x] by (simp add: L)
  note s1 = count_pairs [OF this]
  have u1: "unat x1 = fields 2 pop_nat (2 * (2 * k)) (unat x)"
  proof -
    have "unat (drop_bit 1 x AND m1) = unat x div 2 AND fields 2 (\<lambda>_. 1) (4 * k) 0"
      by (simp add: unsigned_and_eq unat_drop_bit m)
    then show ?thesis unfolding x1 using s1 by (subst unat_sub_below) simp_all
  qed
  note s2 = count_nibbles [OF u1]
  have b: "2 * fields 4 pop_nat (2 * k) (unat x) < 2 ^ LENGTH('a)"
    using fields_4_below [of "2 * k" "unat x"] by (simp add: L)
  have u2: "unat x2 = fields 4 pop_nat (2 * k) (unat x)"
    unfolding x2 using s2 b by (subst unat_add_below) (simp_all add: unsigned_and_eq unat_drop_bit m)
  have "unat (x2 + drop_bit 4 x2) = unat x2 + unat x2 div 16"
    using b div_le_dividend [of "unat x2" 16] by (subst unat_add_below) (simp_all add: unat_drop_bit u2)
  then show ?thesis using count_bytes [OF u2] by (simp add: unsigned_and_eq m)
qed

lemma low_plus_high:
  fixes x :: "'a::len word"
  assumes x: "unat x = l + 2 ^ LENGTH('b) * h" and lh: "l + h < 2 ^ LENGTH('b::len)" and L: "LENGTH('b) \<le> LENGTH('a)"
  shows "unat (ucast (x + drop_bit LENGTH('b) x) :: 'b word) = l + h"
proof -
  have d: "unat (drop_bit LENGTH('b) x) = h" using lh by (simp add: unat_drop_bit x)
  have "unat (ucast (x + drop_bit LENGTH('b) x) :: 'b word) = unat (x + drop_bit LENGTH('b) x) mod 2 ^ LENGTH('b)"
    by (simp add: unsigned_ucast_eq take_bit_eq_mod)
  also have "\<dots> = (unat x + h) mod 2 ^ LENGTH('a) mod 2 ^ LENGTH('b)" by (simp add: unat_word_ariths d)
  also have "\<dots> = (unat x + h) mod 2 ^ LENGTH('b)" using L by (simp add: mod_mod_cancel le_imp_power_dvd)
  also have "unat x + h = (l + h) + 2 ^ LENGTH('b) * h" by (simp add: x)
  finally show ?thesis using lh by simp
qed

text \<open>The last two steps, on four bytes that do not overflow into one another.\<close>

lemma count_bytes_sum:
  fixes x :: su_int
  assumes x: "unat x = q0 + 256 * (q1 + 256 * (q2 + 256 * q3))" and q: "q0 \<le> 32" "q1 \<le> 32" "q2 \<le> 32" "q3 \<le> 32"
    and m: "q0 + q1 + q2 + q3 < 2 ^ m" "m \<le> 8"
    and y: "y = x + drop_bit 16 x"
  shows "(y + drop_bit 8 y) AND mask m = of_nat (q0 + q1 + q2 + q3)"
proof -
  have field: "(l + w * h) div w = h" if "l < w" for l w h :: nat using that by simp
  have "unat x = (q0 + 256 * q1) + 65536 * (q2 + 256 * q3)" by (simp add: x)
  then have d16: "unat x div 65536 = q2 + 256 * q3" using q by (simp only: field)
  have uy: "unat y = (q0 + q2) + 256 * ((q1 + q3) + 256 * (q2 + 256 * q3))"
  proof -
    have d: "unat (drop_bit 16 x) = q2 + 256 * q3" using d16 by (simp add: unat_drop_bit)
    have "unat x + unat (drop_bit 16 x) < 2 ^ LENGTH(32)" using q unfolding d x by simp
    from unat_add_below [OF this] show ?thesis unfolding y d x by simp
  qed
  have "unat y div 256 = (q1 + q3) + 256 * (q2 + 256 * q3)" unfolding uy using q by (subst field) simp_all
  then have d: "unat (drop_bit 8 y) = (q1 + q3) + 256 * (q2 + 256 * q3)" by (simp add: unat_drop_bit)
  have "unat y + unat (drop_bit 8 y) < 2 ^ LENGTH(32)" using q unfolding d uy by simp
  from unat_add_below [OF this]
  have uz: "unat (y + drop_bit 8 y) = (q0 + q1 + q2 + q3) + 2 ^ 8 * (q1 + q3 + 257 * (q2 + 256 * q3))"
    unfolding d uy by simp
  have "(2::nat) ^ 8 = 2 ^ m * 2 ^ (8 - m)" using m(2) by (simp flip: power_add)
  then have "unat (y + drop_bit 8 y) = (q0 + q1 + q2 + q3) + 2 ^ m * (2 ^ (8 - m) * (q1 + q3 + 257 * (q2 + 256 * q3)))"
    unfolding uz by (simp only: mult.assoc)
  then have "unat ((y + drop_bit 8 y) AND mask m) = q0 + q1 + q2 + q3"
    using m(1) by (simp only: unat_and_mask mod_mult_self2 mod_less)
  moreover have "unat (of_nat (q0 + q1 + q2 + q3) :: su_int) = q0 + q1 + q2 + q3"
  proof -
    have "q0 + q1 + q2 + q3 < 2 ^ LENGTH(32)" using q by simp
    then show ?thesis by (simp only: unat_of_nat take_bit_eq_mod mod_less)
  qed
  ultimately show ?thesis by (simp only: word_unat_eq_iff)
qed

definition byte_count :: "nat \<Rightarrow> nat \<Rightarrow> nat" where
  "byte_count n i = pop_nat (n div 2 ^ (8 * i) mod 256)"

lemma byte_count_le: "byte_count n i \<le> 8"
  unfolding byte_count_def by (rule pop_nat_le) simp

lemma fields_8_4: "fields 8 pop_nat 4 n =
    byte_count n 0 + 256 * (byte_count n 1 + 256 * (byte_count n 2 + 256 * byte_count n 3))"
proof -
  have k: "fields 8 pop_nat 4 n = fields 8 pop_nat (Suc (Suc (Suc (Suc 0)))) n" by (simp only: numeral_nat One_nat_def)
  show ?thesis unfolding k fields.simps byte_count_def div_mult2_eq [symmetric] by simp
qed

lemma pop_nat_bytes: "pop_nat (n mod 2 ^ 32) = byte_count n 0 + byte_count n 1 + byte_count n 2 + byte_count n 3"
proof -
  have "pop_nat (n mod 2 ^ (8 + (8 + (8 + 8)))) = byte_count n 0 + byte_count n 1 + byte_count n 2 + byte_count n 3"
    unfolding pop_nat_join [symmetric] by (simp add: byte_count_def div_mult2_eq [symmetric] mod_mult2_eq)
  then show ?thesis by simp
qed

section \<open>The routines\<close>

lemma fields_numeral:
  "fields w f (numeral k) n = f (n mod 2 ^ w) + 2 ^ w * fields w f (pred_numeral k) (n div 2 ^ w)"
  by (simp add: numeral_eq_Suc)

lemma masks:
  "unat (0x55555555 :: su_int) = fields 2 (\<lambda>_. 1) 16 0" "unat (0x33333333 :: su_int) = fields 4 (\<lambda>_. 3) 8 0"
  "unat (0x0F0F0F0F :: su_int) = fields 8 (\<lambda>_. 15) 4 0"
  "unat (0x5555555555555555 :: du_int) = fields 2 (\<lambda>_. 1) 32 0" "unat (0x3333333333333333 :: du_int) = fields 4 (\<lambda>_. 3) 16 0"
  "unat (0x0F0F0F0F0F0F0F0F :: du_int) = fields 8 (\<lambda>_. 15) 8 0"
  "unat (push_bit 64 0x5555555555555555 OR 0x5555555555555555 :: tu_int) = fields 2 (\<lambda>_. 1) 64 0"
  "unat (push_bit 64 0x3333333333333333 OR 0x3333333333333333 :: tu_int) = fields 4 (\<lambda>_. 3) 32 0"
  "unat (push_bit 64 0x0F0F0F0F0F0F0F0F OR 0x0F0F0F0F0F0F0F0F :: tu_int) = fields 8 (\<lambda>_. 15) 16 0"
  by (simp_all add: fields_numeral)


lemma popcountsi2_eq: "popcountsi2 a = of_nat (popcount a)"
proof -
  define x1 where "x1 = a - (drop_bit 1 a AND 0x55555555)"
  define x2 where "x2 = (drop_bit 2 x1 AND 0x33333333) + (x1 AND 0x33333333)"
  define x where "x = (x2 + drop_bit 4 x2) AND 0x0F0F0F0F"
  define c where "c = byte_count (unat a)"
  have "unat x = fields 8 pop_nat 4 (unat a)"
    unfolding x_def by (rule count_steps [OF _ _ _ _ x1_def x2_def]) (simp, simp_all only: masks mult_numeral_1 arith_simps)
  then have x: "unat x = c 0 + 256 * (c 1 + 256 * (c 2 + 256 * c 3))" by (simp only: fields_8_4 c_def)
  have p: "popcount a = c 0 + c 1 + c 2 + c 3"
    using pop_nat_bytes [of "unat a"] unsigned_less [where ?'a = nat, of a] by (simp add: popcount_def c_def)
  have c: "c i \<le> 32" "c i \<le> 8" for i using byte_count_le [of "unat a" i] by (simp_all add: c_def)
  have "(0x3F :: su_int) = mask 6" by (simp add: mask_eq_exp_minus_1)
  moreover have "c 0 + c 1 + c 2 + c 3 < 2 ^ 6" using c(2) [of 0] c(2) [of 1] c(2) [of 2] c(2) [of 3] by simp
  note count_bytes_sum [OF x c(1) c(1) c(1) c(1) this _ refl]
  ultimately show ?thesis
    by (simp only: popcountsi2_def Let_def x1_def [symmetric] x2_def [symmetric] x_def [symmetric] p)
qed

lemma popcountdi2_eq: "popcountdi2 a = of_nat (popcount a)"
proof -
  define x1 where "x1 = a - (drop_bit 1 a AND 0x5555555555555555)"
  define x2 where "x2 = (drop_bit 2 x1 AND 0x3333333333333333) + (x1 AND 0x3333333333333333)"
  define x3 where "x3 = (x2 + drop_bit 4 x2) AND 0x0F0F0F0F0F0F0F0F"
  define x where "x = (ucast (x3 + drop_bit 32 x3) :: su_int)"
  define c where "c i = byte_count (unat a) i + byte_count (unat a div 2 ^ 32) i" for i
  have "unat x3 = fields 8 pop_nat 8 (unat a)"
    unfolding x3_def by (rule count_steps [OF _ _ _ _ x1_def x2_def]) (simp, simp_all only: masks mult_numeral_1 arith_simps)
  also have "\<dots> = fields 8 pop_nat 4 (unat a) + 2 ^ LENGTH(32) * fields 8 pop_nat 4 (unat a div 2 ^ 32)"
    using fields_8_append [of pop_nat 4 4 "unat a"] by simp
  finally have x3: "unat x3 = fields 8 pop_nat 4 (unat a) + 2 ^ LENGTH(32) * fields 8 pop_nat 4 (unat a div 2 ^ 32)" .
  have c: "c i \<le> 32" "c i \<le> 16" for i
    using byte_count_le [of "unat a" i] byte_count_le [of "unat a div 2 ^ 32" i] by (simp_all add: c_def)
  have s: "fields 8 pop_nat 4 (unat a) + fields 8 pop_nat 4 (unat a div 2 ^ 32) =
      c 0 + 256 * (c 1 + 256 * (c 2 + 256 * c 3))" by (simp add: fields_8_4 c_def)
  also have "\<dots> < 2 ^ LENGTH(32)" using c(2) [of 0] c(2) [of 1] c(2) [of 2] c(2) [of 3] by simp
  finally have "fields 8 pop_nat 4 (unat a) + fields 8 pop_nat 4 (unat a div 2 ^ 32) < 2 ^ LENGTH(32)" .
  from low_plus_high [OF x3 this, unfolded s] have x: "unat x = c 0 + 256 * (c 1 + 256 * (c 2 + 256 * c 3))"
    by (simp add: x_def)
  have "unat a = unat a mod 2 ^ 32 + 2 ^ 32 * (unat a div 2 ^ 32)" by simp
  then have "popcount a = pop_nat (unat a mod 2 ^ 32) + pop_nat (unat a div 2 ^ 32)"
    unfolding popcount_def by (metis pop_nat_append mod_less_divisor pos2 zero_less_power)
  moreover have "unat a div 2 ^ 32 = unat a div 2 ^ 32 mod 2 ^ 32"
    using unsigned_less [where ?'a = nat, of a] by (simp add: less_mult_imp_div_less)
  ultimately have p: "popcount a = c 0 + c 1 + c 2 + c 3"
    using pop_nat_bytes [of "unat a"] pop_nat_bytes [of "unat a div 2 ^ 32"] by (simp add: c_def)
  have "(0x7F :: su_int) = mask 7" by (simp add: mask_eq_exp_minus_1)
  moreover have "c 0 + c 1 + c 2 + c 3 < 2 ^ 7" using c(2) [of 0] c(2) [of 1] c(2) [of 2] c(2) [of 3] by simp
  note count_bytes_sum [OF x c(1) c(1) c(1) c(1) this _ refl]
  ultimately show ?thesis
    by (simp only: popcountdi2_def Let_def x1_def [symmetric] x2_def [symmetric] x3_def [symmetric] x_def [symmetric] p)
qed

text \<open>At 128 bits the bytes are folded twice.\<close>

lemma popcountti2_eq: "popcountti2 a = of_nat (popcount a)"
proof -
  define m1 :: tu_int where "m1 = push_bit 64 0x5555555555555555 OR 0x5555555555555555"
  define m2 :: tu_int where "m2 = push_bit 64 0x3333333333333333 OR 0x3333333333333333"
  define m3 :: tu_int where "m3 = push_bit 64 0x0F0F0F0F0F0F0F0F OR 0x0F0F0F0F0F0F0F0F"
  note m = masks(7-9) [folded m1_def m2_def m3_def]
  define x1 where "x1 = a - (drop_bit 1 a AND m1)"
  define x2 where "x2 = (drop_bit 2 x1 AND m2) + (x1 AND m2)"
  define x3 where "x3 = (x2 + drop_bit 4 x2) AND m3"
  define y where "y = (ucast (x3 + drop_bit 64 x3) :: du_int)"
  define x where "x = (ucast (y + drop_bit 32 y) :: su_int)"
  define n where "n j = unat a div 2 ^ (32 * j)" for j
  define f where "f j = fields 8 pop_nat 4 (n j)" for j
  define c where "c i = byte_count (n 0) i + byte_count (n 1) i + byte_count (n 2) i + byte_count (n 3) i" for i
  have f8: "fields 8 pop_nat 8 k = fields 8 pop_nat 4 k + 2 ^ 32 * fields 8 pop_nat 4 (k div 2 ^ 32)" for k
    using fields_8_append [of pop_nat 4 4 k] by simp
  have "unat x3 = fields 8 pop_nat 16 (unat a)"
    unfolding x3_def by (rule count_steps [OF _ _ _ _ x1_def x2_def]) (simp, simp_all only: m mult_numeral_1 arith_simps)
  also have "\<dots> = fields 8 pop_nat 8 (unat a) + 2 ^ 64 * fields 8 pop_nat 8 (unat a div 2 ^ 64)"
    using fields_8_append [of pop_nat 8 8 "unat a"] by simp
  also have "\<dots> = (f 0 + 2 ^ 32 * f 1) + 2 ^ LENGTH(64) * (f 2 + 2 ^ 32 * f 3)"
    unfolding f8 by (simp add: f_def n_def div_mult2_eq [symmetric])
  finally have x3: "unat x3 = (f 0 + 2 ^ 32 * f 1) + 2 ^ LENGTH(64) * (f 2 + 2 ^ 32 * f 3)" .
  have f: "f j \<le> 8 * 16843009" for j
    using byte_count_le [of "n j" 0] byte_count_le [of "n j" 1] byte_count_le [of "n j" 2] byte_count_le [of "n j" 3]
    by (simp add: f_def fields_8_4)
  have "(f 0 + 2 ^ 32 * f 1) + (f 2 + 2 ^ 32 * f 3) < 2 ^ LENGTH(64)" using f [of 0] f [of 1] f [of 2] f [of 3] by simp
  from low_plus_high [OF x3 this] have y: "unat y = (f 0 + f 2) + 2 ^ LENGTH(32) * (f 1 + f 3)"
    by (simp add: y_def)
  have "(f 0 + f 2) + (f 1 + f 3) < 2 ^ LENGTH(32)" using f [of 0] f [of 1] f [of 2] f [of 3] by simp
  from low_plus_high [OF y this] have x: "unat x = c 0 + 256 * (c 1 + 256 * (c 2 + 256 * c 3))"
    by (simp add: x_def f_def fields_8_4 c_def)
  have c: "c i \<le> 32" for i
    using byte_count_le [of "n 0" i] byte_count_le [of "n 1" i] byte_count_le [of "n 2" i] byte_count_le [of "n 3" i]
    by (simp add: c_def)
  have "unat a < 2 ^ (32 + (32 + (32 + 32)))" using unsigned_less [where ?'a = nat, of a] by simp
  then have "popcount a = pop_nat (unat a mod 2 ^ (32 + (32 + (32 + 32))))" by (simp add: popcount_def)
  also have "\<dots> = pop_nat (n 0 mod 2 ^ 32) + pop_nat (n 1 mod 2 ^ 32) + pop_nat (n 2 mod 2 ^ 32) + pop_nat (n 3 mod 2 ^ 32)"
  proof -
    have k: "k mod 2 ^ (32 + v) div 2 ^ 32 = k div 2 ^ 32 mod (2::nat) ^ v" for k v by (simp add: power_add mod_mult2_eq)
    show ?thesis
      unfolding pop_nat_join [of _ 32, symmetric] by (simp add: n_def div_mult2_eq [symmetric])
  qed
  also have "\<dots> = c 0 + c 1 + c 2 + c 3" unfolding pop_nat_bytes c_def by (simp only: ac_simps)
  finally have p: "popcount a = c 0 + c 1 + c 2 + c 3" .
  have "(0xFF :: su_int) = mask 8" by (simp add: mask_eq_exp_minus_1)
  moreover have "c 0 + c 1 + c 2 + c 3 < 2 ^ 8" using c [of 0] c [of 1] c [of 2] c [of 3] by simp
  note count_bytes_sum [OF x c c c c this _ refl]
  ultimately show ?thesis
    by (simp only: popcountti2_def Let_def m1_def [symmetric] m2_def [symmetric] m3_def [symmetric] x1_def [symmetric]
      x2_def [symmetric] x3_def [symmetric] y_def [symmetric] x_def [symmetric] p order_refl)
qed

section \<open>Properties\<close>

text \<open>The number of set bits at 32, 64 and 128 bits, whatever garbage the discarded upper fields hold;
  its parity; and the one-based index of the first set bit, zero for a zero operand.\<close>

theorem set_bit_counts:
  "popcountsi2 a = of_nat (card {i. bit a i}) \<and> popcountdi2 b = of_nat (card {i. bit b i}) \<and>
   popcountti2 c = of_nat (card {i. bit c i}) \<and>
   paritysi2 a = of_bool (odd (card {i. bit a i})) \<and> paritydi2 b = of_bool (odd (card {i. bit b i})) \<and>
   parityti2 c = of_bool (odd (card {i. bit c i})) \<and>
   ffsdi2 u b = (if b = 0 then 0 else of_nat (ntz b) + 1) \<and>
   ffsti2 u c = (if c = 0 then 0 else of_nat (ntz c) + 1)"
  by (simp add: popcountsi2_eq popcountdi2_eq popcountti2_eq ffsdi2_eq ffsti2_eq paritysi2_eq paritydi2_eq
    parityti2_eq popcount_card)

end
