(* ===== verification/Blocks.thy ===== *)
theory Blocks
  imports Crt_Prelude "HOL-Library.Monad_Syntax"
begin

unbundle bit_operations_syntax

text \<open>
  The runtime of the C blocks extension, \<^verbatim>\<open>BlocksRuntime/runtime.c\<close> with the structures of
  \<^verbatim>\<open>BlocksRuntime/Block_private.h\<close>: copying a block from the stack to the heap or counting
  another reference to it, releasing it, and the same for the variables that blocks share
  (\<^verbatim>\<open>struct Block_byref\<close>).

  The memory is two maps from addresses, one for each structure; address 0 is the null pointer. An
  access to an address that holds no such structure is \<open>None\<close>: the C program has no behaviour there.
  What the code only calls is a parameter, the record \<open>env\<close>: \<^verbatim>\<open>malloc\<close>, the copy and dispose helpers
  that the compiler synthesizes, and the functions that the collector registers. A function pointer
  is a name, which \<open>env\<close> interprets.

  The counter lives in the low half of the flags and latches at its largest value: it refines a
  saturating counter. \<^theory_text>\<open>Blocks_Latch\<close> runs the loops that update it in several threads,
  \<^theory_text>\<open>Blocks_Client\<close> is about programs that copy and release blocks, and
  \<^theory_text>\<open>Blocks_Byref\<close> about the variables they share.
\<close>

section \<open>The structures\<close>

type_synonym addr = nat
type_synonym fnptr = nat

definition BLOCK_REFCOUNT_MASK :: si_int where "BLOCK_REFCOUNT_MASK = 0xffff"
definition BLOCK_NEEDS_FREE :: si_int where "BLOCK_NEEDS_FREE = push_bit 24 1"
definition BLOCK_HAS_COPY_DISPOSE :: si_int where "BLOCK_HAS_COPY_DISPOSE = push_bit 25 1"
definition BLOCK_HAS_CTOR :: si_int where "BLOCK_HAS_CTOR = push_bit 26 1"
definition BLOCK_IS_GC :: si_int where "BLOCK_IS_GC = push_bit 27 1"
definition BLOCK_IS_GLOBAL :: si_int where "BLOCK_IS_GLOBAL = push_bit 28 1"
definition BLOCK_HAS_DESCRIPTOR :: si_int where "BLOCK_HAS_DESCRIPTOR = push_bit 29 1"

definition BLOCK_FIELD_IS_OBJECT :: si_int where "BLOCK_FIELD_IS_OBJECT = 3"
definition BLOCK_FIELD_IS_BLOCK :: si_int where "BLOCK_FIELD_IS_BLOCK = 7"
definition BLOCK_FIELD_IS_BYREF :: si_int where "BLOCK_FIELD_IS_BYREF = 8"
definition BLOCK_FIELD_IS_WEAK :: si_int where "BLOCK_FIELD_IS_WEAK = 16"
definition BLOCK_BYREF_CALLER :: si_int where "BLOCK_BYREF_CALLER = 128"

definition WANTS_ONE :: si_int where "WANTS_ONE = push_bit 16 1"

text \<open>The class objects of \<^verbatim>\<open>data.c\<close>; any other pointer is \<open>Class_at\<close>.\<close>

datatype block_class =
  NSConcreteStackBlock | NSConcreteMallocBlock | NSConcreteAutoBlock | NSConcreteFinalizingBlock
  | NSConcreteGlobalBlock | NSConcreteWeakBlockVariable | Class_at addr

record block_descriptor =
  d_reserved :: nat
  d_size :: nat
  d_copy :: fnptr
  d_dispose :: fnptr

record block_layout =
  b_isa :: block_class
  b_flags :: si_int
  b_reserved :: si_int
  b_invoke :: fnptr
  b_descriptor :: addr
  b_captured :: "addr list"

record block_byref =
  r_isa :: block_class
  r_forwarding :: addr
  r_flags :: si_int
  r_size :: si_int
  r_keep :: fnptr
  r_destroy :: fnptr
  r_shared :: "addr list"

text \<open>A variable that holds a pointer: one captured by a block, one shared by reference, or another.\<close>

datatype loc = Captured addr nat | Shared addr nat | Cell addr

datatype message = Byref_underflowed addr | Released_stack_block addr

text \<open>The function pointers the collector or the Objective-C runtime may replace.\<close>

datatype hook = Default | Do_nothing | Gc_broken | Hook fnptr

record runtime =
  blocks :: "addr \<rightharpoonup> block_layout"
  byrefs :: "addr \<rightharpoonup> block_byref"
  descriptors :: "addr \<rightharpoonup> block_descriptor"
  cells :: "addr \<Rightarrow> addr"
  isGC :: bool
  Block_copy_class :: block_class
  Block_copy_finalizing_class :: block_class
  Block_copy_flag :: si_int
  Byref_flag_initial_value :: si_int
  Block_allocator :: hook
  Block_deallocator :: hook
  Block_assign :: hook
  Block_setHasRefcount :: hook
  Block_retain_object :: hook
  Block_release_object :: hook
  Block_assign_weak :: hook
  Block_memmove :: hook
  printed :: "message list"

text \<open>The values of the static variables when the program starts, without any block.\<close>

definition initial_runtime :: runtime where
  "initial_runtime = \<lparr> blocks = Map.empty, byrefs = Map.empty, descriptors = Map.empty, cells = (\<lambda>_. 0),
    isGC = False, Block_copy_class = NSConcreteMallocBlock, Block_copy_finalizing_class = NSConcreteMallocBlock,
    Block_copy_flag = BLOCK_NEEDS_FREE, Byref_flag_initial_value = BLOCK_NEEDS_FREE OR 2,
    Block_allocator = Default, Block_deallocator = Default, Block_assign = Default, Block_setHasRefcount = Default,
    Block_retain_object = Default, Block_release_object = Default, Block_assign_weak = Default,
    Block_memmove = Default, printed = [] \<rparr>"

record env =
  malloc :: "nat \<Rightarrow> runtime \<Rightarrow> addr"
  copy_helper :: "fnptr \<Rightarrow> addr \<Rightarrow> addr \<Rightarrow> runtime \<Rightarrow> runtime"
  dispose_helper :: "fnptr \<Rightarrow> addr \<Rightarrow> runtime \<Rightarrow> runtime"
  byref_keep :: "fnptr \<Rightarrow> addr \<Rightarrow> addr \<Rightarrow> runtime \<Rightarrow> runtime"
  byref_destroy :: "fnptr \<Rightarrow> addr \<Rightarrow> runtime \<Rightarrow> runtime"
  hook_alloc :: "fnptr \<Rightarrow> nat \<Rightarrow> bool \<Rightarrow> bool \<Rightarrow> runtime \<Rightarrow> addr"
  hook_setHasRefcount :: "fnptr \<Rightarrow> addr \<Rightarrow> bool \<Rightarrow> runtime \<Rightarrow> runtime"
  hook_assign :: "fnptr \<Rightarrow> addr \<Rightarrow> loc \<Rightarrow> runtime \<Rightarrow> runtime"
  hook_memmove :: "fnptr \<Rightarrow> addr \<Rightarrow> addr \<Rightarrow> int \<Rightarrow> runtime \<Rightarrow> runtime"
  hook_object :: "fnptr \<Rightarrow> addr \<Rightarrow> runtime \<Rightarrow> runtime"

section \<open>The counter\<close>

text \<open>The new flags and the returned value, when the compare-and-swap succeeds; the loop around it is
  the subject of \<^theory_text>\<open>Blocks_Latch\<close>.\<close>

definition latching_incr_int :: "si_int \<Rightarrow> si_int \<times> si_int" where
  "latching_incr_int old_value =
    (if old_value AND BLOCK_REFCOUNT_MASK = BLOCK_REFCOUNT_MASK then (old_value, BLOCK_REFCOUNT_MASK)
     else (old_value + 1, old_value + 1))"

definition latching_decr_int :: "si_int \<Rightarrow> si_int \<times> si_int" where
  "latching_decr_int old_value =
    (if old_value AND BLOCK_REFCOUNT_MASK = BLOCK_REFCOUNT_MASK then (old_value, BLOCK_REFCOUNT_MASK)
     else if old_value AND BLOCK_REFCOUNT_MASK = 0 then (old_value, 0)
     else (old_value - 1, old_value - 1))"

section \<open>The replaceable functions\<close>

definition Block_alloc_default :: "env \<Rightarrow> nat \<Rightarrow> bool \<Rightarrow> bool \<Rightarrow> runtime \<Rightarrow> addr" where
  "Block_alloc_default E sz initialCountIsOne isObject s = malloc E sz s"

definition allocate :: "env \<Rightarrow> nat \<Rightarrow> bool \<Rightarrow> bool \<Rightarrow> runtime \<Rightarrow> addr" where
  "allocate E sz isOne isObject s =
    (case Block_allocator s of Hook f \<Rightarrow> hook_alloc E f sz isOne isObject s
     | _ \<Rightarrow> Block_alloc_default E sz isOne isObject s)"

definition deallocate :: "addr \<Rightarrow> runtime \<Rightarrow> runtime" where
  "deallocate a s =
    (case Block_deallocator s of Default \<Rightarrow> s\<lparr>blocks := (blocks s)(a := None), byrefs := (byrefs s)(a := None)\<rparr>
     | _ \<Rightarrow> s)"

fun write_loc :: "loc \<Rightarrow> addr \<Rightarrow> runtime \<Rightarrow> runtime option" where
  "write_loc (Captured a i) v s =
    (case blocks s a of None \<Rightarrow> None
     | Some b \<Rightarrow> if i < length (b_captured b)
         then Some (s\<lparr>blocks := (blocks s)(a \<mapsto> b\<lparr>b_captured := (b_captured b)[i := v]\<rparr>)\<rparr>) else None)"
| "write_loc (Shared a i) v s =
    (case byrefs s a of None \<Rightarrow> None
     | Some r \<Rightarrow> if i < length (r_shared r)
         then Some (s\<lparr>byrefs := (byrefs s)(a \<mapsto> r\<lparr>r_shared := (r_shared r)[i := v]\<rparr>)\<rparr>) else None)"
| "write_loc (Cell a) v s = Some (s\<lparr>cells := (cells s)(a := v)\<rparr>)"

definition Block_assign_default :: "addr \<Rightarrow> loc \<Rightarrow> runtime \<Rightarrow> runtime option" where
  "Block_assign_default value destptr s = write_loc destptr value s"

definition assign :: "env \<Rightarrow> addr \<Rightarrow> loc \<Rightarrow> runtime \<Rightarrow> runtime option" where
  "assign E value destptr s =
    (case Block_assign s of Hook f \<Rightarrow> Some (hook_assign E f value destptr s)
     | _ \<Rightarrow> Block_assign_default value destptr s)"

definition Block_assign_weak_default :: "addr \<Rightarrow> loc \<Rightarrow> runtime \<Rightarrow> runtime option" where
  "Block_assign_weak_default ptr dest s = write_loc dest ptr s"

definition assign_weak :: "env \<Rightarrow> addr \<Rightarrow> loc \<Rightarrow> runtime \<Rightarrow> runtime option" where
  "assign_weak E ptr dest s =
    (case Block_assign_weak s of Hook f \<Rightarrow> Some (hook_assign E f ptr dest s)
     | _ \<Rightarrow> Block_assign_weak_default ptr dest s)"

definition setHasRefcount :: "env \<Rightarrow> addr \<Rightarrow> bool \<Rightarrow> runtime \<Rightarrow> runtime" where
  "setHasRefcount E ptr hasRefcount s =
    (case Block_setHasRefcount s of Hook f \<Rightarrow> hook_setHasRefcount E f ptr hasRefcount s | _ \<Rightarrow> s)"

definition retain_object :: "env \<Rightarrow> addr \<Rightarrow> runtime \<Rightarrow> runtime" where
  "retain_object E ptr s = (case Block_retain_object s of Hook f \<Rightarrow> hook_object E f ptr s | _ \<Rightarrow> s)"

definition release_object :: "env \<Rightarrow> addr \<Rightarrow> runtime \<Rightarrow> runtime" where
  "release_object E ptr s = (case Block_release_object s of Hook f \<Rightarrow> hook_object E f ptr s | _ \<Rightarrow> s)"

text \<open>\<^verbatim>\<open>_Block_memmove\<close> is only called to copy what follows the header of a \<^verbatim>\<open>struct Block_byref\<close>,
  which is 16 bytes on a 32-bit target. The version for an old collector copies pointer by pointer
  and counts the size down to zero, which it misses unless the size is a multiple of four.\<close>

definition copy_payload :: "addr \<Rightarrow> addr \<Rightarrow> runtime \<Rightarrow> runtime option" where
  "copy_payload dst src s =
    do {
      d \<leftarrow> byrefs s dst;
      r \<leftarrow> byrefs s src;
      Some (s\<lparr>byrefs := (byrefs s)(dst \<mapsto> d\<lparr>r_keep := r_keep r, r_destroy := r_destroy r, r_shared := r_shared r\<rparr>)\<rparr>)
    }"

definition Block_memmove_default :: "addr \<Rightarrow> addr \<Rightarrow> si_int \<Rightarrow> runtime \<Rightarrow> runtime option" where
  "Block_memmove_default dst src sz s = copy_payload dst src s"

definition Block_memmove_gc_broken :: "addr \<Rightarrow> addr \<Rightarrow> si_int \<Rightarrow> runtime \<Rightarrow> runtime option" where
  "Block_memmove_gc_broken dst src sz s = (if sz AND 3 = 0 then copy_payload dst src s else None)"

definition memmove :: "env \<Rightarrow> addr \<Rightarrow> addr \<Rightarrow> si_int \<Rightarrow> runtime \<Rightarrow> runtime option" where
  "memmove E dst src sz s =
    (case Block_memmove s of Hook f \<Rightarrow> Some (hook_memmove E f dst src (uint sz) s)
     | Gc_broken \<Rightarrow> Block_memmove_gc_broken dst src sz s
     | _ \<Rightarrow> Block_memmove_default dst src sz s)"

definition Block_use_GC :: "fnptr \<Rightarrow> fnptr \<Rightarrow> fnptr \<Rightarrow> fnptr \<Rightarrow> hook \<Rightarrow> runtime \<Rightarrow> runtime" where
  "Block_use_GC alloc_fn refcount_fn gc_assign gc_assign_weak gc_memmove s =
    s\<lparr>isGC := True,
      Block_allocator := Hook alloc_fn,
      Block_deallocator := Do_nothing,
      Block_assign := Hook gc_assign,
      Block_copy_flag := BLOCK_IS_GC,
      Block_copy_class := NSConcreteAutoBlock,
      Block_copy_finalizing_class := NSConcreteFinalizingBlock,
      Block_setHasRefcount := Hook refcount_fn,
      Byref_flag_initial_value := BLOCK_IS_GC,
      Block_retain_object := Do_nothing,
      Block_release_object := Do_nothing,
      Block_assign_weak := Hook gc_assign_weak,
      Block_memmove := gc_memmove\<rparr>"

definition Block_use_GC5 :: "fnptr \<Rightarrow> fnptr \<Rightarrow> fnptr \<Rightarrow> fnptr \<Rightarrow> runtime \<Rightarrow> runtime" where
  "Block_use_GC5 alloc_fn refcount_fn gc_assign gc_assign_weak s =
    Block_use_GC alloc_fn refcount_fn gc_assign gc_assign_weak Gc_broken s"

definition Block_use_RR :: "fnptr \<Rightarrow> fnptr \<Rightarrow> runtime \<Rightarrow> runtime" where
  "Block_use_RR retain release s = s\<lparr>Block_retain_object := Hook retain, Block_release_object := Hook release\<rparr>"

section \<open>Blocks\<close>

text \<open>\<^verbatim>\<open>descriptor->size\<close> is the size of the whole block, so the bitwise copy is of the record.\<close>

definition Block_copy_internal :: "env \<Rightarrow> addr \<Rightarrow> si_int \<Rightarrow> runtime \<Rightarrow> (addr \<times> runtime) option" where
  "Block_copy_internal E arg flags s =
    (let wantsOne = (WANTS_ONE AND flags = WANTS_ONE) in
     if arg = 0 then Some (0, s)
     else do {
       aBlock \<leftarrow> blocks s arg;
       if b_flags aBlock AND BLOCK_NEEDS_FREE \<noteq> 0 then
         Some (arg, s\<lparr>blocks := (blocks s)(arg \<mapsto> aBlock\<lparr>b_flags := fst (latching_incr_int (b_flags aBlock))\<rparr>)\<rparr>)
       else if b_flags aBlock AND BLOCK_IS_GC \<noteq> 0 then
         (if wantsOne then
            let (f, r) = latching_incr_int (b_flags aBlock);
                s = s\<lparr>blocks := (blocks s)(arg \<mapsto> aBlock\<lparr>b_flags := f\<rparr>)\<rparr>
            in Some (arg, if r AND BLOCK_REFCOUNT_MASK = 1 then setHasRefcount E arg True s else s)
          else Some (arg, s))
       else if b_flags aBlock AND BLOCK_IS_GLOBAL \<noteq> 0 then Some (arg, s)
       else do {
         d \<leftarrow> descriptors s (b_descriptor aBlock);
         if \<not> isGC s then
           let result = malloc E (d_size d) s in
           if result = 0 then Some (0, s)
           else
             let f = (b_flags aBlock AND NOT BLOCK_REFCOUNT_MASK) OR (BLOCK_NEEDS_FREE OR 1);
                 s = s\<lparr>blocks := (blocks s)(result \<mapsto> aBlock\<lparr>b_flags := f, b_isa := NSConcreteMallocBlock\<rparr>)\<rparr>
             in Some (result, if f AND BLOCK_HAS_COPY_DISPOSE \<noteq> 0 then copy_helper E (d_copy d) result arg s else s)
         else
           let hasCTOR = (b_flags aBlock AND BLOCK_HAS_CTOR \<noteq> 0);
               result = allocate E (d_size d) wantsOne hasCTOR s in
           if result = 0 then Some (0, s)
           else
             let f = b_flags aBlock AND NOT (BLOCK_NEEDS_FREE OR BLOCK_REFCOUNT_MASK);
                 f = (if wantsOne then f OR (BLOCK_IS_GC OR 1) else f OR BLOCK_IS_GC);
                 s = s\<lparr>blocks := (blocks s)(result \<mapsto> aBlock\<lparr>b_flags := f\<rparr>)\<rparr>;
                 s = (if f AND BLOCK_HAS_COPY_DISPOSE \<noteq> 0 then copy_helper E (d_copy d) result arg s else s)
             in do {
               b \<leftarrow> blocks s result;
               Some (result, s\<lparr>blocks := (blocks s)(result \<mapsto>
                 b\<lparr>b_isa := if hasCTOR then NSConcreteFinalizingBlock else NSConcreteAutoBlock\<rparr>)\<rparr>)
             }
       }
     })"

definition Block_copy :: "env \<Rightarrow> addr \<Rightarrow> runtime \<Rightarrow> (addr \<times> runtime) option" where
  "Block_copy E arg s = Block_copy_internal E arg WANTS_ONE s"

definition Block_copy_collectable :: "env \<Rightarrow> addr \<Rightarrow> runtime \<Rightarrow> (addr \<times> runtime) option" where
  "Block_copy_collectable E aBlock s = Block_copy_internal E aBlock 0 s"

definition Block_size :: "addr \<Rightarrow> runtime \<Rightarrow> nat option" where
  "Block_size arg s =
    do { aBlock \<leftarrow> blocks s arg; d \<leftarrow> descriptors s (b_descriptor aBlock); Some (d_size d) }"

definition Block_release :: "env \<Rightarrow> addr \<Rightarrow> runtime \<Rightarrow> runtime option" where
  "Block_release E arg s =
    (if arg = 0 then Some s
     else do {
       aBlock \<leftarrow> blocks s arg;
       let (f, r) = latching_decr_int (b_flags aBlock);
       let newCount = r AND BLOCK_REFCOUNT_MASK;
       let s = s\<lparr>blocks := (blocks s)(arg \<mapsto> aBlock\<lparr>b_flags := f\<rparr>)\<rparr>;
       if newCount > 0 then Some s
       else if f AND BLOCK_IS_GC \<noteq> 0 then Some (setHasRefcount E arg False s)
       else if f AND BLOCK_NEEDS_FREE \<noteq> 0 then
         (if f AND BLOCK_HAS_COPY_DISPOSE \<noteq> 0 then do {
            d \<leftarrow> descriptors s (b_descriptor aBlock);
            Some (deallocate arg (dispose_helper E (d_dispose d) arg s))
          }
          else Some (deallocate arg s))
       else if f AND BLOCK_IS_GLOBAL \<noteq> 0 then Some s
       else Some (s\<lparr>printed := printed s @ [Released_stack_block arg]\<rparr>)
     })"

definition Block_destroy :: "env \<Rightarrow> addr \<Rightarrow> runtime \<Rightarrow> runtime option" where
  "Block_destroy E arg s =
    (if arg = 0 then Some s
     else do {
       aBlock \<leftarrow> blocks s arg;
       if b_flags aBlock AND BLOCK_IS_GC \<noteq> 0 then Some s else Block_release E arg s
     })"

section \<open>Variables shared by reference\<close>

text \<open>The result of the allocator is used without a test for null: the store to it has no behaviour.
  What the code leaves uninitialised in the new structure is zero in the model.\<close>

definition Block_byref_assign_copy :: "env \<Rightarrow> loc \<Rightarrow> addr \<Rightarrow> si_int \<Rightarrow> runtime \<Rightarrow> runtime option" where
  "Block_byref_assign_copy E destp src flags s =
    do {
      r \<leftarrow> byrefs s src;
      fwd \<leftarrow> byrefs s (r_forwarding r);
      s \<leftarrow>
        (if r_flags fwd AND BLOCK_IS_GC \<noteq> 0 then Some s
         else if r_flags fwd AND BLOCK_REFCOUNT_MASK = 0 then
           let isWeak = (flags AND (BLOCK_FIELD_IS_BYREF OR BLOCK_FIELD_IS_WEAK) =
                 (BLOCK_FIELD_IS_BYREF OR BLOCK_FIELD_IS_WEAK));
               copy = allocate E (unat (r_size r)) False isWeak s in
           if copy = 0 then None
           else
             let new = \<lparr> r_isa = if isWeak then NSConcreteWeakBlockVariable else Class_at 0, r_forwarding = copy,
                   r_flags = r_flags r OR Byref_flag_initial_value s, r_size = r_size r,
                   r_keep = 0, r_destroy = 0, r_shared = replicate (length (r_shared r)) 0 \<rparr>;
                 s = s\<lparr>byrefs := (byrefs s)(copy \<mapsto> new, src \<mapsto> r\<lparr>r_forwarding := copy\<rparr>)\<rparr> in
             if r_flags r AND BLOCK_HAS_COPY_DISPOSE \<noteq> 0 then
               let s = s\<lparr>byrefs := (byrefs s)(copy \<mapsto> new\<lparr>r_keep := r_keep r, r_destroy := r_destroy r\<rparr>)\<rparr>
               in Some (byref_keep E (r_keep r) copy src s)
             else memmove E copy src (r_size r - 16) s
         else if r_flags fwd AND BLOCK_NEEDS_FREE = BLOCK_NEEDS_FREE then
           Some (s\<lparr>byrefs := (byrefs s)(r_forwarding r \<mapsto> fwd\<lparr>r_flags := fst (latching_incr_int (r_flags fwd))\<rparr>)\<rparr>)
         else Some s);
      r \<leftarrow> byrefs s src;
      assign E (r_forwarding r) destp s
    }"

definition Block_byref_release :: "env \<Rightarrow> addr \<Rightarrow> runtime \<Rightarrow> runtime option" where
  "Block_byref_release E arg s =
    do {
      r \<leftarrow> byrefs s arg;
      let shared_struct = r_forwarding r;
      fwd \<leftarrow> byrefs s shared_struct;
      if r_flags fwd AND BLOCK_NEEDS_FREE = 0 then Some s
      else
        let refcount = r_flags fwd AND BLOCK_REFCOUNT_MASK in
        if sint refcount \<le> 0 then Some (s\<lparr>printed := printed s @ [Byref_underflowed arg]\<rparr>)
        else
          let (f, n) = latching_decr_int (r_flags fwd);
              s = s\<lparr>byrefs := (byrefs s)(shared_struct \<mapsto> fwd\<lparr>r_flags := f\<rparr>)\<rparr> in
          if n AND BLOCK_REFCOUNT_MASK = 0 then
            let s = (if f AND BLOCK_HAS_COPY_DISPOSE \<noteq> 0 then byref_destroy E (r_destroy fwd) shared_struct s else s)
            in Some (deallocate shared_struct s)
          else Some s
    }"

section \<open>The entry points of the compiler\<close>

definition Block_object_assign :: "env \<Rightarrow> loc \<Rightarrow> addr \<Rightarrow> si_int \<Rightarrow> runtime \<Rightarrow> runtime option" where
  "Block_object_assign E destAddr object flags s =
    (if flags AND BLOCK_BYREF_CALLER = BLOCK_BYREF_CALLER then
       (if flags AND BLOCK_FIELD_IS_WEAK = BLOCK_FIELD_IS_WEAK then assign_weak E object destAddr s
        else assign E object destAddr s)
     else if flags AND BLOCK_FIELD_IS_BYREF = BLOCK_FIELD_IS_BYREF then
       Block_byref_assign_copy E destAddr object flags s
     else if flags AND BLOCK_FIELD_IS_BLOCK = BLOCK_FIELD_IS_BLOCK then
       do { (copy, s) \<leftarrow> Block_copy_internal E object flags s; assign E copy destAddr s }
     else if flags AND BLOCK_FIELD_IS_OBJECT = BLOCK_FIELD_IS_OBJECT then
       assign E object destAddr (retain_object E object s)
     else Some s)"

definition Block_object_dispose :: "env \<Rightarrow> addr \<Rightarrow> si_int \<Rightarrow> runtime \<Rightarrow> runtime option" where
  "Block_object_dispose E object flags s =
    (if flags AND BLOCK_FIELD_IS_BYREF \<noteq> 0 then Block_byref_release E object s
     else if flags AND (BLOCK_FIELD_IS_BLOCK OR BLOCK_BYREF_CALLER) = BLOCK_FIELD_IS_BLOCK then
       Block_destroy E object s
     else if flags AND (BLOCK_FIELD_IS_WEAK OR BLOCK_FIELD_IS_BLOCK OR BLOCK_BYREF_CALLER) = BLOCK_FIELD_IS_OBJECT then
       Some (release_object E object s)
     else Some s)"

section \<open>Flags\<close>

definition refcount :: "si_int \<Rightarrow> nat" where "refcount f = unat f mod 2 ^ 16"

lemma refcount_bounds: "refcount f \<le> 65535"
  using mod_less_divisor [of "2 ^ 16" "unat f"] by (simp add: refcount_def)

lemma mask_refcount: "BLOCK_REFCOUNT_MASK = mask 16"
  by (simp add: BLOCK_REFCOUNT_MASK_def mask_eq_exp_minus_1)

lemma unat_count: "unat (f AND BLOCK_REFCOUNT_MASK) = refcount f"
  by (simp only: mask_refcount unat_and_mask refcount_def)

lemma count_tests [simp]:
  "f AND BLOCK_REFCOUNT_MASK = BLOCK_REFCOUNT_MASK \<longleftrightarrow> refcount f = 65535"
  "f AND BLOCK_REFCOUNT_MASK = 0 \<longleftrightarrow> refcount f = 0"
  "0 < f AND BLOCK_REFCOUNT_MASK \<longleftrightarrow> 0 < refcount f"
  "f AND BLOCK_REFCOUNT_MASK = 1 \<longleftrightarrow> refcount f = 1"
  unfolding word_unat_eq_iff word_less_nat_alt unat_count by (simp_all add: BLOCK_REFCOUNT_MASK_def)

lemma refcount_mask [simp]: "refcount BLOCK_REFCOUNT_MASK = 65535" and refcount_0 [simp]: "refcount 0 = 0"
  by (simp_all add: refcount_def BLOCK_REFCOUNT_MASK_def)

lemma refcount_and: "refcount (f AND BLOCK_REFCOUNT_MASK) = refcount f"
  unfolding refcount_def [of "f AND _"] unat_count using refcount_bounds [of f] by simp

lemma flag_test:
  assumes "k < 32"
  shows "f AND push_bit k 1 \<noteq> (0 :: si_int) \<longleftrightarrow> bit f k" "f AND push_bit k 1 = 0 \<longleftrightarrow> \<not> bit f k"
    "f AND push_bit k 1 = push_bit k 1 \<longleftrightarrow> bit f k"
proof -
  have "f AND push_bit k 1 = (if bit f k then push_bit k 1 else (0 :: si_int))"
    by (rule bit_word_eqI) (auto simp: bit_and_iff bit_push_bit_iff bit_1_iff simp del: push_bit_of_1)
  moreover have "bit (push_bit k 1 :: si_int) k" using assms by (simp add: bit_push_bit_iff del: push_bit_of_1)
  then have "push_bit k 1 \<noteq> (0 :: si_int)" by (auto simp del: push_bit_of_1)
  ultimately show "f AND push_bit k 1 \<noteq> 0 \<longleftrightarrow> bit f k" "f AND push_bit k 1 = 0 \<longleftrightarrow> \<not> bit f k"
    "f AND push_bit k 1 = push_bit k 1 \<longleftrightarrow> bit f k" by auto
qed

lemma flag_tests [simp]:
  "f AND BLOCK_NEEDS_FREE = 0 \<longleftrightarrow> \<not> bit f 24" "f AND BLOCK_NEEDS_FREE = BLOCK_NEEDS_FREE \<longleftrightarrow> bit f 24"
  "f AND BLOCK_HAS_COPY_DISPOSE = 0 \<longleftrightarrow> \<not> bit f 25" "f AND BLOCK_IS_GC = 0 \<longleftrightarrow> \<not> bit f 27"
  "f AND BLOCK_HAS_CTOR = 0 \<longleftrightarrow> \<not> bit f 26" "f AND BLOCK_IS_GLOBAL = 0 \<longleftrightarrow> \<not> bit f 28"
  unfolding BLOCK_NEEDS_FREE_def BLOCK_HAS_COPY_DISPOSE_def BLOCK_IS_GC_def BLOCK_HAS_CTOR_def BLOCK_IS_GLOBAL_def
  by (simp_all only: flag_test numeral_less_iff less_num_simps)

text \<open>The counter and the flags above it.\<close>

definition high_flags :: "si_int \<Rightarrow> si_int" where "high_flags f = drop_bit 16 f"

lemma high_flags_bit: "high_flags f = high_flags g \<Longrightarrow> 16 \<le> k \<Longrightarrow> bit f k = bit g k"
proof -
  assume "high_flags f = high_flags g" "16 \<le> k"
  then have "bit (drop_bit 16 f) (k - 16) = bit (drop_bit 16 g) (k - 16)" by (simp add: high_flags_def)
  then show "bit f k = bit g k" using \<open>16 \<le> k\<close> by (simp add: bit_drop_bit_eq)
qed

lemma low_half_Suc:
  "n mod 65536 \<noteq> 65535 \<Longrightarrow> Suc n mod 65536 = Suc (n mod 65536)" "n mod 65536 \<noteq> 65535 \<Longrightarrow> Suc n div 65536 = n div 65536"
  by (simp_all add: mod_Suc div_Suc)

lemma count_incr:
  assumes "refcount f \<noteq> 65535"
  shows "refcount (f + 1) = refcount f + 1" "high_flags (f + 1) = high_flags f"
proof -
  have m: "unat f mod 65536 \<noteq> 65535" using assms by (simp add: refcount_def)
  have "unat f \<noteq> 4294967295" using m by auto
  then have "unat f + unat (1 :: si_int) < 2 ^ LENGTH(32)"
    using unsigned_less [where ?'a = nat, of f] by simp
  from unat_add_below [OF this] have u: "unat (f + 1) = Suc (unat f)" by simp
  show "refcount (f + 1) = refcount f + 1" unfolding refcount_def u using low_half_Suc(1) [OF m] by simp
  show "high_flags (f + 1) = high_flags f"
    unfolding high_flags_def word_unat_eq_iff unat_drop_bit u using low_half_Suc(2) [OF m] by simp
qed

lemma count_decr:
  assumes "refcount f \<noteq> 0"
  shows "refcount (f - 1) = refcount f - 1" "high_flags (f - 1) = high_flags f"
proof -
  have "f \<noteq> 0" using assms by auto
  then have "f - 1 + 1 = f" "refcount (f - 1) \<noteq> 65535"
  proof -
    show "f - 1 + 1 = f" by simp
    show "refcount (f - 1) \<noteq> 65535"
    proof
      assume l: "refcount (f - 1) = 65535"
      have "0 < unat f" using \<open>f \<noteq> 0\<close> by (simp add: unat_gt_0)
      then have "unat f = Suc (unat (f - 1))" by (subst unat_sub_below) simp_all
      then have "refcount f = 0" using l by (simp add: refcount_def mod_Suc)
      then show False using assms by simp
    qed
  qed
  then show "refcount (f - 1) = refcount f - 1" "high_flags (f - 1) = high_flags f"
    using count_incr [of "f - 1"] by simp_all
qed

text \<open>What the counter is to its users: a number, or latched for good. The two operations on the
  flags implement the two on it, and touch no other flag.\<close>

datatype refs = Count nat | Latched

definition refs_of :: "si_int \<Rightarrow> refs" where
  "refs_of f = (if refcount f = 65535 then Latched else Count (refcount f))"

fun retain_refs :: "refs \<Rightarrow> refs" where
  "retain_refs Latched = Latched"
| "retain_refs (Count n) = (if n + 1 = 65535 then Latched else Count (n + 1))"

fun release_refs :: "refs \<Rightarrow> refs" where
  "release_refs Latched = Latched"
| "release_refs (Count n) = Count (n - 1)"

lemma latching_incr:
  "latching_incr_int f = (if refcount f = 65535 then (f, BLOCK_REFCOUNT_MASK) else (f + 1, f + 1))"
  by (simp add: latching_incr_int_def)

lemma latching_decr:
  "latching_decr_int f = (if refcount f = 65535 then (f, BLOCK_REFCOUNT_MASK) else if refcount f = 0 then (f, 0)
    else (f - 1, f - 1))"
  by (simp add: latching_decr_int_def)

lemma latching_refines:
  "refs_of (fst (latching_incr_int f)) = retain_refs (refs_of f)"
  "refs_of (fst (latching_decr_int f)) = release_refs (refs_of f)"
  "high_flags (fst (latching_incr_int f)) = high_flags f" "high_flags (fst (latching_decr_int f)) = high_flags f"
  using refcount_bounds [of f] by (auto simp: latching_incr latching_decr refs_of_def count_incr count_decr)

lemma latching_result:
  "refcount (snd (latching_incr_int f)) = refcount (fst (latching_incr_int f))"
  "refcount (snd (latching_decr_int f)) = refcount (fst (latching_decr_int f))"
  by (simp_all add: latching_incr latching_decr)

section \<open>Copying and releasing one block\<close>

text \<open>The part of a block that decides what the runtime does with it.\<close>

definition head_of :: "block_layout \<Rightarrow> block_class \<times> si_int \<times> addr" where
  "head_of b = (b_isa b, b_flags b, b_descriptor b)"

definition same_heads :: "runtime \<Rightarrow> runtime \<Rightarrow> bool" where
  "same_heads s t \<longleftrightarrow> map_option head_of \<circ> blocks t = map_option head_of \<circ> blocks s \<and>
    descriptors t = descriptors s \<and> isGC t = isGC s \<and> Block_deallocator t = Block_deallocator s"

lemma same_heads_refl [simp]: "same_heads s s"
  by (simp add: same_heads_def)

lemma same_heads_block:
  assumes "same_heads s t" "blocks s a = Some b"
  obtains b' where "blocks t a = Some b'" "b_flags b' = b_flags b" "b_descriptor b' = b_descriptor b" "b_isa b' = b_isa b"
proof -
  have "map_option head_of (blocks t a) = map_option head_of (blocks s a)"
    using assms(1) by (simp add: same_heads_def fun_eq_iff)
  then show ?thesis using that assms(2) by (cases "blocks t a") (auto simp: head_of_def)
qed

lemma same_heads_None: "same_heads s t \<Longrightarrow> blocks t a = None \<longleftrightarrow> blocks s a = None"
  unfolding same_heads_def by (metis comp_apply map_option_is_None)

text \<open>What is assumed of the parameters: \<^verbatim>\<open>malloc\<close> returns null or fresh memory, and the helpers
  of a block copy or destroy what it captured, but leave the heads of the blocks alone.\<close>

definition malloc_fresh :: "env \<Rightarrow> bool" where
  "malloc_fresh E \<longleftrightarrow> (\<forall>n s. malloc E n s = 0 \<or> blocks s (malloc E n s) = None)"

definition helpers_keep_heads :: "env \<Rightarrow> bool" where
  "helpers_keep_heads E \<longleftrightarrow> (\<forall>f a b s. same_heads s (copy_helper E f a b s)) \<and>
    (\<forall>f a s. same_heads s (dispose_helper E f a s))"

definition on_heap :: "block_layout \<Rightarrow> bool" where "on_heap b \<longleftrightarrow> bit (b_flags b) 24"

text \<open>A block without a collector: its helpers are known, and one that is not on the heap does not count.\<close>

definition good_block :: "runtime \<Rightarrow> block_layout \<Rightarrow> bool" where
  "good_block s b \<longleftrightarrow> \<not> bit (b_flags b) 27 \<and> descriptors s (b_descriptor b) \<noteq> None \<and>
    (on_heap b \<or> refcount (b_flags b) = 0)"

text \<open>The effect of copying on the counters, with respect to an unknown rest of the state.\<close>

lemma Block_copy_heap:
  assumes "a \<noteq> 0" "blocks s a = Some b" "on_heap b"
  shows "Block_copy E a s = Some (a, s\<lparr>blocks := (blocks s)(a \<mapsto> b\<lparr>b_flags := fst (latching_incr_int (b_flags b))\<rparr>)\<rparr>)"
  using assms by (simp add: Block_copy_def Block_copy_internal_def on_heap_def)

lemma Block_copy_global:
  assumes "a \<noteq> 0" "blocks s a = Some b" "\<not> on_heap b" "good_block s b" "bit (b_flags b) 28"
  shows "Block_copy E a s = Some (a, s)"
  using assms by (simp add: Block_copy_def Block_copy_internal_def on_heap_def good_block_def)

definition heap_flags :: "si_int \<Rightarrow> si_int" where
  "heap_flags f = (f AND NOT BLOCK_REFCOUNT_MASK) OR (BLOCK_NEEDS_FREE OR 1)"

lemma heap_flags:
  "refcount (heap_flags f) = 1" "bit (heap_flags f) 24" "24 < k \<Longrightarrow> bit (heap_flags f) k = bit f k"
proof -
  have l: "heap_flags f AND mask 16 = 1"
    unfolding heap_flags_def mask_refcount BLOCK_NEEDS_FREE_def
    by (rule bit_word_eqI) (auto simp: bit_and_iff bit_or_iff bit_not_iff bit_mask_iff bit_push_bit_iff bit_1_iff simp del: push_bit_of_1)
  then have "heap_flags f AND BLOCK_REFCOUNT_MASK = 1" by (simp only: mask_refcount)
  then show "refcount (heap_flags f) = 1" by simp
  show "bit (heap_flags f) 24" "24 < k \<Longrightarrow> bit (heap_flags f) k = bit f k"
    unfolding heap_flags_def mask_refcount BLOCK_NEEDS_FREE_def
    by (auto simp: bit_and_iff bit_or_iff bit_not_iff bit_mask_iff bit_push_bit_iff bit_1_iff dest: bit_imp_le_length simp del: push_bit_of_1)
qed

lemma Block_copy_stack:
  assumes "a \<noteq> 0" "blocks s a = Some b" "\<not> on_heap b" "good_block s b" "\<not> bit (b_flags b) 28" "\<not> isGC s"
    and d: "descriptors s (b_descriptor b) = Some d"
    and r: "r = malloc E (d_size d) s"
    and t: "t = s\<lparr>blocks := (blocks s)(r \<mapsto> b\<lparr>b_flags := heap_flags (b_flags b), b_isa := NSConcreteMallocBlock\<rparr>)\<rparr>"
  shows "Block_copy E a s = Some (if r = 0 then (0, s)
    else (r, if bit (b_flags b) 25 then copy_helper E (d_copy d) r a t else t))"
  using assms(1-6) by (simp add: Block_copy_def Block_copy_internal_def on_heap_def good_block_def d
    r [symmetric] heap_flags_def [symmetric] heap_flags t [symmetric] Let_def)

lemma Block_release_heap:
  assumes "a \<noteq> 0" "blocks s a = Some b" "on_heap b" "good_block s b" "descriptors s (b_descriptor b) = Some d"
    and f: "f = fst (latching_decr_int (b_flags b))"
    and t: "t = s\<lparr>blocks := (blocks s)(a \<mapsto> b\<lparr>b_flags := f\<rparr>)\<rparr>"
  shows "Block_release E a s = Some (if 0 < refcount f then t
    else deallocate a (if bit f 25 then dispose_helper E (d_dispose d) a t else t))"
proof -
  have h: "bit f k = bit (b_flags b) k" if "16 \<le> k" for k
    unfolding f by (rule high_flags_bit [OF latching_refines(4) that])
  have r: "refcount (snd (latching_decr_int (b_flags b))) = refcount f" unfolding f by (rule latching_result)
  obtain g n where gn: "latching_decr_int (b_flags b) = (g, n)" by (rule prod.exhaust)
  then have g: "g = f" "refcount n = refcount f" using f r by simp_all
  show ?thesis
    using assms(1-5) g by (simp add: Block_release_def gn on_heap_def good_block_def h t [symmetric] Let_def del: fun_upd_apply)
      (simp add: t)
qed

lemma Block_release_other:
  assumes "a \<noteq> 0" "blocks s a = Some b" "\<not> on_heap b" "good_block s b"
  shows "Block_release E a s = Some (if bit (b_flags b) 28 then s else s\<lparr>printed := printed s @ [Released_stack_block a]\<rparr>)"
proof -
  have "latching_decr_int (b_flags b) = (b_flags b, 0)"
    using assms by (simp add: latching_decr good_block_def)
  moreover have "s\<lparr>blocks := (blocks s)(a \<mapsto> b)\<rparr> = s" using assms(2) by (simp add: fun_upd_idem)
  ultimately show ?thesis
    using assms by (simp add: Block_release_def on_heap_def good_block_def Let_def)
qed

text \<open>C23: The counter in the low half of the flags refines a counter that latches at 65535 and stays at 0: the
  flags stored and the value returned both stand for the counter after the operation, and no flag above
  the counter is touched.\<close>

theorem counter_refines:
  "refs_of (fst (latching_incr_int f)) = retain_refs (refs_of f) \<and>
    refs_of (fst (latching_decr_int f)) = release_refs (refs_of f) \<and>
    refs_of (snd (latching_incr_int f)) = retain_refs (refs_of f) \<and>
    refs_of (snd (latching_decr_int f)) = release_refs (refs_of f) \<and>
    high_flags (fst (latching_incr_int f)) = high_flags f \<and>
    high_flags (fst (latching_decr_int f)) = high_flags f"
proof -
  have "refs_of (snd (latching_incr_int f)) = refs_of (fst (latching_incr_int f))"
    "refs_of (snd (latching_decr_int f)) = refs_of (fst (latching_decr_int f))"
    by (simp_all add: refs_of_def latching_result)
  then show ?thesis by (simp add: latching_refines)
qed

end
