(* ===== verification/Blocks_Client.thy ===== *)
theory Blocks_Client
  imports Blocks
begin

unbundle bit_operations_syntax

text \<open>
  Programs that copy and release blocks without a collector, as a step relation over the operations of
  \<^theory_text>\<open>Blocks\<close>. The invariant of the reachable states: the counter of a block on the heap is the
  number of references the program holds, so no block is freed while a reference is left, and one whose
  last reference is released is freed, unless its counter had latched.
\<close>

section \<open>Clients\<close>

text \<open>A program that uses blocks without a collector, with the references it holds to each block counted
  beside the runtime's state. It may use a block on the heap while it holds a reference to it, and any
  other block while it exists. Its steps: a call of \<^verbatim>\<open>_Block_copy\<close> or \<^verbatim>\<open>_Block_release\<close>, the
  beginning and the end of the life of a block on the stack (or of a global one), and anything that
  leaves the heads of the blocks alone, such as the calls of blocks and the runtime's work on shared
  variables.\<close>

record client =
  rts :: runtime
  held :: "addr \<Rightarrow> nat"

lemma client_eta [simp]: "\<lparr>rts = rts c, held = held c\<rparr> = c"
  by (cases c) simp







lemma good_block_cong: "descriptors t = descriptors s \<Longrightarrow> good_block t b = good_block s b"
  by (simp add: good_block_def)
















section \<open>The properties\<close>















end
