(* ===== verification/Blocks_Byref.thy ===== *)
theory Blocks_Byref
  imports Blocks
begin

unbundle bit_operations_syntax

text \<open>
  The life of a variable that blocks share: \<^verbatim>\<open>_Block_byref_assign_copy\<close> moves it to the heap
  on the first copy and counts the further ones, \<^verbatim>\<open>_Block_byref_release\<close> frees it with the last.
\<close>

section \<open>Shared variables\<close>

text \<open>A \<^verbatim>\<open>struct Block_byref\<close> that nobody has copied is its own forwarding address and counts nothing.
  Copying it moves it to the heap with two references, one for the block and one for the stack, and
  leaves the address behind; from then on a copy of either only counts.\<close>

definition byref_on_stack :: "runtime \<Rightarrow> addr \<Rightarrow> bool" where
  "byref_on_stack s a \<longleftrightarrow> (\<exists>r. byrefs s a = Some r \<and> r_forwarding r = a \<and> refcount (r_flags r) = 0 \<and>
    \<not> bit (r_flags r) 24 \<and> \<not> bit (r_flags r) 27)"

definition byref_on_heap :: "runtime \<Rightarrow> addr \<Rightarrow> addr \<Rightarrow> nat \<Rightarrow> bool" where
  "byref_on_heap s a h n \<longleftrightarrow> (\<exists>r g. byrefs s a = Some r \<and> r_forwarding r = h \<and> byrefs s h = Some g \<and>
    r_forwarding g = h \<and> h \<noteq> 0 \<and> bit (r_flags g) 24 \<and> \<not> bit (r_flags g) 27 \<and> refcount (r_flags g) = n)"

definition default_hooks :: "runtime \<Rightarrow> bool" where
  "default_hooks s \<longleftrightarrow> \<not> isGC s \<and> Block_allocator s = Default \<and> Block_deallocator s = Default \<and> Block_assign s = Default \<and>
    Block_memmove s = Default \<and> Byref_flag_initial_value s = BLOCK_NEEDS_FREE OR 2"

lemma byref_flags:
  assumes "refcount f = 0"
  shows "refcount (f OR (BLOCK_NEEDS_FREE OR 2)) = 2" "bit (f OR (BLOCK_NEEDS_FREE OR 2)) 24"
    "24 < k \<Longrightarrow> bit (f OR (BLOCK_NEEDS_FREE OR 2)) k = bit f k"
proof -
  have "f AND mask 16 = 0" using assms by (simp flip: mask_refcount)
  then have f: "\<not> bit f i" if "i < 16" for i
  proof -
    have "\<not> bit (f AND mask 16) i" using \<open>f AND mask 16 = 0\<close> by simp
    then show ?thesis using that by (simp add: bit_and_iff bit_mask_iff)
  qed
  have b2: "bit (2 :: si_int) i \<longleftrightarrow> i = 1" for i by (auto simp: bit_2_iff)
  have "(f OR (BLOCK_NEEDS_FREE OR 2)) AND mask 16 = 2"
    unfolding BLOCK_NEEDS_FREE_def
  proof (rule bit_word_eqI)
    fix i
    show "bit ((f OR (push_bit 24 1 OR 2)) AND mask 16) i = bit (2 :: si_int) i"
      unfolding bit_and_iff bit_or_iff bit_mask_iff b2 bit_push_bit_iff bit_1_iff using f [of i] by auto
  qed
  then have "unat ((f OR (BLOCK_NEEDS_FREE OR 2)) AND BLOCK_REFCOUNT_MASK) = 2" by (simp only: mask_refcount) simp
  then show "refcount (f OR (BLOCK_NEEDS_FREE OR 2)) = 2" by (simp only: unat_count)
  have "bit (f OR (BLOCK_NEEDS_FREE OR 2)) k \<longleftrightarrow> bit f k \<or> k = 24 \<or> k = 1" if "k < 32" for k
    unfolding BLOCK_NEEDS_FREE_def bit_or_iff b2 bit_push_bit_iff bit_1_iff using that by auto
  then show "bit (f OR (BLOCK_NEEDS_FREE OR 2)) 24" "24 < k \<Longrightarrow> bit (f OR (BLOCK_NEEDS_FREE OR 2)) k = bit f k"
    by (simp, cases "k < 32", simp, auto dest: bit_imp_le_length)
qed

lemma sint_count: "sint (f AND BLOCK_REFCOUNT_MASK) = int (refcount f)"
proof -
  have "\<not> bit (f AND BLOCK_REFCOUNT_MASK) 31" by (simp add: mask_refcount bit_and_iff bit_mask_iff)
  then have "sint (f AND BLOCK_REFCOUNT_MASK) = int (unat (f AND BLOCK_REFCOUNT_MASK))"
    unfolding sint_uint_cases by (simp only: uint_nat) simp
  then show ?thesis by (simp add: unat_count)
qed

text \<open>The helpers of a shared variable leave the heads of the variables alone.\<close>

definition var_of :: "block_byref \<Rightarrow> addr \<times> si_int" where "var_of r = (r_forwarding r, r_flags r)"

definition same_vars :: "runtime \<Rightarrow> runtime \<Rightarrow> bool" where
  "same_vars s t \<longleftrightarrow> map_option var_of \<circ> byrefs t = map_option var_of \<circ> byrefs s \<and> default_hooks t = default_hooks s"

definition byref_helpers_keep :: "env \<Rightarrow> bool" where
  "byref_helpers_keep E \<longleftrightarrow> (\<forall>f a b s. same_vars s (byref_keep E f a b s)) \<and> (\<forall>f a s. same_vars s (byref_destroy E f a s))"

lemma same_vars_None: "same_vars s t \<Longrightarrow> byrefs t a = None \<longleftrightarrow> byrefs s a = None"
  unfolding same_vars_def by (metis comp_apply map_option_is_None)

lemma same_vars_Some:
  assumes "same_vars s t" "byrefs s a = Some r"
  obtains r' where "byrefs t a = Some r'" "r_forwarding r' = r_forwarding r" "r_flags r' = r_flags r"
proof -
  have "map_option var_of (byrefs t a) = map_option var_of (byrefs s a)" using assms(1) by (simp add: same_vars_def fun_eq_iff)
  then show ?thesis using that assms(2) by (cases "byrefs t a") (auto simp: var_of_def)
qed

lemma same_vars_heap:
  assumes "same_vars s t" "byref_on_heap s a h n"
  shows "byref_on_heap t a h n"
proof -
  obtain r g where s: "byrefs s a = Some r" "r_forwarding r = h" "byrefs s h = Some g" "r_forwarding g = h" "h \<noteq> 0"
    "bit (r_flags g) 24" "\<not> bit (r_flags g) 27" "refcount (r_flags g) = n"
    using assms(2) by (auto simp: byref_on_heap_def)
  obtain r' where "byrefs t a = Some r'" "r_forwarding r' = r_forwarding r" by (rule same_vars_Some [OF assms(1) s(1)])
  moreover obtain g' where "byrefs t h = Some g'" "r_forwarding g' = r_forwarding g" "r_flags g' = r_flags g"
    by (rule same_vars_Some [OF assms(1) s(3)])
  ultimately show ?thesis using s by (simp add: byref_on_heap_def)
qed

lemma byref_first_copy:
  assumes s: "byrefs s a = Some r" "r_forwarding r = a" "refcount (r_flags r) = 0" "\<not> bit (r_flags r) 24" "\<not> bit (r_flags r) 27"
    and "default_hooks s" "byref_helpers_keep E"
    and h: "h = malloc E (unat (r_size r)) s" "h \<noteq> 0" "byrefs s h = None"
  shows "\<exists>t. Block_byref_assign_copy E (Cell c) a flags s = Some t \<and> byref_on_heap t a h 2 \<and> default_hooks t"
proof -
  define isWeak where "isWeak = (flags AND (BLOCK_FIELD_IS_BYREF OR BLOCK_FIELD_IS_WEAK) = (BLOCK_FIELD_IS_BYREF OR BLOCK_FIELD_IS_WEAK))"
  define new where "new = \<lparr> r_isa = if isWeak then NSConcreteWeakBlockVariable else Class_at 0, r_forwarding = h,
    r_flags = r_flags r OR (BLOCK_NEEDS_FREE OR 2), r_size = r_size r,
    r_keep = 0, r_destroy = 0, r_shared = replicate (length (r_shared r)) 0 \<rparr>"
  define s1 where "s1 = s\<lparr>byrefs := (byrefs s)(h \<mapsto> new, a \<mapsto> r\<lparr>r_forwarding := h\<rparr>)\<rparr>"
  have ha: "h \<noteq> a" using h(3) s(1) by auto
  have al: "allocate E n x y s = malloc E n s" for n x y
    using assms(6) by (simp add: allocate_def default_hooks_def Block_alloc_default_def)
  have heap: "byref_on_heap t a h 2" if "byrefs t a = Some (r\<lparr>r_forwarding := h\<rparr>)" "byrefs t h = Some g"
    "r_forwarding g = h" "r_flags g = r_flags r OR (BLOCK_NEEDS_FREE OR 2)" for t g
  proof -
    have "refcount (r_flags g) = 2" "bit (r_flags g) 24" "\<not> bit (r_flags g) 27"
      unfolding that(4) using byref_flags [OF s(3)] s(5) by simp_all
    then show ?thesis
      unfolding byref_on_heap_def
      by - (rule exI [of _ "r\<lparr>r_forwarding := h\<rparr>"], rule exI [of _ g], simp add: that(1-3) h(2))
  qed
  have "\<exists>t. (if bit (r_flags r) 25
      then Some (byref_keep E (r_keep r) h a (s1\<lparr>byrefs := (byrefs s1)(h \<mapsto> new\<lparr>r_keep := r_keep r, r_destroy := r_destroy r\<rparr>)\<rparr>))
      else memmove E h a (r_size r - 16) s1) = Some t \<and> byref_on_heap t a h 2 \<and> default_hooks t"
    (is "\<exists>t. ?m = Some t \<and> _")
  proof (cases "bit (r_flags r) 25")
    case True
    let ?t = "s1\<lparr>byrefs := (byrefs s1)(h \<mapsto> new\<lparr>r_keep := r_keep r, r_destroy := r_destroy r\<rparr>)\<rparr>"
    have "byref_on_heap ?t a h 2"
      by (rule heap [of _ "new\<lparr>r_keep := r_keep r, r_destroy := r_destroy r\<rparr>"]) (use ha in \<open>simp_all add: s1_def new_def\<close>)
    moreover have "default_hooks ?t" using assms(6) by (simp add: default_hooks_def s1_def)
    moreover have "same_vars ?t (byref_keep E (r_keep r) h a ?t)" using assms(7) by (simp add: byref_helpers_keep_def)
    ultimately have "byref_on_heap (byref_keep E (r_keep r) h a ?t) a h 2 \<and> default_hooks (byref_keep E (r_keep r) h a ?t)"
      using same_vars_heap [of ?t "byref_keep E (r_keep r) h a ?t"] unfolding same_vars_def by blast
    then show ?thesis using True by (simp del: fun_upd_apply)
  next
    case False
    have d: "Block_memmove s1 = Default" using assms(6) by (simp add: default_hooks_def s1_def)
    have "byrefs s1 h = Some new" "byrefs s1 a = Some (r\<lparr>r_forwarding := h\<rparr>)" using ha by (simp_all add: s1_def)
    then have "memmove E h a (r_size r - 16) s1 =
        Some (s1\<lparr>byrefs := (byrefs s1)(h \<mapsto> new\<lparr>r_keep := r_keep r, r_destroy := r_destroy r, r_shared := r_shared r\<rparr>)\<rparr>)" (is "_ = Some ?t")
      by (simp add: memmove_def d Block_memmove_default_def copy_payload_def)
    moreover have "byref_on_heap ?t a h 2"
      by (rule heap [of _ "new\<lparr>r_keep := r_keep r, r_destroy := r_destroy r, r_shared := r_shared r\<rparr>"])
        (use ha in \<open>simp_all add: s1_def new_def\<close>)
    moreover have "default_hooks ?t" using assms(6) by (simp add: default_hooks_def s1_def)
    ultimately show ?thesis using False by simp
  qed
  then obtain t where t: "?m = Some t" "byref_on_heap t a h 2" "default_hooks t" by blast
  obtain r' where r': "byrefs t a = Some r'" "r_forwarding r' = h" using t(2) by (auto simp: byref_on_heap_def)
  have iv: "Byref_flag_initial_value s = BLOCK_NEEDS_FREE OR 2" using assms(6) by (simp add: default_hooks_def)
  have "Block_byref_assign_copy E (Cell c) a flags s = do { t \<leftarrow> ?m; r \<leftarrow> byrefs t a; assign E (r_forwarding r) (Cell c) t }"
    using s h(2) by (simp add: Block_byref_assign_copy_def isWeak_def [symmetric] al h(1) [symmetric] iv Let_def
      new_def s1_def del: fun_upd_apply split del: if_split cong: if_cong)
  also have "\<dots> = assign E h (Cell c) t" unfolding t(1) using r' by simp
  also have "\<dots> = Some (t\<lparr>cells := (cells t)(c := h)\<rparr>)"
    using t(3) by (simp add: assign_def default_hooks_def Block_assign_default_def)
  finally show ?thesis using t(2,3) by (simp add: byref_on_heap_def default_hooks_def)
qed

text \<open>A variable on the heap counts the copies, as long as its counter has not latched.\<close>

definition bump :: "nat \<Rightarrow> nat" where "bump n = (if n = 65535 then n else n + 1)"

lemma byref_further_copy:
  assumes "byref_on_heap s a h n" "0 < n" "default_hooks s"
  shows "\<exists>t. Block_byref_assign_copy E (Cell c) a flags s = Some t \<and> byref_on_heap t a h (bump n) \<and> default_hooks t"
proof -
  obtain r g where s: "byrefs s a = Some r" "r_forwarding r = h" "byrefs s h = Some g" "r_forwarding g = h" "h \<noteq> 0"
    "bit (r_flags g) 24" "\<not> bit (r_flags g) 27" "refcount (r_flags g) = n"
    using assms(1) by (auto simp: byref_on_heap_def)
  define f where "f = fst (latching_incr_int (r_flags g))"
  define t where "t = s\<lparr>byrefs := (byrefs s)(h \<mapsto> g\<lparr>r_flags := f\<rparr>)\<rparr>"
  have f: "refcount f = bump n" "bit f 24" "\<not> bit f 27"
  proof -
    show "refcount f = bump n" using s(8) by (auto simp: f_def latching_incr bump_def count_incr)
    show "bit f 24" "\<not> bit f 27" using high_flags_bit [OF latching_refines(3), of 24 "r_flags g"]
      high_flags_bit [OF latching_refines(3), of 27 "r_flags g"] s(6,7) by (simp_all add: f_def)
  qed
  obtain r' where r': "byrefs t a = Some r'" "r_forwarding r' = h" using s(1,2,4) by (cases "a = h") (auto simp: t_def)
  have "Block_byref_assign_copy E (Cell c) a flags s = assign E h (Cell c) t"
    using s assms(2) r' by (simp add: Block_byref_assign_copy_def f_def [symmetric] t_def [symmetric] del: fun_upd_apply)
  also have "\<dots> = Some (t\<lparr>cells := (cells t)(c := h)\<rparr>)"
    using assms(3) by (simp add: assign_def default_hooks_def Block_assign_default_def t_def)
  finally show ?thesis using f s(4,5) r' assms(3) by (auto simp: byref_on_heap_def default_hooks_def t_def)
qed

lemma byref_release_keeps:
  assumes "byref_on_heap s a h n" "1 < n" "default_hooks s"
  shows "\<exists>t. Block_byref_release E a s = Some t \<and> byref_on_heap t a h (if n = 65535 then n else n - 1) \<and> default_hooks t"
proof -
  obtain r g where s: "byrefs s a = Some r" "r_forwarding r = h" "byrefs s h = Some g" "r_forwarding g = h" "h \<noteq> 0"
    "bit (r_flags g) 24" "\<not> bit (r_flags g) 27" "refcount (r_flags g) = n"
    using assms(1) by (auto simp: byref_on_heap_def)
  obtain f m where fm: "latching_decr_int (r_flags g) = (f, m)" by (rule prod.exhaust)
  then have fm': "f = fst (latching_decr_int (r_flags g))" "m = snd (latching_decr_int (r_flags g))" by simp_all
  have f: "refcount f = (if n = 65535 then n else n - 1)" "bit f 24" "\<not> bit f 27"
  proof -
    show "refcount f = (if n = 65535 then n else n - 1)" using s(8) assms(2) by (auto simp: fm' latching_decr count_decr)
    show "bit f 24" "\<not> bit f 27" using high_flags_bit [OF latching_refines(4), of 24 "r_flags g"]
      high_flags_bit [OF latching_refines(4), of 27 "r_flags g"] s(6,7) by (simp_all add: fm')
  qed
  have m: "refcount m = refcount f" unfolding fm' by (rule latching_result)
  define t where "t = s\<lparr>byrefs := (byrefs s)(h \<mapsto> g\<lparr>r_flags := f\<rparr>)\<rparr>"
  have pos: "\<not> sint (r_flags g AND BLOCK_REFCOUNT_MASK) \<le> 0" using s(8) assms(2) by (simp add: sint_count)
  have "Block_byref_release E a s = Some t"
    using s pos fm m f(1) assms(2) by (simp add: Block_byref_release_def t_def)
  moreover obtain r' where r': "byrefs t a = Some r'" "r_forwarding r' = h" using s(1,2,4) by (cases "a = h") (auto simp: t_def)
  ultimately show ?thesis using f s(4,5) assms(3) by (auto simp: byref_on_heap_def default_hooks_def t_def)
qed

lemma byref_release_frees:
  assumes "byref_on_heap s a h 1" "default_hooks s" "byref_helpers_keep E"
  shows "\<exists>t. Block_byref_release E a s = Some t \<and> byrefs t h = None"
proof -
  obtain r g where s: "byrefs s a = Some r" "r_forwarding r = h" "byrefs s h = Some g" "r_forwarding g = h" "h \<noteq> 0"
    "bit (r_flags g) 24" "\<not> bit (r_flags g) 27" "refcount (r_flags g) = 1"
    using assms(1) by (auto simp: byref_on_heap_def)
  have d: "latching_decr_int (r_flags g) = (r_flags g - 1, r_flags g - 1)" "refcount (r_flags g - 1) = 0"
    using s(8) by (simp_all add: latching_decr count_decr)
  define t where "t = s\<lparr>byrefs := (byrefs s)(h \<mapsto> g\<lparr>r_flags := r_flags g - 1\<rparr>)\<rparr>"
  define u where "u = (if bit (r_flags g - 1) 25 then byref_destroy E (r_destroy g) h t else t)"
  have pos: "\<not> sint (r_flags g AND BLOCK_REFCOUNT_MASK) \<le> 0" using s(8) by (simp add: sint_count)
  have "Block_byref_release E a s = Some (deallocate h u)"
    using s pos d by (simp add: Block_byref_release_def t_def u_def)
  moreover have "default_hooks u"
    using assms(2,3) by (auto simp: u_def t_def byref_helpers_keep_def same_vars_def default_hooks_def)
  then have "byrefs (deallocate h u) h = None" by (simp add: deallocate_def default_hooks_def)
  ultimately show ?thesis by blast
qed

section \<open>The life of a shared variable\<close>

text \<open>The copies a program makes of a variable, and the releases, one after the other.\<close>

fun copies :: "env \<Rightarrow> addr \<Rightarrow> addr \<Rightarrow> si_int \<Rightarrow> nat \<Rightarrow> runtime \<Rightarrow> runtime option" where
  "copies E c a flags 0 s = Some s"
| "copies E c a flags (Suc m) s = Option.bind (Block_byref_assign_copy E (Cell c) a flags s) (copies E c a flags m)"

fun releases :: "env \<Rightarrow> addr \<Rightarrow> nat \<Rightarrow> runtime \<Rightarrow> runtime option" where
  "releases E a 0 s = Some s"
| "releases E a (Suc m) s = Option.bind (Block_byref_release E a s) (releases E a m)"

lemma copies_count:
  "byref_on_heap s a h n \<Longrightarrow> 0 < n \<Longrightarrow> default_hooks s \<Longrightarrow> n + m < 65535 \<Longrightarrow>
    \<exists>t. copies E c a flags m s = Some t \<and> byref_on_heap t a h (n + m) \<and> default_hooks t"
proof (induction m arbitrary: s n)
  case (Suc m)
  then have n: "bump n = n + 1" by (simp add: bump_def)
  obtain t where t: "Block_byref_assign_copy E (Cell c) a flags s = Some t" "byref_on_heap t a h (n + 1)" "default_hooks t"
    using byref_further_copy [OF Suc.prems(1-3), of E c flags] n by auto
  from Suc.IH [OF t(2) _ t(3)] Suc.prems(4) t(1) show ?case by simp
qed simp

lemma releases_count:
  "byref_on_heap s a h (n + m) \<Longrightarrow> 0 < n \<Longrightarrow> default_hooks s \<Longrightarrow> n + m < 65535 \<Longrightarrow>
    \<exists>t. releases E a m s = Some t \<and> byref_on_heap t a h n \<and> default_hooks t"
proof (induction m arbitrary: s)
  case (Suc m)
  have "\<exists>t. Block_byref_release E a s = Some t \<and> byref_on_heap t a h (n + m) \<and> default_hooks t"
    using byref_release_keeps [OF Suc.prems(1) _ Suc.prems(3), of E] Suc.prems(2,4) by simp
  then obtain t where t: "Block_byref_release E a s = Some t" "byref_on_heap t a h (n + m)" "default_hooks t" by blast
  from Suc.IH [OF t(2) Suc.prems(2) t(3)] Suc.prems(4) t(1) show ?case by simp
qed simp

definition demo_var :: runtime where
  "demo_var = initial_runtime\<lparr>byrefs := [4 \<mapsto> \<lparr> r_isa = Class_at 0, r_forwarding = 4, r_flags = 0, r_size = 28,
    r_keep = 0, r_destroy = 0, r_shared = [7] \<rparr>]\<rparr>"

definition demo_var_env :: env where
  "demo_var_env = \<lparr> malloc = (\<lambda>n s. 16), copy_helper = (\<lambda>f a b s. s),
    dispose_helper = (\<lambda>f a s. s), byref_keep = (\<lambda>f a b s. s), byref_destroy = (\<lambda>f a s. s), hook_alloc = (\<lambda>f n x y s. 0),
    hook_setHasRefcount = (\<lambda>f a x s. s), hook_assign = (\<lambda>f a l s. s), hook_memmove = (\<lambda>f a b n s. s),
    hook_object = (\<lambda>f a s. s) \<rparr>"

lemma demo_var_simps:
  "byrefs demo_var 4 = Some \<lparr> r_isa = Class_at 0, r_forwarding = 4, r_flags = 0, r_size = 28, r_keep = 0, r_destroy = 0, r_shared = [7] \<rparr>"
  "default_hooks demo_var" "byref_helpers_keep demo_var_env" "malloc demo_var_env n demo_var = 16" "byrefs demo_var 16 = None"
  by (simp_all add: default_hooks_def demo_var_def initial_runtime_def byref_helpers_keep_def demo_var_env_def same_vars_def)

text \<open>C22: A variable on the stack that is copied \<open>m + 1\<close> times, fewer than the counter can hold, moves to the
  heap with one reference for each copy and one for the stack; after as many releases the stack's own
  is left, and its release frees the variable.\<close>

theorem shared_variable_life:
  assumes "byrefs s a = Some r" "r_forwarding r = a" "refcount (r_flags r) = 0"
    "\<not> bit (r_flags r) 24" "\<not> bit (r_flags r) 27" "default_hooks s" "byref_helpers_keep E"
    and "malloc E (unat (r_size r)) s = h" "h \<noteq> 0" "byrefs s h = None" and "m + 2 < 65535"
  shows "\<exists>t u v. copies E c a flags (Suc m) s = Some t \<and> byref_on_heap t a h (m + 2) \<and>
    releases E a (Suc m) t = Some u \<and> byref_on_heap u a h 1 \<and>
    Block_byref_release E a u = Some v \<and> byrefs v h = None"
proof -
  obtain s1 where s1: "Block_byref_assign_copy E (Cell c) a flags s = Some s1" "byref_on_heap s1 a h 2" "default_hooks s1"
    using byref_first_copy [OF assms(1-7) assms(8) [symmetric] assms(9,10)] by blast
  obtain t where t: "copies E c a flags m s1 = Some t" "byref_on_heap t a h (2 + m)" "default_hooks t"
    using copies_count [OF s1(2) _ s1(3), of m E c flags] assms(11) by auto
  have "byref_on_heap t a h (1 + Suc m)" using t(2) by simp
  from releases_count [OF this _ t(3), of E] assms(11)
  obtain u where u: "releases E a (Suc m) t = Some u" "byref_on_heap u a h 1" "default_hooks u" by auto
  obtain v where "Block_byref_release E a u = Some v" "byrefs v h = None"
    using byref_release_frees [OF u(2,3) assms(7)] by blast
  then show ?thesis using s1(1) t u by (auto simp: add.commute)
qed

theorem shared_variable_life_witness:
  "\<exists>t u v. copies demo_var_env 9 4 0 (Suc 2) demo_var = Some t \<and> byref_on_heap t 4 16 (2 + 2) \<and>
    releases demo_var_env 4 (Suc 2) t = Some u \<and> byref_on_heap u 4 16 1 \<and>
    Block_byref_release demo_var_env 4 u = Some v \<and> byrefs v 16 = None"
  by (rule shared_variable_life) (simp_all only: demo_var_simps, simp_all)

end
