(* ===== verification/Blocks_Latch.thy ===== *)
theory Blocks_Latch
  imports Blocks
begin

unbundle bit_operations_syntax

text \<open>
  The loops of \<^verbatim>\<open>latching_incr_int\<close> and \<^verbatim>\<open>latching_decr_int\<close> run by several threads on one word:
  each reads the word, gives up at a latched (or a zero) counter and otherwise tries a compare-and-swap,
  again and again. The steps of the threads interleave in any order.

  Every execution has a sequential one with the same results: a log of the operations, in the order in
  which they took effect. And every execution ends: a compare-and-swap only fails because another
  thread's succeeded.
\<close>

section \<open>One turn of a loop\<close>

datatype op = Incr | Decr

datatype attempt = Return si_int | Swap si_int

text \<open>What a turn does with the value it has read: return at once, or try to store a new value,
  which is also the result.\<close>

fun attempt_of :: "op \<Rightarrow> si_int \<Rightarrow> attempt" where
  "attempt_of Incr old_value =
    (if old_value AND BLOCK_REFCOUNT_MASK = BLOCK_REFCOUNT_MASK then Return BLOCK_REFCOUNT_MASK else Swap (old_value + 1))"
| "attempt_of Decr old_value =
    (if old_value AND BLOCK_REFCOUNT_MASK = BLOCK_REFCOUNT_MASK then Return BLOCK_REFCOUNT_MASK
     else if old_value AND BLOCK_REFCOUNT_MASK = 0 then Return 0 else Swap (old_value - 1))"

fun atomic_op :: "op \<Rightarrow> si_int \<Rightarrow> si_int \<times> si_int" where
  "atomic_op Incr v = latching_incr_int v"
| "atomic_op Decr v = latching_decr_int v"

lemma attempt_atomic:
  "atomic_op k v = (case attempt_of k v of Return r \<Rightarrow> (v, r) | Swap n \<Rightarrow> (n, n))"
  by (cases k) (simp_all add: latching_incr_int_def latching_decr_int_def)

lemma swap_changes: "attempt_of k v = Swap n \<Longrightarrow> n \<noteq> v"
  by (cases k) (auto split: if_splits)

section \<open>The interleaving\<close>

datatype thread = Loop | Loaded si_int | Done si_int

record shared =
  word_at :: si_int
  threads :: "thread list"
  log_of :: "nat list"

text \<open>Thread \<open>i\<close> runs operation \<open>K ! i\<close>. The log is no part of the program: an operation is entered when
  the word is read, if it then returns at once, and when its compare-and-swap succeeds otherwise.\<close>

inductive step :: "op list \<Rightarrow> shared \<Rightarrow> shared \<Rightarrow> bool" for K where
  read: "i < length (threads s) \<Longrightarrow> threads s ! i = Loop \<Longrightarrow>
    step K s (s\<lparr>threads := (threads s)[i := Loaded (word_at s)],
      log_of := log_of s @ (case attempt_of (K ! i) (word_at s) of Return r \<Rightarrow> [i] | Swap n \<Rightarrow> [])\<rparr>)"
| give_up: "i < length (threads s) \<Longrightarrow> threads s ! i = Loaded v \<Longrightarrow> attempt_of (K ! i) v = Return r \<Longrightarrow>
    step K s (s\<lparr>threads := (threads s)[i := Done r]\<rparr>)"
| swap: "i < length (threads s) \<Longrightarrow> threads s ! i = Loaded v \<Longrightarrow> attempt_of (K ! i) v = Swap n \<Longrightarrow> word_at s = v \<Longrightarrow>
    step K s (s\<lparr>word_at := n, threads := (threads s)[i := Done n], log_of := log_of s @ [i]\<rparr>)"
| again: "i < length (threads s) \<Longrightarrow> threads s ! i = Loaded v \<Longrightarrow> attempt_of (K ! i) v = Swap n \<Longrightarrow> word_at s \<noteq> v \<Longrightarrow>
    step K s (s\<lparr>threads := (threads s)[i := Loop]\<rparr>)"

definition start_state :: "op list \<Rightarrow> si_int \<Rightarrow> shared" where
  "start_state K v = \<lparr> word_at = v, threads = replicate (length K) Loop, log_of = [] \<rparr>"

inductive run :: "op list \<Rightarrow> si_int \<Rightarrow> shared \<Rightarrow> bool" for K v where
  run_start: "run K v (start_state K v)"
| run_step: "run K v s \<Longrightarrow> step K s t \<Longrightarrow> run K v t"

section \<open>The sequential execution\<close>

fun replay :: "op list \<Rightarrow> nat list \<Rightarrow> si_int \<Rightarrow> si_int" where
  "replay K [] v = v"
| "replay K (i # is) v = replay K is (fst (atomic_op (K ! i) v))"

lemma replay_append [simp]: "replay K (is @ js) v = replay K js (replay K is v)"
  by (induction "is" arbitrary: v) simp_all

text \<open>Thread \<open>i\<close> has taken effect with the result \<open>r\<close>: it is in the log, after operations that leave the
  word at a value where the operation's result is \<open>r\<close>.\<close>

definition took_effect :: "op list \<Rightarrow> si_int \<Rightarrow> nat list \<Rightarrow> nat \<Rightarrow> si_int \<Rightarrow> bool" where
  "took_effect K v l i r \<longleftrightarrow> (\<exists>before after. l = before @ i # after \<and> snd (atomic_op (K ! i) (replay K before v)) = r)"

lemma took_effect_append: "took_effect K v l i r \<Longrightarrow> took_effect K v (l @ l') i r"
  unfolding took_effect_def by force

lemma took_effect_last: "snd (atomic_op (K ! i) (replay K l v)) = r \<Longrightarrow> took_effect K v (l @ [i]) i r"
  unfolding took_effect_def by blast

definition thread_ok :: "op list \<Rightarrow> si_int \<Rightarrow> nat list \<Rightarrow> nat \<Rightarrow> thread \<Rightarrow> bool" where
  "thread_ok K v l i t \<longleftrightarrow>
    (case t of Loop \<Rightarrow> i \<notin> set l
     | Loaded x \<Rightarrow> (case attempt_of (K ! i) x of Return r \<Rightarrow> took_effect K v l i r | Swap n \<Rightarrow> i \<notin> set l)
     | Done r \<Rightarrow> took_effect K v l i r)"

definition latch_inv :: "op list \<Rightarrow> si_int \<Rightarrow> shared \<Rightarrow> bool" where
  "latch_inv K v s \<longleftrightarrow> length (threads s) = length K \<and> word_at s = replay K (log_of s) v \<and> distinct (log_of s) \<and>
    set (log_of s) \<subseteq> {..<length K} \<and> (\<forall>i < length K. thread_ok K v (log_of s) i (threads s ! i))"

text \<open>The other threads are not concerned when one moves and the log grows by it or not at all.\<close>

lemma thread_ok_other:
  assumes "thread_ok K v l j t" "set l' \<subseteq> {i}" "j \<noteq> i"
  shows "thread_ok K v (l @ l') j t"
  using assms took_effect_append [of K v l j _ l'] by (auto simp: thread_ok_def split: thread.splits attempt.splits)

lemma latch_inv_move:
  assumes inv: "latch_inv K v s" and i: "i < length (threads s)"
    and l': "l' = [] \<or> l' = [i] \<and> i \<notin> set (log_of s)"
    and w: "w = replay K (log_of s @ l') v" and t: "thread_ok K v (log_of s @ l') i t"
  shows "latch_inv K v (s\<lparr>word_at := w, threads := (threads s)[i := t], log_of := log_of s @ l'\<rparr>)"
proof -
  have "thread_ok K v (log_of s @ l') j ((threads s)[i := t] ! j)" if "j < length K" for j
  proof (cases "j = i")
    case True
    then show ?thesis using t i by simp
  next
    case False
    then show ?thesis using thread_ok_other [of K v "log_of s" j _ l' i] inv that l' by (auto simp: latch_inv_def)
  qed
  moreover have "distinct (log_of s @ l')" "set (log_of s @ l') \<subseteq> {..<length K}"
    using inv l' i by (auto simp: latch_inv_def)
  ultimately show ?thesis using inv w by (simp add: latch_inv_def)
qed

lemma step_inv:
  assumes "latch_inv K v s" "step K s t"
  shows "latch_inv K v t"
  using assms(2)
proof (cases rule: step.cases)
  case (read i)
  have w: "word_at s = replay K (log_of s) v" and n: "i \<notin> set (log_of s)"
    using assms(1) read by (auto simp: latch_inv_def thread_ok_def)
  show ?thesis
  proof (cases "attempt_of (K ! i) (word_at s)")
    case (Return r)
    have "snd (atomic_op (K ! i) (replay K (log_of s) v)) = r" "fst (atomic_op (K ! i) (word_at s)) = word_at s"
      using Return w by (simp_all add: attempt_atomic)
    then have "thread_ok K v (log_of s @ [i]) i (Loaded (word_at s))" "word_at s = replay K (log_of s @ [i]) v"
      using Return w took_effect_last [of K i "log_of s" v r] by (simp_all add: thread_ok_def)
    from latch_inv_move [OF assms(1) read(2) _ this(2,1)] show ?thesis using n Return read(1) by simp
  next
    case (Swap n')
    have "thread_ok K v (log_of s @ []) i (Loaded (word_at s))" using Swap n by (simp add: thread_ok_def)
    from latch_inv_move [OF assms(1) read(2) _ _ this, of "word_at s"] show ?thesis using Swap read(1) by (simp add: w [symmetric])
  qed
next
  case (give_up i x r)
  have w: "word_at s = replay K (log_of s) v" using assms(1) by (simp add: latch_inv_def)
  have "thread_ok K v (log_of s @ []) i (Done r)"
    using assms(1) give_up by (auto simp: latch_inv_def thread_ok_def dest!: spec [of _ i])
  from latch_inv_move [OF assms(1) give_up(2) _ _ this, of "word_at s"] show ?thesis using give_up(1) by (simp add: w [symmetric])
next
  case (swap i x n)
  have w: "word_at s = replay K (log_of s) v" and nl: "i \<notin> set (log_of s)"
    using assms(1) swap by (auto simp: latch_inv_def thread_ok_def dest!: spec [of _ i])
  have a: "atomic_op (K ! i) (replay K (log_of s) v) = (n, n)" using swap w by (simp add: attempt_atomic)
  then have "thread_ok K v (log_of s @ [i]) i (Done n)" "n = replay K (log_of s @ [i]) v"
    using took_effect_last [of K i "log_of s" v n] by (simp_all add: thread_ok_def)
  from latch_inv_move [OF assms(1) swap(2) _ this(2,1)] show ?thesis using nl swap(1) by simp
next
  case (again i x n)
  have w: "word_at s = replay K (log_of s) v" using assms(1) by (simp add: latch_inv_def)
  have "thread_ok K v (log_of s @ []) i Loop"
    using assms(1) again by (auto simp: latch_inv_def thread_ok_def dest!: spec [of _ i])
  from latch_inv_move [OF assms(1) again(2) _ _ this, of "word_at s"] show ?thesis using again(1) by (simp add: w [symmetric])
qed

lemma run_inv: "run K v s \<Longrightarrow> latch_inv K v s"
proof (induction rule: run.induct)
  case run_start
  show ?case by (simp add: latch_inv_def start_state_def thread_ok_def)
qed (rule step_inv)

section \<open>Termination\<close>

text \<open>A thread that has read a stale value needs three more steps, one that has to read two, one whose value
  is current one. A compare-and-swap may make the values of others stale, but finishes its thread.\<close>

fun rank :: "si_int \<Rightarrow> thread \<Rightarrow> nat" where
  "rank w Loop = 2"
| "rank w (Loaded v) = (if v = w then 1 else 3)"
| "rank w (Done r) = 0"

definition pending :: "shared \<Rightarrow> nat" where
  "pending s = length (filter (\<lambda>t. case t of Done r \<Rightarrow> False | _ \<Rightarrow> True) (threads s))"

definition ranks :: "shared \<Rightarrow> nat" where "ranks s = sum_list (map (rank (word_at s)) (threads s))"

lemma sum_list_map_update:
  "i < length xs \<Longrightarrow> sum_list (map f (xs[i := x])) + f (xs ! i) = sum_list (map f xs) + (f x :: nat)"
  by (induction xs arbitrary: i) (auto split: nat.split simp: nth_Cons')

lemma pending_sum: "pending s = sum_list (map (\<lambda>t. case t of Done r \<Rightarrow> 0 | _ \<Rightarrow> 1) (threads s))"
proof -
  have "length (filter (\<lambda>t. case t of Done r \<Rightarrow> False | _ \<Rightarrow> True) ts) = sum_list (map (\<lambda>t. case t of Done r \<Rightarrow> 0 | _ \<Rightarrow> 1) ts)" for ts
    by (induction ts) (auto split: thread.splits)
  then show ?thesis by (simp add: pending_def)
qed

lemma step_decreases:
  assumes "step K s t"
  shows "(t, s) \<in> inv_image (less_than <*lex*> less_than) (\<lambda>s. (pending s, ranks s))"
  using assms
proof (cases rule: step.cases)
  case (read i)
  then show ?thesis
    using sum_list_map_update [of i "threads s" "rank (word_at s)" "Loaded (word_at s)"]
      sum_list_map_update [of i "threads s" "\<lambda>t. case t of Done r \<Rightarrow> 0 | _ \<Rightarrow> 1" "Loaded (word_at s)"]
    by (simp add: pending_sum ranks_def)
next
  case (give_up i v r)
  then show ?thesis
    using sum_list_map_update [of i "threads s" "\<lambda>t. case t of Done r \<Rightarrow> 0 | _ \<Rightarrow> 1" "Done r"]
    by (simp add: pending_sum)
next
  case (swap i v n)
  then show ?thesis
    using sum_list_map_update [of i "threads s" "\<lambda>t. case t of Done r \<Rightarrow> 0 | _ \<Rightarrow> 1" "Done n"]
    by (simp add: pending_sum)
next
  case (again i v n)
  then show ?thesis
    using sum_list_map_update [of i "threads s" "rank (word_at s)" Loop]
      sum_list_map_update [of i "threads s" "\<lambda>t. case t of Done r \<Rightarrow> 0 | _ \<Rightarrow> 1" Loop]
    by (simp add: pending_sum ranks_def)
qed

lemma steps_end: "wf {(t, s). step K s t}"
  by (rule wf_subset [OF wf_inv_image [OF wf_lex_prod [OF wf_less_than wf_less_than]]]) (use step_decreases in blast)

text \<open>A state from which no step leads is one where every thread has its result.\<close>

lemma stuck_done:
  assumes "\<And>t. \<not> step K s t" "i < length (threads s)"
  shows "\<exists>r. threads s ! i = Done r"
proof (cases "threads s ! i")
  case Loop
  then show ?thesis using assms(1) step.read [OF assms(2) Loop] by blast
next
  case (Loaded v)
  show ?thesis
  proof (cases "attempt_of (K ! i) v")
    case (Return r)
    then show ?thesis using assms(1) step.give_up [OF assms(2) Loaded Return] by blast
  next
    case (Swap n)
    then show ?thesis
      using assms(1) step.swap [OF assms(2) Loaded Swap] step.again [OF assms(2) Loaded Swap] by blast
  qed
qed simp

section \<open>The properties\<close>

definition demo_end :: shared where "demo_end = \<lparr> word_at = 6, threads = [Done 6], log_of = [0] \<rparr>"

lemma demo_run: "run [Incr] 5 demo_end"
proof -
  have a: "attempt_of Incr 5 = Swap 6" by (simp add: BLOCK_REFCOUNT_MASK_def)
  have "step [Incr] (start_state [Incr] 5) \<lparr> word_at = 5, threads = [Loaded 5], log_of = [] \<rparr>"
    using step.read [of 0 "start_state [Incr] 5" "[Incr]"] a by (simp add: start_state_def)
  moreover have "step [Incr] \<lparr> word_at = 5, threads = [Loaded 5], log_of = [] \<rparr> demo_end"
    using step.swap [of 0 "\<lparr> word_at = 5, threads = [Loaded 5], log_of = [] \<rparr>" 5 "[Incr]" 6] a by (simp add: demo_end_def)
  ultimately show ?thesis using run.intros by blast
qed

text \<open>C20: Whatever the interleaving, the threads that have returned took effect one after the other: the log
  names each at most once, the word is the result of running the logged operations in order, and each
  result is the one of the operation at its place in the log.\<close>

theorem latching_linearizable:
  assumes "run K v s"
  shows "distinct (log_of s) \<and> word_at s = replay K (log_of s) v \<and>
    (\<forall>i r. i < length K \<and> threads s ! i = Done r \<longrightarrow> took_effect K v (log_of s) i r)"
  using run_inv [OF assms] by (auto simp: latch_inv_def thread_ok_def dest!: spec)

theorem latching_linearizable_witness: "took_effect [Incr] 5 (log_of demo_end) 0 6"
  using latching_linearizable [OF demo_run] by (simp add: demo_end_def)

text \<open>C21: The loops end in every interleaving: no execution is infinite, and one that cannot go on has every
  operation in its log and every thread returned.\<close>

theorem latching_terminates:
  assumes "run K v s"
  shows "wf {(t, s). step K s t} \<and>
    ((\<forall>t. \<not> step K s t) \<longrightarrow> (\<forall>i < length K. \<exists>r. threads s ! i = Done r) \<and> set (log_of s) = {..<length K})"
proof (cases "\<exists>t. step K s t")
  case False
  have inv: "latch_inv K v s" by (rule run_inv [OF assms])
  have d: "\<exists>r. threads s ! i = Done r" if "i < length K" for i
    using stuck_done [of K s i] False inv that by (auto simp: latch_inv_def)
  have "i \<in> set (log_of s)" if i: "i < length K" for i
  proof -
    obtain r where "threads s ! i = Done r" using d [OF i] by blast
    then have "took_effect K v (log_of s) i r" using inv i by (auto simp: latch_inv_def thread_ok_def dest!: spec)
    then show ?thesis by (auto simp: took_effect_def)
  qed
  then show ?thesis using steps_end d inv by (auto simp: latch_inv_def)
qed (use steps_end in blast)

theorem latching_terminates_witness: "wf {(t, s). step [Incr] s t} \<and> set (log_of demo_end) = {..<1}"
proof -
  have "\<not> step [Incr] demo_end t" for t by (auto simp: demo_end_def elim: step.cases)
  then show ?thesis using latching_terminates [OF demo_run] by simp
qed

end
