(* ===== verification/Bytes.thy ===== *)
theory Bytes
  imports Crt_Prelude
begin

unbundle bit_operations_syntax

text \<open>
  Machine integers as byte lists in either byte order, for the components that look at memory or at a
  file byte by byte.
\<close>

type_synonym byte = "8 word"

text \<open>An integer in memory, in either byte order.\<close>

definition bytes_of :: "bool \<Rightarrow> 'a::len word \<Rightarrow> byte list" where
  "bytes_of be w = (let bs = map (\<lambda>i. ucast (drop_bit (8 * i) w)) [0..<LENGTH('a) div 8] in if be then rev bs else bs)"

definition word_of :: "bool \<Rightarrow> byte list \<Rightarrow> 'a::len word" where
  "word_of be bs = foldr (\<lambda>b w. push_bit 8 w OR ucast b) (if be then rev bs else bs) 0"

lemma word_bits_eq: "x = y \<longleftrightarrow> (\<forall>i. bit x i = bit (y :: 'a::len word) i)"
  by (auto intro: bit_word_eqI)

lemma length_bytes_of [simp]: "length (bytes_of be (w :: 'a::len word)) = LENGTH('a) div 8"
  by (simp add: bytes_of_def Let_def)

lemma foldr_bytes:
  "bit (foldr (\<lambda>b w. push_bit 8 w OR ucast b) bs (0 :: 'a::len word)) i \<longleftrightarrow>
    i < LENGTH('a) \<and> i div 8 < length bs \<and> bit ((bs :: byte list) ! (i div 8)) (i mod 8)"
proof (induction bs arbitrary: i)
  case (Cons b bs)
  show ?case
  proof (cases "i < 8")
    case True
    then show ?thesis by (simp add: bit_or_iff bit_push_bit_iff bit_ucast_iff)
  next
    case False
    have "i div 8 = Suc ((i - 8) div 8)" "i mod 8 = (i - 8) mod 8" using False by (simp_all add: div_if mod_if)
    moreover have "\<not> bit b i" using False by (auto dest: bit_imp_le_length)
    ultimately show ?thesis using False Cons.IH [of "i - 8"]
      by (auto simp: bit_or_iff bit_push_bit_iff bit_ucast_iff dest: bit_imp_le_length)
  qed
qed simp

lemma word_of_bytes_of:
  assumes "8 dvd LENGTH('a)"
  shows "word_of be (bytes_of be w) = (w :: 'a::len word)"
proof -
  have "word_of be (bytes_of be w) = foldr (\<lambda>b w. push_bit 8 w OR ucast b) (map (\<lambda>i. ucast (drop_bit (8 * i) w) :: byte) [0..<LENGTH('a) div 8]) (0 :: 'a word)"
    by (simp add: word_of_def bytes_of_def Let_def)
  also have "\<dots> = w"
  proof (rule bit_word_eqI)
    fix i assume i: "i < LENGTH('a)"
    then have "i div 8 < LENGTH('a) div 8" using assms by (auto simp: dvd_def)
    then show "bit (foldr (\<lambda>b w. push_bit 8 w OR ucast b) (map (\<lambda>i. ucast (drop_bit (8 * i) w) :: byte) [0..<LENGTH('a) div 8]) (0 :: 'a word)) i = bit w i"
      using i by (simp add: foldr_bytes bit_ucast_iff bit_drop_bit_eq)
  qed
  finally show ?thesis .
qed

end
