(* ===== verification/Atomic.thy ===== *)
theory Atomic
  imports Bytes "HOL-Library.Monad_Syntax"
begin

unbundle bit_operations_syntax

text \<open>
  The atomic operations of \<^verbatim>\<open>lib/atomic.c\<close> on a 32-bit target with spinlocks: a table of locks,
  the hash that finds the lock of an object, and the operations, which use the compiler's lock-free
  ones where the target has them and the object's lock otherwise. \<^theory_text>\<open>Atomic_Threads\<close> interleaves them.

  Which sizes are lock-free, \<^verbatim>\<open>__c11_atomic_is_lock_free\<close>, is a parameter \<open>lf\<close>, and so is the byte
  order \<open>be\<close>. An operation that finds its lock taken does not return unless another thread gives
  it back; here, with one thread, that is \<open>None\<close>.
\<close>

section \<open>Memory\<close>

type_synonym ptr = "32 word"

record atomic_state =
  mem :: "ptr \<Rightarrow> byte"
  lock_words :: "nat \<Rightarrow> su_int"

definition read_bytes :: "(ptr \<Rightarrow> byte) \<Rightarrow> ptr \<Rightarrow> nat \<Rightarrow> byte list" where
  "read_bytes m p n = map (\<lambda>i. m (p + of_nat i)) [0..<n]"

fun write_bytes :: "(ptr \<Rightarrow> byte) \<Rightarrow> ptr \<Rightarrow> byte list \<Rightarrow> (ptr \<Rightarrow> byte)" where
  "write_bytes m p [] = m"
| "write_bytes m p (b # bs) = write_bytes (m(p := b)) (p + 1) bs"

definition memcpy :: "ptr \<Rightarrow> ptr \<Rightarrow> nat \<Rightarrow> atomic_state \<Rightarrow> atomic_state" where
  "memcpy dst src n s = s\<lparr>mem := write_bytes (mem s) dst (read_bytes (mem s) src n)\<rparr>"

definition load :: "bool \<Rightarrow> ptr \<Rightarrow> atomic_state \<Rightarrow> 'a::len word" where
  "load be p s = word_of be (read_bytes (mem s) p (LENGTH('a) div 8))"

definition store :: "bool \<Rightarrow> ptr \<Rightarrow> 'a::len word \<Rightarrow> atomic_state \<Rightarrow> atomic_state" where
  "store be p v s = s\<lparr>mem := write_bytes (mem s) p (bytes_of be v)\<rparr>"

section \<open>The locks\<close>

definition SPINLOCK_COUNT :: nat where "SPINLOCK_COUNT = 1024"
definition SPINLOCK_MASK :: ptr where "SPINLOCK_MASK = of_nat SPINLOCK_COUNT - 1"

definition unlock :: "nat \<Rightarrow> atomic_state \<Rightarrow> atomic_state" where
  "unlock l s = s\<lparr>lock_words := (lock_words s)(l := 0)\<rparr>"

definition lock :: "nat \<Rightarrow> atomic_state \<Rightarrow> atomic_state option" where
  "lock l s = (if lock_words s l = 0 then Some (s\<lparr>lock_words := (lock_words s)(l := 1)\<rparr>) else None)"

definition lock_for_pointer :: "ptr \<Rightarrow> nat" where
  "lock_for_pointer p =
    (let hash = signed_drop_bit 4 p;
         low = hash AND SPINLOCK_MASK;
         hash = signed_drop_bit 16 hash;
         hash = hash XOR low
     in unat (hash AND SPINLOCK_MASK))"

section \<open>Operations on objects of any size\<close>

text \<open>\<^verbatim>\<open>LOCK_FREE_CASES\<close>: the width of the access, if one of the cases returns. A case that does
  not return falls through into the next, larger one.\<close>

definition IS_LOCK_FREE_16 :: bool where "IS_LOCK_FREE_16 = False"

definition LOCK_FREE_CASES :: "(nat \<Rightarrow> bool) \<Rightarrow> nat \<Rightarrow> nat option" where
  "LOCK_FREE_CASES lf sz =
    (if sz = 2 \<and> lf 2 then Some 2
     else if sz \<in> {2, 4} \<and> lf 4 then Some 4
     else if sz \<in> {2, 4, 8} \<and> lf 8 then Some 8
     else None)"

definition atomic_load_c :: "(nat \<Rightarrow> bool) \<Rightarrow> nat \<Rightarrow> ptr \<Rightarrow> ptr \<Rightarrow> atomic_state \<Rightarrow> atomic_state option" where
  "atomic_load_c lf sz src dest s =
    (case LOCK_FREE_CASES lf sz of
       Some n \<Rightarrow> Some (memcpy dest src n s)
     | None \<Rightarrow> do {
         let l = lock_for_pointer src;
         s \<leftarrow> lock l s;
         let s = memcpy dest src sz s;
         Some (unlock l s)
       })"




section \<open>Operations on integers\<close>

text \<open>The four instances of \<^verbatim>\<open>OPTIMISED_CASE\<close>, for 1, 2, 4 and 8 bytes, are one definition.\<close>

definition atomic_load_n :: "(nat \<Rightarrow> bool) \<Rightarrow> bool \<Rightarrow> ptr \<Rightarrow> atomic_state \<Rightarrow> ('a::len word \<times> atomic_state) option" where
  "atomic_load_n lf be src s =
    (if lf (LENGTH('a) div 8) then Some (load be src s, s)
     else do {
       let l = lock_for_pointer src;
       s \<leftarrow> lock l s;
       let val = load be src s;
       Some (val, unlock l s)
     })"

definition atomic_store_n :: "(nat \<Rightarrow> bool) \<Rightarrow> bool \<Rightarrow> ptr \<Rightarrow> 'a::len word \<Rightarrow> atomic_state \<Rightarrow> atomic_state option" where
  "atomic_store_n lf be dest val s =
    (if lf (LENGTH('a) div 8) then Some (store be dest val s)
     else do {
       let l = lock_for_pointer dest;
       s \<leftarrow> lock l s;
       let s = store be dest val s;
       Some (unlock l s)
     })"

definition atomic_exchange_n ::
    "(nat \<Rightarrow> bool) \<Rightarrow> bool \<Rightarrow> ptr \<Rightarrow> 'a::len word \<Rightarrow> atomic_state \<Rightarrow> ('a word \<times> atomic_state) option" where
  "atomic_exchange_n lf be dest val s =
    (if lf (LENGTH('a) div 8) then Some (load be dest s, store be dest val s)
     else do {
       let l = lock_for_pointer dest;
       s \<leftarrow> lock l s;
       let tmp = load be dest s;
       let s = store be dest val s;
       Some (tmp, unlock l s)
     })"

definition atomic_compare_exchange_n ::
    "(nat \<Rightarrow> bool) \<Rightarrow> bool \<Rightarrow> ptr \<Rightarrow> ptr \<Rightarrow> 'a::len word \<Rightarrow> atomic_state \<Rightarrow> (si_int \<times> atomic_state) option" where
  "atomic_compare_exchange_n lf be p expected desired s =
    (if lf (LENGTH('a) div 8) then
       (if (load be p s :: 'a word) = load be expected s then Some (1, store be p desired s)
        else Some (0, store be expected (load be p s :: 'a word) s))
     else do {
       let l = lock_for_pointer p;
       s \<leftarrow> lock l s;
       if (load be p s :: 'a word) = load be expected s then
         let s = store be p desired s in Some (1, unlock l s)
       else
         let s = store be expected (load be p s :: 'a word) s in Some (0, unlock l s)
     })"

datatype rmw = Rmw_add | Rmw_sub | Rmw_and | Rmw_or | Rmw_xor

fun rmw_op :: "rmw \<Rightarrow> 'a::len word \<Rightarrow> 'a word \<Rightarrow> 'a word" where
  "rmw_op Rmw_add x y = x + y"
| "rmw_op Rmw_sub x y = x - y"
| "rmw_op Rmw_and x y = x AND y"
| "rmw_op Rmw_or x y = x OR y"
| "rmw_op Rmw_xor x y = x XOR y"

definition atomic_fetch_n ::
    "rmw \<Rightarrow> (nat \<Rightarrow> bool) \<Rightarrow> bool \<Rightarrow> ptr \<Rightarrow> 'a::len word \<Rightarrow> atomic_state \<Rightarrow> ('a word \<times> atomic_state) option" where
  "atomic_fetch_n f lf be p val s =
    (if lf (LENGTH('a) div 8) then Some (load be p s, store be p (rmw_op f (load be p s) val) s)
     else do {
       let l = lock_for_pointer p;
       s \<leftarrow> lock l s;
       let tmp = load be p s;
       let s = store be p (rmw_op f tmp val) s;
       Some (tmp, unlock l s)
     })"

section \<open>The hash\<close>

lemma mask10: "SPINLOCK_MASK = mask 10"
  by (simp add: SPINLOCK_MASK_def SPINLOCK_COUNT_def mask_eq_exp_minus_1)

lemma hash_word:
  "lock_for_pointer p = unat ((signed_drop_bit 20 p XOR signed_drop_bit 4 p) AND mask 10)"
proof -
  have "(signed_drop_bit 16 (signed_drop_bit 4 p) XOR (signed_drop_bit 4 p AND mask 10)) AND mask 10
      = (signed_drop_bit 20 p XOR signed_drop_bit 4 p) AND mask 10"
    by (rule bit_word_eqI) (auto simp: bit_and_iff bit_xor_iff bit_mask_iff bit_signed_drop_bit_iff)
  then show ?thesis by (simp add: lock_for_pointer_def Let_def mask10)
qed

lemma hash_bit: "bit ((signed_drop_bit 20 p XOR signed_drop_bit 4 p) AND mask 10 :: ptr) i \<longleftrightarrow>
    i < 10 \<and> (bit p (20 + i) \<noteq> bit p (4 + i))"
  by (auto simp: bit_and_iff bit_xor_iff bit_mask_iff bit_signed_drop_bit_iff)

lemma drop_bit_eqD: "drop_bit k p = drop_bit k q \<Longrightarrow> bit p (k + i) = bit (q :: 'a::len word) (k + i)"
  by (metis bit_drop_bit_eq comp_apply)

text \<open>The table of locks is big enough for the hash; pointers into the same sixteen aligned bytes have one
  lock, and within the same sixteen kilobytes no others have it.\<close>

theorem lock_hash:
  assumes "drop_bit 14 p = drop_bit 14 q"
  shows "lock_for_pointer p < SPINLOCK_COUNT \<and> (lock_for_pointer p = lock_for_pointer q \<longleftrightarrow> drop_bit 4 p = drop_bit 4 q)"
proof -
  have high: "bit p (14 + i) = bit q (14 + i)" for i by (rule drop_bit_eqD [OF assms])
  have "unat ((signed_drop_bit 20 p XOR signed_drop_bit 4 p) AND mask 10) < 1024"
    by (simp only: unat_and_mask) simp
  then have bound: "lock_for_pointer p < SPINLOCK_COUNT" by (simp only: hash_word SPINLOCK_COUNT_def)
  have "lock_for_pointer p = lock_for_pointer q \<longleftrightarrow>
      (\<forall>i < 10. (bit p (20 + i) \<noteq> bit p (4 + i)) = (bit q (20 + i) \<noteq> bit q (4 + i)))"
    unfolding hash_word word_unat_eq_iff [symmetric] word_bits_eq hash_bit by auto
  also have "\<dots> \<longleftrightarrow> (\<forall>i < 10. bit p (4 + i) = bit q (4 + i))"
    using high [of "6 + i" for i] by auto
  also have "\<dots> \<longleftrightarrow> drop_bit 4 p = drop_bit 4 q"
  proof
    assume low: "\<forall>i < 10. bit p (4 + i) = bit q (4 + i)"
    show "drop_bit 4 p = drop_bit 4 q"
    proof (rule bit_word_eqI)
      fix i
      show "bit (drop_bit 4 p) i = bit (drop_bit 4 q) i"
        using low high [of "i - 10"] by (cases "i < 10") (simp_all add: bit_drop_bit_eq)
    qed
  qed (use drop_bit_eqD [of 4 p q] in blast)
  finally show ?thesis using bound by blast
qed

theorem lock_hash_witness: "lock_for_pointer 0x1008 = lock_for_pointer 0x1000 \<and> lock_for_pointer 0x1010 \<noteq> lock_for_pointer 0x1000"
  using lock_hash [of "0x1008" "0x1000"] lock_hash [of "0x1010" "0x1000"] by simp

section \<open>Integers in memory\<close>

lemma read_write_other:
  assumes "\<And>i. i < length bs \<Longrightarrow> p + of_nat i \<noteq> q"
  shows "write_bytes m p bs q = m q"
  using assms
proof (induction bs arbitrary: m p)
  case (Cons b bs)
  have "write_bytes (m(p := b)) (p + 1) bs q = (m(p := b)) q"
  proof (rule Cons.IH)
    fix i assume "i < length bs"
    then show "p + 1 + of_nat i \<noteq> q" using Cons.prems [of "Suc i"] by (simp add: add.assoc)
  qed
  moreover have "q \<noteq> p" using Cons.prems [of 0] by simp
  ultimately show ?case by simp
qed simp

lemma of_nat_ptr_eq: "i < 2 ^ 32 \<Longrightarrow> j < 2 ^ 32 \<Longrightarrow> of_nat i = (of_nat j :: ptr) \<longleftrightarrow> i = j"
  by (simp add: word_of_nat_eq_iff take_bit_nat_eq_self)

lemma read_bytes_Suc: "read_bytes m p (Suc n) = m p # read_bytes m (p + 1) n"
proof -
  have "[0..<Suc n] = 0 # map Suc [0..<n]" by (simp add: map_Suc_upt upt_conv_Cons del: upt_Suc)
  then show ?thesis by (simp add: read_bytes_def comp_def add.assoc del: upt_Suc)
qed

lemma read_write_same:
  "length bs < 2 ^ 32 \<Longrightarrow> read_bytes (write_bytes m p bs) p (length bs) = bs"
proof (induction bs arbitrary: m p)
  case (Cons b bs)
  have "write_bytes (m(p := b)) (p + 1) bs p = (m(p := b)) p"
  proof (rule read_write_other)
    fix i assume "i < length bs"
    then have "of_nat (Suc i) \<noteq> (of_nat 0 :: ptr)" using Cons.prems by (subst of_nat_ptr_eq) simp_all
    then show "p + 1 + of_nat i \<noteq> p" by (simp add: add.assoc)
  qed
  moreover have "read_bytes (write_bytes (m(p := b)) (p + 1) bs) (p + 1) (length bs) = bs"
    using Cons.IH [of "m(p := b)" "p + 1"] Cons.prems by (simp del: fun_upd_apply)
  ultimately show ?case by (simp add: read_bytes_Suc)
qed (simp add: read_bytes_def)

lemma load_store:
  assumes "8 dvd LENGTH('a)" "LENGTH('a) \<le> 64"
  shows "load be p (store be p v s) = (v :: 'a::len word)"
proof -
  have "LENGTH('a) div 8 < 2 ^ 32" using assms(2) by simp
  then have "read_bytes (write_bytes (mem s) p (bytes_of be v)) p (LENGTH('a) div 8) = bytes_of be v"
    using read_write_same [of "bytes_of be v" "mem s" p] by simp
  then show ?thesis using assms(1) by (simp add: load_def store_def word_of_bytes_of)
qed

lemma lock_unlock:
  "lock_words s l = 0 \<Longrightarrow> \<exists>t. lock l s = Some t \<and> mem t = mem s \<and> unlock l t = s \<and>
    (\<forall>m. unlock l (t\<lparr>mem := m\<rparr>) = s\<lparr>mem := m\<rparr>)"
  by (auto simp: lock_def unlock_def fun_upd_idem)

section \<open>The properties\<close>

text \<open>C25: With its lock free, an operation on an integer of at most 64 bits does the same on every target,
  lock-free or not, and leaves no lock taken; what it stores is what the next load returns.\<close>

theorem integer_operations:
  fixes v :: "'a::len word"
  assumes "8 dvd LENGTH('a)" "LENGTH('a) \<le> 64" "lock_words s (lock_for_pointer p) = 0"
  shows "atomic_load_n lf be p s = Some (load be p s :: 'a word, s) \<and>
    atomic_store_n lf be p v s = Some (store be p v s) \<and>
    atomic_exchange_n lf be p v s = Some (load be p s, store be p v s) \<and>
    atomic_compare_exchange_n lf be p e v s =
      Some (if (load be p s :: 'a word) = load be e s then (1, store be p v s) else (0, store be e (load be p s :: 'a word) s)) \<and>
    atomic_fetch_n f lf be p v s = Some (load be p s, store be p (rmw_op f (load be p s) v) s) \<and>
    load be p (store be p v s) = v"
proof -
  obtain t where t: "lock (lock_for_pointer p) s = Some t" "mem t = mem s" "unlock (lock_for_pointer p) t = s"
    "\<And>m. unlock (lock_for_pointer p) (t\<lparr>mem := m\<rparr>) = s\<lparr>mem := m\<rparr>"
    using lock_unlock [OF assms(3)] by blast
  have l: "load be q t = load be q s" for q by (simp add: load_def t(2))
  have u: "unlock (lock_for_pointer p) (store be q w t) = store be q w s" for q and w :: "'a word"
    by (simp add: store_def t(2,4))
  show ?thesis
    by (simp add: atomic_load_n_def atomic_store_n_def atomic_exchange_n_def atomic_compare_exchange_n_def
      atomic_fetch_n_def t(1,3) l u load_store [OF assms(1,2)] Let_def)
qed

theorem integer_operations_witness:
  "atomic_fetch_n Rmw_add (\<lambda>n. False) True 0x100 (7 :: 32 word) \<lparr>mem = (\<lambda>_. 1), lock_words = (\<lambda>_. 0)\<rparr> =
    Some (load True 0x100 \<lparr>mem = (\<lambda>_. 1), lock_words = (\<lambda>_. 0)\<rparr>,
      store True 0x100 (load True 0x100 \<lparr>mem = (\<lambda>_. 1), lock_words = (\<lambda>_. 0)\<rparr> + 7 :: 32 word) \<lparr>mem = (\<lambda>_. 1), lock_words = (\<lambda>_. 0)\<rparr>)"
  using integer_operations [where ?'a = 32 and f = Rmw_add and p = "0x100" and v = 7 and be = True and lf = "\<lambda>n. False"
      and s = "\<lparr>mem = (\<lambda>_. 1), lock_words = (\<lambda>_. 0)\<rparr>"] by simp




text \<open>On a target with four-byte but no two-byte operations, a load of two bytes writes four.\<close>

lemma narrow_load_overruns:
  "\<not> lf 2 \<Longrightarrow> lf 4 \<Longrightarrow> atomic_load_c lf 2 src dest s = Some (memcpy dest src 4 s)"
  by (simp add: atomic_load_c_def LOCK_FREE_CASES_def)

end
