(* ===== verification/Atomic_Threads.thy ===== *)
theory Atomic_Threads
  imports Atomic
begin

unbundle bit_operations_syntax

text \<open>
  The locked operations of \<^verbatim>\<open>lib/atomic.c\<close> in several threads that interleave at every byte of a
  \<^verbatim>\<open>memcpy\<close> or \<^verbatim>\<open>memcmp\<close> and at every turn of the spinlock's loop. The shared memory is a map
  from pointers to the bytes of the objects there; objects do not overlap. The other arguments
  (\<^verbatim>\<open>expected\<close>, \<^verbatim>\<open>desired\<close>, \<^verbatim>\<open>dest\<close>, \<^verbatim>\<open>old\<close>) belong to the thread.

  No two threads are inside a lock at once, and the operations are atomic: every execution has the
  results of the sequential one in the order in which the locks were taken.
\<close>

section \<open>The operations, one at a time\<close>

datatype op =
  Load | Store "byte list" | Exchange "byte list" | Compare_exchange "byte list" "byte list"
  | Fetch "byte list \<Rightarrow> byte list"

type_synonym op_result = "bool \<times> byte list"

text \<open>The new contents of the object, and the result: whether an exchange took place, and the bytes
  that are copied out.\<close>

fun apply_op :: "op \<Rightarrow> byte list \<Rightarrow> byte list \<times> op_result" where
  "apply_op Load v = (v, (True, v))"
| "apply_op (Store w) v = (w, (True, []))"
| "apply_op (Exchange w) v = (w, (True, v))"
| "apply_op (Compare_exchange e d) v = (if v = e then (d, (True, [])) else (v, (False, v)))"
| "apply_op (Fetch f) v = (f v, (True, v))"

fun op_fits :: "op \<Rightarrow> nat \<Rightarrow> bool" where
  "op_fits Load n = True"
| "op_fits (Store w) n = (length w = n)"
| "op_fits (Exchange w) n = (length w = n)"
| "op_fits (Compare_exchange e d) n = (length d = n)"
| "op_fits (Fetch f) n = (\<forall>v. length v = n \<longrightarrow> length (f v) = n)"

lemma apply_op_length: "op_fits k (length v) \<Longrightarrow> length (fst (apply_op k v)) = length v"
  by (cases k) auto

section \<open>Byte by byte\<close>

datatype phase =
  Waiting | Reading "byte list" | Rereading "byte list" | Writing "byte list" op_result nat | Leaving op_result
  | Returned op_result

fun first_phase :: "op \<Rightarrow> phase" where
  "first_phase (Store w) = Writing w (True, []) 0"
| "first_phase k = Reading []"

fun after_read :: "op \<Rightarrow> byte list \<Rightarrow> phase" where
  "after_read Load v = Leaving (True, v)"
| "after_read (Store w) v = Leaving (True, [])"
| "after_read (Exchange w) v = Writing w (True, v) 0"
| "after_read (Compare_exchange e d) v = (if v = e then Writing d (True, []) 0 else Rereading [])"
| "after_read (Fetch f) v = Writing (f v) (True, v) 0"

fun inside :: "phase \<Rightarrow> bool" where
  "inside Waiting = False" | "inside (Returned r) = False" | "inside _ = True"

record tstate =
  objs :: "ptr \<Rightarrow> byte list"
  table :: "nat \<Rightarrow> su_int"
  phases :: "phase list"
  order :: "nat list"

text \<open>Thread \<open>i\<close> runs one operation, \<open>K ! i\<close>, on one object. The weak compare-and-swap of the lock may
  fail even when the lock is free. The order in which the locks are taken is no part of the program.\<close>

inductive step :: "(ptr \<times> op) list \<Rightarrow> tstate \<Rightarrow> tstate \<Rightarrow> bool" for K where
  spin: "step K s s"
| acquire: "i < length (phases s) \<Longrightarrow> phases s ! i = Waiting \<Longrightarrow> K ! i = (p, k) \<Longrightarrow> table s (lock_for_pointer p) = 0 \<Longrightarrow>
    step K s (s\<lparr>table := (table s)(lock_for_pointer p := 1), phases := (phases s)[i := first_phase k], order := order s @ [i]\<rparr>)"
| load_byte: "i < length (phases s) \<Longrightarrow> phases s ! i = Reading buf \<Longrightarrow> K ! i = (p, k) \<Longrightarrow> length buf < length (objs s p) \<Longrightarrow>
    step K s (s\<lparr>phases := (phases s)[i := Reading (buf @ [objs s p ! length buf])]\<rparr>)"
| load_end: "i < length (phases s) \<Longrightarrow> phases s ! i = Reading buf \<Longrightarrow> K ! i = (p, k) \<Longrightarrow> length buf = length (objs s p) \<Longrightarrow>
    step K s (s\<lparr>phases := (phases s)[i := after_read k buf]\<rparr>)"
| reload_byte: "i < length (phases s) \<Longrightarrow> phases s ! i = Rereading buf \<Longrightarrow> K ! i = (p, k) \<Longrightarrow> length buf < length (objs s p) \<Longrightarrow>
    step K s (s\<lparr>phases := (phases s)[i := Rereading (buf @ [objs s p ! length buf])]\<rparr>)"
| reload_end: "i < length (phases s) \<Longrightarrow> phases s ! i = Rereading buf \<Longrightarrow> K ! i = (p, k) \<Longrightarrow> length buf = length (objs s p) \<Longrightarrow>
    step K s (s\<lparr>phases := (phases s)[i := Leaving (False, buf)]\<rparr>)"
| store_byte: "i < length (phases s) \<Longrightarrow> phases s ! i = Writing d r n \<Longrightarrow> K ! i = (p, k) \<Longrightarrow> n < length d \<Longrightarrow>
    step K s (s\<lparr>objs := (objs s)(p := (objs s p)[n := d ! n]), phases := (phases s)[i := Writing d r (n + 1)]\<rparr>)"
| store_end: "i < length (phases s) \<Longrightarrow> phases s ! i = Writing d r n \<Longrightarrow> n = length d \<Longrightarrow>
    step K s (s\<lparr>phases := (phases s)[i := Leaving r]\<rparr>)"
| release: "i < length (phases s) \<Longrightarrow> phases s ! i = Leaving r \<Longrightarrow> K ! i = (p, k) \<Longrightarrow>
    step K s (s\<lparr>table := (table s)(lock_for_pointer p := 0), phases := (phases s)[i := Returned r]\<rparr>)"

definition start_state :: "(ptr \<times> op) list \<Rightarrow> (ptr \<Rightarrow> byte list) \<Rightarrow> tstate" where
  "start_state K m = \<lparr> objs = m, table = (\<lambda>_. 0), phases = replicate (length K) Waiting, order = [] \<rparr>"

inductive run :: "(ptr \<times> op) list \<Rightarrow> (ptr \<Rightarrow> byte list) \<Rightarrow> tstate \<Rightarrow> bool" for K m where
  run_start: "run K m (start_state K m)"
| run_step: "run K m s \<Longrightarrow> step K s t \<Longrightarrow> run K m t"

section \<open>The sequential execution\<close>

fun replay :: "(ptr \<times> op) list \<Rightarrow> nat list \<Rightarrow> (ptr \<Rightarrow> byte list) \<Rightarrow> (ptr \<Rightarrow> byte list)" where
  "replay K [] m = m"
| "replay K (i # is) m = (case K ! i of (p, k) \<Rightarrow> replay K is (m(p := fst (apply_op k (m p)))))"

lemma replay_ops_append [simp]: "replay K (is @ js) m = replay K js (replay K is m)"
  by (induction "is" arbitrary: m) (simp_all split: prod.split)

lemma replay_other: "\<forall>j \<in> set is. fst (K ! j) \<noteq> p \<Longrightarrow> replay K is m p = m p"
  by (induction "is" arbitrary: m) (auto split: prod.split)

lemma replay_length:
  "\<forall>j \<in> set is. op_fits (snd (K ! j)) (length (m (fst (K ! j)))) \<Longrightarrow> length (replay K is m p) = length (m p)"
proof (induction "is" arbitrary: m)
  case (Cons i "is")
  obtain q k where qk: "K ! i = (q, k)" by (rule prod.exhaust)
  define m' where "m' = m(q := fst (apply_op k (m q)))"
  have l: "length (m' x) = length (m x)" for x using Cons.prems qk apply_op_length [of k "m q"] by (simp add: m'_def)
  have "length (replay K is m' p) = length (m' p)" by (rule Cons.IH) (use Cons.prems l in simp)
  then show ?case using l qk by (simp add: m'_def)
qed simp

section \<open>The invariant\<close>

text \<open>What a thread inside has to do with the contents \<open>v\<close> of its object when it took the lock.\<close>

fun phase_ok :: "op \<Rightarrow> byte list \<Rightarrow> byte list \<Rightarrow> phase \<Rightarrow> bool" where
  "phase_ok k v now (Reading buf) = (now = v \<and> length buf \<le> length v \<and> buf = take (length buf) v \<and> (\<forall>w. k \<noteq> Store w))"
| "phase_ok k v now (Rereading buf) =
    (now = v \<and> length buf \<le> length v \<and> buf = take (length buf) v \<and> apply_op k v = (v, (False, v)))"
| "phase_ok k v now (Writing d r n) =
    ((d, r) = apply_op k v \<and> length d = length v \<and> n \<le> length d \<and> now = take n d @ drop n v)"
| "phase_ok k v now (Leaving r) = ((now, r) = apply_op k v)"
| "phase_ok k v now _ = False"

text \<open>The thread's place in the order; later ones with the same object come after it has left.\<close>

definition in_order :: "(ptr \<times> op) list \<Rightarrow> (ptr \<Rightarrow> byte list) \<Rightarrow> tstate \<Rightarrow> nat \<Rightarrow> bool" where
  "in_order K m s i \<longleftrightarrow> (\<exists>before after. order s = before @ i # after \<and>
    (case K ! i of (p, k) \<Rightarrow>
      let v = replay K before m p in
      (case phases s ! i of
         Returned r \<Rightarrow> snd (apply_op k v) = r
       | ph \<Rightarrow> phase_ok k v (objs s p) ph \<and> (\<forall>j \<in> set after. fst (K ! j) \<noteq> p))))"

definition lock_of :: "(ptr \<times> op) list \<Rightarrow> nat \<Rightarrow> nat" where "lock_of K i = lock_for_pointer (fst (K ! i))"

definition exclusive :: "(ptr \<times> op) list \<Rightarrow> tstate \<Rightarrow> bool" where
  "exclusive K s \<longleftrightarrow> (\<forall>i j. i < length K \<and> j < length K \<and> inside (phases s ! i) \<and> inside (phases s ! j) \<and>
    lock_of K i = lock_of K j \<longrightarrow> i = j)"

definition locks_inv :: "(ptr \<times> op) list \<Rightarrow> (ptr \<Rightarrow> byte list) \<Rightarrow> tstate \<Rightarrow> bool" where
  "locks_inv K m s \<longleftrightarrow> length (phases s) = length K \<and> distinct (order s) \<and> set (order s) \<subseteq> {..<length K} \<and>
    exclusive K s \<and>
    (\<forall>i < length K. inside (phases s ! i) \<longrightarrow> table s (lock_of K i) = 1) \<and>
    (\<forall>i < length K. if phases s ! i = Waiting then i \<notin> set (order s) else in_order K m s i) \<and>
    (\<forall>p. (\<forall>i < length K. inside (phases s ! i) \<longrightarrow> fst (K ! i) \<noteq> p) \<longrightarrow> objs s p = replay K (order s) m p)"

subsection \<open>One thread\<close>

lemma first_phase_inside [simp]: "inside (first_phase k)" "first_phase k \<noteq> Waiting"
  by (cases k; simp)+

lemma after_read_inside [simp]: "inside (after_read k buf)"
  by (cases k) simp_all

lemma take_next: "length buf < length now \<Longrightarrow> buf = take (length buf) now \<Longrightarrow> buf @ [now ! length buf] = take (Suc (length buf)) now"
  by (metis take_Suc_conv_app_nth)

lemma phase_first: "op_fits k (length v) \<Longrightarrow> phase_ok k v v (first_phase k)"
  by (cases k) simp_all

lemma phase_load:
  "phase_ok k v now (Reading buf) \<Longrightarrow> length buf < length now \<Longrightarrow> phase_ok k v now (Reading (buf @ [now ! length buf]))"
  using take_next [of buf now] by simp

lemma phase_load_end:
  "phase_ok k v now (Reading buf) \<Longrightarrow> length buf = length now \<Longrightarrow> op_fits k (length v) \<Longrightarrow> phase_ok k v now (after_read k buf)"
  by (cases k) simp_all

lemma phase_reload:
  "phase_ok k v now (Rereading buf) \<Longrightarrow> length buf < length now \<Longrightarrow> phase_ok k v now (Rereading (buf @ [now ! length buf]))"
  using take_next [of buf now] by simp

lemma phase_reload_end:
  "phase_ok k v now (Rereading buf) \<Longrightarrow> length buf = length now \<Longrightarrow> phase_ok k v now (Leaving (False, buf))"
  by simp

lemma phase_store:
  assumes "phase_ok k v now (Writing d r n)" "n < length d"
  shows "phase_ok k v (now[n := d ! n]) (Writing d r (n + 1))"
proof -
  have "(take n d @ drop n v)[n := d ! n] = take (Suc n) d @ drop (Suc n) v"
    using assms by (intro nth_equalityI) (auto simp: nth_append nth_list_update min_def)
  then show ?thesis using assms by simp
qed

lemma phase_store_end: "phase_ok k v now (Writing d r n) \<Longrightarrow> n = length d \<Longrightarrow> phase_ok k v now (Leaving r)"
  by simp

subsection \<open>All threads\<close>

lemma in_order_inside:
  assumes "in_order K m s i" "K ! i = (p, k)" "inside (phases s ! i)"
  shows "\<exists>before after. order s = before @ i # after \<and> phase_ok k (replay K before m p) (objs s p) (phases s ! i) \<and>
    (\<forall>j \<in> set after. fst (K ! j) \<noteq> p)"
proof -
  obtain before after where "order s = before @ i # after"
    "case phases s ! i of Returned r \<Rightarrow> snd (apply_op k (replay K before m p)) = r
      | ph \<Rightarrow> phase_ok k (replay K before m p) (objs s p) ph \<and> (\<forall>j \<in> set after. fst (K ! j) \<noteq> p)"
    using assms(1,2) by (auto simp: in_order_def Let_def)
  then show ?thesis using assms(3)
    by (intro exI [of _ before] exI [of _ after]) (cases "phases s ! i"; simp)
qed

lemma in_order_insideI:
  "order s = before @ i # after \<Longrightarrow> K ! i = (p, k) \<Longrightarrow> phase_ok k (replay K before m p) (objs s p) (phases s ! i) \<Longrightarrow>
    (\<forall>j \<in> set after. fst (K ! j) \<noteq> p) \<Longrightarrow> in_order K m s i"
  unfolding in_order_def by (rule exI [of _ before], rule exI [of _ after]) (auto simp: Let_def split: phase.splits)

lemma in_order_append:
  assumes "in_order K m s j" "phases t ! j = phases s ! j" "order t = order s @ l"
    and "inside (phases s ! j) \<Longrightarrow> objs t (fst (K ! j)) = objs s (fst (K ! j)) \<and> (\<forall>i \<in> set l. fst (K ! i) \<noteq> fst (K ! j))"
  shows "in_order K m t j"
proof -
  obtain p k where pk: "K ! j = (p, k)" by (rule prod.exhaust)
  obtain before after where ba: "order s = before @ j # after"
    "case phases s ! j of Returned r \<Rightarrow> snd (apply_op k (replay K before m p)) = r
      | ph \<Rightarrow> phase_ok k (replay K before m p) (objs s p) ph \<and> (\<forall>j \<in> set after. fst (K ! j) \<noteq> p)"
    using assms(1) pk by (auto simp: in_order_def Let_def)
  have "order t = before @ j # (after @ l)" using ba(1) assms(3) by simp
  moreover have "case phases t ! j of Returned r \<Rightarrow> snd (apply_op k (replay K before m p)) = r
      | ph \<Rightarrow> phase_ok k (replay K before m p) (objs t p) ph \<and> (\<forall>j \<in> set (after @ l). fst (K ! j) \<noteq> p)"
    using ba(2) assms(2,4) pk by (cases "phases s ! j") auto
  ultimately show ?thesis using pk unfolding in_order_def Let_def by force
qed

definition sized :: "(ptr \<times> op) list \<Rightarrow> (ptr \<Rightarrow> byte list) \<Rightarrow> bool" where
  "sized K m \<longleftrightarrow> (\<forall>(p, k) \<in> set K. op_fits k (length (m p)))"

lemma sized_replay:
  assumes "sized K m" "set l \<subseteq> {..<length K}" "i < length K" "K ! i = (p, k)"
  shows "op_fits k (length (replay K l m p))"
proof -
  have "op_fits (snd (K ! j)) (length (m (fst (K ! j))))" if "j < length K" for j
    using assms(1) nth_mem [OF that] by (auto simp: sized_def)
  then have "length (replay K l m p) = length (m p)" "op_fits (snd (K ! i)) (length (m (fst (K ! i))))"
    using assms(2,3) by (auto intro!: replay_length)
  then show ?thesis using assms(4) by simp
qed

lemma locks_invI:
  assumes "length (phases t) = length K \<and> distinct (order t) \<and> set (order t) \<subseteq> {..<length K}" "exclusive K t"
    and "\<forall>j < length K. inside (phases t ! j) \<longrightarrow> table t (lock_of K j) = 1"
    and "\<And>j. j < length K \<Longrightarrow> if phases t ! j = Waiting then j \<notin> set (order t) else in_order K m t j"
    and "\<And>q. \<forall>j < length K. inside (phases t ! j) \<longrightarrow> fst (K ! j) \<noteq> q \<Longrightarrow> objs t q = replay K (order t) m q"
  shows "locks_inv K m t"
  unfolding locks_inv_def using assms by blast

text \<open>A thread inside moves on, and stays inside.\<close>

lemma move_inv:
  assumes inv: "locks_inv K m s" and i: "i < length (phases s)" "K ! i = (p, k)" "inside (phases s ! i)" "inside ph"
    and objs: "\<And>q. q \<noteq> p \<Longrightarrow> objs t q = objs s q"
    and t: "table t = table s" "order t = order s" "phases t = (phases s)[i := ph]"
    and ok: "\<And>v. op_fits k (length v) \<Longrightarrow> phase_ok k v (objs s p) (phases s ! i) \<Longrightarrow> phase_ok k v (objs t p) ph"
    and sz: "sized K m"
  shows "locks_inv K m t"
proof -
  have n: "length (phases s) = length K" and ex: "exclusive K s" using inv by (simp_all add: locks_inv_def)
  have in_t: "inside (phases t ! j) = inside (phases s ! j)" for j
    using i t(3) by (cases "j = i") simp_all
  have other: "fst (K ! j) \<noteq> p" if "j \<noteq> i" "j < length K" "inside (phases s ! j)" for j
    using ex i n that unfolding exclusive_def lock_of_def by (metis fst_conv)
  have io: "in_order K m s i" using inv i n by (auto simp: locks_inv_def dest!: spec [of _ i] split: if_splits)
  have "\<exists>before after. order s = before @ i # after \<and> phase_ok k (replay K before m p) (objs s p) (phases s ! i) \<and>
      (\<forall>j \<in> set after. fst (K ! j) \<noteq> p)"
    by (rule in_order_inside [OF io i(2,3)])
  then obtain before after where ba: "order s = before @ i # after"
    "phase_ok k (replay K before m p) (objs s p) (phases s ! i)" "\<forall>j \<in> set after. fst (K ! j) \<noteq> p" by blast
  have "set before \<subseteq> {..<length K}" using inv ba(1) by (auto simp: locks_inv_def)
  then have "phase_ok k (replay K before m p) (objs t p) ph"
    using sized_replay [OF sz _ _ i(2), of before] i(1) n ba(2) ok by simp
  then have "in_order K m t i" using ba t i by (intro in_order_insideI [of t before i after K p k]) simp_all
  moreover have "in_order K m t j" if "in_order K m s j" "j \<noteq> i" "j < length K" for j
    by (rule in_order_append [OF that(1), of t "[]"]) (use t that other [of j] objs in \<open>auto\<close>)
  moreover have "i \<in> set (order s)" using ba(1) by simp
  ultimately have "\<forall>j < length K. if phases t ! j = Waiting then j \<notin> set (order t) else in_order K m t j"
    using inv t i n by (auto simp: locks_inv_def nth_list_update split: if_splits)
  moreover have "objs t q = replay K (order t) m q" if "\<forall>j < length K. inside (phases t ! j) \<longrightarrow> fst (K ! j) \<noteq> q" for q
  proof -
    have "q \<noteq> p" using that i n in_t by (metis fst_conv)
    then show ?thesis using that inv in_t t objs by (simp add: locks_inv_def)
  qed
  ultimately show ?thesis
    using inv t in_t by (simp add: locks_inv_def exclusive_def)
qed

lemma acquire_inv:
  assumes inv: "locks_inv K m s" and i: "i < length (phases s)" "phases s ! i = Waiting" "K ! i = (p, k)"
    and free: "table s (lock_for_pointer p) = 0" and sz: "sized K m"
    and t: "t = s\<lparr>table := (table s)(lock_for_pointer p := 1), phases := (phases s)[i := first_phase k], order := order s @ [i]\<rparr>"
  shows "locks_inv K m t"
proof -
  have n: "length (phases s) = length K" using inv by (simp add: locks_inv_def)
  have nobody: "lock_of K j \<noteq> lock_for_pointer p" if "j < length K" "inside (phases s ! j)" for j
    using inv that free by (auto simp: locks_inv_def)
  then have other: "fst (K ! j) \<noteq> p" if "j < length K" "inside (phases s ! j)" for j
    using that unfolding lock_of_def by blast
  then have v: "objs s p = replay K (order s) m p" using inv by (auto simp: locks_inv_def)
  have "op_fits k (length (objs s p))"
    unfolding v using inv i n by (intro sized_replay [OF sz _ _ i(3)]) (auto simp: locks_inv_def)
  then have "phase_ok k (replay K (order s) m p) (objs s p) (first_phase k)" using phase_first v by simp
  then have "in_order K m t i" using i t by (intro in_order_insideI [of t "order s" i "[]" K p k]) simp_all
  moreover have "in_order K m t j" if "in_order K m s j" "j \<noteq> i" "j < length K" for j
    by (rule in_order_append [OF that(1), of t "[i]"]) (use t that other [of j] i in auto)
  moreover have fresh: "i \<notin> set (order s)" using inv i n by (auto simp: locks_inv_def dest!: spec [of _ i])
  ultimately have ord: "if phases t ! j = Waiting then j \<notin> set (order t) else in_order K m t j" if "j < length K" for j
    using inv t i n that by (cases "j = i") (auto simp: locks_inv_def dest!: spec [of _ j] split: if_splits)
  have objs: "objs t q = replay K (order t) m q" if "\<forall>j < length K. inside (phases t ! j) \<longrightarrow> fst (K ! j) \<noteq> q" for q
  proof -
    have "q \<noteq> p" using that i n t by auto
    moreover have "\<forall>j < length K. inside (phases s ! j) \<longrightarrow> fst (K ! j) \<noteq> q"
      using that t i by (auto simp: nth_list_update split: if_splits)
    ultimately show ?thesis using inv t i by (simp add: locks_inv_def)
  qed
  have excl: "exclusive K t"
    unfolding exclusive_def
  proof (intro allI impI)
    fix a b assume ab: "a < length K \<and> b < length K \<and> inside (phases t ! a) \<and> inside (phases t ! b) \<and> lock_of K a = lock_of K b"
    have "lock_of K i = lock_for_pointer p" using i by (simp add: lock_of_def)
    then show "a = b" using ab inv nobody [of a] nobody [of b] t i n
      by (cases "a = i"; cases "b = i") (auto simp: locks_inv_def exclusive_def)
  qed
  have tab: "\<forall>j < length K. inside (phases t ! j) \<longrightarrow> table t (lock_of K j) = 1"
    using inv t i n nobody by (auto simp: locks_inv_def nth_list_update lock_of_def)
  have "length (phases t) = length K \<and> distinct (order t) \<and> set (order t) \<subseteq> {..<length K}"
    using inv t i n fresh by (auto simp: locks_inv_def)
  from locks_invI [OF this excl tab ord objs] show ?thesis .
qed

lemma release_inv:
  assumes inv: "locks_inv K m s" and i: "i < length (phases s)" "phases s ! i = Leaving r" "K ! i = (p, k)"
    and t: "t = s\<lparr>table := (table s)(lock_for_pointer p := 0), phases := (phases s)[i := Returned r]\<rparr>"
  shows "locks_inv K m t"
proof -
  have n: "length (phases s) = length K" and ex: "exclusive K s" using inv by (simp_all add: locks_inv_def)
  have in_t: "inside (phases t ! j) \<longleftrightarrow> inside (phases s ! j) \<and> j \<noteq> i" for j
    using i t by (cases "j = i") simp_all
  have other: "lock_of K j \<noteq> lock_for_pointer p" if "j \<noteq> i" "j < length K" "inside (phases s ! j)" for j
  proof
    assume "lock_of K j = lock_for_pointer p"
    then have "lock_of K j = lock_of K i" using i by (simp add: lock_of_def)
    then show False using ex that i n by (auto simp: exclusive_def)
  qed
  have io: "in_order K m s i" using inv i n by (auto simp: locks_inv_def dest!: spec [of _ i] split: if_splits)
  obtain before after where ba: "order s = before @ i # after"
    "(objs s p, r) = apply_op k (replay K before m p)" "\<forall>j \<in> set after. fst (K ! j) \<noteq> p"
    using in_order_inside [OF io i(3)] i(2) by auto
  have "in_order K m t i"
    unfolding in_order_def Let_def
    by (rule exI [of _ before], rule exI [of _ after]) (use ba t i in \<open>auto simp: prod_eq_iff\<close>)
  moreover have "in_order K m t j" if "in_order K m s j" "j \<noteq> i" "j < length K" for j
    by (rule in_order_append [OF that(1), of t "[]"]) (use t that in auto)
  moreover have "i \<in> set (order s)" using ba(1) by simp
  ultimately have ord: "if phases t ! j = Waiting then j \<notin> set (order t) else in_order K m t j" if "j < length K" for j
    using inv t i n that by (cases "j = i") (auto simp: locks_inv_def dest!: spec [of _ j] split: if_splits)
  have objs: "objs t q = replay K (order t) m q" if "\<forall>j < length K. inside (phases t ! j) \<longrightarrow> fst (K ! j) \<noteq> q" for q
  proof (cases "q = p")
    case True
    have "replay K (order s) m p = fst (apply_op k (replay K before m p))"
      using ba(1,3) i(3) replay_other [of after K p] by simp
    then show ?thesis using True ba(2) t by (simp add: prod_eq_iff)
  next
    case False
    then have "\<forall>j < length K. inside (phases s ! j) \<longrightarrow> fst (K ! j) \<noteq> q"
      using that in_t i by (metis fst_conv)
    then show ?thesis using inv t by (simp add: locks_inv_def)
  qed
  have excl: "exclusive K t" using ex in_t by (simp add: exclusive_def)
  have tab: "\<forall>j < length K. inside (phases t ! j) \<longrightarrow> table t (lock_of K j) = 1"
    using inv t in_t other by (auto simp: locks_inv_def)
  have "length (phases t) = length K \<and> distinct (order t) \<and> set (order t) \<subseteq> {..<length K}"
    using inv t i n by (auto simp: locks_inv_def)
  from locks_invI [OF this excl tab ord objs] show ?thesis .
qed

lemma threads_step_inv:
  assumes inv: "locks_inv K m s" and sz: "sized K m" and st: "step K s t"
  shows "locks_inv K m t"
  using st
proof (cases rule: step.cases)
  case spin
  then show ?thesis using inv by simp
next
  case (acquire i p k)
  then show ?thesis by (intro acquire_inv [OF inv _ _ _ _ sz]) simp_all
next
  case (load_byte i buf p k)
  show ?thesis
    by (rule move_inv [where ph = "Reading (buf @ [objs s p ! length buf])", OF inv load_byte(2,4) _ _ _ _ _ _ _ sz])
      (use load_byte phase_load in \<open>auto simp del: phase_ok.simps\<close>)
next
  case (load_end i buf p k)
  show ?thesis
    by (rule move_inv [where ph = "after_read k buf", OF inv load_end(2,4) _ _ _ _ _ _ _ sz])
      (use load_end phase_load_end in \<open>auto simp del: phase_ok.simps\<close>)
next
  case (reload_byte i buf p k)
  show ?thesis
    by (rule move_inv [where ph = "Rereading (buf @ [objs s p ! length buf])", OF inv reload_byte(2,4) _ _ _ _ _ _ _ sz])
      (use reload_byte phase_reload in \<open>auto simp del: phase_ok.simps\<close>)
next
  case (reload_end i buf p k)
  show ?thesis
    by (rule move_inv [where ph = "Leaving (False, buf)", OF inv reload_end(2,4) _ _ _ _ _ _ _ sz])
      (use reload_end phase_reload_end in \<open>auto simp del: phase_ok.simps\<close>)
next
  case (store_byte i d r n p k)
  show ?thesis
    by (rule move_inv [where ph = "Writing d r (n + 1)", OF inv store_byte(2,4) _ _ _ _ _ _ _ sz])
      (use store_byte phase_store in \<open>auto simp del: phase_ok.simps\<close>)
next
  case (store_end i d r n)
  obtain p k where pk: "K ! i = (p, k)" by (rule prod.exhaust)
  show ?thesis
    by (rule move_inv [where ph = "Leaving r", OF inv store_end(2) pk _ _ _ _ _ _ _ sz])
      (use store_end phase_store_end in \<open>auto simp del: phase_ok.simps\<close>)
next
  case (release i r p k)
  then show ?thesis by (intro release_inv [OF inv]) simp_all
qed

lemma threads_run_inv: "run K m s \<Longrightarrow> sized K m \<Longrightarrow> locks_inv K m s"
proof (induction rule: run.induct)
  case run_start
  show ?case by (auto simp: locks_inv_def start_state_def exclusive_def)
next
  case (run_step s t)
  then show ?case using threads_step_inv by blast
qed

section \<open>The property\<close>

definition demo_ops :: "(ptr \<times> op) list" where "demo_ops = [(0, Exchange [9])]"

definition demo_state :: "byte \<Rightarrow> su_int \<Rightarrow> phase \<Rightarrow> nat list \<Rightarrow> tstate" where
  "demo_state b l ph os = \<lparr> objs = (\<lambda>_. [7])(0 := [b]), table = (\<lambda>_. 0)(0 := l), phases = [ph], order = os \<rparr>"

lemma lock_0 [simp]: "lock_for_pointer 0 = 0"
  by (simp add: hash_word)

lemma demo_atomic_run: "run demo_ops (\<lambda>_. [7]) (demo_state 9 0 (Returned (True, [7])) [0])"
proof -
  have k: "demo_ops ! 0 = (0, Exchange [9])" by (simp add: demo_ops_def)
  have 0: "start_state demo_ops (\<lambda>_. [7]) = demo_state 7 0 Waiting []"
    by (simp add: start_state_def demo_state_def demo_ops_def fun_eq_iff)
  have 1: "step demo_ops (demo_state 7 0 Waiting []) (demo_state 7 1 (Reading []) [0])"
    using step.acquire [of 0 "demo_state 7 0 Waiting []", OF _ _ k] by (simp add: demo_state_def)
  have 2: "step demo_ops (demo_state 7 1 (Reading []) [0]) (demo_state 7 1 (Reading [7]) [0])"
    using step.load_byte [of 0 "demo_state 7 1 (Reading []) [0]" "[]", OF _ _ k] by (simp add: demo_state_def)
  have 3: "step demo_ops (demo_state 7 1 (Reading [7]) [0]) (demo_state 7 1 (Writing [9] (True, [7]) 0) [0])"
    using step.load_end [of 0 "demo_state 7 1 (Reading [7]) [0]" "[7]", OF _ _ k] by (simp add: demo_state_def)
  have 4: "step demo_ops (demo_state 7 1 (Writing [9] (True, [7]) 0) [0]) (demo_state 9 1 (Writing [9] (True, [7]) 1) [0])"
    using step.store_byte [of 0 "demo_state 7 1 (Writing [9] (True, [7]) 0) [0]" "[9]" "(True, [7])" 0, OF _ _ k] by (simp add: demo_state_def)
  have 5: "step demo_ops (demo_state 9 1 (Writing [9] (True, [7]) 1) [0]) (demo_state 9 1 (Leaving (True, [7])) [0])"
    using step.store_end [of 0 "demo_state 9 1 (Writing [9] (True, [7]) 1) [0]" "[9]" "(True, [7])" 1 demo_ops] by (simp add: demo_state_def)
  have 6: "step demo_ops (demo_state 9 1 (Leaving (True, [7])) [0]) (demo_state 9 0 (Returned (True, [7])) [0])"
    using step.release [of 0 "demo_state 9 1 (Leaving (True, [7])) [0]" "(True, [7])", OF _ _ k] by (simp add: demo_state_def)
  have "run demo_ops (\<lambda>_. [7]) (demo_state 7 0 Waiting [])" using run.run_start [of demo_ops "\<lambda>_. [7]"] 0 by simp
  with 1 2 3 4 5 6 show ?thesis by (meson run.run_step)
qed

text \<open>C24: Whatever the interleaving, no two threads are inside one lock; and the operations that have returned
  gave the results of a sequential execution in the order in which the locks were taken, which also
  leaves the same memory once all have returned.\<close>

theorem locked_operations_serializable:
  assumes "run K m s" "sized K m"
  shows "exclusive K s \<and> distinct (order s) \<and>
    (\<forall>i r. i < length K \<and> phases s ! i = Returned r \<longrightarrow> (\<exists>before after. order s = before @ i # after \<and>
      snd (apply_op (snd (K ! i)) (replay K before m (fst (K ! i)))) = r)) \<and>
    ((\<forall>i < length K. \<exists>r. phases s ! i = Returned r) \<longrightarrow> objs s = replay K (order s) m)"
proof (intro conjI allI impI)
  have inv: "locks_inv K m s" by (rule threads_run_inv [OF assms])
  show "exclusive K s" "distinct (order s)" using inv by (simp_all add: locks_inv_def)
  fix i r assume i: "i < length K \<and> phases s ! i = Returned r"
  then have "in_order K m s i" using inv by (auto simp: locks_inv_def dest!: spec [of _ i])
  then show "\<exists>before after. order s = before @ i # after \<and> snd (apply_op (snd (K ! i)) (replay K before m (fst (K ! i)))) = r"
    using i by (auto simp: in_order_def Let_def split_beta)
next
  assume r: "\<forall>i < length K. \<exists>r. phases s ! i = Returned r"
  have "\<not> inside (phases s ! i)" if "i < length K" for i using r that by force
  then show "objs s = replay K (order s) m"
    using threads_run_inv [OF assms] by (auto simp: locks_inv_def)
qed

theorem locked_operations_serializable_witness:
  "objs (demo_state 9 0 (Returned (True, [7])) [0]) = replay demo_ops [0] (\<lambda>_. [7])"
proof -
  have "sized demo_ops (\<lambda>_. [7])" by (simp add: sized_def demo_ops_def)
  from locked_operations_serializable [OF demo_atomic_run this] show ?thesis by (simp add: demo_ops_def demo_state_def)
qed

end
