(* ===== verification/Gcda.thy ===== *)
theory Gcda
  imports Bytes "HOL-Library.Monad_Syntax"
begin

unbundle bit_operations_syntax

text \<open>
  The profiling callbacks of \<^verbatim>\<open>lib/profile/GCDAProfiling.c\<close>: one file per translation unit, opened by
  \<^verbatim>\<open>llvm_gcda_start_file\<close>, then for each function a record of its name and one of its counters, added
  to those a previous run left there, and an end mark.

  A file is its bytes, an open one also a position; \<^verbatim>\<open>fwrite\<close> overwrites and extends, \<^verbatim>\<open>fread\<close> returns
  what there is, and writes reach the file when it is closed. (Between the code's \<^verbatim>\<open>fwrite\<close> and the next
  \<^verbatim>\<open>fread\<close> the C standard asks for an \<^verbatim>\<open>fflush\<close>, which is not there; the model is of a library that
  does not mind.) The byte order of the machine is a parameter, and so are the environment variables, the
  memory that \<^verbatim>\<open>malloc\<close> grants for the old counters (for the names it is taken to be there) and the
  files one may create.
\<close>

section \<open>Files\<close>

record stream =
  data :: "byte list"
  pos :: nat

datatype message = Cannot_open string | Invalid_magic su_int | Invalid_number su_int

record gcda =
  files :: "string \<rightharpoonup> byte list"
  dirs :: "string set"
  output_file :: "(string \<times> stream) option"
  messages :: "message list"

definition fwrite :: "byte list \<Rightarrow> stream \<Rightarrow> stream" where
  "fwrite bs f = \<lparr> data = take (pos f) (data f) @ bs @ drop (pos f + length bs) (data f), pos = pos f + length bs \<rparr>"

definition fread :: "nat \<Rightarrow> stream \<Rightarrow> byte list \<times> stream" where
  "fread n f = (let got = take n (drop (pos f) (data f)) in (got, f\<lparr>pos := pos f + length got\<rparr>))"

definition fseek :: "nat \<Rightarrow> stream \<Rightarrow> stream" where "fseek p f = f\<lparr>pos := p\<rparr>"

text \<open>The directory a name is in: what is before its last slash.\<close>

definition dir_of :: "string \<Rightarrow> string" where
  "dir_of name = rev (drop 1 (dropWhile (\<lambda>c. c \<noteq> CHR ''/'') (rev name)))"

definition mkdir :: "string \<Rightarrow> gcda \<Rightarrow> gcda" where
  "mkdir name s = (if dir_of name \<in> dirs s \<and> name \<notin> dom (files s) then s\<lparr>dirs := insert name (dirs s)\<rparr> else s)"

definition fopen_update :: "string \<Rightarrow> gcda \<Rightarrow> (string \<times> stream) option" where
  "fopen_update name s = (case files s name of None \<Rightarrow> None | Some bs \<Rightarrow> Some (name, \<lparr> data = bs, pos = 0 \<rparr>))"

definition fopen_create :: "(string \<Rightarrow> bool) \<Rightarrow> string \<Rightarrow> gcda \<Rightarrow> (string \<times> stream) option" where
  "fopen_create may_create name s =
    (if dir_of name \<in> dirs s \<and> may_create name then Some (name, \<lparr> data = [], pos = 0 \<rparr>) else None)"

section \<open>The primitives of the format\<close>

definition write_int32 :: "bool \<Rightarrow> su_int \<Rightarrow> stream \<Rightarrow> stream" where
  "write_int32 be i f = fwrite (bytes_of be i) f"

definition write_int64 :: "bool \<Rightarrow> du_int \<Rightarrow> stream \<Rightarrow> stream" where
  "write_int64 be i f =
    (let lo = ucast (drop_bit 0 i); hi = ucast (drop_bit 32 i); f = write_int32 be lo f in write_int32 be hi f)"

definition length_of_string :: "byte list \<Rightarrow> su_int" where
  "length_of_string s = of_nat (length s div 4) + 1"


definition read_int32 :: "bool \<Rightarrow> stream \<Rightarrow> su_int \<times> stream" where
  "read_int32 be f = (let (got, f) = fread 4 f in (if length got \<noteq> 4 then - 1 else word_of be got, f))"

definition read_int64 :: "bool \<Rightarrow> stream \<Rightarrow> du_int \<times> stream" where
  "read_int64 be f = (let (got, f) = fread 8 f in (if length got \<noteq> 8 then - 1 else word_of be got, f))"

section \<open>The name of the file\<close>

text \<open>The loop that strips leading directories: the level to go, the rest of the name found so far, and
  the characters still to look at.\<close>

fun strip_loop :: "nat \<Rightarrow> string \<Rightarrow> string \<Rightarrow> string" where
  "strip_loop level fname [] = fname"
| "strip_loop 0 fname (c # cs) = fname"
| "strip_loop (Suc level) fname (c # cs) =
    (if c \<noteq> CHR ''/'' then strip_loop (Suc level) fname cs else strip_loop level (c # cs) cs)"

text \<open>With a prefix, the code looks at the character before the end of the prefix and at the one after the
  first of the name; neither need be there.\<close>

definition mangle_filename :: "string option \<Rightarrow> int option \<Rightarrow> string \<Rightarrow> string option" where
  "mangle_filename prefix strip orig_filename =
    (case prefix of
       None \<Rightarrow> Some orig_filename
     | Some prefix \<Rightarrow>
         let prefix_strip = (case strip of None \<Rightarrow> 0 | Some n \<Rightarrow> if n < 0 then 0 else nat n) in
         if prefix = [] \<or> orig_filename = [] then None
         else
           let filename = prefix @ (if last prefix \<noteq> CHR ''/'' then ''/'' else [])
           in Some (filename @ strip_loop prefix_strip orig_filename (tl orig_filename)))"

fun mkdir_loop :: "string \<Rightarrow> string \<Rightarrow> gcda \<Rightarrow> gcda" where
  "mkdir_loop done_part [] s = s"
| "mkdir_loop done_part (c # cs) s =
    mkdir_loop (done_part @ [c]) cs (if c = CHR ''/'' then mkdir done_part s else s)"

definition recursive_mkdir :: "string \<Rightarrow> gcda \<Rightarrow> gcda" where
  "recursive_mkdir filename s = mkdir_loop (take 1 filename) (drop 1 filename) s"

section \<open>The callbacks\<close>

text \<open>\<^verbatim>\<open>"adcg*404MVLL"\<close>\<close>

definition gcda_header :: "byte list" where
  "gcda_header = [0x61, 0x64, 0x63, 0x67, 0x2A, 0x34, 0x30, 0x34, 0x4D, 0x56, 0x4C, 0x4C]"

definition start_file :: "string option \<Rightarrow> int option \<Rightarrow> (string \<Rightarrow> bool) \<Rightarrow> string \<Rightarrow> gcda \<Rightarrow> gcda option" where
  "start_file prefix strip may_create orig_filename s =
    do {
      filename \<leftarrow> mangle_filename prefix strip orig_filename;
      let s = s\<lparr>output_file := fopen_update filename s\<rparr>;
      let s = (if output_file s = None then s\<lparr>output_file := fopen_create may_create filename s\<rparr> else s);
      let s = (if output_file s = None
        then let s = recursive_mkdir filename s in s\<lparr>output_file := fopen_create may_create filename s\<rparr> else s);
      case output_file s of
        None \<Rightarrow> Some (s\<lparr>messages := messages s @ [Cannot_open filename]\<rparr>)
      | Some (name, f) \<Rightarrow> Some (s\<lparr>output_file := Some (name, fwrite gcda_header f)\<rparr>)
    }"

text \<open>The counters are in memory at the addresses that the array holds; null is \<open>None\<close>.\<close>

definition increment_indirect_counter ::
    "su_int \<Rightarrow> nat option list \<Rightarrow> (nat \<rightharpoonup> du_int) \<Rightarrow> (nat \<rightharpoonup> du_int) option" where
  "increment_indirect_counter pred counters m =
    (if pred = 0xffffffff then Some m
     else if unat pred < length counters then
       (case counters ! unat pred of
          None \<Rightarrow> Some m
        | Some a \<Rightarrow> do { v \<leftarrow> m a; Some (m(a \<mapsto> v + 1)) })
     else None)"


fun read_counters :: "bool \<Rightarrow> nat \<Rightarrow> stream \<Rightarrow> du_int list \<times> stream" where
  "read_counters be 0 f = ([], f)"
| "read_counters be (Suc n) f =
    (let (v, f) = read_int64 be f; (vs, f) = read_counters be n f in (v # vs, f))"

fun write_counters :: "bool \<Rightarrow> du_int list \<Rightarrow> du_int list option \<Rightarrow> stream \<Rightarrow> stream" where
  "write_counters be [] old f = f"
| "write_counters be (c # cs) old f =
    write_counters be cs (map_option tl old) (write_int64 be (c + (case old of Some vs \<Rightarrow> hd vs | None \<Rightarrow> 0)) f)"

text \<open>What follows once the old counters, if any, are known.\<close>

definition put_arcs :: "bool \<Rightarrow> su_int \<Rightarrow> du_int list \<Rightarrow> du_int list option \<Rightarrow> nat \<Rightarrow> stream \<Rightarrow> stream" where
  "put_arcs be num_counters counters old_ctrs p f =
    (let f = fseek p f;
         f = fwrite [0, 0, 0xa1, 1] f;
         f = write_int32 be (num_counters * 2) f
     in write_counters be (take (unat num_counters) counters) old_ctrs f)"

definition emit_arcs :: "bool \<Rightarrow> (nat \<Rightarrow> bool) \<Rightarrow> su_int \<Rightarrow> du_int list \<Rightarrow> gcda \<Rightarrow> gcda option" where
  "emit_arcs be malloc_ok num_counters counters s =
    (case output_file s of
       None \<Rightarrow> Some s
     | Some (name, f) \<Rightarrow>
         if length counters < unat num_counters then None
         else
           let p = pos f; (val, f) = read_int32 be f in
           if val \<noteq> - 1 then
             if val \<noteq> 0x01a10000 then
               Some (s\<lparr>output_file := Some (name, f), messages := messages s @ [Invalid_magic val]\<rparr>)
             else
               let (val, f) = read_int32 be f in
               if val = - 1 \<or> val div 2 \<noteq> num_counters then
                 Some (s\<lparr>output_file := Some (name, f), messages := messages s @ [Invalid_number val]\<rparr>)
               else if num_counters \<noteq> 0 \<and> \<not> malloc_ok (unat num_counters * 8) then None
               else
                 let (old, f) = read_counters be (unat num_counters) f in
                 Some (s\<lparr>output_file := Some (name, put_arcs be num_counters counters (Some old) p f)\<rparr>)
           else Some (s\<lparr>output_file := Some (name, put_arcs be num_counters counters None p f)\<rparr>))"


section \<open>Streams at a place\<close>

text \<open>A stream that has \<open>d\<close> behind it and \<open>r\<close> before it.\<close>

definition mid :: "byte list \<Rightarrow> byte list \<Rightarrow> stream" where "mid d r = \<lparr> data = d @ r, pos = length d \<rparr>"

lemma fwrite_at [simp]: "fwrite bs (mid d r) = mid (d @ bs) (drop (length bs) r)"
  by (simp add: fwrite_def mid_def)

lemma fread_at: "fread n (mid d r) = (take n r, mid (d @ take n r) (drop n r))"
  by (simp add: fread_def mid_def Let_def)

lemma fseek_at [simp]: "fseek (length d) (mid (d @ x) r) = mid d (x @ r)"
  by (simp add: fseek_def mid_def)

lemma fseek_same [simp]: "fseek (length d) (mid d r) = mid d r"
  by (simp add: fseek_def mid_def)

lemma pos_mid [simp]: "pos (mid d r) = length d"
  by (simp add: mid_def)

definition bytes_of64 :: "bool \<Rightarrow> du_int \<Rightarrow> byte list" where
  "bytes_of64 be w = bytes_of be (ucast w :: su_int) @ bytes_of be (ucast (drop_bit 32 w) :: su_int)"

lemma length_bytes_of64 [simp]: "length (bytes_of64 be w) = 8"
  by (simp add: bytes_of64_def)

lemma write_int32_at [simp]: "write_int32 be i (mid d r) = mid (d @ bytes_of be i) (drop 4 r)"
  by (simp add: write_int32_def)

lemma write_int64_at [simp]: "write_int64 be i (mid d r) = mid (d @ bytes_of64 be i) (drop 8 r)"
  by (simp add: write_int64_def Let_def bytes_of64_def)

lemma read_int32_at: "read_int32 be (mid d (bytes_of be w @ r)) = (w, mid (d @ bytes_of be w) r)"
  by (simp add: read_int32_def fread_at word_of_bytes_of)




lemma unat_of_nat32: "n < 2 ^ 32 \<Longrightarrow> unat (of_nat n :: su_int) = n"
  by (simp add: unsigned_of_nat take_bit_nat_eq_self)

section \<open>Records\<close>

definition counter_bytes :: "bool \<Rightarrow> du_int list \<Rightarrow> byte list" where
  "counter_bytes be cs = concat (map (bytes_of64 be) cs)"

lemma counter_bytes_simps [simp]:
  "counter_bytes be [] = []" "counter_bytes be (c # cs) = bytes_of64 be c @ counter_bytes be cs"
  by (simp_all add: counter_bytes_def)

lemma length_counter_bytes [simp]: "length (counter_bytes be cs) = 8 * length cs"
  by (induction cs) simp_all

definition arcs_record :: "bool \<Rightarrow> du_int list \<Rightarrow> byte list" where
  "arcs_record be cs = [0, 0, 0xa1, 1] @ bytes_of be (of_nat (length cs) * 2 :: su_int) @ counter_bytes be cs"

definition function_record :: "bool \<Rightarrow> su_int \<Rightarrow> byte list \<Rightarrow> byte list" where
  "function_record be ident name =
    [0, 0, 0, 1] @ bytes_of be (4 + length_of_string name) @ bytes_of be ident @ bytes_of be (0 :: su_int) @ bytes_of be (0 :: su_int) @
    bytes_of be (length_of_string name) @ name @ replicate (4 - length name mod 4) 0"

lemma length_arcs_record: "length (arcs_record be cs) = 8 + 8 * length cs"
  by (simp add: arcs_record_def)

lemma length_function_record: "length (function_record be ident name) = 24 + (length name + (4 - length name mod 4))"
  by (simp add: function_record_def)








section \<open>A run of the program\<close>

text \<open>The callbacks the instrumentation makes when the program exits: for each function its identifier,
  its name and its counters.\<close>

type_synonym profile = "(su_int \<times> byte list \<times> du_int list) list"



definition records :: "bool \<Rightarrow> profile \<Rightarrow> byte list" where
  "records be fs = concat (map (\<lambda>(ident, name, cs). function_record be ident name @ arcs_record be cs) fs)"

lemma records_simps [simp]:
  "records be [] = []"
  "records be ((ident, name, cs) # fs) = function_record be ident name @ arcs_record be cs @ records be fs"
  by (simp_all add: records_def)













section \<open>Opening the file\<close>

lemma strip_loop_drops:
  assumes "pre \<noteq> []" "CHR ''/'' \<notin> set (tl pre)"
  shows "\<exists>k. strip_loop n (pre @ ptr) ptr = drop k (pre @ ptr) \<and> k < length (pre @ ptr) \<and>
    (k = 0 \<or> (pre @ ptr) ! k = CHR ''/'') \<and>
    length (filter ((=) CHR ''/'') (take k (tl (pre @ ptr)))) = min n (length (filter ((=) CHR ''/'') ptr))"
  using assms
proof (induction ptr arbitrary: n pre)
  case Nil
  then show ?case by (intro exI [of _ 0]) simp
next
  case (Cons c cs)
  show ?case
  proof (cases n)
    case 0
    then show ?thesis using Cons.prems by (intro exI [of _ 0]) simp
  next
    case (Suc m)
    show ?thesis
    proof (cases "c = CHR ''/''")
      case False
      have "CHR ''/'' \<notin> set (tl (pre @ [c]))" using Cons.prems False by (cases pre) auto
      from Cons.IH [OF _ this, of "Suc m"] show ?thesis using False Suc by simp
    next
      case True
      obtain k where k: "strip_loop m ([c] @ cs) cs = drop k ([c] @ cs)" "k < length ([c] @ cs)" "k = 0 \<or> ([c] @ cs) ! k = CHR ''/''"
        "length (filter ((=) CHR ''/'') (take k (tl ([c] @ cs)))) = min m (length (filter ((=) CHR ''/'') cs))"
        using Cons.IH [of "[c]" m] by auto
      obtain x xs where pre: "pre = x # xs" "CHR ''/'' \<notin> set xs" using Cons.prems by (cases pre) auto
      have "filter ((=) CHR ''/'') xs = []" using pre(2) by (auto simp: filter_empty_conv)
      then show ?thesis
        using k True Suc pre by (intro exI [of _ "length pre + k"]) (auto simp: nth_append)
    qed
  qed
qed

lemma dir_of_snoc [simp]: "dir_of (name @ [CHR ''/'']) = name" "c \<noteq> CHR ''/'' \<Longrightarrow> dir_of (name @ [c]) = dir_of name"
  by (simp_all add: dir_of_def)

lemma mkdir_loop_dir:
  assumes "dir_of done_part \<in> dirs s" "done_part @ rest = name" "\<And>p q. name = p @ CHR ''/'' # q \<Longrightarrow> p \<notin> dom (files s)"
  shows "dir_of name \<in> dirs (mkdir_loop done_part rest s)"
  using assms
proof (induction rest arbitrary: done_part s)
  case (Cons c cs)
  show ?case
  proof (cases "c = CHR ''/''")
    case True
    have "done_part \<notin> dom (files s)" using Cons.prems(2,3) True by blast
    then have m: "done_part \<in> dirs (mkdir done_part s)" "files (mkdir done_part s) = files s"
      using Cons.prems(1) by (simp_all add: mkdir_def)
    show ?thesis
      using Cons.IH [of "done_part @ [c]" "mkdir done_part s"] Cons.prems m True by simp
  next
    case False
    show ?thesis using Cons.IH [of "done_part @ [c]" s] Cons.prems False by simp
  qed
qed simp

lemma recursive_mkdir_dir:
  assumes "[] \<in> dirs s" "name \<noteq> []" "\<And>p q. name = p @ CHR ''/'' # q \<Longrightarrow> p \<notin> dom (files s)"
  shows "dir_of name \<in> dirs (recursive_mkdir name s)"
proof -
  obtain c cs where name: "name = c # cs" using assms(2) by (cases name) simp_all
  have "dir_of [c] = []" by (simp add: dir_of_def)
  then show ?thesis using mkdir_loop_dir [of "[c]" s cs name] assms name by (simp add: recursive_mkdir_def)
qed

text \<open>With a nonempty prefix and name, the file is opened, and its directories made, unless one of them is
  a file or the file may not be created. Its name is the prefix, a slash if that has none at its end, and
  the given name without as many leading components as are to be stripped and there are.\<close>

theorem start_file_opens:
  assumes "prefx \<noteq> []" "orig \<noteq> []" "[] \<in> dirs s"
    and "\<And>name p q. name = p @ CHR ''/'' # q \<Longrightarrow> p \<notin> dom (files s)" "\<And>name. may_create name"
  shows "\<exists>k name f t. start_file (Some prefx) (Some n) may_create orig s = Some t \<and> output_file t = Some (name, f) \<and>
    name = prefx @ (if last prefx = CHR ''/'' then [] else ''/'') @ drop k orig \<and>
    (k = 0 \<or> orig ! k = CHR ''/'') \<and>
    length (filter ((=) CHR ''/'') (take k (tl orig))) = min (nat n) (length (filter ((=) CHR ''/'') (tl orig)))"
proof -
  obtain c cs where orig: "orig = c # cs" using assms(2) by (cases orig) simp_all
  obtain k where k: "strip_loop (nat n) orig (tl orig) = drop k orig" "k = 0 \<or> orig ! k = CHR ''/''"
    "length (filter ((=) CHR ''/'') (take k (tl orig))) = min (nat n) (length (filter ((=) CHR ''/'') (tl orig)))"
    using strip_loop_drops [of "[c]" "nat n" cs] orig by auto
  define name where "name = prefx @ (if last prefx = CHR ''/'' then [] else ''/'') @ drop k orig"
  have m: "mangle_filename (Some prefx) (Some n) orig = Some name"
    using assms(1,2) k(1) by (auto simp: mangle_filename_def name_def Let_def)
  have "name \<noteq> []" using assms(1) by (simp add: name_def)
  then have d: "dir_of name \<in> dirs (recursive_mkdir name s')" if "files s' = files s" "dirs s' = dirs s" for s'
    using recursive_mkdir_dir [of s' name] assms(3,4) that by simp
  have "\<exists>f t. start_file (Some prefx) (Some n) may_create orig s = Some t \<and> output_file t = Some (name, f)"
    using assms(5) d [of "s\<lparr>output_file := None\<rparr>"]
    by (auto simp: start_file_def m fopen_update_def fopen_create_def Let_def split: option.split)
  then show ?thesis using k name_def by blast
qed

theorem start_file_opens_witness:
  "\<exists>k name f t. start_file (Some ''/tmp'') (Some 1) (\<lambda>f. True) ''/a/b.gcda'' \<lparr>files = Map.empty, dirs = {[]}, output_file = None, messages = []\<rparr> = Some t \<and>
    output_file t = Some (name, f) \<and> name = ''/tmp/'' @ drop k ''/a/b.gcda''"
  using start_file_opens [of "''/tmp''" "''/a/b.gcda''" "\<lparr>files = Map.empty, dirs = {[]}, output_file = None, messages = []\<rparr>" "\<lambda>f. True" 1]
  by fastforce

text \<open>C28: On a big-endian machine (Patmos is one) the tag that was written is not the one that is looked for: the
  counters of a further run are not written, and the file's position is left four bytes into the record.\<close>

theorem big_endian_never_merges:
  assumes "output_file s = Some (f, mid d (arcs_record True old @ r))" "length cs < 2 ^ 32"
  shows "emit_arcs True ok (of_nat (length cs)) cs s =
    Some (s\<lparr>output_file := Some (f, mid (d @ [0, 0, 0xa1, 1]) (drop 4 (arcs_record True old) @ r)),
      messages := messages s @ [Invalid_magic 0xa101]\<rparr>)"
proof -
  have n: "unat (of_nat (length cs) :: su_int) = length cs" using assms(2) by (simp add: unat_of_nat32)
  have "bytes_of True (0xa101 :: su_int) = [0, 0, 0xa1, 1]" by (simp add: bytes_of_def upt_rec)
  then have tag: "read_int32 True (mid d (arcs_record True old @ r)) = (0xa101, mid (d @ [0, 0, 0xa1, 1]) (drop 4 (arcs_record True old) @ r))"
    using read_int32_at [of True d "0xa101" "drop 4 (arcs_record True old) @ r"] by (simp add: arcs_record_def)
  show ?thesis
    unfolding emit_arcs_def assms(1) option.case prod.case Let_def n tag pos_mid by simp
qed

theorem big_endian_never_merges_witness:
  "emit_arcs True (\<lambda>n. True) (of_nat (length [5])) [5] \<lparr>files = Map.empty, dirs = {[]}, output_file = Some (''a'', mid gcda_header (arcs_record True [4] @ [])), messages = []\<rparr> \<noteq> None"
  using big_endian_never_merges [of "\<lparr>files = Map.empty, dirs = {[]}, output_file = Some (''a'', mid gcda_header (arcs_record True [4] @ [])), messages = []\<rparr>" "''a''" gcda_header "[4]" "[]" "[5]" "\<lambda>n. True"]
  by simp

end
