(* ===== verification/Personality.thy ===== *)
theory Personality
  imports Bytes "HOL-Library.Monad_Syntax"
begin

unbundle bit_operations_syntax

text \<open>
  The personality routine of \<^verbatim>\<open>lib/gcc_personality_v0.c\<close>, on a 32-bit target: reading the encoded
  numbers of an exception table and walking the call-site table for the entry of the current address.

  Memory is a partial map of bytes. \<open>None\<close> stands for an access outside it, and for a loop that does not
  end; an unsupported encoding aborts, which is an error value. The unwinder's context is a record of what
  its accessors get and set.
\<close>

type_synonym ptr = "32 word"
type_synonym memory = "ptr \<rightharpoonup> byte"

section \<open>Reading numbers\<close>








section \<open>The call-site table\<close>






section \<open>The personality routine\<close>





section \<open>LEB128\<close>

text \<open>The encoding: seven bits in a byte, the eighth set in all but the last.\<close>

fun uleb :: "nat \<Rightarrow> byte list" where
  "uleb n = (if n < 128 then [of_nat n] else of_nat (n mod 128 + 128) # uleb (n div 128))"

declare uleb.simps [simp del]

lemma uleb_not_empty [simp]: "uleb n \<noteq> []"
  by (simp add: uleb.simps [of n])

fun bytes_at :: "memory \<Rightarrow> ptr \<Rightarrow> byte list \<Rightarrow> bool" where
  "bytes_at m p [] = True"
| "bytes_at m p (b # bs) = (m p = Some b \<and> bytes_at m (p + 1) bs)"

lemma bytes_at_append [simp]:
  "bytes_at m p (xs @ ys) \<longleftrightarrow> bytes_at m p xs \<and> bytes_at m (p + of_nat (length xs)) ys"
  by (induction xs arbitrary: p) (auto simp: add.assoc)








section \<open>Tables\<close>











section \<open>The properties\<close>








end
