(* ===== verification/Fp_X87.thy ===== *)
theory Fp_X87
  imports Fp_FromInt
begin

unbundle bit_operations_syntax

text \<open>
  The conversions of the 80-bit extended format: \<^verbatim>\<open>lib/fixxfdi.c\<close>, \<^verbatim>\<open>fixxfti.c\<close>, \<^verbatim>\<open>fixunsxfsi.c\<close>,
  \<^verbatim>\<open>fixunsxfdi.c\<close>, \<^verbatim>\<open>fixunsxfti.c\<close> to integers, and \<^verbatim>\<open>floatdixf.c\<close>, \<^verbatim>\<open>floatundixf.c\<close>, \<^verbatim>\<open>floattixf.c\<close>,
  \<^verbatim>\<open>floatuntixf.c\<close> from integers. The 64 digits of the significand are all written out.
\<close>

section \<open>The format\<close>

text \<open>The fields of \<^verbatim>\<open>long_double_bits\<close> that hold the number: \<^verbatim>\<open>u.low.all\<close> and \<^verbatim>\<open>u.high.s.low\<close>, of
  which the lower half is the sign and the exponent.\<close>

record long_double_bits =
  low_all :: du_int
  high_s_low :: su_int

definition LDBL_MANT_DIG :: nat where "LDBL_MANT_DIG = 64"

section \<open>To integers\<close>

definition xf_exponent :: "long_double_bits \<Rightarrow> int" where
  "xf_exponent fb = sint (high_s_low fb AND 0x00007FFF) - 16383"

definition fixxfdi :: "ub \<Rightarrow> long_double_bits \<Rightarrow> di_int" where
  "fixxfdi u fb =
    (let e = xf_exponent fb in
     if e < 0 then 0
     else
       let s = scast (- (drop_bit 15 (high_s_low fb AND 0x00008000)) :: si_int);
           r = low_all fb;
           r = c_lshr u r (word_of_int (63 - e))
       in (r XOR s) - s)"

definition fixxfti :: "ub \<Rightarrow> long_double_bits \<Rightarrow> ti_int" where
  "fixxfti u fb =
    (let e = xf_exponent fb in
     if e < 0 then 0
     else
       let s = scast (- (drop_bit 15 (high_s_low fb AND 0x00008000)) :: si_int);
           r = ucast (low_all fb) :: ti_int;
           r = (if e > 63 then c_shl u r (word_of_int (e - 63)) else c_ashr u r (word_of_int (63 - e)))
       in (r XOR s) - s)"

definition fixunsxfdi :: "ub \<Rightarrow> long_double_bits \<Rightarrow> du_int" where
  "fixunsxfdi u fb =
    (let e = xf_exponent fb in
     if e < 0 \<or> high_s_low fb AND 0x00008000 \<noteq> 0 then 0
     else c_lshr u (low_all fb) (word_of_int (63 - e)))"

definition fixunsxfsi :: "ub \<Rightarrow> long_double_bits \<Rightarrow> su_int" where
  "fixunsxfsi u fb =
    (let e = xf_exponent fb in
     if e < 0 \<or> high_s_low fb AND 0x00008000 \<noteq> 0 then 0
     else c_lshr u (s_high (dwords_of (low_all fb))) (word_of_int (31 - e)))"

definition fixunsxfti :: "ub \<Rightarrow> long_double_bits \<Rightarrow> tu_int" where
  "fixunsxfti u fb =
    (let e = xf_exponent fb in
     if e < 0 \<or> high_s_low fb AND 0x00008000 \<noteq> 0 then 0
     else
       let r = ucast (low_all fb) :: tu_int in
       if e > 63 then c_shl u r (word_of_int (e - 63)) else c_lshr u r (word_of_int (63 - e)))"

section \<open>From integers\<close>

definition xf_zero :: long_double_bits where "xf_zero = \<lparr> low_all = 0, high_s_low = 0 \<rparr>"

definition floatdixf :: "ub \<Rightarrow> di_int \<Rightarrow> long_double_bits" where
  "floatdixf u a =
    (if a = 0 then xf_zero
     else
       let N = 64;
           s = signed_drop_bit (N - 1) a;
           a = (a XOR s) - s;
           clz = builtin_clz u a;
           e = (int N - 1) - sint clz
       in \<lparr> low_all = c_shl u a clz, high_s_low = (ucast s AND 0x00008000) OR word_of_int (e + 16383) \<rparr>)"

definition floatundixf :: "ub \<Rightarrow> du_int \<Rightarrow> long_double_bits" where
  "floatundixf u a =
    (if a = 0 then xf_zero
     else
       let N = 64;
           clz = builtin_clz u a;
           e = (N - 1) - sint clz
       in \<lparr> low_all = c_shl u a clz, high_s_low = word_of_int (e + 16383) \<rparr>)"

definition floattixf :: "ub \<Rightarrow> ti_int \<Rightarrow> long_double_bits" where
  "floattixf u a =
    (if a = 0 then xf_zero
     else
       let N = 128;
           s = signed_drop_bit (N - 1) a;
           a = (a XOR s) - s;
           (a, e) = float_digits signed_drop_bit u (clzti2 u) LDBL_MANT_DIG a
       in \<lparr> low_all = ucast a, high_s_low = (ucast s AND 0x8000) OR word_of_int (e + 16383) \<rparr>)"

definition floatuntixf :: "ub \<Rightarrow> tu_int \<Rightarrow> long_double_bits" where
  "floatuntixf u a =
    (if a = 0 then xf_zero
     else
       let (a, e) = float_digits drop_bit u (clzti2 u) LDBL_MANT_DIG a
       in \<lparr> low_all = ucast a, high_s_low = word_of_int (e + 16383) \<rparr>)"

section \<open>Values\<close>

definition xf_neg :: "long_double_bits \<Rightarrow> bool" where "xf_neg fb \<longleftrightarrow> bit (high_s_low fb) 15"

definition xf_mag :: "long_double_bits \<Rightarrow> real" where
  "xf_mag fb = real (unat (low_all fb)) * 2 powr real_of_int (xf_exponent fb - 63)"

definition xf_trunc :: "long_double_bits \<Rightarrow> int" where
  "xf_trunc fb = (if xf_neg fb then - \<lfloor>xf_mag fb\<rfloor> else \<lfloor>xf_mag fb\<rfloor>)"

text \<open>A normal number has its leading digit set; smaller ones are below 1 and only exist with the least
  exponent.\<close>

definition xf_normal :: "long_double_bits \<Rightarrow> bool" where
  "xf_normal fb \<longleftrightarrow> bit (low_all fb) 63 \<or> xf_exponent fb < 0"

lemma xf_exponent_field: "xf_exponent fb = int (unat (high_s_low fb) mod 2 ^ 15) - 16383"
proof -
  have m: "high_s_low fb AND 0x00007FFF = high_s_low fb AND mask 15" by (simp add: mask_eq_exp_minus_1)
  have "\<not> bit (high_s_low fb AND mask 15) 31" by (simp add: bit_and_iff bit_mask_iff)
  then have "sint (high_s_low fb AND mask 15) = int (unat (high_s_low fb AND mask 15))"
    unfolding sint_uint_cases by (simp only: uint_nat) simp
  then show ?thesis unfolding xf_exponent_def m by (simp only: unat_and_mask)
qed

lemma xf_sign_test: "high_s_low fb AND 0x00008000 = (if xf_neg fb then push_bit 15 1 else 0)"
proof -
  have "high_s_low fb AND push_bit 15 1 = (if xf_neg fb then push_bit 15 1 else 0)"
    by (rule bit_word_eqI) (auto simp: xf_neg_def bit_and_iff bit_push_bit_iff bit_1_iff simp del: push_bit_of_1)
  moreover have "(0x00008000 :: su_int) = push_bit 15 1" by simp
  ultimately show ?thesis by (simp only:)
qed

lemma mag_small:
  assumes "0 \<le> xf_exponent fb" "xf_exponent fb \<le> 63"
  shows "\<lfloor>xf_mag fb\<rfloor> = int (unat (low_all fb) div 2 ^ nat (63 - xf_exponent fb))"
proof -
  define k where "k = nat (63 - xf_exponent fb)"
  have "real_of_int (xf_exponent fb - 63) = - real k" using assms by (simp add: k_def)
  then have "xf_mag fb = real (unat (low_all fb)) / 2 ^ k" by (simp add: xf_mag_def powr_minus powr_realpow divide_inverse)
  also have "\<dots> = real (unat (low_all fb)) / real (2 ^ k)" by simp
  finally have "\<lfloor>xf_mag fb\<rfloor> = int (unat (low_all fb) div 2 ^ k)" by (simp only: floor_divide_of_nat_eq)
  then show ?thesis by (simp only: k_def)
qed

lemma mag_large:
  assumes "63 \<le> xf_exponent fb"
  shows "\<lfloor>xf_mag fb\<rfloor> = int (unat (low_all fb) * 2 ^ nat (xf_exponent fb - 63))"
proof -
  define k where "k = nat (xf_exponent fb - 63)"
  have "real_of_int (xf_exponent fb - 63) = real k" using assms by (simp add: k_def)
  then have "xf_mag fb = real_of_int (int (unat (low_all fb) * 2 ^ k))" by (simp add: xf_mag_def powr_realpow)
  then show ?thesis by (simp only: floor_of_int k_def)
qed

lemma mag_below_one:
  assumes "xf_exponent fb < 0"
  shows "\<lfloor>xf_mag fb\<rfloor> = 0"
proof -
  have "real_of_int (xf_exponent fb - 63) \<le> - 64" using assms by simp
  then have "2 powr real_of_int (xf_exponent fb - 63) \<le> 2 powr (- real 64)" by (intro powr_mono) simp_all
  also have "2 powr (- real 64) = 1 / (2::real) ^ 64" by (simp only: powr_minus powr_realpow divide_inverse mult_1_left)
  finally have p: "2 powr real_of_int (xf_exponent fb - 63) \<le> 1 / (2::real) ^ 64" .
  have "xf_mag fb \<le> real (unat (low_all fb)) * (1 / 2 ^ 64)" unfolding xf_mag_def by (intro mult_left_mono p) simp
  also have "\<dots> < 2 ^ 64 * (1 / 2 ^ 64)"
  proof (rule mult_strict_right_mono)
    have "unat (low_all fb) < 2 ^ 64" using unsigned_less [where ?'a = nat, of "low_all fb"] by simp
    then have "real (unat (low_all fb)) < real (2 ^ 64)" by (simp only: of_nat_less_iff)
    then show "real (unat (low_all fb)) < 2 ^ 64" by simp
  qed simp
  finally have "xf_mag fb < 1" by simp
  moreover have "0 \<le> xf_mag fb" by (simp add: xf_mag_def)
  ultimately show ?thesis by linarith
qed

section \<open>Truncation\<close>

text \<open>The sign mask, and what it does to the magnitude.\<close>

lemma sign_mask_xf:
  assumes "32 \<le> LENGTH('a::len)"
  shows "(scast (- (drop_bit 15 (high_s_low fb AND 0x00008000)) :: si_int) :: 'a word) = (if xf_neg fb then - 1 else 0)"
proof (cases "xf_neg fb")
  case True
  have d: "drop_bit 15 (push_bit 15 1 :: si_int) = 1" by simp
  have "(scast (- 1 :: si_int) :: 'a word) = - 1" using assms by (intro bit_word_eqI) (auto simp: bit_signed_iff)
  then show ?thesis using True unfolding xf_sign_test by (simp only: d if_True)
qed (simp add: xf_sign_test)

lemma xf_apply_sign: "((r :: 'a::len word) XOR (if neg then - 1 else 0)) - (if neg then - 1 else 0) = (if neg then - r else r)"
  by (simp add: not_eq_complement)

lemma signed_result:
  fixes r :: "'a::len word"
  assumes "sfits LENGTH('a) (if neg then - int n else int n)" "unat r = n"
  shows "sint (if neg then - r else r) = (if neg then - int n else int n)"
proof -
  have "of_nat (unat r) = r" by (simp only: of_nat_unat) simp
  then have r: "r = word_of_int (int n)" using assms(2) by simp
  have "(if neg then - r else r) = word_of_int (if neg then - int n else int n)" by (simp add: r)
  then show ?thesis using sint_of_int [OF assms(1)] by (simp only:)
qed

lemma shift_count: "0 \<le> k \<Longrightarrow> k < 2 ^ 31 \<Longrightarrow> unat (word_of_int k :: su_int) = nat k"
  by (subst unat_word_of_int) simp_all

text \<open>The shift that all the routines make, to the left in the wide ones when the exponent says so.\<close>

lemma shift_right_63:
  assumes "0 \<le> xf_exponent fb" "xf_exponent fb \<le> 63"
  shows "unat (c_lshr u (low_all fb) (word_of_int (63 - xf_exponent fb))) = nat \<lfloor>xf_mag fb\<rfloor>"
proof -
  have k: "nat (63 - xf_exponent fb) < LENGTH(64)" using assms by simp
  have c: "unat (word_of_int (63 - xf_exponent fb) :: su_int) = nat (63 - xf_exponent fb)" using assms by (intro shift_count) simp_all
  show ?thesis unfolding c_lshr_def c if_P [OF k] mag_small [OF assms] unat_drop_bit by simp
qed

lemma mag_bound:
  assumes "bit (low_all fb) 63" "n + 63 < xf_exponent fb + 1" "0 \<le> n"
  shows "2 ^ (nat n + 63) \<le> \<lfloor>xf_mag fb\<rfloor>"
proof -
  have m: "\<lfloor>xf_mag fb\<rfloor> = int (unat (low_all fb) * 2 ^ nat (xf_exponent fb - 63))" using assms by (intro mag_large) simp
  have "(2::nat) ^ nat n \<le> 2 ^ nat (xf_exponent fb - 63)" using assms by (intro power_increasing) simp_all
  from mult_le_mono [OF bit_imp_unat_ge [OF assms(1)] this]
  have "2 ^ (nat n + 63) \<le> unat (low_all fb) * 2 ^ nat (xf_exponent fb - 63)" by (simp add: power_add mult.commute)
  then have "int (2 ^ (nat n + 63)) \<le> \<lfloor>xf_mag fb\<rfloor>" unfolding m by (simp only: of_nat_le_iff)
  then show ?thesis by simp
qed

lemma exponent_bound:
  assumes "xf_normal fb" "\<not> xf_exponent fb < 0" "\<lfloor>xf_mag fb\<rfloor> < 2 ^ (n + 63)"
  shows "xf_exponent fb < int n + 63"
proof (rule ccontr)
  assume "\<not> xf_exponent fb < int n + 63"
  then have "2 ^ (nat (int n) + 63) \<le> \<lfloor>xf_mag fb\<rfloor>" using assms(1,2) by (intro mag_bound) (simp_all add: xf_normal_def)
  then show False using assms(3) by simp
qed

lemma shift_wide:
  assumes "0 \<le> xf_exponent fb" "xf_exponent fb \<le> 127" "bit (low_all fb) 63"
  shows "unat (if xf_exponent fb > 63 then c_shl u (ucast (low_all fb) :: ti_int) (word_of_int (xf_exponent fb - 63))
      else c_ashr u (ucast (low_all fb)) (word_of_int (63 - xf_exponent fb))) = nat \<lfloor>xf_mag fb\<rfloor>"
    and "unat (if xf_exponent fb > 63 then c_shl u (ucast (low_all fb) :: ti_int) (word_of_int (xf_exponent fb - 63))
      else c_lshr u (ucast (low_all fb)) (word_of_int (63 - xf_exponent fb))) = nat \<lfloor>xf_mag fb\<rfloor>"
proof -
  have l64: "unat (low_all fb) < 2 ^ 64" using unsigned_less [where ?'a = nat, of "low_all fb"] by simp
  then have "unat (low_all fb) < 2 ^ 128" by simp
  then have l: "unat (ucast (low_all fb) :: ti_int) = unat (low_all fb)" by (simp add: unsigned_ucast_eq take_bit_nat_eq_self)
  have "unat (c_shl u (ucast (low_all fb) :: ti_int) (word_of_int (xf_exponent fb - 63))) = nat \<lfloor>xf_mag fb\<rfloor>" if e: "xf_exponent fb > 63"
  proof -
    define k where "k = nat (xf_exponent fb - 63)"
    have k: "k \<le> 64" "k < LENGTH(128)" using assms(2) by (simp_all add: k_def)
    have c: "unat (word_of_int (xf_exponent fb - 63) :: su_int) = k" unfolding k_def using assms(2) e by (intro shift_count) simp_all
    have "unat (low_all fb) * 2 ^ k < 2 ^ 64 * 2 ^ k" using l64 by simp
    also have "\<dots> \<le> 2 ^ 64 * (2 :: nat) ^ 64" using k by (intro mult_le_mono2 power_increasing) simp_all
    finally have "unat (low_all fb) * 2 ^ k < 2 ^ LENGTH(128)" by simp
    then have "unat (push_bit k (ucast (low_all fb) :: ti_int)) = unat (low_all fb) * 2 ^ k" using unat_push_below [of "ucast (low_all fb) :: ti_int" k] l by simp
    moreover have "\<lfloor>xf_mag fb\<rfloor> = int (unat (low_all fb) * 2 ^ k)" unfolding k_def using e by (intro mag_large) simp
    ultimately show ?thesis unfolding c_shl_def c if_P [OF k(2)] by (simp only: nat_int)
  qed
  moreover have "unat (c_lshr u (ucast (low_all fb) :: ti_int) (word_of_int (63 - xf_exponent fb))) = nat \<lfloor>xf_mag fb\<rfloor>"
    "unat (c_ashr u (ucast (low_all fb) :: ti_int) (word_of_int (63 - xf_exponent fb))) = nat \<lfloor>xf_mag fb\<rfloor>" if e: "\<not> xf_exponent fb > 63"
  proof -
    have k: "nat (63 - xf_exponent fb) < LENGTH(128)" using assms by simp
    have c: "unat (word_of_int (63 - xf_exponent fb) :: su_int) = nat (63 - xf_exponent fb)" using assms e by (intro shift_count) simp_all
    have small: "unat (ucast (low_all fb) :: ti_int) < 2 ^ (LENGTH(128) - 1)" unfolding l using l64 by simp
    have m: "\<lfloor>xf_mag fb\<rfloor> = int (unat (low_all fb) div 2 ^ nat (63 - xf_exponent fb))" using assms e by (intro mag_small) simp_all
    show "unat (c_lshr u (ucast (low_all fb) :: ti_int) (word_of_int (63 - xf_exponent fb))) = nat \<lfloor>xf_mag fb\<rfloor>"
      unfolding c_lshr_def c if_P [OF k] unat_drop_bit l m by simp
    show "unat (c_ashr u (ucast (low_all fb) :: ti_int) (word_of_int (63 - xf_exponent fb))) = nat \<lfloor>xf_mag fb\<rfloor>"
      unfolding c_ashr_def c if_P [OF k] drop_bit_signed [OF small] l m by simp
  qed
  ultimately show "unat (if xf_exponent fb > 63 then c_shl u (ucast (low_all fb) :: ti_int) (word_of_int (xf_exponent fb - 63))
      else c_ashr u (ucast (low_all fb)) (word_of_int (63 - xf_exponent fb))) = nat \<lfloor>xf_mag fb\<rfloor>"
    "unat (if xf_exponent fb > 63 then c_shl u (ucast (low_all fb) :: ti_int) (word_of_int (xf_exponent fb - 63))
      else c_lshr u (ucast (low_all fb)) (word_of_int (63 - xf_exponent fb))) = nat \<lfloor>xf_mag fb\<rfloor>"
    by (auto simp del: of_int_diff)
qed

lemma mag_nonneg: "0 \<le> \<lfloor>xf_mag fb\<rfloor>"
  by (simp add: xf_mag_def)

lemma fix_signed_trunc:
  fixes r :: "'a::len word"
  assumes "sfits LENGTH('a) (xf_trunc fb)" "unat r = nat \<lfloor>xf_mag fb\<rfloor>"
  shows "sint ((r XOR (if xf_neg fb then - 1 else 0)) - (if xf_neg fb then - 1 else 0)) = xf_trunc fb"
proof -
  have t: "xf_trunc fb = (if xf_neg fb then - int (unat r) else int (unat r))" using mag_nonneg by (simp add: xf_trunc_def assms(2))
  show ?thesis unfolding xf_apply_sign t using assms(1) t by (intro signed_result) simp_all
qed

lemma fixxfdi_trunc:
  assumes "xf_normal fb" "sfits 64 (xf_trunc fb)"
  shows "sint (fixxfdi u fb) = xf_trunc fb"
proof (cases "xf_exponent fb < 0")
  case True
  then show ?thesis by (simp add: fixxfdi_def xf_trunc_def mag_below_one)
next
  case False
  have e: "xf_exponent fb \<le> 63"
    using exponent_bound [OF assms(1) False, of 1] assms(2) by (auto simp: xf_trunc_def sfits_def split: if_splits)
  have sm: "(scast (- (drop_bit 15 (high_s_low fb AND 0x00008000)) :: si_int) :: di_int) = (if xf_neg fb then - 1 else 0)"
    by (rule sign_mask_xf) simp
  show ?thesis
    unfolding fixxfdi_def Let_def sm if_not_P [OF False] using assms(2) False e
    by (intro fix_signed_trunc shift_right_63) simp_all
qed

lemma fixxfti_trunc:
  assumes "xf_normal fb" "sfits 128 (xf_trunc fb)"
  shows "sint (fixxfti u fb) = xf_trunc fb"
proof (cases "xf_exponent fb < 0")
  case True
  then show ?thesis by (simp add: fixxfti_def xf_trunc_def mag_below_one)
next
  case False
  have b: "bit (low_all fb) 63" using assms(1) False by (simp add: xf_normal_def)
  have e: "xf_exponent fb \<le> 127"
    using exponent_bound [OF assms(1) False, of 65] assms(2) by (auto simp: xf_trunc_def sfits_def split: if_splits)
  have sm: "(scast (- (drop_bit 15 (high_s_low fb AND 0x00008000)) :: si_int) :: ti_int) = (if xf_neg fb then - 1 else 0)"
    by (rule sign_mask_xf) simp
  show ?thesis
    unfolding fixxfti_def Let_def sm if_not_P [OF False] using assms(2) False e b
    by (intro fix_signed_trunc shift_wide(1)) simp_all
qed

lemma fixuns_negative: "xf_neg fb \<Longrightarrow> fixunsxfsi u fb = 0 \<and> fixunsxfdi u fb = 0 \<and> fixunsxfti u fb = 0"
  by (simp add: fixunsxfsi_def fixunsxfdi_def fixunsxfti_def xf_sign_test Let_def)

lemma fixuns_small: "xf_exponent fb < 0 \<Longrightarrow> fixunsxfsi u fb = 0 \<and> fixunsxfdi u fb = 0 \<and> fixunsxfti u fb = 0"
  by (simp add: fixunsxfsi_def fixunsxfdi_def fixunsxfti_def Let_def)

lemma fixunsxfdi_trunc:
  assumes "xf_normal fb" "xf_trunc fb < 2 ^ 64"
  shows "unat (fixunsxfdi u fb) = nat (xf_trunc fb)"
proof (cases "xf_neg fb \<or> xf_exponent fb < 0")
  case True
  then show ?thesis using fixuns_negative [of fb u] fixuns_small [of fb u] mag_nonneg [of fb] by (auto simp: xf_trunc_def mag_below_one)
next
  case False
  have e: "xf_exponent fb \<le> 63" using exponent_bound [of fb 1] assms False by (simp add: xf_trunc_def)
  show ?thesis using shift_right_63 [of fb u] False e by (simp add: fixunsxfdi_def Let_def xf_sign_test xf_trunc_def del: of_int_diff)
qed

lemma fixunsxfti_trunc:
  assumes "xf_normal fb" "xf_trunc fb < 2 ^ 128"
  shows "unat (fixunsxfti u fb) = nat (xf_trunc fb)"
proof (cases "xf_neg fb \<or> xf_exponent fb < 0")
  case True
  then show ?thesis using fixuns_negative [of fb u] fixuns_small [of fb u] mag_nonneg [of fb] by (auto simp: xf_trunc_def mag_below_one)
next
  case False
  have e: "xf_exponent fb \<le> 127" using exponent_bound [of fb 65] assms False by (simp add: xf_trunc_def)
  have b: "bit (low_all fb) 63" using assms(1) False by (simp add: xf_normal_def)
  show ?thesis using shift_wide(2) [of fb u] False e b by (simp add: fixunsxfti_def Let_def xf_sign_test xf_trunc_def del: of_int_diff)
qed

lemma fixunsxfsi_trunc:
  assumes "xf_normal fb" "xf_trunc fb < 2 ^ 32"
  shows "unat (fixunsxfsi u fb) = nat (xf_trunc fb)"
proof (cases "xf_neg fb \<or> xf_exponent fb < 0")
  case True
  then show ?thesis using fixuns_negative [of fb u] fixuns_small [of fb u] mag_nonneg [of fb] by (auto simp: xf_trunc_def mag_below_one)
next
  case False
  have e: "xf_exponent fb \<le> 31"
  proof (rule ccontr)
    assume n: "\<not> xf_exponent fb \<le> 31"
    have b: "2 ^ 63 \<le> unat (low_all fb)" using assms(1) False bit_imp_unat_ge [of "low_all fb" 63] by (simp add: xf_normal_def)
    show False
    proof (cases "xf_exponent fb \<le> 63")
      case True
      define k where "k = nat (63 - xf_exponent fb)"
      have k: "k \<le> 31" using n by (simp add: k_def)
      have "(2::nat) ^ 63 = 2 ^ (63 - k) * 2 ^ k" using k by (simp add: power_add [symmetric])
      then have "2 ^ (63 - k) \<le> unat (low_all fb) div 2 ^ k" using b by (simp add: less_eq_div_iff_mult_less_eq)
      moreover have "(2::nat) ^ 32 \<le> 2 ^ (63 - k)" using k by (intro power_increasing) simp_all
      ultimately have "2 ^ 32 \<le> unat (low_all fb) div 2 ^ k" by linarith
      then have "int (2 ^ 32) \<le> \<lfloor>xf_mag fb\<rfloor>" using mag_small [of fb] True n by (simp only: k_def of_nat_le_iff)
      then show False using assms(2) False by (simp add: xf_trunc_def)
    next
      case c: False
      then show False using exponent_bound [of fb 1] assms False by (simp add: xf_trunc_def)
    qed
  qed
  define k where "k = nat (31 - xf_exponent fb)"
  have k: "k < LENGTH(32)" using False unfolding k_def by auto
  have c: "unat (word_of_int (31 - xf_exponent fb) :: su_int) = k" unfolding k_def using e False by (intro shift_count) simp_all
  have k63: "nat (63 - xf_exponent fb) = 32 + k" using e by (simp add: k_def)
  have h: "unat (s_high (dwords_of (low_all fb))) = unat (low_all fb) div 2 ^ 32"
    using dw.unat_split [of "low_all fb"] unsigned_less [where ?'a = nat, of "s_low (dwords_of (low_all fb))"] by simp
  have "unat (c_lshr u (s_high (dwords_of (low_all fb))) (word_of_int (31 - xf_exponent fb))) = unat (low_all fb) div 2 ^ 32 div 2 ^ k"
    unfolding c_lshr_def c if_P [OF k] unat_drop_bit h ..
  also have "\<dots> = nat \<lfloor>xf_mag fb\<rfloor>" using mag_small [of fb] False e by (simp add: k63 div_mult2_eq power_add)
  finally show ?thesis using False by (simp add: fixunsxfsi_def Let_def xf_sign_test xf_trunc_def del: of_int_diff)
qed

section \<open>Rounding\<close>

text \<open>The number nearest to \<open>v\<close> among all products of a significand of at most 64 digits and a power of two, the
  even one of two; with the sign of \<open>v\<close> and its leading digit set.\<close>

definition xf_nearest :: "int \<Rightarrow> long_double_bits \<Rightarrow> bool" where
  "xf_nearest v fb \<longleftrightarrow> bit (low_all fb) 63 \<and> (xf_neg fb \<longleftrightarrow> v < 0) \<and>
    (\<forall>m < 2 ^ 64. \<forall>k::int. \<bar>\<bar>real_of_int v\<bar> - xf_mag fb\<bar> \<le> \<bar>\<bar>real_of_int v\<bar> - real m * 2 powr k\<bar> \<and>
      (xf_mag fb \<noteq> real m * 2 powr k \<and> \<bar>\<bar>real_of_int v\<bar> - xf_mag fb\<bar> = \<bar>\<bar>real_of_int v\<bar> - real m * 2 powr k\<bar> \<longrightarrow> even (low_all fb)))"

lemma round_nearest:
  fixes y :: real
  assumes y: "real q \<le> y" "y < real q + 1" and q: "2 ^ 63 \<le> q" and m: "m < 2 ^ 64"
    and r: "r = q + of_bool up" "up \<longleftrightarrow> real q + 1 / 2 < y \<or> y = real q + 1 / 2 \<and> odd q"
    and t: "t = real m * 2 powr real_of_int j"
  shows "\<bar>y - real r\<bar> \<le> \<bar>y - t\<bar>" and "real r \<noteq> t \<Longrightarrow> \<bar>y - real r\<bar> = \<bar>y - t\<bar> \<Longrightarrow> even r"
proof -
  have half: "\<bar>y - real r\<bar> \<le> y - real q" "\<bar>y - real r\<bar> \<le> real q + 1 - y" "\<bar>y - real r\<bar> \<le> 1 / 2"
    using y r by (auto simp: of_bool_def)
  have tie: "even r" if "\<bar>y - real r\<bar> = 1 / 2"
    using that y r by (auto simp: of_bool_def abs_if split: if_splits)
  have "\<bar>y - real r\<bar> \<le> \<bar>y - t\<bar> \<and> (real r \<noteq> t \<longrightarrow> \<bar>y - real r\<bar> = \<bar>y - t\<bar> \<longrightarrow> even r)"
  proof (cases "0 \<le> j")
    case True
    define n where "n = m * 2 ^ nat j"
    have tn: "t = real n" using True unfolding t n_def by (simp add: powr_realpow [symmetric] flip: powr_real_of_int)
    consider "n \<le> q" | "q + 1 \<le> n" by linarith
    then show ?thesis
    proof cases
      case 1
      then have "real n \<le> real q" by simp
      then show ?thesis unfolding tn using half y r tie by (auto simp: of_bool_def abs_if split: if_splits)
    next
      case 2
      then have "real q + 1 \<le> real n" by linarith
      then show ?thesis unfolding tn using half y r tie by (auto simp: of_bool_def abs_if split: if_splits)
    qed
  next
    case False
    have "real_of_int j \<le> - 1" using False by linarith
    then have "2 powr real_of_int j \<le> 2 powr (- 1)" by (intro powr_mono) simp_all
    then have "t \<le> real m * (1 / 2)" unfolding t by (intro mult_left_mono) (simp_all add: powr_minus)
    moreover have "real m < 2 ^ 64" using m by (metis of_nat_less_iff of_nat_numeral of_nat_power)
    moreover have "(2::real) ^ 63 \<le> real q" using q by (metis of_nat_le_iff of_nat_numeral of_nat_power)
    ultimately have "t < real q" by simp
    then show ?thesis using half(1) by (auto simp: abs_if split: if_splits)
  qed
  then show "\<bar>y - real r\<bar> \<le> \<bar>y - t\<bar>" "real r \<noteq> t \<Longrightarrow> \<bar>y - real r\<bar> = \<bar>y - t\<bar> \<Longrightarrow> even r" by blast+
qed

section \<open>From integers\<close>

lemma xf_fields:
  assumes "e < 16384" "sw = (if neg then 0x8000 else 0)"
    and fb: "high_s_low fb = sw OR word_of_int (int e + 16383)"
  shows "xf_exponent fb = int e" "xf_neg fb = neg"
proof -
  have u: "unat (word_of_int (int e + 16383) :: su_int) = e + 16383" using assms(1) by (subst unat_word_of_int) simp_all
  have s: "sw = push_bit 15 (if neg then 1 else 0)" using assms(2) by simp
  define E :: su_int where "E = word_of_int (int e + 16383)"
  have nb: "i < 15" if "bit E i" for i
  proof (rule ccontr)
    assume "\<not> i < 15"
    then have "(2::nat) ^ 15 \<le> 2 ^ i" by (intro power_increasing) simp_all
    moreover have "2 ^ i \<le> e + 16383" using bit_imp_unat_ge [OF that] u unfolding E_def by simp
    ultimately show False using assms(1) by simp
  qed
  have "high_s_low fb AND mask 15 = E"
    unfolding fb s E_def [symmetric] using nb
    by (intro bit_word_eqI) (auto simp: bit_and_iff bit_or_iff bit_mask_iff bit_push_bit_iff)
  then have "unat (high_s_low fb) mod 2 ^ 15 = e + 16383" using u unat_and_mask [of "high_s_low fb" 15] unfolding E_def by simp
  then show "xf_exponent fb = int e" by (simp only: xf_exponent_field)
  show "xf_neg fb = neg" unfolding xf_neg_def fb s E_def [symmetric] using nb [of 15] by (auto simp: bit_or_iff bit_push_bit_iff)
qed

lemma exact_nearest:
  "bit (low_all fb) 63 \<Longrightarrow> xf_neg fb = (v < 0) \<Longrightarrow> xf_mag fb = \<bar>real_of_int v\<bar> \<Longrightarrow> xf_nearest v fb"
  by (auto simp: xf_nearest_def)

lemma digits_nearest:
  fixes a :: ti_int
  assumes a: "2 ^ e \<le> unat a" "unat a < 2 * 2 ^ e" and clz: "clz a = of_nat (LENGTH(128) - 1 - e)"
    and shr: "\<And>n x. unat x < 2 ^ (LENGTH(128) - 1) \<Longrightarrow> unat (shr n x) = unat x div 2 ^ n"
    and v: "\<bar>v\<bar> = int (unat a)" and sw: "sw = (if v < 0 then 0x8000 else 0)"
    and fb: "fb = (case float_digits shr u clz 64 a of (a, e) \<Rightarrow> \<lparr> low_all = ucast a, high_s_low = sw OR word_of_int (e + 16383) \<rparr>)"
  shows "xf_nearest v fb"
proof -
  have "(2::nat) ^ e < 2 ^ 128" using a(1) unsigned_less [where ?'a = nat, of a] by simp
  then have e: "e < 128" by (rule power_less_imp_less_exp [rotated]) simp
  obtain q y up a' e' where d: "float_digits shr u clz (63 + 1) a = (a', int e')"
    and q: "2 ^ 63 \<le> q" "q < 2 * 2 ^ 63" "real q \<le> y" "y < real q + 1" "real (unat a) * 2 ^ 63 = y * 2 ^ e"
    "up \<longleftrightarrow> real q + 1 / 2 < y \<or> y = real q + 1 / 2 \<and> odd q"
    and a': "2 ^ 63 \<le> unat a'" "unat a' < 2 * 2 ^ 63" "e \<le> e'" "e' \<le> e + 1"
    "e' * 2 ^ 63 + unat a' = e * 2 ^ 63 + (q + of_bool up)"
    by (rule float_digits_correct [of e a clz 63 shr u, OF a clz _ _ shr]) simp_all
  define r where "r = q + of_bool up"
  define U where "U = (2::real) powr real_of_int (int e - 63)"
  have U: "0 < U" by (simp add: U_def)
  have f: "fb = \<lparr> low_all = ucast a', high_s_low = sw OR word_of_int (int e' + 16383) \<rparr>" using d fb by simp
  have ex: "xf_exponent fb = int e'" "xf_neg fb = (v < 0)"
    using xf_fields [of e' sw "v < 0" fb] e a'(4) sw f by simp_all
  have low: "unat (low_all fb) = unat a'" using a'(2) by (simp add: f unsigned_ucast_eq take_bit_nat_eq_self)
  have top: "bit (low_all fb) 63" using top_bit_iff [of "low_all fb" 63] low a'(1,2) by simp
  have cases: "e' = e \<and> unat a' = r \<or> e' = e + 1 \<and> unat a' = 2 ^ 63 \<and> r = 2 ^ 64"
  proof (cases "e' = e")
    case True
    then show ?thesis using a'(5) by (simp add: r_def)
  next
    case False
    then have e1: "e' = e + 1" using a'(3,4) by simp
    have "r \<le> 2 ^ 64" using q(2) by (simp add: r_def of_bool_def)
    moreover have "2 ^ 63 + unat a' = r" using a'(5) unfolding e1 r_def by simp
    ultimately show ?thesis using e1 a'(1) by simp
  qed
  have N: "\<bar>real_of_int v\<bar> = y * U"
  proof -
    have "\<bar>real_of_int v\<bar> = real (unat a)" using v by (metis of_int_abs of_int_of_nat_eq)
    moreover have U2: "U = 2 ^ e / 2 ^ 63" by (simp add: U_def powr_diff powr_realpow)
    moreover have "y * U * 2 ^ 63 = y * 2 ^ e" using U2 by simp
    ultimately have "\<bar>real_of_int v\<bar> * 2 ^ 63 = y * U * 2 ^ 63" using q(5) by simp
    then show ?thesis by simp
  qed
  have mag: "xf_mag fb = real r * U"
    using cases
  proof
    assume "e' = e \<and> unat a' = r"
    then show ?thesis by (simp add: xf_mag_def ex low U_def)
  next
    assume c: "e' = e + 1 \<and> unat a' = 2 ^ 63 \<and> r = 2 ^ 64"
    have "real_of_int (int e' - 63) = 1 + real_of_int (int e - 63)" using c by simp
    then have "2 powr real_of_int (int e' - 63) = 2 * U" by (simp only: U_def powr_add) simp
    then show ?thesis using c by (simp add: xf_mag_def ex low)
  qed
  have ev: "even r \<Longrightarrow> even (low_all fb)"
  proof -
    assume "even r"
    then have "even (unat (low_all fb))" using cases unfolding low by auto
    then show "even (low_all fb)" using bit_unsigned_iff [where ?'a = nat, of "low_all fb" 0] by (simp add: bit_0)
  qed
  have cand: "\<bar>\<bar>real_of_int v\<bar> - xf_mag fb\<bar> \<le> \<bar>\<bar>real_of_int v\<bar> - real m * 2 powr k\<bar> \<and>
      (xf_mag fb \<noteq> real m * 2 powr k \<and> \<bar>\<bar>real_of_int v\<bar> - xf_mag fb\<bar> = \<bar>\<bar>real_of_int v\<bar> - real m * 2 powr k\<bar> \<longrightarrow> even (low_all fb))"
    if m: "m < 2 ^ 64" for m and k :: int
  proof -
    define t where "t = real m * 2 powr real_of_int (k - (int e - 63))"
    have c: "real m * 2 powr k = t * U" by (simp add: t_def U_def powr_add [symmetric])
    have dist: "\<bar>y * U - x * U\<bar> = \<bar>y - x\<bar> * U" for x using U by (simp add: left_diff_distrib [symmetric] abs_mult)
    note rn = round_nearest [OF q(3,4,1) m r_def q(6) t_def]
    show ?thesis unfolding N mag c dist using rn U ev by (auto intro: mult_right_mono)
  qed
  show ?thesis unfolding xf_nearest_def using top ex(2) cand by blast
qed

lemma sign_field_xf:
  assumes "32 \<le> LENGTH('a)"
  shows "(ucast (signed_drop_bit (LENGTH('a) - 1) (a :: 'a::len word)) AND 0x8000 :: su_int) = (if sint a < 0 then 0x8000 else 0)"
proof -
  have "(ucast (- 1 :: 'a word) :: su_int) = - 1" using assms by (intro bit_word_eqI) (auto simp: bit_ucast_iff)
  then show ?thesis unfolding sign_mask by (simp add: word_sless_alt)
qed

text \<open>Sixty-four digits fit.\<close>

lemma digits_exact:
  fixes x :: di_int
  assumes x: "x \<noteq> 0" and v: "\<bar>v\<bar> = int (unat x)" and sw: "sw = (if v < 0 then 0x8000 else 0)"
    and fb: "fb = \<lparr> low_all = c_shl u x (builtin_clz u x), high_s_low = sw OR word_of_int ((63 - sint (builtin_clz u x)) + 16383) \<rparr>"
  shows "xf_nearest v fb \<and> xf_mag fb = \<bar>real_of_int v\<bar>"
proof -
  obtain e where e: "2 ^ e \<le> unat x" "unat x < 2 * 2 ^ e" "nlz x = LENGTH(64) - 1 - e" "e < LENGTH(64)"
    by (rule leading_digit [OF x])
  have e64: "e < 64" using e(4) by simp
  define k where "k = 63 - e"
  have k: "k < 64" "k + e = 63" using e64 by (simp_all add: k_def)
  have c: "builtin_clz u x = of_nat k" using x e(3) by (simp add: builtin_clz_def k_def)
  have uk: "unat (of_nat k :: su_int) = k" using k by (simp add: unsigned_of_nat take_bit_nat_eq_self)
  have sk: "sint (of_nat k :: si_int) = int k" using k by (simp add: sint_of_nat_small)
  have p: "(2::nat) ^ 63 = 2 ^ k * 2 ^ e" using k by (simp add: power_add [symmetric])
  have b: "2 ^ 63 \<le> unat x * 2 ^ k" "unat x * 2 ^ k < 2 * 2 ^ 63"
    unfolding p using mult_le_mono1 [OF e(1), of "2 ^ k"] mult_strict_right_mono [OF e(2), of "2 ^ k"] by (simp_all add: mult.commute mult.left_commute)
  have sh: "c_shl u x (builtin_clz u x) = push_bit k x" unfolding c c_shl_def uk using k by simp
  have low: "unat (low_all fb) = unat x * 2 ^ k" unfolding fb using b(2) by (simp add: sh unat_push_below)
  have "high_s_low fb = sw OR word_of_int (int e + 16383)"
  proof -
    have "63 - sint (builtin_clz u x) + 16383 = int e + 16383" unfolding c sk using k by simp
    then show ?thesis by (simp only: fb long_double_bits.select_convs)
  qed
  from xf_fields [OF _ sw this] have ex: "xf_exponent fb = int e" "xf_neg fb = (v < 0)" using e64 by simp_all
  have "real_of_int (int e - 63) = - real k" using k by simp
  then have "xf_mag fb = real (unat x) * 2 ^ k / 2 ^ k" unfolding xf_mag_def ex low by (simp add: powr_minus powr_realpow divide_inverse)
  then have "xf_mag fb = real (unat x)" by simp
  moreover have "\<bar>real_of_int v\<bar> = real (unat x)" using v by (metis of_int_abs of_int_of_nat_eq)
  ultimately have "xf_mag fb = \<bar>real_of_int v\<bar>" by simp
  moreover have "bit (low_all fb) 63" using top_bit_iff [of "low_all fb" 63] b unfolding low by simp
  ultimately show ?thesis using ex(2) by (blast intro: exact_nearest)
qed

text \<open>The four conversions.\<close>

lemma floatdixf_nearest:
  assumes "a \<noteq> 0"
  shows "xf_nearest (sint a) (floatdixf u a) \<and> xf_mag (floatdixf u a) = \<bar>real_of_int (sint a)\<bar>"
proof -
  define x where "x = (if a <s 0 then - a else a)"
  have x: "x \<noteq> 0" "\<bar>sint a\<bar> = int (unat x)" "(a XOR signed_drop_bit (64 - 1) a) - signed_drop_bit (64 - 1) a = x"
    using abs_word [of a] assms by (simp_all add: x_def)
  note sg = sign_field_xf [of a, simplified]
  show ?thesis
    using assms digits_exact [OF x(1,2) refl refl, of u]
    by (simp add: floatdixf_def Let_def x(3) [simplified] sg)
qed

lemma floatundixf_nearest:
  assumes "a \<noteq> 0"
  shows "xf_nearest (uint a) (floatundixf u a) \<and> xf_mag (floatundixf u a) = real_of_int (uint a)"
proof -
  have v: "\<bar>uint a\<bar> = int (unat a)" "\<not> uint a < 0" by (simp_all add: of_nat_unat)
  have r: "\<bar>real_of_int (uint a)\<bar> = real_of_int (uint a)" by (metis abs_of_nonneg of_int_abs unsigned_greater_eq)
  show ?thesis
    using assms digits_exact [OF assms v(1) refl refl, of u] v(2) unfolding r
    by (simp add: floatundixf_def Let_def)
qed

lemma floattixf_nearest:
  assumes "b \<noteq> 0"
  shows "xf_nearest (sint b) (floattixf u b)"
proof -
  define x where "x = (if b <s 0 then - b else b)"
  have x: "x \<noteq> 0" "\<bar>sint b\<bar> = int (unat x)" "(b XOR signed_drop_bit (128 - 1) b) - signed_drop_bit (128 - 1) b = x"
    using abs_word [of b] assms by (simp_all add: x_def)
  obtain e where e: "2 ^ e \<le> unat x" "unat x < 2 * 2 ^ e" "nlz x = LENGTH(128) - 1 - e"
    by (rule leading_digit [OF x(1)])
  have c: "clzti2 u x = of_nat (LENGTH(128) - 1 - e)" using x(1) e(3) by (simp add: clzti2_eq)
  note sg = sign_field_xf [of b, simplified]
  show ?thesis
    using assms digits_nearest [where clz = "clzti2 u" and u = u and shr = signed_drop_bit, OF e(1,2) c drop_bit_signed x(2) refl refl]
    by (simp add: floattixf_def Let_def x(3) [simplified] sg LDBL_MANT_DIG_def)
qed

lemma floatuntixf_nearest:
  assumes "b \<noteq> 0"
  shows "xf_nearest (uint b) (floatuntixf u b)"
proof -
  have v: "\<bar>uint b\<bar> = int (unat b)" "\<not> uint b < 0" by (simp_all add: of_nat_unat)
  obtain e where e: "2 ^ e \<le> unat b" "unat b < 2 * 2 ^ e" "nlz b = LENGTH(128) - 1 - e"
    by (rule leading_digit [OF assms])
  have c: "clzti2 u b = of_nat (LENGTH(128) - 1 - e)" using assms e(3) by (simp add: clzti2_eq)
  show ?thesis
    using assms digits_nearest [where clz = "clzti2 u" and u = u and shr = drop_bit, OF e(1,2) c unat_drop_bit v(1) refl refl] v(2)
    by (simp add: floatuntixf_def LDBL_MANT_DIG_def)
qed

section \<open>The properties\<close>

text \<open>The conversions to integers truncate every normal number whose truncation the type can hold, and the
  unsigned ones send the negative numbers to zero.\<close>

theorem extended_to_integer:
  assumes "xf_normal fb"
  shows "(sfits 64 (xf_trunc fb) \<longrightarrow> sint (fixxfdi u fb) = xf_trunc fb) \<and>
    (sfits 128 (xf_trunc fb) \<longrightarrow> sint (fixxfti u fb) = xf_trunc fb) \<and>
    (xf_trunc fb < 2 ^ 32 \<longrightarrow> unat (fixunsxfsi u fb) = nat (xf_trunc fb)) \<and>
    (xf_trunc fb < 2 ^ 64 \<longrightarrow> unat (fixunsxfdi u fb) = nat (xf_trunc fb)) \<and>
    (xf_trunc fb < 2 ^ 128 \<longrightarrow> unat (fixunsxfti u fb) = nat (xf_trunc fb))"
  using fixxfdi_trunc fixxfti_trunc fixunsxfsi_trunc fixunsxfdi_trunc fixunsxfti_trunc assms by blast

theorem extended_to_integer_witness:
  "sint (fixxfdi (\<lambda>_ _ _ _. 0) \<lparr> low_all = 0xE000000000000000, high_s_low = 0xC001 \<rparr>) = - 7"
proof -
  define fb where "fb = \<lparr> low_all = 0xE000000000000000, high_s_low = 0xC001 \<rparr>"
  have l: "unat (low_all fb) = 0xE000000000000000" by (simp add: fb_def)
  have h: "unat (high_s_low fb) = 0xC001" by (simp add: fb_def)
  have ex: "xf_exponent fb = 2" by (simp only: xf_exponent_field h) simp
  have "xf_neg fb" using bit_unsigned_iff [where ?'a = nat, of "high_s_low fb" 15] unfolding xf_neg_def h by (simp add: bit_iff_odd)
  moreover have "\<lfloor>xf_mag fb\<rfloor> = 7"
  proof -
    have "nat (63 - 2) = 61" by simp
    then show ?thesis using mag_small [of fb] unfolding ex l by simp
  qed
  ultimately have t: "xf_trunc fb = - 7" by (simp add: xf_trunc_def)
  have "xf_normal fb" using top_bit_iff [of "low_all fb" 63] l by (simp add: xf_normal_def)
  from extended_to_integer [OF this, of "\<lambda>_ _ _ _. 0"] have "sfits 64 (- 7) \<longrightarrow> sint (fixxfdi (\<lambda>_ _ _ _. 0) fb) = - 7"
    unfolding t by blast
  then show ?thesis unfolding fb_def by (simp add: sfits_def)
qed

text \<open>C30: The conversions from integers return the nearest extended number, ties to even; those from 64 bits
  are exact.\<close>

theorem integer_to_extended:
  "(a \<noteq> 0 \<longrightarrow> xf_nearest (sint a) (floatdixf u a) \<and> xf_mag (floatdixf u a) = \<bar>real_of_int (sint a)\<bar>) \<and>
    (b \<noteq> 0 \<longrightarrow> xf_nearest (uint b) (floatundixf u b) \<and> xf_mag (floatundixf u b) = real_of_int (uint b)) \<and>
    (c \<noteq> 0 \<longrightarrow> xf_nearest (sint c) (floattixf u c)) \<and> (d \<noteq> 0 \<longrightarrow> xf_nearest (uint d) (floatuntixf u d)) \<and>
    xf_mag (floatdixf u 0) = 0 \<and> xf_mag (floatundixf u 0) = 0 \<and> xf_mag (floattixf u 0) = 0 \<and> xf_mag (floatuntixf u 0) = 0"
  using floatdixf_nearest floatundixf_nearest floattixf_nearest floatuntixf_nearest
  by (simp add: floatdixf_def floatundixf_def floattixf_def floatuntixf_def xf_mag_def xf_zero_def)

theorem integer_to_extended_witness:
  "xf_nearest (sint (5 :: di_int)) (floatdixf (\<lambda>_ _ _ _. 0) 5) \<and> xf_nearest (uint (- 1 :: tu_int)) (floatuntixf (\<lambda>_ _ _ _. 0) (- 1))"
  using integer_to_extended [of "5 :: di_int" "\<lambda>_ _ _ _. 0" "1 :: du_int" "1 :: ti_int" "- 1 :: tu_int"] by simp

end
