(* ===== verification/Float_Ops.thy ===== *)
theory Float_Ops
  imports Fp_Compare Fp_Mul Fp_Div Fp_ToInt Fp_FromInt
begin

unbundle bit_operations_syntax

text \<open>
  The floating-point operators of C as the routines for powers and complex numbers use them, with the
  builtins that \<^verbatim>\<open>lib/int_math.h\<close> names. They are a record of functions, as one text is compiled for
  \<^verbatim>\<open>float\<close>, \<^verbatim>\<open>double\<close> and \<^verbatim>\<open>long double\<close>; on a target without hardware they are the soft-float
  routines of this library, which is the instance here. What the complex routines rely on is a locale, the
  rules of IEEE 754 for special operands, which the instance is shown to obey.
\<close>

section \<open>The operators\<close>

record 'f float_ops =
  fadd :: "'f \<Rightarrow> 'f \<Rightarrow> 'f"
  fsub :: "'f \<Rightarrow> 'f \<Rightarrow> 'f"
  fmul :: "'f \<Rightarrow> 'f \<Rightarrow> 'f"
  fdiv :: "'f \<Rightarrow> 'f \<Rightarrow> 'f"
  feq :: "'f \<Rightarrow> 'f \<Rightarrow> bool"
  fgt :: "'f \<Rightarrow> 'f \<Rightarrow> bool"
  fzero :: 'f
  fone :: 'f
  CRT_INFINITY :: 'f
  crt_isinf :: "'f \<Rightarrow> bool"
  crt_isnan :: "'f \<Rightarrow> bool"
  crt_copysign :: "'f \<Rightarrow> 'f \<Rightarrow> 'f"
  crt_fabs :: "'f \<Rightarrow> 'f"
  crt_fmax :: "'f \<Rightarrow> 'f \<Rightarrow> 'f"
  crt_logb :: "'f \<Rightarrow> 'f"
  crt_scalbn :: "'f \<Rightarrow> si_int \<Rightarrow> 'f"
  fint :: "'f \<Rightarrow> si_int"

definition crt_isfinite :: "'f float_ops \<Rightarrow> 'f \<Rightarrow> bool" where
  "crt_isfinite fo x \<longleftrightarrow> \<not> crt_isinf fo x \<and> \<not> crt_isnan fo x"

section \<open>The rules for special operands\<close>

text \<open>\<open>val\<close> is the number a finite operand stands for.\<close>

locale ieee_ops =
  fixes fo :: "'f float_ops" and val :: "'f \<Rightarrow> real" and neg :: "'f \<Rightarrow> bool"
  assumes inf_not_nan: "crt_isinf fo x \<Longrightarrow> \<not> crt_isnan fo x"
    and mul_nan: "crt_isnan fo x \<or> crt_isnan fo y \<Longrightarrow> crt_isnan fo (fmul fo x y)"
    and mul_finite: "crt_isfinite fo x \<Longrightarrow> crt_isfinite fo y \<Longrightarrow> \<not> crt_isnan fo (fmul fo x y)"
    and mul_sign: "crt_isfinite fo x \<Longrightarrow> crt_isfinite fo y \<Longrightarrow> neg (fmul fo x y) \<longleftrightarrow> neg x \<noteq> neg y"
    and mul_inf: "crt_isinf fo x \<Longrightarrow> crt_isinf fo y \<or> crt_isfinite fo y \<and> val y \<noteq> 0 \<Longrightarrow>
      crt_isinf fo (fmul fo x y) \<and> crt_isinf fo (fmul fo y x)"
    and mul_inf_zero: "crt_isinf fo x \<Longrightarrow> crt_isfinite fo y \<Longrightarrow> val y = 0 \<Longrightarrow>
      crt_isnan fo (fmul fo x y) \<and> crt_isnan fo (fmul fo y x)"
    and mul_exact: "crt_isfinite fo x \<Longrightarrow> crt_isfinite fo y \<Longrightarrow> val x \<in> {- 1, 0, 1} \<Longrightarrow>
      crt_isfinite fo (fmul fo x y) \<and> val (fmul fo x y) = val x * val y"
    and mul_exact': "crt_isfinite fo x \<Longrightarrow> crt_isfinite fo y \<Longrightarrow> val y \<in> {- 1, 0, 1} \<Longrightarrow>
      crt_isfinite fo (fmul fo x y) \<and> val (fmul fo x y) = val x * val y"
    and add_nan: "crt_isnan fo x \<or> crt_isnan fo y \<Longrightarrow> crt_isnan fo (fadd fo x y) \<and> crt_isnan fo (fsub fo x y)"
    and add_inf: "crt_isinf fo x \<Longrightarrow> crt_isfinite fo y \<Longrightarrow>
      crt_isinf fo (fadd fo x y) \<and> crt_isinf fo (fadd fo y x) \<and> crt_isinf fo (fsub fo x y) \<and> crt_isinf fo (fsub fo y x)"
    and add_infs: "crt_isinf fo x \<Longrightarrow> crt_isinf fo y \<Longrightarrow>
      (if neg x = neg y then crt_isinf fo (fadd fo x y) else crt_isnan fo (fadd fo x y)) \<and>
      (if neg x = neg y then crt_isnan fo (fsub fo x y) else crt_isinf fo (fsub fo x y))"
    and add_finite: "crt_isfinite fo x \<Longrightarrow> crt_isfinite fo y \<Longrightarrow> \<not> crt_isnan fo (fadd fo x y) \<and> \<not> crt_isnan fo (fsub fo x y)"
    and add_zero: "crt_isfinite fo x \<Longrightarrow> crt_isfinite fo y \<Longrightarrow>
      (crt_isfinite fo (fadd fo x y) \<and> val (fadd fo x y) = 0 \<longleftrightarrow> val x + val y = 0)"
    and sub_zero: "crt_isfinite fo x \<Longrightarrow> crt_isfinite fo y \<Longrightarrow>
      (crt_isfinite fo (fsub fo x y) \<and> val (fsub fo x y) = 0 \<longleftrightarrow> val x - val y = 0)"
    and add_small: "crt_isfinite fo x \<Longrightarrow> crt_isfinite fo y \<Longrightarrow> val x = 0 \<or> val y = 0 \<Longrightarrow>
      crt_isfinite fo (fadd fo x y) \<and> crt_isfinite fo (fsub fo x y)"
    and div_nan: "crt_isnan fo x \<or> crt_isnan fo y \<Longrightarrow> crt_isnan fo (fdiv fo x y)"
    and div_zeros: "crt_isfinite fo x \<Longrightarrow> val x = 0 \<Longrightarrow> crt_isfinite fo y \<Longrightarrow> val y = 0 \<Longrightarrow> crt_isnan fo (fdiv fo x y)"
    and div_infs: "crt_isinf fo x \<Longrightarrow> crt_isinf fo y \<Longrightarrow> crt_isnan fo (fdiv fo x y)"
    and infinity: "crt_isinf fo (CRT_INFINITY fo)"
    and zero: "crt_isfinite fo (fzero fo)" "val (fzero fo) = 0"
    and one: "crt_isfinite fo (fone fo)" "val (fone fo) = 1"
    and copysign: "crt_isfinite fo x \<Longrightarrow> crt_isfinite fo (crt_copysign fo x y) \<and> val (crt_copysign fo x y) \<in> {- val x, val x}"
    and copysign_inf: "crt_isinf fo x \<Longrightarrow> crt_isinf fo (crt_copysign fo x y)"
    and eq_zero: "feq fo x (fzero fo) \<longleftrightarrow> crt_isfinite fo x \<and> val x = 0"
begin

lemma classes: "crt_isnan fo x \<or> crt_isinf fo x \<or> crt_isfinite fo x"
  by (auto simp: crt_isfinite_def)

lemma finite_not: "crt_isfinite fo x \<Longrightarrow> \<not> crt_isnan fo x \<and> \<not> crt_isinf fo x"
  by (simp add: crt_isfinite_def)

text \<open>A sum one of whose terms is infinite is infinite unless it is a NaN.\<close>

lemma sum_inf: "crt_isinf fo x \<or> crt_isinf fo y \<Longrightarrow> \<not> crt_isnan fo (fadd fo x y) \<Longrightarrow> crt_isinf fo (fadd fo x y)"
  using add_nan [of x y] add_inf [of x y] add_inf [of y x] add_infs [of x y] classes [of x] classes [of y]
  by (auto split: if_splits)

lemma diff_inf: "crt_isinf fo x \<or> crt_isinf fo y \<Longrightarrow> \<not> crt_isnan fo (fsub fo x y) \<Longrightarrow> crt_isinf fo (fsub fo x y)"
  using add_nan [of x y] add_inf [of x y] add_inf [of y x] add_infs [of x y] classes [of x] classes [of y]
  by (auto split: if_splits)

text \<open>A product with an infinity is an infinity or a NaN.\<close>

lemma mul_inf_cases: "crt_isinf fo x \<Longrightarrow> (crt_isinf fo (fmul fo x y) \<or> crt_isnan fo (fmul fo x y)) \<and> (crt_isinf fo (fmul fo y x) \<or> crt_isnan fo (fmul fo y x))"
  using mul_inf [of x y] mul_inf_zero [of x y] mul_nan [of x y] mul_nan [of y x] classes [of y] by blast

lemma unit_inf: "crt_isfinite fo x \<and> val x = 0 \<or> crt_isnan fo x \<or> crt_isinf fo (fmul fo (CRT_INFINITY fo) x)"
  using mul_inf [OF infinity, of x] classes [of x] by blast

end

section \<open>The soft-float instance\<close>

text \<open>Negation, absolute value, \<^verbatim>\<open>copysign\<close>, \<^verbatim>\<open>fmax\<close> and \<^verbatim>\<open>logb\<close> of C on the patterns; \<open>sc\<close> is
  \<^verbatim>\<open>scalbn\<close>, \<open>conv\<close> and \<open>trunc\<close> the conversions between the format and \<^verbatim>\<open>int\<close>.\<close>

definition fp_copysign :: "'r::len word fp_lib \<Rightarrow> 'r word \<Rightarrow> 'r word \<Rightarrow> 'r word" where
  "fp_copysign F x y = (x AND absMask F) OR (y AND signBit F)"

definition fp_fabs :: "'r::len word fp_lib \<Rightarrow> 'r word \<Rightarrow> 'r word" where
  "fp_fabs F x = x AND absMask F"

definition fp_fmax :: "'r::len word fp_lib \<Rightarrow> 'r word \<Rightarrow> 'r word \<Rightarrow> 'r word" where
  "fp_fmax F x y = (if fp_is_nan F x then y else if fp_is_nan F y then x
    else if sint (fp_ge F x y) \<ge> 0 then x else y)"

definition fp_logb :: "'r::len word fp_lib \<Rightarrow> (si_int \<Rightarrow> 'r word) \<Rightarrow> 'r word \<Rightarrow> 'r word" where
  "fp_logb F conv x =
    (if fp_is_nan F x then x
     else if fp_is_inf F x then infRep F
     else if fp_abs x = 0 then infRep F OR signBit F
     else conv (word_of_int (int (floorlog 2 (fp_mag (significandBits F) (fp_abs x)))
       - exponentBias F - int (significandBits F))))"

definition soft_ops ::
    "'r::len word fp_lib \<Rightarrow> ub \<Rightarrow> bool \<Rightarrow> ('r word \<Rightarrow> 'r word \<Rightarrow> 'r word) \<Rightarrow> (si_int \<Rightarrow> 'r word) \<Rightarrow> ('r word \<Rightarrow> si_int) \<Rightarrow>
      ('r word \<Rightarrow> si_int \<Rightarrow> 'r word) \<Rightarrow> 'r word float_ops" where
  "soft_ops F u flush quot conv trunc sc =
    \<lparr> fadd = fp_add F u, fsub = (\<lambda>x y. fp_add F u x (y XOR signBit F)), fmul = fp_mul F u flush, fdiv = fp_div F u quot,
      feq = (\<lambda>x y. fp_le F x y = 0), fgt = (\<lambda>x y. 0 <s fp_ge F x y),
      fzero = 0, fone = oneRep F, CRT_INFINITY = infRep F,
      crt_isinf = fp_is_inf F, crt_isnan = fp_is_nan F, crt_copysign = fp_copysign F, crt_fabs = fp_fabs F,
      crt_fmax = fp_fmax F, crt_logb = fp_logb F conv, crt_scalbn = sc, fint = trunc \<rparr>"

definition soft_double :: "ub \<Rightarrow> (du_int \<Rightarrow> si_int \<Rightarrow> du_int) \<Rightarrow> du_int float_ops" where
  "soft_double u = soft_ops double u True div_quotient_double (floatsidf u) (fixdfsi u)"

definition soft_single :: "ub \<Rightarrow> (su_int \<Rightarrow> si_int \<Rightarrow> su_int) \<Rightarrow> su_int float_ops" where
  "soft_single u = soft_ops single u False div_quotient_single (floatsisf u) (fixsfsi u)"

text \<open>They are the routines that the compiler calls for the operators.\<close>

lemma soft_double_routines:
  "adddf3 u D 0 a b d = Some (fadd (soft_double u sc) a b, d)" "subdf3 u D 0 a b d = Some (fsub (soft_double u sc) a b, d)"
  "muldf3 u D 0 a b d = Some (fmul (soft_double u sc) a b, d)" "divdf3 u D 0 a b d = Some (fdiv (soft_double u sc) a b, d)"
  "feq (soft_double u sc) a b \<longleftrightarrow> eqdf2 a b = 0" "fgt (soft_double u sc) a b \<longleftrightarrow> 0 <s gtdf2 a b"
  by (simp_all add: soft_double_def soft_ops_def adddf3_def subdf3_def muldf3_def divdf3_def eqdf2_def gtdf2_def ledf2_def gedf2_def)

lemma soft_single_routines:
  "addsf3 u D 0 a b d = Some (fadd (soft_single u sc) a b, d)" "subsf3 u D 0 a b d = Some (fsub (soft_single u sc) a b, d)"
  "mulsf3 u D 0 a b d = Some (fmul (soft_single u sc) a b, d)" "divsf3 u D 0 a b d = Some (fdiv (soft_single u sc) a b, d)"
  "feq (soft_single u sc) a b \<longleftrightarrow> eqsf2 a b = 0" "fgt (soft_single u sc) a b \<longleftrightarrow> 0 <s gtsf2 a b"
  by (simp_all add: soft_single_def soft_ops_def addsf3_def subsf3_def mulsf3_def divsf3_def eqsf2_def gtsf2_def lesf2_def gesf2_def)

section \<open>The instance obeys the rules\<close>

context fp_format
begin

lemma nan_iff: "fp_is_nan F x \<longleftrightarrow> \<not> fp_finite F x \<and> \<not> fp_is_inf F x"
  by (auto simp: fp_is_nan_def fp_finite_def fp_is_inf_def)

lemma fp_abs_or: "fp_abs x \<le> fp_abs (x OR y)" for x y :: "'r word"
proof -
  have "(x OR y) AND absMask F = (x AND absMask F) OR (y AND absMask F)" by (rule bit_word_eqI) (auto simp: bit_and_iff bit_or_iff)
  then have "uint ((x OR y) AND absMask F) = uint (x AND absMask F) OR uint (y AND absMask F)" by (simp only: unsigned_or_eq)
  then have "uint (x AND absMask F) \<le> uint ((x OR y) AND absMask F)" by (simp only: or_greater_eq unsigned_greater_eq)
  then show ?thesis unfolding unat_and_absMask [symmetric] by (simp only: word_le_nat_alt [symmetric] word_le_def)
qed

lemma quiet_nan: "fp_is_nan F x \<Longrightarrow> fp_is_nan F (x OR y)"
  using fp_abs_or [of x y] by (simp add: fp_is_nan_def)

lemma qnan_nan: "fp_is_nan F (qnanRep F)"
proof -
  have i: "fp_abs (infRep F) = fp_inf F" using fp_sign_infRep [of False] by simp
  have e: "qnanRep F = infRep F OR quietBit F" by (simp only: qnanRep_def infRep_def)
  have ge: "fp_inf F \<le> fp_abs (qnanRep F)" unfolding e using fp_abs_or [of "infRep F"] by (simp only: i [symmetric])
  have sb: "significandBits F - 1 < LENGTH('r) - 1" "1 \<le> significandBits F" using sb_min width by simp_all
  have "bit (quietBit F) (significandBits F - 1)"
    using sb by (simp add: quietBit_def implicitBit_def bit_drop_bit_eq bit_push_bit_iff bit_1_iff del: push_bit_of_1)
  then have "bit (fp_abs (qnanRep F)) (significandBits F - 1)"
    using sb unfolding e fp_abs_def take_bit_eq_mod [symmetric] by (simp add: bit_take_bit_iff bit_unsigned_iff bit_or_iff)
  moreover have "\<not> bit (fp_inf F) (significandBits F - 1)"
    using sb unfolding fp_inf_def push_bit_eq_mult [symmetric] by (simp add: bit_push_bit_iff)
  ultimately have "fp_abs (qnanRep F) \<noteq> fp_inf F" by metis
  with ge show ?thesis by (simp add: fp_is_nan_def)
qed

text \<open>Results of correctly rounded operations whose exact result is a number of the format, or not zero.\<close>

lemma nearest_finite_exact:
  assumes "fp_finite F y" "\<bar>v\<bar> = \<bar>fp_value F y\<bar>" "fp_nearest F \<bar>v * fp_scale F\<bar> (fp_abs r)"
  shows "fp_abs r = fp_abs y"
proof -
  have "\<bar>v * fp_scale F\<bar> = \<bar>fp_value F y * fp_scale F\<bar>" using assms(2) by (simp add: abs_mult)
  then show ?thesis using fp_value_exact [OF assms(1)] assms(3) fp_nearest_unique by metis
qed

lemma nearest_zero_iff:
  assumes "fp_nearest F \<bar>v * fp_scale F\<bar> (fp_abs r)" and v: "v * fp_scale F \<in> \<int>"
  shows "fp_finite F r \<and> fp_value F r = 0 \<longleftrightarrow> v = 0"
proof
  have s: "0 < fp_scale F" by (simp add: fp_scale_def)
  have m1: "fp_mag (significandBits F) 1 = 1" using sb_min one_less_power [of "2::nat" "significandBits F"] by (simp add: fp_mag_def)
  assume "fp_finite F r \<and> fp_value F r = 0"
  then have "fp_abs r = 0" by (simp add: fp_value_zero_iff)
  then have "2 * \<bar>v * fp_scale F\<bar> \<le> 1"
    using fp_nearest_midpoints(3) [OF assms(1)] fp_inf_pos m1 by simp
  moreover obtain i where "v * fp_scale F = of_int i" using v by (rule Ints_cases)
  ultimately have "i = 0" by (auto simp: abs_if split: if_splits)
  with s show "v = 0" using \<open>v * fp_scale F = of_int i\<close> by simp
next
  assume "v = 0"
  then have "fp_abs r = 0" using assms(1) fp_nearest_exact [of 0 F] fp_nearest_unique by fastforce
  then show "fp_finite F r \<and> fp_value F r = 0" using fp_inf_pos by (simp add: fp_finite_def fp_value_zero_iff)
qed

lemma value_scale_Ints: "fp_value F x * fp_scale F \<in> \<int>"
proof -
  have "fp_scale F \<noteq> 0" by (simp add: fp_scale_def)
  then have "fp_value F x * fp_scale F = (if fp_sign x then - 1 else 1) * real (fp_mag (significandBits F) (fp_abs x))"
    by (simp add: fp_value_def)
  then show ?thesis by simp
qed

lemma fp_value_of: "fp_abs x = fp_abs y \<Longrightarrow> fp_value F x = (if fp_sign x = fp_sign y then fp_value F y else - fp_value F y)"
  by (simp add: fp_value_def)

lemma nearest_not_nan: "fp_nearest F v (fp_abs r) \<Longrightarrow> \<not> fp_is_nan F r"
  using fp_nearest_midpoints(1) [of F v "fp_abs r"] by (simp add: fp_is_nan_def)

lemma fp_value_abs: "\<bar>fp_value F x\<bar> = (if fp_sign x then - fp_value F x else fp_value F x)"
  by (simp add: fp_value_def fp_scale_def)

text \<open>The sum and the difference, \<open>s\<close> being the sign of the second operand's.\<close>

lemma soft_add_special:
  "fp_is_nan F x \<or> fp_is_nan F y \<Longrightarrow> fp_is_nan F (fp_add F u x y)"
  "fp_is_inf F x \<Longrightarrow> fp_finite F y \<Longrightarrow> fp_is_inf F (fp_add F u x y) \<and> fp_is_inf F (fp_add F u y x)"
  "fp_is_inf F x \<Longrightarrow> fp_is_inf F y \<Longrightarrow>
    (if fp_sign x = fp_sign y then fp_is_inf F (fp_add F u x y) else fp_is_nan F (fp_add F u x y))"
  using fp_add_nan [of x y u] fp_add_inf [of x y u] fp_add_inf [of y x u] quiet_nan qnan_nan
  by (auto simp: nan_iff fp_is_inf_def fp_finite_def)

lemma soft_add_finite:
  assumes "fp_finite F x" "fp_finite F y"
  shows "\<not> fp_is_nan F (fp_add F u x y)"
    and "fp_finite F (fp_add F u x y) \<and> fp_value F (fp_add F u x y) = 0 \<longleftrightarrow> fp_value F x + fp_value F y = 0"
    and "fp_value F x = 0 \<or> fp_value F y = 0 \<Longrightarrow> fp_finite F (fp_add F u x y)"
proof -
  note c = fp_add_correct [OF assms, of u]
  show "\<not> fp_is_nan F (fp_add F u x y)" by (rule nearest_not_nan [OF c(1)])
  have "(fp_value F x + fp_value F y) * fp_scale F \<in> \<int>" unfolding distrib_right by (intro Ints_add value_scale_Ints)
  then show "fp_finite F (fp_add F u x y) \<and> fp_value F (fp_add F u x y) = 0 \<longleftrightarrow> fp_value F x + fp_value F y = 0"
    by (rule nearest_zero_iff [OF c(1)])
  assume "fp_value F x = 0 \<or> fp_value F y = 0"
  then obtain z where "fp_finite F z" "fp_value F x + fp_value F y = fp_value F z" using assms by force
  then show "fp_finite F (fp_add F u x y)"
    using nearest_finite_exact [of z "fp_value F x + fp_value F y" "fp_add F u x y"] c(1) by (simp add: fp_finite_def)
qed

lemma soft_mul_finite:
  assumes "fp_finite F x" "fp_finite F y"
  shows "\<not> fp_is_nan F (fp_mul F u flush x y)" and "fp_sign (fp_mul F u flush x y) \<longleftrightarrow> fp_sign x \<noteq> fp_sign y"
    and "fp_value F x \<in> {- 1, 0, 1} \<or> fp_value F y \<in> {- 1, 0, 1} \<Longrightarrow>
      fp_finite F (fp_mul F u flush x y) \<and> fp_value F (fp_mul F u flush x y) = fp_value F x * fp_value F y"
proof -
  note c = fp_mul_correct [OF assms, of u flush]
  show "\<not> fp_is_nan F (fp_mul F u flush x y)" by (rule nearest_not_nan [OF c(1)])
  show s: "fp_sign (fp_mul F u flush x y) \<longleftrightarrow> fp_sign x \<noteq> fp_sign y" using c(2) by simp
  let ?r = "fp_mul F u flush x y"
  assume "fp_value F x \<in> {- 1, 0, 1} \<or> fp_value F y \<in> {- 1, 0, 1}"
  then have "\<exists>z \<in> {x, y, 0}. \<bar>fp_value F x * fp_value F y\<bar> = \<bar>fp_value F z\<bar>"
    by (auto simp: abs_mult fp_value_zero_iff fp_abs_0)
  then obtain z where z: "z \<in> {x, y, 0}" "\<bar>fp_value F x * fp_value F y\<bar> = \<bar>fp_value F z\<bar>" by blast
  then have "fp_finite F z" using assms fp_inf_pos by (auto simp: fp_finite_def fp_abs_0)
  then have e: "fp_abs ?r = fp_abs z" using nearest_finite_exact z(2) c(1) by blast
  then have "\<bar>fp_value F ?r\<bar> = \<bar>fp_value F x * fp_value F y\<bar>" unfolding z(2) by (simp add: fp_value_def)
  then have "fp_value F ?r = fp_value F x * fp_value F y"
    using s fp_value_abs [of ?r] fp_value_abs [of x] fp_value_abs [of y]
    by (auto simp: abs_mult split: if_splits)
  then show "fp_finite F ?r \<and> fp_value F ?r = fp_value F x * fp_value F y"
    using e \<open>fp_finite F z\<close> by (simp add: fp_finite_def)
qed

lemma soft_mul_special:
  "fp_is_nan F x \<or> fp_is_nan F y \<Longrightarrow> fp_is_nan F (fp_mul F u flush x y)"
  "fp_is_inf F x \<Longrightarrow> fp_is_inf F y \<or> fp_finite F y \<and> fp_value F y \<noteq> 0 \<Longrightarrow>
    fp_is_inf F (fp_mul F u flush x y) \<and> fp_is_inf F (fp_mul F u flush y x)"
  "fp_is_inf F x \<Longrightarrow> fp_finite F y \<Longrightarrow> fp_value F y = 0 \<Longrightarrow>
    fp_is_nan F (fp_mul F u flush x y) \<and> fp_is_nan F (fp_mul F u flush y x)"
proof -
  have i: "fp_is_inf F (infRep F OR (if s then signBit F else 0))" for s by (simp add: fp_is_inf_def fp_sign_infRep)
  show "fp_is_nan F x \<or> fp_is_nan F y \<Longrightarrow> fp_is_nan F (fp_mul F u flush x y)"
    using fp_mul_special_result [of x y u flush] quiet_nan [of x "quietBit F"] quiet_nan [of y "quietBit F"] by (auto simp: nan_iff split: if_splits)
  show "fp_is_inf F x \<Longrightarrow> fp_is_inf F y \<or> fp_finite F y \<and> fp_value F y \<noteq> 0 \<Longrightarrow>
    fp_is_inf F (fp_mul F u flush x y) \<and> fp_is_inf F (fp_mul F u flush y x)"
    using fp_mul_special_result [of x y u flush] fp_mul_special_result [of y x u flush] i fp_inf_pos
    by (auto simp: fp_is_nan_def fp_finite_def fp_is_inf_def fp_value_zero_iff)
  show "fp_is_inf F x \<Longrightarrow> fp_finite F y \<Longrightarrow> fp_value F y = 0 \<Longrightarrow>
    fp_is_nan F (fp_mul F u flush x y) \<and> fp_is_nan F (fp_mul F u flush y x)"
    using fp_mul_special_result [of x y u flush] fp_mul_special_result [of y x u flush] qnan_nan
    by (auto simp: nan_iff fp_value_zero_iff fp_finite_def fp_is_inf_def)
qed

lemma soft_copysign: "fp_abs (fp_copysign F x y) = fp_abs x" "fp_sign (fp_copysign F x y) = fp_sign y"
proof -
  have "unat (x AND absMask F) < 2 ^ (LENGTH('r) - 1)" unfolding unat_and_absMask by (rule fp_abs_less)
  from fp_compose [OF this, of "fp_sign y"]
  show "fp_abs (fp_copysign F x y) = fp_abs x" "fp_sign (fp_copysign F x y) = fp_sign y"
    unfolding fp_copysign_def and_signBit unat_and_absMask by blast+
qed

lemma soft_fabs: "fp_abs (fp_fabs F x) = fp_abs x" "\<not> fp_sign (fp_fabs F x)"
proof -
  have "unat (x AND absMask F) < 2 ^ (LENGTH('r) - 1)" unfolding unat_and_absMask by (rule fp_abs_less)
  from fp_compose [OF this, of False]
  show "fp_abs (fp_fabs F x) = fp_abs x" "\<not> fp_sign (fp_fabs F x)"
    unfolding fp_fabs_def unat_and_absMask by simp_all
qed

text \<open>The exponent of the larger one of two zeros, and of an infinity and a finite number.\<close>

lemma soft_logb_zero:
  "fp_abs c = 0 \<Longrightarrow> fp_abs d = 0 \<Longrightarrow> fp_is_inf F (fp_logb F conv (fp_fmax F (fp_fabs F c) (fp_fabs F d)))"
  using fp_inf_pos fp_sign_infRep(1) [of True] by (simp add: fp_logb_def fp_fmax_def fp_is_nan_def fp_is_inf_def soft_fabs)

lemma soft_logb_inf:
  assumes "fp_is_inf F c \<and> fp_finite F d \<or> fp_finite F c \<and> fp_is_inf F d"
  shows "fp_logb F conv (fp_fmax F (fp_fabs F c) (fp_fabs F d)) = infRep F"
proof -
  let ?c = "fp_fabs F c" and ?d = "fp_fabs F d"
  have nn: "\<not> fp_is_nan F ?c" "\<not> fp_is_nan F ?d"
    using assms by (auto simp: fp_is_nan_def soft_fabs fp_is_inf_def fp_finite_def)
  have v: "fp_value F ?c < fp_value F ?d \<longleftrightarrow> fp_abs c < fp_abs d" "fp_value F ?d < fp_value F ?c \<longleftrightarrow> fp_abs d < fp_abs c"
    by (simp_all add: fp_value_def soft_fabs fp_scale_def divide_less_cancel fp_mag_less_iff)
  have "fp_fmax F ?c ?d = (if fp_is_inf F c then ?c else ?d)"
    using assms nn fp_cmp_eq [OF nn] v by (auto simp: fp_fmax_def fp_is_inf_def fp_finite_def)
  then have "fp_is_inf F (fp_fmax F ?c ?d)" using assms by (auto simp: fp_is_inf_def soft_fabs)
  then show ?thesis by (simp add: fp_logb_def nan_iff)
qed

lemma soft_inf_positive: "0 <s fp_ge F (infRep F) 0" "fp_is_inf F (infRep F)"
proof -
  have i: "fp_abs (infRep F) = fp_inf F" "\<not> fp_sign (infRep F)" using fp_sign_infRep [of False] by simp_all
  have nn: "\<not> fp_is_nan F (infRep F)" "\<not> fp_is_nan F 0" using fp_inf_pos by (simp_all add: fp_is_nan_def i fp_abs_0)
  have "0 < fp_value F (infRep F)" "fp_value F 0 = 0"
    using fp_inf_pos fp_mag_mono [of 0 "fp_inf F" "significandBits F"] by (simp_all add: fp_value_def i fp_abs_0 fp_scale_def)
  then show "0 <s fp_ge F (infRep F) 0" using fp_cmp_eq [OF nn] by (simp add: word_sless_alt)
  show "fp_is_inf F (infRep F)" by (simp add: fp_is_inf_def i)
qed

end

context fp_divider
begin

lemma soft_div_special:
  "fp_is_nan F x \<or> fp_is_nan F y \<Longrightarrow> fp_is_nan F (fp_div F u quot x y)"
  "fp_finite F x \<Longrightarrow> fp_value F x = 0 \<Longrightarrow> fp_finite F y \<Longrightarrow> fp_value F y = 0 \<Longrightarrow> fp_is_nan F (fp_div F u quot x y)"
  "fp_is_inf F x \<Longrightarrow> fp_is_inf F y \<Longrightarrow> fp_is_nan F (fp_div F u quot x y)"
proof -
  note d = fp_div_special_result [of x y u, unfolded Let_def]
  have n: "\<not> fp_is_nan F w" if "fp_finite F w \<or> fp_is_inf F w" for w using that by (simp add: nan_iff)
  show "fp_is_nan F x \<or> fp_is_nan F y \<Longrightarrow> fp_is_nan F (fp_div F u quot x y)"
    using d n [of x] n [of y] quiet_nan [of x "quietBit F"] quiet_nan [of y "quietBit F"] nan_iff [of x] nan_iff [of y] by (cases "fp_is_nan F x") auto
  show "fp_finite F x \<Longrightarrow> fp_value F x = 0 \<Longrightarrow> fp_finite F y \<Longrightarrow> fp_value F y = 0 \<Longrightarrow> fp_is_nan F (fp_div F u quot x y)"
    using d n [of x] n [of y] qnan_nan by (simp add: fp_value_zero_iff)
  show "fp_is_inf F x \<Longrightarrow> fp_is_inf F y \<Longrightarrow> fp_is_nan F (fp_div F u quot x y)"
    using d n [of x] n [of y] qnan_nan by (simp add: fp_finite_def fp_is_inf_def)
qed

lemma soft_ieee:
  assumes one: "fp_finite F (oneRep F)" "fp_value F (oneRep F) = 1"
  shows "ieee_ops (soft_ops F u flush quot conv trunc sc) (fp_value F) fp_sign"
proof -
  let ?O = "soft_ops F u flush quot conv trunc sc"
  have fin: "crt_isfinite ?O x \<longleftrightarrow> fp_finite F x" for x
    by (auto simp: crt_isfinite_def soft_ops_def nan_iff fp_finite_def fp_is_inf_def)
  note sel = fin soft_ops_def float_ops.select_convs
  note add = soft_add_special soft_add_finite xor_signBit
  have infx: "fp_is_inf F (y XOR signBit F) \<longleftrightarrow> fp_is_inf F y" "fp_is_nan F (y XOR signBit F) \<longleftrightarrow> fp_is_nan F y" for y
    by (simp_all add: fp_is_inf_def fp_is_nan_def xor_signBit)
  have i: "fp_is_inf F (infRep F)" using fp_sign_infRep(1) [of False] by (simp add: fp_is_inf_def)
  show ?thesis
  proof
    show "crt_isinf ?O x \<Longrightarrow> \<not> crt_isnan ?O x" for x by (simp add: soft_ops_def nan_iff)
    show "crt_isnan ?O x \<or> crt_isnan ?O y \<Longrightarrow> crt_isnan ?O (fmul ?O x y)" for x y by (simp add: soft_ops_def soft_mul_special)
    show "crt_isfinite ?O x \<Longrightarrow> crt_isfinite ?O y \<Longrightarrow> \<not> crt_isnan ?O (fmul ?O x y)" for x y
      unfolding fin by (simp add: soft_ops_def soft_mul_finite)
    show "crt_isfinite ?O x \<Longrightarrow> crt_isfinite ?O y \<Longrightarrow> fp_sign (fmul ?O x y) \<longleftrightarrow> fp_sign x \<noteq> fp_sign y" for x y
      unfolding fin by (simp add: soft_ops_def soft_mul_finite)
    show "crt_isinf ?O x \<Longrightarrow> crt_isinf ?O y \<or> crt_isfinite ?O y \<and> fp_value F y \<noteq> 0 \<Longrightarrow>
      crt_isinf ?O (fmul ?O x y) \<and> crt_isinf ?O (fmul ?O y x)" for x y
      unfolding fin by (simp add: soft_ops_def soft_mul_special)
    show "crt_isinf ?O x \<Longrightarrow> crt_isfinite ?O y \<Longrightarrow> fp_value F y = 0 \<Longrightarrow>
      crt_isnan ?O (fmul ?O x y) \<and> crt_isnan ?O (fmul ?O y x)" for x y
      unfolding fin by (simp add: soft_ops_def soft_mul_special)
    show "crt_isfinite ?O x \<Longrightarrow> crt_isfinite ?O y \<Longrightarrow> fp_value F x \<in> {- 1, 0, 1} \<Longrightarrow>
      crt_isfinite ?O (fmul ?O x y) \<and> fp_value F (fmul ?O x y) = fp_value F x * fp_value F y" for x y
      unfolding fin using soft_mul_finite(3) [of x y u flush] by (simp add: soft_ops_def)
    show "crt_isfinite ?O x \<Longrightarrow> crt_isfinite ?O y \<Longrightarrow> fp_value F y \<in> {- 1, 0, 1} \<Longrightarrow>
      crt_isfinite ?O (fmul ?O x y) \<and> fp_value F (fmul ?O x y) = fp_value F x * fp_value F y" for x y
      unfolding fin using soft_mul_finite(3) [of x y u flush] by (simp add: soft_ops_def)
    show "crt_isnan ?O x \<or> crt_isnan ?O y \<Longrightarrow> crt_isnan ?O (fadd ?O x y) \<and> crt_isnan ?O (fsub ?O x y)" for x y
      by (auto simp: soft_ops_def infx intro!: soft_add_special(1))
    show "crt_isinf ?O x \<Longrightarrow> crt_isfinite ?O y \<Longrightarrow>
      crt_isinf ?O (fadd ?O x y) \<and> crt_isinf ?O (fadd ?O y x) \<and> crt_isinf ?O (fsub ?O x y) \<and> crt_isinf ?O (fsub ?O y x)" for x y
      unfolding fin using soft_add_special(2) [of "x XOR signBit F" y u]
      by (simp add: soft_ops_def soft_add_special xor_signBit infx)
    show "crt_isinf ?O x \<Longrightarrow> crt_isinf ?O y \<Longrightarrow>
      (if fp_sign x = fp_sign y then crt_isinf ?O (fadd ?O x y) else crt_isnan ?O (fadd ?O x y)) \<and>
      (if fp_sign x = fp_sign y then crt_isnan ?O (fsub ?O x y) else crt_isinf ?O (fsub ?O x y))" for x y
      using soft_add_special(3) [of x y u] soft_add_special(3) [of x "y XOR signBit F" u]
      by (simp add: soft_ops_def xor_signBit infx)
    show "crt_isfinite ?O x \<Longrightarrow> crt_isfinite ?O y \<Longrightarrow> \<not> crt_isnan ?O (fadd ?O x y) \<and> \<not> crt_isnan ?O (fsub ?O x y)" for x y
      unfolding fin by (simp add: soft_ops_def soft_add_finite xor_signBit)
    show "crt_isfinite ?O x \<Longrightarrow> crt_isfinite ?O y \<Longrightarrow>
      (crt_isfinite ?O (fadd ?O x y) \<and> fp_value F (fadd ?O x y) = 0 \<longleftrightarrow> fp_value F x + fp_value F y = 0)" for x y
      unfolding fin using soft_add_finite(2) [of x y u] by (simp add: soft_ops_def)
    show "crt_isfinite ?O x \<Longrightarrow> crt_isfinite ?O y \<Longrightarrow>
      (crt_isfinite ?O (fsub ?O x y) \<and> fp_value F (fsub ?O x y) = 0 \<longleftrightarrow> fp_value F x - fp_value F y = 0)" for x y
      unfolding fin using soft_add_finite(2) [of x "y XOR signBit F" u] by (simp add: soft_ops_def xor_signBit)
    show "crt_isfinite ?O x \<Longrightarrow> crt_isfinite ?O y \<Longrightarrow> fp_value F x = 0 \<or> fp_value F y = 0 \<Longrightarrow>
      crt_isfinite ?O (fadd ?O x y) \<and> crt_isfinite ?O (fsub ?O x y)" for x y
      unfolding fin using soft_add_finite(3) [of x y u] soft_add_finite(3) [of x "y XOR signBit F" u] by (simp add: soft_ops_def xor_signBit)
    show "crt_isnan ?O x \<or> crt_isnan ?O y \<Longrightarrow> crt_isnan ?O (fdiv ?O x y)" for x y by (simp add: soft_ops_def soft_div_special)
    show "crt_isfinite ?O x \<Longrightarrow> fp_value F x = 0 \<Longrightarrow> crt_isfinite ?O y \<Longrightarrow> fp_value F y = 0 \<Longrightarrow> crt_isnan ?O (fdiv ?O x y)" for x y
      unfolding fin by (simp add: soft_ops_def soft_div_special)
    show "crt_isinf ?O x \<Longrightarrow> crt_isinf ?O y \<Longrightarrow> crt_isnan ?O (fdiv ?O x y)" for x y by (simp add: soft_ops_def soft_div_special)
    show "crt_isinf ?O (CRT_INFINITY ?O)" by (simp add: soft_ops_def i)
    show "crt_isfinite ?O (fzero ?O)" "fp_value F (fzero ?O) = 0" unfolding fin using fp_inf_pos
      by (simp_all add: soft_ops_def fp_finite_def fp_abs_0 fp_value_zero_iff)
    show "crt_isfinite ?O (fone ?O)" "fp_value F (fone ?O) = 1" unfolding fin using one by (simp_all add: soft_ops_def)
    show "crt_isfinite ?O x \<Longrightarrow> crt_isfinite ?O (crt_copysign ?O x y) \<and> fp_value F (crt_copysign ?O x y) \<in> {- fp_value F x, fp_value F x}" for x y
      unfolding fin using fp_value_of [of "fp_copysign F x y" x] by (simp add: soft_ops_def fp_finite_def soft_copysign)
    show "crt_isinf ?O x \<Longrightarrow> crt_isinf ?O (crt_copysign ?O x y)" for x y by (simp add: soft_ops_def fp_is_inf_def soft_copysign)
    show "feq ?O x (fzero ?O) \<longleftrightarrow> crt_isfinite ?O x \<and> fp_value F x = 0" for x
    proof -
      have z: "\<not> fp_is_nan F 0" "fp_value F 0 = 0" using fp_inf_pos by (simp_all add: fp_is_nan_def fp_abs_0 fp_value_zero_iff)
      have "fp_value F x = 0 \<Longrightarrow> fp_finite F x" using fp_inf_pos by (simp add: fp_value_zero_iff fp_finite_def)
      moreover have "fp_le F x 0 = 0 \<longleftrightarrow> fp_value F x = 0 \<and> \<not> fp_is_nan F x"
        using fp_cmp_eq(1) [of x 0, OF _ z(1)] fp_cmp_nan(1) [of x 0] unfolding z(2)
        by (cases "fp_is_nan F x"; cases "fp_value F x" "0 :: real" rule: linorder_cases) simp_all
      ultimately show ?thesis unfolding fin by (auto simp: soft_ops_def nan_iff)
    qed
  qed
qed

end

text \<open>The two formats.\<close>

lemma one_double: "oneRep double = 0x3FF0000000000000" "fp_finite double 0x3FF0000000000000" "fp_value double 0x3FF0000000000000 = 1"
proof -
  have a: "fp_abs (0x3FF0000000000000 :: du_int) = 1023 * 2 ^ 52 + 0" "\<not> fp_sign (0x3FF0000000000000 :: du_int)" by (simp_all add: fp_abs_def fp_sign_def bit_iff_odd)
  show "oneRep double = 0x3FF0000000000000" by (simp add: oneRep_def format_biases format_numbers)
  show "fp_finite double 0x3FF0000000000000" by (simp add: fp_eval)
  show "fp_value double 0x3FF0000000000000 = 1" unfolding fp_value_def a(1) by (simp add: a fp_mag_def format_numbers)
qed

lemma one_single: "oneRep single = 0x3F800000" "fp_finite single 0x3F800000" "fp_value single 0x3F800000 = 1"
proof -
  have a: "fp_abs (0x3F800000 :: su_int) = 127 * 2 ^ 23 + 0" "\<not> fp_sign (0x3F800000 :: su_int)" by (simp_all add: fp_abs_def fp_sign_def bit_iff_odd)
  show "oneRep single = 0x3F800000" by (simp add: oneRep_def format_biases format_numbers)
  show "fp_finite single 0x3F800000" by (simp add: fp_eval)
  show "fp_value single 0x3F800000 = 1" unfolding fp_value_def a(1) by (simp add: a fp_mag_def format_numbers)
qed

lemma soft_double_ieee: "ieee_ops (soft_double u sc) (fp_value double) fp_sign"
  unfolding soft_double_def by (rule dbl_div.soft_ieee) (simp_all only: one_double)

lemma soft_single_ieee: "ieee_ops (soft_single u sc) (fp_value single) fp_sign"
  unfolding soft_single_def by (rule sgl_div.soft_ieee) (simp_all only: one_single)

interpretation soft_dbl: ieee_ops "soft_double u sc" "fp_value double" fp_sign for u sc by (rule soft_double_ieee)

interpretation soft_sgl: ieee_ops "soft_single u sc" "fp_value single" fp_sign for u sc by (rule soft_single_ieee)

end
