(* ===== verification/Complex_Arith.thy ===== *)
theory Complex_Arith
  imports Float_Ops
begin

text \<open>
  Multiplication and division of complex numbers: \<^verbatim>\<open>lib/mulsc3.c\<close>, \<^verbatim>\<open>muldc3.c\<close>, \<^verbatim>\<open>mulxc3.c\<close> and
  \<^verbatim>\<open>lib/divsc3.c\<close>, \<^verbatim>\<open>divdc3.c\<close>, \<^verbatim>\<open>divxc3.c\<close>. The three texts of each operation differ only in the type, so
  they are one definition over the operators of the type. A result is the pair of its real and its
  imaginary part; the C variables that are assigned again are bound again.
\<close>

section \<open>The code\<close>

definition recover :: "'f float_ops \<Rightarrow> 'f \<Rightarrow> 'f" where
  "recover fo x = crt_copysign fo (if crt_isinf fo x then fone fo else fzero fo) x"

definition nan_to_zero :: "'f float_ops \<Rightarrow> 'f \<Rightarrow> 'f" where
  "nan_to_zero fo x = (if crt_isnan fo x then crt_copysign fo (fzero fo) x else x)"

definition mul_complex :: "'f float_ops \<Rightarrow> 'f \<Rightarrow> 'f \<Rightarrow> 'f \<Rightarrow> 'f \<Rightarrow> 'f \<times> 'f" where
  "mul_complex fo a b c d =
    (let ac = fmul fo a c;
         bd = fmul fo b d;
         ad = fmul fo a d;
         bc = fmul fo b c;
         re = fsub fo ac bd;
         im = fadd fo ad bc
     in if crt_isnan fo re \<and> crt_isnan fo im then
          let recalc = False;
              (a, b, c, d, recalc) =
                (if crt_isinf fo a \<or> crt_isinf fo b
                 then (recover fo a, recover fo b, nan_to_zero fo c, nan_to_zero fo d, True)
                 else (a, b, c, d, recalc));
              (a, b, c, d, recalc) =
                (if crt_isinf fo c \<or> crt_isinf fo d
                 then (nan_to_zero fo a, nan_to_zero fo b, recover fo c, recover fo d, True)
                 else (a, b, c, d, recalc));
              (a, b, c, d, recalc) =
                (if \<not> recalc \<and> (crt_isinf fo ac \<or> crt_isinf fo bd \<or> crt_isinf fo ad \<or> crt_isinf fo bc)
                 then (nan_to_zero fo a, nan_to_zero fo b, nan_to_zero fo c, nan_to_zero fo d, True)
                 else (a, b, c, d, recalc))
          in if recalc then
               (fmul fo (CRT_INFINITY fo) (fsub fo (fmul fo a c) (fmul fo b d)),
                fmul fo (CRT_INFINITY fo) (fadd fo (fmul fo a d) (fmul fo b c)))
             else (re, im)
        else (re, im))"

definition muldc3 :: "du_int float_ops \<Rightarrow> du_int \<Rightarrow> du_int \<Rightarrow> du_int \<Rightarrow> du_int \<Rightarrow> du_int \<times> du_int" where
  "muldc3 = mul_complex"

definition mulsc3 :: "su_int float_ops \<Rightarrow> su_int \<Rightarrow> su_int \<Rightarrow> su_int \<Rightarrow> su_int \<Rightarrow> su_int \<times> su_int" where
  "mulsc3 = mul_complex"

definition mulxc3 :: "'x float_ops \<Rightarrow> 'x \<Rightarrow> 'x \<Rightarrow> 'x \<Rightarrow> 'x \<Rightarrow> 'x \<times> 'x" where
  "mulxc3 = mul_complex"

definition div_complex :: "'f float_ops \<Rightarrow> 'f \<Rightarrow> 'f \<Rightarrow> 'f \<Rightarrow> 'f \<Rightarrow> 'f \<times> 'f" where
  "div_complex fo a b c d =
    (let ilogbw = 0;
         logbw = crt_logb fo (crt_fmax fo (crt_fabs fo c) (crt_fabs fo d));
         (ilogbw, c, d) =
           (if crt_isfinite fo logbw
            then let ilogbw = fint fo logbw in (ilogbw, crt_scalbn fo c (- ilogbw), crt_scalbn fo d (- ilogbw))
            else (ilogbw, c, d));
         denom = fadd fo (fmul fo c c) (fmul fo d d);
         re = crt_scalbn fo (fdiv fo (fadd fo (fmul fo a c) (fmul fo b d)) denom) (- ilogbw);
         im = crt_scalbn fo (fdiv fo (fsub fo (fmul fo b c) (fmul fo a d)) denom) (- ilogbw)
     in if crt_isnan fo re \<and> crt_isnan fo im then
          if feq fo denom (fzero fo) \<and> (\<not> crt_isnan fo a \<or> \<not> crt_isnan fo b) then
            (fmul fo (crt_copysign fo (CRT_INFINITY fo) c) a, fmul fo (crt_copysign fo (CRT_INFINITY fo) c) b)
          else if (crt_isinf fo a \<or> crt_isinf fo b) \<and> crt_isfinite fo c \<and> crt_isfinite fo d then
            let a = recover fo a;
                b = recover fo b
            in (fmul fo (CRT_INFINITY fo) (fadd fo (fmul fo a c) (fmul fo b d)),
                fmul fo (CRT_INFINITY fo) (fsub fo (fmul fo b c) (fmul fo a d)))
          else if crt_isinf fo logbw \<and> fgt fo logbw (fzero fo) \<and> crt_isfinite fo a \<and> crt_isfinite fo b then
            let c = recover fo c;
                d = recover fo d
            in (fmul fo (fzero fo) (fadd fo (fmul fo a c) (fmul fo b d)),
                fmul fo (fzero fo) (fsub fo (fmul fo b c) (fmul fo a d)))
          else (re, im)
        else (re, im))"

definition divdc3 :: "du_int float_ops \<Rightarrow> du_int \<Rightarrow> du_int \<Rightarrow> du_int \<Rightarrow> du_int \<Rightarrow> du_int \<times> du_int" where
  "divdc3 = div_complex"

definition divsc3 :: "su_int float_ops \<Rightarrow> su_int \<Rightarrow> su_int \<Rightarrow> su_int \<Rightarrow> su_int \<Rightarrow> su_int \<times> su_int" where
  "divsc3 = div_complex"

definition divxc3 :: "'x float_ops \<Rightarrow> 'x \<Rightarrow> 'x \<Rightarrow> 'x \<Rightarrow> 'x \<Rightarrow> 'x \<times> 'x" where
  "divxc3 = div_complex"

section \<open>Infinities and zeros\<close>

text \<open>A complex number is infinite if either part is, even beside a NaN.\<close>

definition cinf :: "'f float_ops \<Rightarrow> 'f \<Rightarrow> 'f \<Rightarrow> bool" where
  "cinf fo a b \<longleftrightarrow> crt_isinf fo a \<or> crt_isinf fo b"

definition cfinite :: "'f float_ops \<Rightarrow> 'f \<Rightarrow> 'f \<Rightarrow> bool" where
  "cfinite fo a b \<longleftrightarrow> crt_isfinite fo a \<and> crt_isfinite fo b"

text \<open>It is nonzero if a part is infinite or a number other than zero.\<close>

definition cnonzero :: "'f float_ops \<Rightarrow> ('f \<Rightarrow> real) \<Rightarrow> 'f \<Rightarrow> 'f \<Rightarrow> bool" where
  "cnonzero fo val a b \<longleftrightarrow> crt_isinf fo a \<or> crt_isinf fo b \<or>
    crt_isfinite fo a \<and> val a \<noteq> 0 \<or> crt_isfinite fo b \<and> val b \<noteq> 0"

context ieee_ops
begin

lemma recover_unit:
  "crt_isfinite fo (recover fo x)" "crt_isinf fo x \<Longrightarrow> val (recover fo x) \<in> {- 1, 1}"
  "\<not> crt_isinf fo x \<Longrightarrow> val (recover fo x) = 0" "val (recover fo x) \<in> {- 1, 0, 1}"
  using copysign [OF one(1), of x] copysign [OF zero(1), of x] by (auto simp: recover_def one zero)

lemma nan_to_zero_finite:
  "\<not> crt_isinf fo x \<Longrightarrow> crt_isfinite fo (nan_to_zero fo x)" "crt_isfinite fo x \<Longrightarrow> nan_to_zero fo x = x"
  "crt_isnan fo x \<Longrightarrow> val (nan_to_zero fo x) = 0" "crt_isinf fo x \<Longrightarrow> nan_to_zero fo x = x"
  using copysign [OF zero(1), of x] by (auto simp: nan_to_zero_def zero crt_isfinite_def inf_not_nan)

lemma nan_to_zero_inf: "crt_isinf fo (nan_to_zero fo x) \<longleftrightarrow> crt_isinf fo x"
  using nan_to_zero_finite [of x] classes [of x] by (auto simp: crt_isfinite_def)

text \<open>The sums that are multiplied by infinity cannot both vanish: \<open>(p, q)\<close> has parts among \<open>-1\<close>, \<open>0\<close>, \<open>1\<close>,
  and neither factor is zero.\<close>

lemma real_product_nonzero:
  fixes p q r s :: real
  assumes "p \<noteq> 0 \<or> q \<noteq> 0" "r \<noteq> 0 \<or> s \<noteq> 0" "p * r - q * s = 0"
  shows "p * s + q * r \<noteq> 0"
proof
  assume "p * s + q * r = 0"
  then have "(p ^ 2 + q ^ 2) * (r ^ 2 + s ^ 2) = 0"
    using assms(3) by (simp add: power2_eq_square algebra_simps) algebra
  then show False using assms(1,2) by (auto simp: sum_power2_eq_zero_iff)
qed

lemma scaled_product_infinite:
  assumes fin: "crt_isfinite fo p" "crt_isfinite fo q" "crt_isfinite fo r" "crt_isfinite fo s"
    and unit: "val p \<in> {- 1, 0, 1} \<and> val q \<in> {- 1, 0, 1} \<or> val r \<in> {- 1, 0, 1} \<and> val s \<in> {- 1, 0, 1}"
    and nz: "val p \<noteq> 0 \<or> val q \<noteq> 0" "val r \<noteq> 0 \<or> val s \<noteq> 0"
  shows "cinf fo (fmul fo (CRT_INFINITY fo) (fsub fo (fmul fo p r) (fmul fo q s)))
    (fmul fo (CRT_INFINITY fo) (fadd fo (fmul fo p s) (fmul fo q r)))"
proof -
  have m: "crt_isfinite fo (fmul fo p r) \<and> val (fmul fo p r) = val p * val r"
    "crt_isfinite fo (fmul fo q s) \<and> val (fmul fo q s) = val q * val s"
    "crt_isfinite fo (fmul fo p s) \<and> val (fmul fo p s) = val p * val s"
    "crt_isfinite fo (fmul fo q r) \<and> val (fmul fo q r) = val q * val r"
    using unit mul_exact mul_exact' fin by blast+
  have "\<not> (val p * val r - val q * val s = 0 \<and> val p * val s + val q * val r = 0)"
    using real_product_nonzero [OF nz] by blast
  then have "\<not> (crt_isfinite fo (fsub fo (fmul fo p r) (fmul fo q s)) \<and> val (fsub fo (fmul fo p r) (fmul fo q s)) = 0) \<or>
    \<not> (crt_isfinite fo (fadd fo (fmul fo p s) (fmul fo q r)) \<and> val (fadd fo (fmul fo p s) (fmul fo q r)) = 0)"
    using sub_zero add_zero m by auto
  then show ?thesis using add_finite m unit_inf unfolding cinf_def by blast
qed

text \<open>The parts of the product that are not NaNs.\<close>

lemma product_parts:
  assumes "cinf fo a b \<or> cinf fo c d"
  shows "\<not> crt_isnan fo (fsub fo (fmul fo a c) (fmul fo b d)) \<or> \<not> crt_isnan fo (fadd fo (fmul fo a d) (fmul fo b c)) \<Longrightarrow>
    cinf fo (fsub fo (fmul fo a c) (fmul fo b d)) (fadd fo (fmul fo a d) (fmul fo b c))"
proof -
  have s: "crt_isinf fo (fsub fo x y)" if "crt_isinf fo x \<or> crt_isnan fo x \<or> crt_isinf fo y \<or> crt_isnan fo y"
    "\<not> crt_isnan fo (fsub fo x y)" for x y using that diff_inf add_nan by blast
  have t: "crt_isinf fo (fadd fo x y)" if "crt_isinf fo x \<or> crt_isnan fo x \<or> crt_isinf fo y \<or> crt_isnan fo y"
    "\<not> crt_isnan fo (fadd fo x y)" for x y using that sum_inf add_nan by blast
  have "crt_isinf fo (fmul fo a c) \<or> crt_isnan fo (fmul fo a c) \<or> crt_isinf fo (fmul fo b d) \<or> crt_isnan fo (fmul fo b d)"
    "crt_isinf fo (fmul fo a d) \<or> crt_isnan fo (fmul fo a d) \<or> crt_isinf fo (fmul fo b c) \<or> crt_isnan fo (fmul fo b c)"
    using assms mul_inf_cases unfolding cinf_def by blast+
  then show "\<not> crt_isnan fo (fsub fo (fmul fo a c) (fmul fo b d)) \<or> \<not> crt_isnan fo (fadd fo (fmul fo a d) (fmul fo b c)) \<Longrightarrow>
    cinf fo (fsub fo (fmul fo a c) (fmul fo b d)) (fadd fo (fmul fo a d) (fmul fo b c))"
    using s t unfolding cinf_def by blast
qed

lemma infinite_product:
  assumes inf: "cinf fo a b \<and> cnonzero fo val c d \<or> cnonzero fo val a b \<and> cinf fo c d"
    and r: "mul_complex fo a b c d = (re, im)"
  shows "cinf fo re im"
proof (cases "crt_isnan fo (fsub fo (fmul fo a c) (fmul fo b d)) \<and> crt_isnan fo (fadd fo (fmul fo a d) (fmul fo b c))")
  case False
  then show ?thesis using r product_parts inf by (auto simp: mul_complex_def Let_def)
next
  case True
  define p where "p = (if cinf fo a b then recover fo a else nan_to_zero fo a)"
  define q where "q = (if cinf fo a b then recover fo b else nan_to_zero fo b)"
  define c' where "c' = (if cinf fo a b then nan_to_zero fo c else c)"
  define d' where "d' = (if cinf fo a b then nan_to_zero fo d else d)"
  define e where "e = (if cinf fo c d then recover fo c' else c')"
  define f where "f = (if cinf fo c d then recover fo d' else d')"
  have either: "cinf fo a b \<or> cinf fo c d" using inf by blast
  have fin: "crt_isfinite fo p" "crt_isfinite fo q" "crt_isfinite fo e" "crt_isfinite fo f"
    using either by (auto simp: p_def q_def e_def f_def c'_def d'_def cinf_def recover_unit nan_to_zero_finite)
  have rz: "nan_to_zero fo (recover fo x) = recover fo x" for x by (rule nan_to_zero_finite(2) [OF recover_unit(1)])
  have ci: "cinf fo c' d' \<longleftrightarrow> cinf fo c d" by (auto simp: c'_def d'_def cinf_def nan_to_zero_inf)
  have "(re, im) = (fmul fo (CRT_INFINITY fo) (fsub fo (fmul fo p e) (fmul fo q f)),
      fmul fo (CRT_INFINITY fo) (fadd fo (fmul fo p f) (fmul fo q e)))"
  proof (cases "cinf fo a b")
    case ab: True
    then show ?thesis using True r ci rz unfolding p_def q_def e_def f_def
      by (cases "cinf fo c d") (simp_all add: mul_complex_def Let_def c'_def d'_def cinf_def [symmetric])
  next
    case ab: False
    then show ?thesis using True r ci rz either unfolding p_def q_def e_def f_def
      by (simp add: mul_complex_def Let_def c'_def d'_def cinf_def [symmetric])
  qed
  moreover have "val p \<in> {- 1, 0, 1} \<and> val q \<in> {- 1, 0, 1} \<or> val e \<in> {- 1, 0, 1} \<and> val f \<in> {- 1, 0, 1}"
    using either recover_unit(4) by (auto simp: p_def q_def e_def f_def)
  moreover have "val p \<noteq> 0 \<or> val q \<noteq> 0"
    using inf recover_unit(2) [of a] recover_unit(2) [of b] nan_to_zero_finite(2) [of a] nan_to_zero_finite(2) [of b]
    by (auto simp: p_def q_def cinf_def cnonzero_def)
  moreover have "val e \<noteq> 0 \<or> val f \<noteq> 0"
    using inf recover_unit(2) [of c] recover_unit(2) [of d] nan_to_zero_finite(2,4) [of c] nan_to_zero_finite(2,4) [of d]
    by (auto simp: e_def f_def c'_def d'_def cinf_def cnonzero_def)
  ultimately show ?thesis using scaled_product_infinite [OF fin] by simp
qed

text \<open>Finite factors: the signs of the four products keep one part of the result from being a NaN.\<close>

lemma finite_product:
  assumes "cfinite fo a b" "cfinite fo c d" "mul_complex fo a b c d = (re, im)"
  shows "\<not> (crt_isnan fo re \<and> crt_isnan fo im)"
proof -
  have fin: "crt_isfinite fo a" "crt_isfinite fo b" "crt_isfinite fo c" "crt_isfinite fo d"
    using assms(1,2) by (simp_all add: cfinite_def)
  have nn: "\<not> crt_isnan fo (fmul fo x y)" if "crt_isfinite fo x" "crt_isfinite fo y" for x y using that by (rule mul_finite)
  have c: "crt_isnan fo (fsub fo x y) \<Longrightarrow> crt_isinf fo x \<and> crt_isinf fo y \<and> neg x = neg y"
    "crt_isnan fo (fadd fo x y) \<Longrightarrow> crt_isinf fo x \<and> crt_isinf fo y \<and> neg x \<noteq> neg y"
    if "\<not> crt_isnan fo x" "\<not> crt_isnan fo y" for x y
    using that classes [of x] classes [of y] add_inf [of x y] add_inf [of y x] add_infs [of x y] add_finite [of x y]
      inf_not_nan [of "fsub fo x y"] inf_not_nan [of "fadd fo x y"] by (auto split: if_splits)
  have "\<not> (crt_isnan fo (fsub fo (fmul fo a c) (fmul fo b d)) \<and> crt_isnan fo (fadd fo (fmul fo a d) (fmul fo b c)))"
  proof
    assume n: "crt_isnan fo (fsub fo (fmul fo a c) (fmul fo b d)) \<and> crt_isnan fo (fadd fo (fmul fo a d) (fmul fo b c))"
    have "neg (fmul fo a c) = neg (fmul fo b d)" using n c(1) nn fin by blast
    moreover have "neg (fmul fo a d) \<noteq> neg (fmul fo b c)" using n c(2) nn fin by blast
    ultimately show False using mul_sign fin by auto
  qed
  then show ?thesis using assms(3) by (auto simp: mul_complex_def Let_def)
qed

text \<open>Division by zero and by infinities.\<close>

lemma quotient_by_zero:
  assumes "crt_isfinite fo c" "val c = 0" "crt_isfinite fo d" "val d = 0" and nz: "cnonzero fo val a b"
    and logb: "\<not> crt_isfinite fo (crt_logb fo (crt_fmax fo (crt_fabs fo c) (crt_fabs fo d)))"
    and sc: "\<And>x. crt_isnan fo x \<Longrightarrow> crt_isnan fo (crt_scalbn fo x 0)"
    and r: "div_complex fo a b c d = (re, im)"
  shows "cinf fo re im"
proof -
  have cd: "crt_isfinite fo (fmul fo x y) \<and> val (fmul fo x y) = 0"
    if "crt_isfinite fo x" "val x = 0" "crt_isfinite fo y" "val y = 0" for x y using mul_exact [of x y] that by simp
  define denom where "denom = fadd fo (fmul fo c c) (fmul fo d d)"
  have den: "crt_isfinite fo denom \<and> val denom = 0"
    unfolding denom_def using add_zero [of "fmul fo c c" "fmul fo d d"] cd assms(1-4) by simp
  have p: "crt_isfinite fo (fmul fo x y) \<and> val (fmul fo x y) = 0 \<or> crt_isnan fo (fmul fo x y)"
    if "crt_isfinite fo y" "val y = 0" for x y
    using mul_exact' [of x y] mul_inf_zero [of x y] mul_nan [of x y] classes [of x] that by auto
  have q: "crt_isnan fo (fdiv fo x denom)" if "crt_isfinite fo x \<and> val x = 0 \<or> crt_isnan fo x" for x
    using that div_nan [of x denom] div_zeros [of x denom] den by blast
  have sum: "crt_isnan fo (fdiv fo (fadd fo x y) denom)" "crt_isnan fo (fdiv fo (fsub fo x y) denom)"
    if "crt_isfinite fo x \<and> val x = 0 \<or> crt_isnan fo x" "crt_isfinite fo y \<and> val y = 0 \<or> crt_isnan fo y" for x y
    using that q [of "fadd fo x y"] q [of "fsub fo x y"] add_nan [of x y] add_zero [of x y] sub_zero [of x y] by auto
  have n: "crt_isnan fo (crt_scalbn fo (fdiv fo (fadd fo (fmul fo a c) (fmul fo b d)) denom) 0)"
    "crt_isnan fo (crt_scalbn fo (fdiv fo (fsub fo (fmul fo b c) (fmul fo a d)) denom) 0)"
    using sc [OF sum(1) [OF p [OF assms(1,2), of a] p [OF assms(3,4), of b]]]
      sc [OF sum(2) [OF p [OF assms(1,2), of b] p [OF assms(3,4), of a]]] by blast+
  have "feq fo denom (fzero fo)" using den by (simp add: eq_zero)
  moreover have "\<not> crt_isnan fo a \<or> \<not> crt_isnan fo b" using nz by (auto simp: cnonzero_def crt_isfinite_def inf_not_nan)
  ultimately have "(re, im) = (fmul fo (crt_copysign fo (CRT_INFINITY fo) c) a, fmul fo (crt_copysign fo (CRT_INFINITY fo) c) b)"
    using r logb n by (simp add: div_complex_def Let_def denom_def)
  moreover have "crt_isinf fo (fmul fo (crt_copysign fo (CRT_INFINITY fo) c) x)"
    if "crt_isinf fo x \<or> crt_isfinite fo x \<and> val x \<noteq> 0" for x
    using mul_inf [OF copysign_inf [OF infinity] that] by blast
  ultimately show ?thesis using nz unfolding cinf_def cnonzero_def by blast
qed

lemma quotient_by_infinity:
  assumes fin: "cfinite fo a b" and cd: "crt_isinf fo c \<and> crt_isfinite fo d \<or> crt_isfinite fo c \<and> crt_isinf fo d"
    and logb: "crt_logb fo (crt_fmax fo (crt_fabs fo c) (crt_fabs fo d)) = l" "crt_isinf fo l" "fgt fo l (fzero fo)"
    and sc: "\<And>x. crt_isnan fo x \<Longrightarrow> crt_isnan fo (crt_scalbn fo x 0)"
    and r: "div_complex fo a b c d = (re, im)"
  shows "crt_isfinite fo re \<and> val re = 0 \<and> crt_isfinite fo im \<and> val im = 0"
proof -
  define bad where "bad x \<longleftrightarrow> crt_isinf fo x \<or> crt_isnan fo x" for x
  have badI: "\<not> bad x \<longleftrightarrow> crt_isfinite fo x" for x by (auto simp: bad_def crt_isfinite_def)
  have mul: "bad (fmul fo x y)" if "crt_isinf fo x \<or> crt_isinf fo y" for x y using that mul_inf_cases by (auto simp: bad_def)
  have sum: "bad (fadd fo x y)" "bad (fsub fo x y)" if "bad x \<or> bad y" for x y
    using that sum_inf [of x y] diff_inf [of x y] add_nan [of x y] by (auto simp: bad_def)
  define denom where "denom = fadd fo (fmul fo c c) (fmul fo d d)"
  have den: "bad denom" unfolding denom_def using cd by (blast intro: sum mul)
  have "bad (fadd fo (fmul fo a c) (fmul fo b d))" "bad (fsub fo (fmul fo b c) (fmul fo a d))"
    using cd by (blast intro: sum mul)+
  then have n: "crt_isnan fo (crt_scalbn fo (fdiv fo (fadd fo (fmul fo a c) (fmul fo b d)) denom) 0)"
    "crt_isnan fo (crt_scalbn fo (fdiv fo (fsub fo (fmul fo b c) (fmul fo a d)) denom) 0)"
    using den sc div_nan div_infs unfolding bad_def by blast+
  have "\<not> feq fo denom (fzero fo)" using den badI eq_zero by blast
  moreover have ab: "crt_isfinite fo a" "crt_isfinite fo b" "\<not> crt_isinf fo a" "\<not> crt_isinf fo b"
    using fin finite_not by (simp_all add: cfinite_def)
  moreover have "\<not> crt_isfinite fo l" using logb(2) finite_not by blast
  ultimately have res: "(re, im) = (fmul fo (fzero fo) (fadd fo (fmul fo a (recover fo c)) (fmul fo b (recover fo d))),
      fmul fo (fzero fo) (fsub fo (fmul fo b (recover fo c)) (fmul fo a (recover fo d))))"
    using r logb n by (simp add: div_complex_def Let_def denom_def)
  have m: "crt_isfinite fo (fmul fo x (recover fo y)) \<and> (\<not> crt_isinf fo y \<longrightarrow> val (fmul fo x (recover fo y)) = 0)"
    if "crt_isfinite fo x" for x y
    using mul_exact' [OF that recover_unit(1,4)] recover_unit(3) by simp
  have one_zero: "\<not> crt_isinf fo c \<or> \<not> crt_isinf fo d" using cd finite_not by blast
  have "crt_isfinite fo (fadd fo (fmul fo a (recover fo c)) (fmul fo b (recover fo d)))"
    "crt_isfinite fo (fsub fo (fmul fo b (recover fo c)) (fmul fo a (recover fo d)))"
    using m ab one_zero add_small by blast+
  then show ?thesis using res mul_exact [OF zero(1)] zero(2) by simp
qed

end

section \<open>Properties\<close>

text \<open>C31: The product of an infinite and a nonzero complex number is infinite, as Annex G of C99 asks, also where the
  textbook formula gives two NaNs, and the product of finite numbers never consists of two NaNs: for
  both formats with the arithmetic of this library.\<close>

theorem complex_product:
  "(cinf (soft_double u sc) a b \<and> cnonzero (soft_double u sc) (fp_value double) c d \<or>
      cnonzero (soft_double u sc) (fp_value double) a b \<and> cinf (soft_double u sc) c d \<longrightarrow>
      cinf (soft_double u sc) (fst (muldc3 (soft_double u sc) a b c d)) (snd (muldc3 (soft_double u sc) a b c d))) \<and>
   (cfinite (soft_double u sc) a b \<and> cfinite (soft_double u sc) c d \<longrightarrow>
      \<not> fp_is_nan double (fst (muldc3 (soft_double u sc) a b c d)) \<or> \<not> fp_is_nan double (snd (muldc3 (soft_double u sc) a b c d))) \<and>
   (cinf (soft_single u sc') a' b' \<and> cnonzero (soft_single u sc') (fp_value single) c' d' \<or>
      cnonzero (soft_single u sc') (fp_value single) a' b' \<and> cinf (soft_single u sc') c' d' \<longrightarrow>
      cinf (soft_single u sc') (fst (mulsc3 (soft_single u sc') a' b' c' d')) (snd (mulsc3 (soft_single u sc') a' b' c' d'))) \<and>
   (cfinite (soft_single u sc') a' b' \<and> cfinite (soft_single u sc') c' d' \<longrightarrow>
      \<not> fp_is_nan single (fst (mulsc3 (soft_single u sc') a' b' c' d')) \<or> \<not> fp_is_nan single (snd (mulsc3 (soft_single u sc') a' b' c' d')))"
proof -
  have n: "crt_isnan (soft_double u sc) = fp_is_nan double" "crt_isnan (soft_single u sc') = fp_is_nan single"
    by (simp_all add: soft_double_def soft_single_def soft_ops_def)
  obtain p q r s where pq: "muldc3 (soft_double u sc) a b c d = (p, q)" "mulsc3 (soft_single u sc') a' b' c' d' = (r, s)"
    by (meson surj_pair)
  show ?thesis
    using soft_dbl.infinite_product [OF _ pq(1) [unfolded muldc3_def]] soft_dbl.finite_product [OF _ _ pq(1) [unfolded muldc3_def]]
      soft_sgl.infinite_product [OF _ pq(2) [unfolded mulsc3_def]] soft_sgl.finite_product [OF _ _ pq(2) [unfolded mulsc3_def]]
    unfolding pq fst_conv snd_conv n by blast
qed

theorem complex_product_witness:
  "\<forall>u sc. cinf (soft_double u sc) (fst (muldc3 (soft_double u sc) 0x7FF0000000000000 0x7FF8000000000000 0x3FF0000000000000 0x8000000000000000))
      (snd (muldc3 (soft_double u sc) 0x7FF0000000000000 0x7FF8000000000000 0x3FF0000000000000 0x8000000000000000))"
proof (intro allI)
  fix u :: ub and sc :: "du_int \<Rightarrow> si_int \<Rightarrow> du_int"
  have v: "fp_value double 0x3FF0000000000000 = 1" "crt_isfinite (soft_double u sc) 0x3FF0000000000000"
    using one_double(3) soft_dbl.one(1) [of u sc] by (simp_all add: soft_double_def soft_ops_def one_double(1))
  have "crt_isinf (soft_double u sc) 0x7FF0000000000000" by (simp add: soft_double_def soft_ops_def fp_eval)
  then have "cinf (soft_double u sc) 0x7FF0000000000000 0x7FF8000000000000"
    "cnonzero (soft_double u sc) (fp_value double) 0x3FF0000000000000 0x8000000000000000"
    using v by (simp_all add: cinf_def cnonzero_def)
  then show "cinf (soft_double u sc) (fst (muldc3 (soft_double u sc) 0x7FF0000000000000 0x7FF8000000000000 0x3FF0000000000000 0x8000000000000000))
      (snd (muldc3 (soft_double u sc) 0x7FF0000000000000 0x7FF8000000000000 0x3FF0000000000000 0x8000000000000000))"
    using complex_product [of u sc "0x7FF0000000000000" "0x7FF8000000000000" "0x3FF0000000000000" "0x8000000000000000"] by blast
qed

text \<open>The quotient of a nonzero complex number by a zero is infinite, and that of a finite one by a number with one infinite
  and one finite part is zero; all that is asked of \<^verbatim>\<open>scalbn\<close> is that it keeps a NaN.\<close>

theorem complex_quotient:
  assumes "\<forall>x. fp_is_nan double x \<longrightarrow> fp_is_nan double (sc x 0)"
  shows "(fp_abs c = 0 \<and> fp_abs d = 0 \<and> cnonzero (soft_double u sc) (fp_value double) a b \<longrightarrow>
      cinf (soft_double u sc) (fst (divdc3 (soft_double u sc) a b c d)) (snd (divdc3 (soft_double u sc) a b c d))) \<and>
    (cfinite (soft_double u sc) a b \<and> (fp_is_inf double c \<and> fp_finite double d \<or> fp_finite double c \<and> fp_is_inf double d) \<longrightarrow>
      fp_abs (fst (divdc3 (soft_double u sc) a b c d)) = 0 \<and> fp_abs (snd (divdc3 (soft_double u sc) a b c d)) = 0)"
proof -
  let ?O = "soft_double u sc"
  obtain p q where pq: "divdc3 ?O a b c d = (p, q)" by (meson surj_pair)
  have sc: "crt_isnan ?O x \<Longrightarrow> crt_isnan ?O (crt_scalbn ?O x 0)" for x
    using assms by (simp add: soft_double_def soft_ops_def)
  have fin: "crt_isfinite ?O x \<longleftrightarrow> fp_finite double x" for x
    by (auto simp: crt_isfinite_def soft_double_def soft_ops_def dbl.nan_iff fp_finite_def fp_is_inf_def)
  have z: "crt_isfinite ?O x \<and> fp_value double x = 0" if "fp_abs x = 0" for x
    using that dbl.fp_inf_pos by (simp add: fin fp_finite_def dbl.fp_value_zero_iff)
  have l: "crt_logb ?O (crt_fmax ?O (crt_fabs ?O c) (crt_fabs ?O d)) =
      fp_logb double (floatsidf u) (fp_fmax double (fp_fabs double c) (fp_fabs double d))"
    by (simp add: soft_double_def soft_ops_def)
  have inf: "crt_isinf ?O = fp_is_inf double" by (simp add: soft_double_def soft_ops_def)
  have "cinf ?O p q" if h: "fp_abs c = 0 \<and> fp_abs d = 0 \<and> cnonzero ?O (fp_value double) a b"
  proof (rule soft_dbl.quotient_by_zero [OF _ _ _ _ _ _ sc pq [unfolded divdc3_def]])
    show "\<not> crt_isfinite ?O (crt_logb ?O (crt_fmax ?O (crt_fabs ?O c) (crt_fabs ?O d)))"
      unfolding l using dbl.soft_logb_zero h inf soft_dbl.finite_not by metis
  qed (use h z in blast)+
  moreover have "fp_abs p = 0 \<and> fp_abs q = 0"
    if h: "cfinite ?O a b \<and> (fp_is_inf double c \<and> fp_finite double d \<or> fp_finite double c \<and> fp_is_inf double d)"
  proof -
    have "crt_isfinite ?O p \<and> fp_value double p = 0 \<and> crt_isfinite ?O q \<and> fp_value double q = 0"
    proof (rule soft_dbl.quotient_by_infinity [OF _ _ _ _ _ sc pq [unfolded divdc3_def]])
      show "crt_logb ?O (crt_fmax ?O (crt_fabs ?O c) (crt_fabs ?O d)) = infRep double"
        unfolding l using dbl.soft_logb_inf h by blast
      show "fgt ?O (infRep double) (fzero ?O)" "crt_isinf ?O (infRep double)"
        using dbl.soft_inf_positive by (simp_all add: soft_double_def soft_ops_def)
    qed (use h inf fin in auto)
    then show ?thesis by (simp add: dbl.fp_value_zero_iff)
  qed
  ultimately show ?thesis unfolding pq by simp
qed

theorem complex_quotient_witness:
  "\<forall>u. fp_abs (fst (divdc3 (soft_double u (\<lambda>x _. x)) 0x3FF0000000000000 0x3FF0000000000000 0x3FF0000000000000 0xFFF0000000000000)) = 0"
proof (intro allI)
  fix u :: ub
  have "crt_isfinite (soft_double u (\<lambda>x _. x)) 0x3FF0000000000000"
    using soft_dbl.one(1) [of u "\<lambda>x _. x"] by (simp add: soft_double_def soft_ops_def one_double(1))
  then show "fp_abs (fst (divdc3 (soft_double u (\<lambda>x _. x)) 0x3FF0000000000000 0x3FF0000000000000 0x3FF0000000000000 0xFFF0000000000000)) = 0"
    using complex_quotient [of "\<lambda>x _. x" "0x3FF0000000000000" "0xFFF0000000000000" u "0x3FF0000000000000" "0x3FF0000000000000"]
    by (simp add: cfinite_def fp_eval)
qed

end
