(* ===== verification/Powi.thy ===== *)
theory Powi
  imports Float_Ops
begin

unbundle bit_operations_syntax

text \<open>
  Powers with an integer exponent: \<^verbatim>\<open>lib/powisf2.c\<close>, \<^verbatim>\<open>powidf2.c\<close>, \<^verbatim>\<open>powixf2.c\<close> and \<^verbatim>\<open>powitf2.c\<close>,
  one text for four types, by squaring. The exponent is halved toward zero, so that the least \<^verbatim>\<open>int\<close> needs no
  negation.
\<close>

section \<open>The code\<close>

function powi_loop :: "ub \<Rightarrow> 'f float_ops \<Rightarrow> 'f \<Rightarrow> si_int \<Rightarrow> 'f \<Rightarrow> 'f" where
  "powi_loop u fo a b r =
    (let r = (if b AND 1 \<noteq> 0 then fmul fo r a else r);
         b = c_sdiv u b 2
     in if b = 0 then r else powi_loop u fo (fmul fo a a) b r)"
  by pat_completeness auto

lemma halved: "c_sdiv u b 2 = word_of_int (sint b sdiv 2)" "sint (c_sdiv u b 2 :: si_int) = sint b sdiv 2"
proof -
  have s: "sint (2 :: si_int) = 2" "(2 :: si_int) \<noteq> 0" "(2 :: si_int) \<noteq> - 1" by simp_all
  show e: "c_sdiv u b 2 = word_of_int (sint b sdiv 2)" by (simp add: c_sdiv_def s)
  have "- (2 ^ 31) \<le> sint b" "sint b < 2 ^ 31" using sint_greater_eq [of b] sint_lt [of b] by simp_all
  then have "- (2 ^ 31) \<le> sint b sdiv 2" "sint b sdiv 2 < 2 ^ 31"
    by (simp_all add: signed_divide_int_def sgn_if) linarith+
  then show "sint (c_sdiv u b 2) = sint b sdiv 2" unfolding e by (simp add: signed_of_int signed_take_bit_int_eq_self)
qed

lemma halved_abs: "nat \<bar>sint b sdiv 2\<bar> = nat \<bar>sint (b :: si_int)\<bar> div 2"
  by (simp add: signed_divide_int_def abs_mult abs_sgn_eq nat_div_distrib)

lemma halved_less: "c_sdiv u b 2 \<noteq> 0 \<Longrightarrow> nat \<bar>sint (c_sdiv u b 2)\<bar> < nat \<bar>sint (b :: si_int)\<bar>"
proof -
  assume "c_sdiv u b 2 \<noteq> 0"
  then have "sint (c_sdiv u b 2) \<noteq> 0" by (simp only: signed_eq_0_iff not_False_eq_True)
  then have "nat \<bar>sint b\<bar> div 2 \<noteq> 0" unfolding halved(2) halved_abs [symmetric] by simp
  then show ?thesis unfolding halved(2) halved_abs by simp
qed

termination powi_loop
  by (relation "measure (\<lambda>(u, fo, a, b, r). nat \<bar>sint b\<bar>)") (use halved_less in auto)

declare powi_loop.simps [simp del]

definition powi_generic :: "ub \<Rightarrow> 'f float_ops \<Rightarrow> 'f \<Rightarrow> si_int \<Rightarrow> 'f" where
  "powi_generic u fo a b =
    (let recip = b <s 0;
         r = powi_loop u fo a b (fone fo)
     in if recip then fdiv fo (fone fo) r else r)"

definition powixf2 :: "ub \<Rightarrow> 'x float_ops \<Rightarrow> 'x \<Rightarrow> si_int \<Rightarrow> 'x" where "powixf2 = powi_generic"
definition powitf2 :: "ub \<Rightarrow> 't float_ops \<Rightarrow> 't \<Rightarrow> si_int \<Rightarrow> 't" where "powitf2 = powi_generic"

section \<open>What the loop multiplies\<close>

text \<open>Any relation \<open>R n x\<close>, to be read as ``\<open>x\<close> is the \<open>n\<close>th power'', that products preserve as long as the exponents do not exceed
  that of the result holds for the result.\<close>

lemma and_one_odd: "b AND 1 \<noteq> 0 \<longleftrightarrow> odd (nat \<bar>sint (b :: si_int)\<bar>)"
proof -
  have "b AND 1 = of_bool (odd b)" by (simp add: and_one_eq odd_iff_mod_2_eq_one)
  moreover have "odd b \<longleftrightarrow> odd (sint b)" using bit_sint_iff [of b 0] by (simp add: bit_0)
  ultimately show ?thesis by (auto simp: even_nat_iff)
qed

lemma powi_loop_rel:
  assumes mul: "\<And>m n x y. R m x \<Longrightarrow> R n y \<Longrightarrow> 1 \<le> n \<Longrightarrow> m + n \<le> N \<Longrightarrow> R (m + n) (fmul fo x y)"
    and "R m r" "R k a" "1 \<le> k" "m + k * nat \<bar>sint b\<bar> \<le> N"
  shows "R (m + k * nat \<bar>sint b\<bar>) (powi_loop u fo a b r)"
  using assms
proof (induction u fo a b r arbitrary: m k rule: powi_loop.induct)
  case (1 u fo a b r)
  define n h b' where d: "n = nat \<bar>sint b\<bar>" "h = n div 2" "b' = c_sdiv u b 2"
  define r' where "r' = (if b AND 1 \<noteq> 0 then fmul fo r a else r)"
  have h: "nat \<bar>sint b'\<bar> = h" unfolding d halved(2) halved_abs ..
  have b0: "b' = 0 \<longleftrightarrow> h = 0" unfolding h [symmetric] by (simp add: signed_eq_0_iff)
  have n: "n = 2 * h + (if odd n then 1 else 0)" by (simp add: d(2))
  have le: "m + k * n \<le> N" using "1.prems"(5) by (simp only: d)
  have eq: "powi_loop u fo a b r = (if b' = 0 then r' else powi_loop u fo (fmul fo a a) b' r')"
    by (subst powi_loop.simps) (simp only: Let_def r'_def d)
  have r': "R (m + (if odd n then k else 0)) r'"
    using "1.prems"(2) "1.prems"(1) [OF "1.prems"(2,3,4)] le n unfolding r'_def and_one_odd d(1) [symmetric]
    by (cases "odd n") (auto elim: oddE)
  show ?case
  proof (cases "h = 0")
    case True
    then show ?thesis using r' n b0 unfolding eq d(1) [symmetric] by (cases "odd n") simp_all
  next
    case False
    have e: "(m + (if odd n then k else 0)) + (k + k) * h = m + k * n" using arg_cong [OF n, of "\<lambda>n. k * n"] by (simp add: algebra_simps)
    have "2 \<le> n" using False d(2) by simp
    from mult_le_mono2 [OF this, of k] have "k + k \<le> k * n" by linarith
    then have "R (k + k) (fmul fo a a)" using le by (intro "1.prems") simp
    have "m + (if odd n then k else 0) + (k + k) * nat \<bar>sint b'\<bar> \<le> N" unfolding h e by (rule le)
    have "R (m + (if odd n then k else 0) + (k + k) * nat \<bar>sint b'\<bar>) (powi_loop u fo (fmul fo a a) b' r')"
      using "1.IH" [OF r'_def d(3) _ "1.prems"(1) r' \<open>R (k + k) (fmul fo a a)\<close> _ \<open>m + (if odd n then k else 0) + (k + k) * nat \<bar>sint b'\<bar> \<le> N\<close>]
        False b0 "1.prems"(4) by simp
    then have "R (m + k * n) (powi_loop u fo (fmul fo a a) b' r')" unfolding h e .
    then show ?thesis using False b0 unfolding eq d(1) [symmetric] by simp
  qed
qed

text \<open>Exact arithmetic: \<open>f\<close> reads the operands as numbers.\<close>

lemma powi_exact:
  fixes f :: "'f \<Rightarrow> real"
  assumes "\<And>x y. f (fmul fo x y) = f x * f y" "f (fone fo) = 1" "\<And>x. f (fdiv fo (fone fo) x) = 1 / f x"
  shows "f (powi_generic u fo a b) = f a powi sint b"
proof -
  have "f (powi_loop u fo a b (fone fo)) = f a ^ (0 + 1 * nat \<bar>sint b\<bar>)"
    by (rule powi_loop_rel [where R = "\<lambda>n x. f x = f a ^ n" and N = "nat \<bar>sint b\<bar>"]) (simp_all add: assms power_add)
  then show ?thesis
    by (auto simp: powi_generic_def Let_def assms word_sless_alt power_int_def inverse_eq_divide power_one_over)
qed

section \<open>Rounding errors\<close>

text \<open>The relative error of one rounding, for a number that is neither denormal nor beyond the largest one; \<open>x\<close> is in
  units of the least positive number.\<close>

lemma fp_mag_gap:
  assumes "2 ^ sb \<le> k"
  shows "(fp_mag sb (k + 1) - fp_mag sb k) * 2 ^ sb \<le> fp_mag sb k"
proof -
  define e m where e_m_def: "e = k div 2 ^ sb - 1" "m = k mod 2 ^ sb"
  have "0 < k div 2 ^ sb" using assms by (simp add: div_greater_zero_iff)
  then have "e + 1 = k div 2 ^ sb" by (simp add: e_m_def)
  then have k: "k = (e + 1) * 2 ^ sb + m" unfolding e_m_def(2) by (simp only: div_mult_mod_eq)
  have m: "m < 2 ^ sb" by (simp add: e_m_def)
  then have "fp_mag sb k = (2 ^ sb + m) * 2 ^ e" "fp_mag sb (k + 1) = (2 ^ sb + (m + 1)) * 2 ^ e"
    using fp_mag_compose(1) [of m sb e] fp_mag_compose(1) [of "m + 1" sb e] unfolding k by (simp_all add: add.assoc)
  then show ?thesis by (simp add: algebra_simps)
qed

lemma nearest_relative:
  fixes x :: real
  assumes n: "fp_nearest F x k" and x: "2 ^ significandBits F \<le> x" "x \<le> real (fp_mag (significandBits F) (fp_inf F - 1))"
    and inf: "0 < fp_inf F"
  shows "\<bar>x - real (fp_mag (significandBits F) k)\<bar> \<le> x / 2 ^ (significandBits F + 1)" "k < fp_inf F"
proof -
  let ?v = "\<lambda>i. real (fp_mag (significandBits F) i)" and ?s = "significandBits F"
  note m = fp_nearest_midpoints [OF n]
  show k: "k < fp_inf F"
  proof (rule ccontr)
    assume "\<not> k < fp_inf F"
    then have "k = fp_inf F" using m(1) by simp
    moreover have "?v (fp_inf F - 1) < ?v (fp_inf F)" using inf by (simp add: fp_mag_less_iff)
    ultimately show False using m(2) x(2) inf by simp
  qed
  have gap: "(?v (j + 1) - ?v j) * 2 ^ ?s \<le> ?v j" if "2 ^ ?s \<le> j" for j
  proof -
    have "fp_mag ?s j \<le> fp_mag ?s (j + 1)" by (simp add: fp_mag_mono_le)
    then have "(?v (j + 1) - ?v j) * 2 ^ ?s = real ((fp_mag ?s (j + 1) - fp_mag ?s j) * 2 ^ ?s)" by (simp add: of_nat_diff)
    then show ?thesis using fp_mag_gap [OF that] by (simp only: of_nat_le_iff)
  qed
  have s0: "?v (2 ^ ?s) = 2 ^ ?s" using fp_mag_compose(2) [of "2 ^ ?s" ?s] by simp
  have big: "2 ^ ?s \<le> j" if "2 ^ ?s \<le> ?v j" for j
    using that s0 fp_mag_mono [of j "2 ^ ?s" ?s] by (metis leI linorder_not_less of_nat_less_iff)
  have half: "c \<le> x / 2 ^ (?s + 1)" if "2 * c * 2 ^ ?s \<le> x" for c
    using that by (simp add: field_simps)
  show "\<bar>x - ?v k\<bar> \<le> x / 2 ^ (?s + 1)"
  proof (cases "?v k \<le> x")
    case True
    have "2 * x \<le> ?v k + ?v (k + 1)" by (rule m(3) [OF k])
    moreover have "2 ^ ?s \<le> k"
    proof (rule ccontr)
      assume "\<not> 2 ^ ?s \<le> k"
      then have "?v (k + 1) \<le> ?v (2 ^ ?s)" "?v k < ?v (2 ^ ?s)" by (simp_all add: fp_mag_mono_le fp_mag_mono)
      then show False using \<open>2 * x \<le> ?v k + ?v (k + 1)\<close> x(1) unfolding s0 by linarith
    qed
    note gap [OF this]
    ultimately have "2 * (x - ?v k) * 2 ^ ?s \<le> x" using True
      by (smt (verit) mult_right_mono zero_le_power)
    then show ?thesis using half [of "x - ?v k"] True by simp
  next
    case False
    then have k0: "0 < k" proof (cases k)
      case 0
      then have "x < 0" using False by simp
      moreover have "(0::real) < 2 ^ ?s" by simp
      ultimately show ?thesis using x(1) by linarith
    qed simp
    have lo: "?v (k - 1) + ?v k \<le> 2 * x" by (rule m(2) [OF k0])
    have le: "?v (k - 1) \<le> ?v k" by (simp add: fp_mag_mono_le)
    have "2 ^ ?s < k"
    proof (rule ccontr)
      assume "\<not> 2 ^ ?s < k"
      then have "?v k \<le> ?v (2 ^ ?s)" by (simp add: fp_mag_mono_le)
      then show False using False x(1) unfolding s0 by linarith
    qed
    then have "2 ^ ?s \<le> k - 1" by simp
    from gap [OF this] have "(?v k - ?v (k - 1)) * 2 ^ ?s \<le> ?v (k - 1)" using k0 by simp
    moreover have "?v (k - 1) \<le> x" using lo le False by simp
    moreover have "2 * (?v k - x) * 2 ^ ?s \<le> (?v k - ?v (k - 1)) * 2 ^ ?s" using lo by (intro mult_right_mono) simp_all
    ultimately have "2 * (?v k - x) * 2 ^ ?s \<le> x" by linarith
    then show ?thesis using half [of "?v k - x"] False by simp
  qed
qed

context fp_format
begin

lemma fp_mul_relative:
  assumes fin: "fp_finite F x" "fp_finite F y"
    and v: "2 ^ significandBits F \<le> \<bar>fp_value F x * fp_value F y\<bar> * fp_scale F"
      "2 * (\<bar>fp_value F x * fp_value F y\<bar> * fp_scale F) \<le> real (fp_mag (significandBits F) (fp_inf F))"
  shows "fp_finite F (fp_mul F u flush x y)"
    and "\<bar>fp_value F (fp_mul F u flush x y) - fp_value F x * fp_value F y\<bar> \<le> \<bar>fp_value F x * fp_value F y\<bar> / 2 ^ (significandBits F + 1)"
proof -
  let ?r = "fp_mul F u flush x y" and ?p = "fp_value F x * fp_value F y" and ?s = "significandBits F"
  have sc: "0 < fp_scale F" by (simp add: fp_scale_def)
  note c = fp_mul_correct [OF fin, of u flush]
  have a: "\<bar>?p * fp_scale F\<bar> = \<bar>?p\<bar> * fp_scale F" using sc by (simp add: abs_mult)
  have "real (fp_mag ?s (fp_inf F)) \<le> 2 * real (fp_mag ?s (fp_inf F - 1))"
  proof -
    have ge: "2 ^ ?s \<le> fp_inf F - 1"
    proof -
      have "2 * 2 ^ ?s \<le> fp_inf F"
      proof -
        have "(2::nat) \<le> 2 ^ exponentBits F - 1" using eb(2) power_increasing [of 4 "exponentBits F" "2::nat"] by simp
        then show ?thesis unfolding fp_inf_def by (intro mult_le_mono1)
      qed
      moreover have "(0::nat) < 2 ^ ?s" by simp
      ultimately show ?thesis by linarith
    qed
    have "fp_inf F - 1 + 1 = fp_inf F" using fp_inf_pos by simp
    with fp_mag_gap [OF ge] have "(fp_mag ?s (fp_inf F) - fp_mag ?s (fp_inf F - 1)) * 2 ^ ?s \<le> fp_mag ?s (fp_inf F - 1)" by simp
    moreover have "fp_mag ?s (fp_inf F) - fp_mag ?s (fp_inf F - 1) \<le> (fp_mag ?s (fp_inf F) - fp_mag ?s (fp_inf F - 1)) * 2 ^ ?s" by simp
    ultimately show ?thesis by linarith
  qed
  then have hi: "\<bar>?p * fp_scale F\<bar> \<le> real (fp_mag ?s (fp_inf F - 1))" using v(2) unfolding a by linarith
  note rel = nearest_relative [OF c(1) v(1) [folded a] hi fp_inf_pos]
  show "fp_finite F ?r" using rel(2) by (simp add: fp_finite_def)
  have "?p \<noteq> 0" using v(1) sc by (auto simp: power_le_zero_eq)
  then have sg: "fp_sign ?r \<longleftrightarrow> ?p < 0"
    using c(2) fp_value_neg_iff [of x] fp_value_neg_iff [of y] fp_value_zero_iff [of x] fp_value_zero_iff [of y]
    by (auto simp: mult_less_0_iff not_less)
  have "fp_value F ?r = (if ?p < 0 then - 1 else 1) * (real (fp_mag ?s (fp_abs ?r)) / fp_scale F)"
    by (simp add: fp_value_def sg)
  then have "\<bar>fp_value F ?r - ?p\<bar> = \<bar>\<bar>?p\<bar> - real (fp_mag ?s (fp_abs ?r)) / fp_scale F\<bar>" by (auto simp: abs_if)
  also have "\<dots> = \<bar>\<bar>?p * fp_scale F\<bar> - real (fp_mag ?s (fp_abs ?r))\<bar> / fp_scale F"
  proof -
    have "\<bar>?p * fp_scale F\<bar> - real (fp_mag ?s (fp_abs ?r)) = (\<bar>?p\<bar> - real (fp_mag ?s (fp_abs ?r)) / fp_scale F) * fp_scale F"
      using sc by (simp add: a left_diff_distrib)
    then show ?thesis using sc by (simp only: abs_mult) simp
  qed
  also have "\<dots> \<le> (\<bar>?p * fp_scale F\<bar> / 2 ^ (?s + 1)) / fp_scale F"
    using rel(1) sc by (intro divide_right_mono) simp_all
  also have "\<dots> = \<bar>?p\<bar> / 2 ^ (?s + 1)" using sc by (simp add: a)
  finally show "\<bar>fp_value F ?r - ?p\<bar> \<le> \<bar>?p\<bar> / 2 ^ (?s + 1)" .
qed

end

text \<open>Relative errors of products.\<close>

lemma power_one_eps:
  fixes e :: real
  assumes "0 \<le> e" "2 * real n * e \<le> 1"
  shows "(1 + e) ^ n \<le> 1 + 2 * real n * e"
  using assms(2)
proof (induction n)
  case (Suc n)
  have l: "2 * real n * e \<le> 1" using Suc.prems assms(1) by (simp add: algebra_simps)
  have "(1 + e) ^ Suc n \<le> (1 + e) * (1 + 2 * real n * e)"
    using Suc.IH [OF l] assms(1) by (simp add: mult_left_mono)
  also have "\<dots> = 1 + 2 * real n * e + e + e * (2 * real n * e)" by (simp add: algebra_simps)
  also have "\<dots> \<le> 1 + 2 * real n * e + e + e * 1" using l assms(1) by (intro add_left_mono mult_left_mono)
  finally show ?case by (simp add: algebra_simps)
qed simp

lemma relative_product:
  fixes A B x y r e g h :: real
  assumes "\<bar>x - A\<bar> \<le> (g - 1) * \<bar>A\<bar>" "\<bar>y - B\<bar> \<le> (h - 1) * \<bar>B\<bar>" "\<bar>r - x * y\<bar> \<le> e * \<bar>x * y\<bar>" "0 \<le> e"
    and "1 \<le> g" "1 \<le> h"
  shows "\<bar>r - A * B\<bar> \<le> (g * h * (1 + e) - 1) * \<bar>A * B\<bar>"
proof -
  have x: "\<bar>x\<bar> \<le> g * \<bar>A\<bar>" and y: "\<bar>y\<bar> \<le> h * \<bar>B\<bar>" using assms(1,2) by (simp_all add: algebra_simps)
  have xy: "\<bar>x * y\<bar> \<le> g * h * \<bar>A * B\<bar>"
  proof -
    have "\<bar>x * y\<bar> \<le> (g * \<bar>A\<bar>) * (h * \<bar>B\<bar>)" unfolding abs_mult using x y assms(5) by (intro mult_mono) simp_all
    then show ?thesis by (simp add: abs_mult algebra_simps)
  qed
  have "\<bar>x * y - A * B\<bar> \<le> (g * h - 1) * \<bar>A * B\<bar>"
  proof -
    have "x * y - A * B = (x - A) * y + A * (y - B)" by (simp add: algebra_simps)
    then have "\<bar>x * y - A * B\<bar> \<le> \<bar>x - A\<bar> * \<bar>y\<bar> + \<bar>A\<bar> * \<bar>y - B\<bar>" by (metis abs_mult abs_triangle_ineq)
    also have "\<dots> \<le> ((g - 1) * \<bar>A\<bar>) * (h * \<bar>B\<bar>) + \<bar>A\<bar> * ((h - 1) * \<bar>B\<bar>)"
      using assms y by (intro add_mono mult_mono mult_left_mono) simp_all
    also have "\<dots> = (g * h - 1) * \<bar>A * B\<bar>" by (simp add: abs_mult algebra_simps)
    finally show ?thesis .
  qed
  moreover have "\<bar>r - x * y\<bar> \<le> e * (g * h * \<bar>A * B\<bar>)" using assms(3) mult_left_mono [OF xy assms(4)] by linarith
  ultimately show ?thesis by (simp add: algebra_simps)
qed

text \<open>Between \<open>1\<close> and \<open>A ^ N\<close>.\<close>

lemma power_between:
  fixes A :: real
  assumes "0 \<le> A" "n \<le> N"
  shows "min 1 (A ^ N) \<le> A ^ n" "A ^ n \<le> max 1 (A ^ N)"
proof -
  have "A ^ N \<le> A ^ n \<and> A ^ n \<le> 1" if "A \<le> 1" using that assms by (simp add: power_decreasing power_le_one)
  moreover have "1 \<le> A ^ n \<and> A ^ n \<le> A ^ N" if "1 \<le> A" using that assms by (simp add: power_increasing)
  ultimately show "min 1 (A ^ N) \<le> A ^ n" "A ^ n \<le> max 1 (A ^ N)" by (cases "A \<le> 1"; simp add: min_def max_def; linarith)+
qed

context fp_format
begin

lemma powi_loop_accurate:
  fixes a one :: "'r word"
  defines "e \<equiv> 1 / 2 ^ (significandBits F + 1)" and "A \<equiv> fp_value F a"
  assumes fo: "fmul fo = fp_mul F u' flush" "fone fo = one" "fp_finite F one" "fp_value F one = 1"
    and fin: "fp_finite F a" and N: "N = nat \<bar>sint b\<bar>" "8 * real N * e \<le> 1" "1 \<le> N"
    and lo: "4 * 2 ^ significandBits F \<le> \<bar>A\<bar> ^ N * fp_scale F"
    and hi: "4 * (\<bar>A\<bar> ^ N * fp_scale F) \<le> real (fp_mag (significandBits F) (fp_inf F))"
    and unit: "4 * 2 ^ significandBits F \<le> fp_scale F" "4 * fp_scale F \<le> real (fp_mag (significandBits F) (fp_inf F))"
  shows "fp_finite F (powi_loop u fo a b (fone fo)) \<and>
    \<bar>fp_value F (powi_loop u fo a b (fone fo)) - A ^ N\<bar> \<le> ((1 + e) ^ (N - 1) - 1) * \<bar>A\<bar> ^ N"
proof -
  let ?s = "significandBits F" and ?M = "real (fp_mag (significandBits F) (fp_inf F))"
  have sc: "0 < fp_scale F" by (simp add: fp_scale_def)
  have e0: "0 \<le> e" by (simp add: e_def)
  have range: "4 * 2 ^ ?s \<le> \<bar>A\<bar> ^ n * fp_scale F" "4 * (\<bar>A\<bar> ^ n * fp_scale F) \<le> ?M" if "n \<le> N" for n
  proof -
    note b = power_between [OF abs_ge_zero that, of A]
    have "min 1 (\<bar>A\<bar> ^ N) * fp_scale F \<le> \<bar>A\<bar> ^ n * fp_scale F" "\<bar>A\<bar> ^ n * fp_scale F \<le> max 1 (\<bar>A\<bar> ^ N) * fp_scale F"
      using b sc by (simp_all only: mult_right_mono less_imp_le)
    then show "4 * 2 ^ ?s \<le> \<bar>A\<bar> ^ n * fp_scale F" "4 * (\<bar>A\<bar> ^ n * fp_scale F) \<le> ?M"
      using lo hi unit by (auto simp: min_def max_def split: if_splits)
  qed
  have eps: "1 \<le> (1 + e) ^ n" "(1 + e) ^ n \<le> 5 / 4" if "n \<le> N" for n
  proof -
    show "1 \<le> (1 + e) ^ n" using e0 by (simp add: one_le_power)
    have "real n * e \<le> real N * e" using that e0 by (simp add: mult_right_mono)
    then show "(1 + e) ^ n \<le> 5 / 4" using power_one_eps [OF e0, of n] N(2) by linarith
  qed
  define R where "R n x \<longleftrightarrow> fp_finite F x \<and> (n = 0 \<longrightarrow> x = one) \<and>
    \<bar>fp_value F x - A ^ n\<bar> \<le> ((1 + e) ^ (n - 1) - 1) * \<bar>A ^ n\<bar>" for n x
  have "R (0 + 1 * nat \<bar>sint b\<bar>) (powi_loop u fo a b (fone fo))"
  proof (rule powi_loop_rel [where N = N])
    fix m n x y
    assume x: "R m x" and y: "R n y" and n: "1 \<le> n" and le: "m + n \<le> N"
    show "R (m + n) (fmul fo x y)"
    proof (cases "m = 0")
      case True
      then have "x = one" using x by (simp add: R_def)
      then show ?thesis using y n fo(3,4) soft_mul_finite(3) [of one y u' flush] True by (simp add: R_def fo(1))
    next
      case False
      let ?g = "(1 + e) ^ (m - 1)" and ?h = "(1 + e) ^ (n - 1)" and ?X = "fp_value F x" and ?Y = "fp_value F y"
      have fx: "fp_finite F x" "fp_finite F y" and dx: "\<bar>?X - A ^ m\<bar> \<le> (?g - 1) * \<bar>A ^ m\<bar>" and dy: "\<bar>?Y - A ^ n\<bar> \<le> (?h - 1) * \<bar>A ^ n\<bar>"
        using x y by (simp_all add: R_def)
      have g: "1 \<le> ?g" "?g \<le> 5 / 4" "1 \<le> ?h" "?h \<le> 5 / 4" using eps le by simp_all
      have "(?g - 1) * \<bar>A ^ m\<bar> \<le> 1 / 4 * \<bar>A ^ m\<bar>" "(?h - 1) * \<bar>A ^ n\<bar> \<le> 1 / 4 * \<bar>A ^ n\<bar>"
        using g by (intro mult_right_mono; simp)+
      then have bx: "3 / 4 * \<bar>A ^ m\<bar> \<le> \<bar>?X\<bar>" "\<bar>?X\<bar> \<le> 5 / 4 * \<bar>A ^ m\<bar>" "3 / 4 * \<bar>A ^ n\<bar> \<le> \<bar>?Y\<bar>" "\<bar>?Y\<bar> \<le> 5 / 4 * \<bar>A ^ n\<bar>"
        using dx dy by linarith+
      have p: "\<bar>A ^ m\<bar> * \<bar>A ^ n\<bar> = \<bar>A\<bar> ^ (m + n)" by (simp add: power_abs power_add abs_mult)
      have "(3 / 4 * \<bar>A ^ m\<bar>) * (3 / 4 * \<bar>A ^ n\<bar>) \<le> \<bar>?X\<bar> * \<bar>?Y\<bar>" by (intro mult_mono bx) simp_all
      then have l: "9 / 16 * \<bar>A\<bar> ^ (m + n) \<le> \<bar>?X * ?Y\<bar>" unfolding p [symmetric] by (simp add: abs_mult)
      have "\<bar>?X\<bar> * \<bar>?Y\<bar> \<le> (5 / 4 * \<bar>A ^ m\<bar>) * (5 / 4 * \<bar>A ^ n\<bar>)" by (intro mult_mono bx) simp_all
      then have h: "\<bar>?X * ?Y\<bar> \<le> 25 / 16 * \<bar>A\<bar> ^ (m + n)" unfolding p [symmetric] by (simp add: abs_mult)
      have "9 / 16 * \<bar>A\<bar> ^ (m + n) * fp_scale F \<le> \<bar>?X * ?Y\<bar> * fp_scale F" "\<bar>?X * ?Y\<bar> * fp_scale F \<le> 25 / 16 * \<bar>A\<bar> ^ (m + n) * fp_scale F"
        using l h sc by (simp_all only: mult_right_mono less_imp_le)
      then have v: "2 ^ ?s \<le> \<bar>?X * ?Y\<bar> * fp_scale F" "2 * (\<bar>?X * ?Y\<bar> * fp_scale F) \<le> ?M"
        using range [OF le] by linarith+
      note rel = fp_mul_relative [OF fx v, of u' flush]
      have "\<bar>fp_value F (fp_mul F u' flush x y) - A ^ m * A ^ n\<bar> \<le> (?g * ?h * (1 + e) - 1) * \<bar>A ^ m * A ^ n\<bar>"
        using relative_product [OF dx dy _ e0 g(1,3)] rel(2) by (simp add: e_def)
      moreover have "?g * ?h * (1 + e) = (1 + e) ^ (m + n - 1)"
        using False n by (cases m; cases n) (simp_all add: power_add)
      ultimately show ?thesis using rel(1) False by (simp add: R_def fo(1) power_add)
    qed
  next
    show "R 0 (fone fo)" using fo by (simp add: R_def)
    show "R 1 a" using fin by (simp add: R_def A_def)
  qed (simp_all add: N)
  then show ?thesis by (simp add: R_def N(1) power_abs)
qed

end

section \<open>Properties\<close>











end
