(* ===== verification/Asan_Shadow.thy ===== *)
theory Asan_Shadow
  imports Bytes "HOL-Library.Monad_Syntax"
begin

unbundle bit_operations_syntax

text \<open>
  The shadow memory of AddressSanitizer: the mapping of \<^verbatim>\<open>lib/asan/asan_mapping.h\<close> and the operations of
  \<^verbatim>\<open>lib/asan/asan_poisoning.cc\<close>, for the default layout of 64-bit Linux. One shadow byte describes a granule of
  eight bytes: 0 if all are addressable, \<open>k\<close> from 1 to 7 if the first \<open>k\<close> are, negative if none is.

  The shadow is a function from addresses to bytes. \<open>None\<close> is a failed \<^verbatim>\<open>CHECK\<close>, which ends the program. Casts of
  a byte to \<^verbatim>\<open>s8\<close> are \<open>sint\<close>.
\<close>

section \<open>The mapping\<close>

type_synonym uptr = "64 word"
type_synonym u8 = "8 word"
type_synonym shadow = "uptr \<Rightarrow> u8"

definition CHECK :: "bool \<Rightarrow> unit option" where "CHECK b = (if b then Some () else None)"

definition SHADOW_SCALE :: nat where "SHADOW_SCALE = 3"
definition SHADOW_OFFSET :: uptr where "SHADOW_OFFSET = push_bit 44 1"
definition SHADOW_GRANULARITY :: uptr where "SHADOW_GRANULARITY = push_bit SHADOW_SCALE 1"
definition MEM_TO_SHADOW :: "uptr \<Rightarrow> uptr" where "MEM_TO_SHADOW mem = drop_bit SHADOW_SCALE mem OR SHADOW_OFFSET"

definition kHighMemEnd :: uptr where "kHighMemEnd = 0x00007fffffffffff"
definition kLowMemEnd :: uptr where "kLowMemEnd = (if SHADOW_OFFSET \<noteq> 0 then SHADOW_OFFSET - 1 else 0)"
definition kHighMemBeg :: uptr where "kHighMemBeg = MEM_TO_SHADOW kHighMemEnd + 1"
definition kGlobalAndStackRedzone :: uptr where
  "kGlobalAndStackRedzone = (if SHADOW_GRANULARITY < 32 then 32 else SHADOW_GRANULARITY)"

definition AddrIsInLowMem :: "uptr \<Rightarrow> bool" where "AddrIsInLowMem a \<longleftrightarrow> a < kLowMemEnd"
definition AddrIsInHighMem :: "uptr \<Rightarrow> bool" where "AddrIsInHighMem a \<longleftrightarrow> kHighMemBeg \<le> a \<and> a \<le> kHighMemEnd"
definition AddrIsInMem :: "uptr \<Rightarrow> bool" where "AddrIsInMem a \<longleftrightarrow> AddrIsInLowMem a \<or> AddrIsInHighMem a"

definition MemToShadow :: "uptr \<Rightarrow> uptr option" where
  "MemToShadow p = do { CHECK (AddrIsInMem p); Some (MEM_TO_SHADOW p) }"

definition AddrIsAlignedByGranularity :: "uptr \<Rightarrow> bool" where
  "AddrIsAlignedByGranularity a \<longleftrightarrow> a AND (SHADOW_GRANULARITY - 1) = 0"

definition AddressIsPoisoned :: "shadow \<Rightarrow> uptr \<Rightarrow> bool option" where
  "AddressIsPoisoned s a = do {
     let kAccessSize = 1;
     shadow_address \<leftarrow> MemToShadow a;
     let shadow_value = s shadow_address;
     Some (if shadow_value \<noteq> 0 then
             let last_accessed_byte = ucast ((a AND (SHADOW_GRANULARITY - 1)) + kAccessSize - 1) :: u8
             in sint shadow_value \<le> uint last_accessed_byte
           else False)
   }"

section \<open>Poisoning\<close>

definition kAsanUserPoisonedMemoryMagic :: u8 where "kAsanUserPoisonedMemoryMagic = 0xf7"
definition kAsanGlobalRedzoneMagic :: u8 where "kAsanGlobalRedzoneMagic = 0xf9"
definition kAsanInitializationOrderMagic :: u8 where "kAsanInitializationOrderMagic = 0xf6"

definition memset :: "uptr \<Rightarrow> u8 \<Rightarrow> uptr \<Rightarrow> shadow \<Rightarrow> shadow" where
  "memset p value n s = (\<lambda>q. if q - p < n then value else s q)"

definition PoisonShadow :: "uptr \<Rightarrow> uptr \<Rightarrow> u8 \<Rightarrow> shadow \<Rightarrow> shadow option" where
  "PoisonShadow addr sz value s = do {
     CHECK (AddrIsAlignedByGranularity addr);
     CHECK (AddrIsAlignedByGranularity (addr + sz));
     shadow_beg \<leftarrow> MemToShadow addr;
     shadow_end \<leftarrow> MemToShadow (addr + sz);
     Some (memset shadow_beg value (shadow_end - shadow_beg) s)
   }"

text \<open>The loop ends because \<open>i\<close> grows by a granule as long as it is below \<open>redzone_size\<close>; where it would wrap around it
  runs forever, so it is a partial function.\<close>

partial_function (option) redzone_loop :: "uptr \<Rightarrow> uptr \<Rightarrow> u8 \<Rightarrow> uptr \<Rightarrow> uptr \<Rightarrow> shadow \<Rightarrow> shadow option" where
  "redzone_loop sz redzone_size value i p s =
    (if i < redzone_size then
       redzone_loop sz redzone_size value (i + SHADOW_GRANULARITY) (p + 1)
         (s(p := (if i + SHADOW_GRANULARITY \<le> sz then 0
                  else if sz \<le> i then (if SHADOW_GRANULARITY = 128 then 0xff else value)
                  else ucast (sz - i))))
     else Some s)"

definition PoisonShadowPartialRightRedzone :: "uptr \<Rightarrow> uptr \<Rightarrow> uptr \<Rightarrow> u8 \<Rightarrow> shadow \<Rightarrow> shadow option" where
  "PoisonShadowPartialRightRedzone addr sz redzone_size value s = do {
     CHECK (AddrIsAlignedByGranularity addr);
     p \<leftarrow> MemToShadow addr;
     redzone_loop sz redzone_size value 0 p s
   }"

record ShadowSegmentEndpoint =
  chunk :: uptr
  offset :: u8
  seg_value :: u8

definition segment_endpoint :: "shadow \<Rightarrow> uptr \<Rightarrow> ShadowSegmentEndpoint option" where
  "segment_endpoint s address = do {
     c \<leftarrow> MemToShadow address;
     Some \<lparr> chunk = c, offset = ucast (address AND (SHADOW_GRANULARITY - 1)), seg_value = s c \<rparr>
   }"

definition s8_min :: "u8 \<Rightarrow> u8 \<Rightarrow> u8" where "s8_min a b = (if a <s b then a else b)"
definition s8_max :: "u8 \<Rightarrow> u8 \<Rightarrow> u8" where "s8_max a b = (if b <s a then a else b)"

definition asan_poison_memory_region :: "bool \<Rightarrow> uptr \<Rightarrow> uptr \<Rightarrow> shadow \<Rightarrow> shadow option" where
  "asan_poison_memory_region allow_user_poisoning addr sz s =
    (if \<not> allow_user_poisoning \<or> sz = 0 then Some s
     else do {
       let beg_addr = addr;
       let end_addr = beg_addr + sz;
       b \<leftarrow> segment_endpoint s beg_addr;
       e \<leftarrow> segment_endpoint s end_addr;
       if chunk b = chunk e then do {
         CHECK (offset b <s offset e);
         let v = seg_value b;
         CHECK (v = seg_value e);
         Some (if 0 <s v \<and> v \<le>s offset e then
                 (if 0 <s offset b then s(chunk b := s8_min v (offset b))
                  else s(chunk b := kAsanUserPoisonedMemoryMagic))
               else s)
       } else do {
         CHECK (chunk b < chunk e);
         let (p, s) =
           (if 0 <s offset b then
              (chunk b + 1,
               if seg_value b = 0 then s(chunk b := offset b) else s(chunk b := s8_min (seg_value b) (offset b)))
            else (chunk b, s));
         let s = memset p kAsanUserPoisonedMemoryMagic (chunk e - p) s;
         Some (if 0 <s seg_value e \<and> seg_value e \<le>s offset e then s(chunk e := kAsanUserPoisonedMemoryMagic) else s)
       }
     })"

definition asan_unpoison_memory_region :: "bool \<Rightarrow> uptr \<Rightarrow> uptr \<Rightarrow> shadow \<Rightarrow> shadow option" where
  "asan_unpoison_memory_region allow_user_poisoning addr sz s =
    (if \<not> allow_user_poisoning \<or> sz = 0 then Some s
     else do {
       let beg_addr = addr;
       let end_addr = beg_addr + sz;
       b \<leftarrow> segment_endpoint s beg_addr;
       e \<leftarrow> segment_endpoint s end_addr;
       if chunk b = chunk e then do {
         CHECK (offset b <s offset e);
         let v = seg_value b;
         CHECK (v = seg_value e);
         Some (if v \<noteq> 0 then s(chunk b := s8_max v (offset e)) else s)
       } else do {
         CHECK (chunk b < chunk e);
         let (p, s) = (if 0 <s offset b then (chunk b + 1, s(chunk b := 0)) else (chunk b, s));
         let s = memset p 0 (chunk e - p) s;
         Some (if 0 <s offset e \<and> seg_value e \<noteq> 0 then s(chunk e := s8_max (seg_value e) (offset e)) else s)
       }
     })"

definition asan_address_is_poisoned :: "shadow \<Rightarrow> uptr \<Rightarrow> bool option" where
  "asan_address_is_poisoned s addr = AddressIsPoisoned s addr"

section \<open>Granules\<close>

lemma CHECK_bind [simp]: "Option.bind (CHECK b) f = (if b then f () else None)"
  by (simp add: CHECK_def)

lemma mapping_numbers: "SHADOW_OFFSET = 0x100000000000" "SHADOW_GRANULARITY = 8" "SHADOW_GRANULARITY - 1 = mask 3"
  "kLowMemEnd = 0xfffffffffff" "kHighMemBeg = 0x200000000000" "kGlobalAndStackRedzone = 32"
  by code_simp+

lemma in_mem_iff: "AddrIsInMem a \<longleftrightarrow> unat a < 0xfffffffffff \<or> 0x200000000000 \<le> unat a \<and> unat a \<le> 0x7fffffffffff"
  by (simp add: AddrIsInMem_def AddrIsInLowMem_def AddrIsInHighMem_def mapping_numbers kHighMemEnd_def word_less_nat_alt word_le_nat_alt)

lemma unat_shadow: "AddrIsInMem a \<Longrightarrow> unat (MEM_TO_SHADOW a) = 2 ^ 44 + unat a div 8"
proof -
  assume "AddrIsInMem a"
  then have lt: "unat a div 8 < 2 ^ 44" by (auto simp: in_mem_iff)
  have b: "unat (drop_bit 3 a) = unat a div 8" by (simp add: unat_drop_bit)
  have "drop_bit 3 a AND push_bit 44 1 = 0"
  proof (rule bit_word_eqI)
    fix i
    have "\<not> bit (drop_bit 3 a) 44" using bit_imp_unat_ge [of "drop_bit 3 a" 44] lt b by auto
    then show "bit (drop_bit 3 a AND push_bit 44 1) i = bit (0 :: uptr) i"
      by (auto simp: bit_and_iff bit_push_bit_iff bit_1_iff simp del: push_bit_of_1)
  qed
  then have "MEM_TO_SHADOW a = drop_bit 3 a + push_bit 44 1"
    unfolding MEM_TO_SHADOW_def SHADOW_SCALE_def SHADOW_OFFSET_def by (rule or_disjoint_add)
  moreover have "unat (push_bit 44 1 :: uptr) = 2 ^ 44" by simp
  ultimately show ?thesis using lt b by (simp add: unat_add_below del: push_bit_of_1)
qed

lemma shadow_eq_iff: "AddrIsInMem a \<Longrightarrow> AddrIsInMem b \<Longrightarrow> MEM_TO_SHADOW a = MEM_TO_SHADOW b \<longleftrightarrow> unat a div 8 = unat b div 8"
  by (simp add: word_unat_eq_iff unat_shadow)

lemma shadow_le_iff: "AddrIsInMem a \<Longrightarrow> AddrIsInMem b \<Longrightarrow> MEM_TO_SHADOW a \<le> MEM_TO_SHADOW b \<longleftrightarrow> unat a div 8 \<le> unat b div 8"
  and shadow_less_iff: "AddrIsInMem a \<Longrightarrow> AddrIsInMem b \<Longrightarrow> MEM_TO_SHADOW a < MEM_TO_SHADOW b \<longleftrightarrow> unat a div 8 < unat b div 8"
  by (simp_all add: word_le_nat_alt word_less_nat_alt unat_shadow)

lemma granule_offset: "unat (a AND (SHADOW_GRANULARITY - 1)) = unat a mod 8"
  unfolding mapping_numbers(3) unat_and_mask by simp

text \<open>The byte at offset \<open>k\<close> of a granule with shadow \<open>v\<close> is poisoned.\<close>

definition bad :: "u8 \<Rightarrow> nat \<Rightarrow> bool" where "bad v k \<longleftrightarrow> v \<noteq> 0 \<and> sint v \<le> int k"

definition poisoned :: "shadow \<Rightarrow> uptr \<Rightarrow> bool" where "poisoned s a \<longleftrightarrow> bad (s (MEM_TO_SHADOW a)) (unat a mod 8)"

lemma AddressIsPoisoned_eq: "AddrIsInMem a \<Longrightarrow> AddressIsPoisoned s a = Some (poisoned s a)"
proof -
  assume "AddrIsInMem a"
  have "unat (ucast (a AND (SHADOW_GRANULARITY - 1)) :: u8) = unat a mod 8"
    by (simp add: granule_offset unsigned_ucast_eq take_bit_nat_eq_self)
  then have "uint (ucast ((a AND (SHADOW_GRANULARITY - 1)) + 1 - 1) :: u8) = int (unat a mod 8)" by (simp add: uint_nat)
  with \<open>AddrIsInMem a\<close> show ?thesis
    by (simp add: AddressIsPoisoned_def MemToShadow_def Let_def poisoned_def bad_def)
qed

lemma memset_range: "p \<le> e \<Longrightarrow> memset p v (e - p) s q = (if p \<le> q \<and> q < e then v else s q)"
proof -
  assume "p \<le> e"
  then have "q - p < e - p \<longleftrightarrow> p \<le> q \<and> q < e"
    using unsigned_less [where ?'a = nat, of q] unsigned_less [where ?'a = nat, of e] unsigned_less [where ?'a = nat, of p]
    by (auto simp: word_less_nat_alt word_le_nat_alt unat_sub_if')
  then show ?thesis by (simp add: memset_def)
qed

lemma endpoint_eq:
  assumes "AddrIsInMem x"
  shows "segment_endpoint s x =
    Some \<lparr> chunk = MEM_TO_SHADOW x, offset = of_nat (unat x mod 8), seg_value = s (MEM_TO_SHADOW x) \<rparr>"
proof -
  have "(ucast (x AND (SHADOW_GRANULARITY - 1)) :: u8) = of_nat (unat x mod 8)"
    unfolding word_unat_eq_iff by (simp add: granule_offset unsigned_ucast_eq take_bit_nat_eq_self unsigned_of_nat)
  then show ?thesis using assms by (simp add: segment_endpoint_def MemToShadow_def)
qed

lemma sint_small: "k < 128 \<Longrightarrow> sint (of_nat k :: u8) = int k"
  by (simp add: signed_of_nat signed_take_bit_int_eq_self)

lemma bad_simps:
  "\<not> bad 0 k" "bad kAsanUserPoisonedMemoryMagic k" "n < 128 \<Longrightarrow> bad (of_nat n) k \<longleftrightarrow> 0 < n \<and> n \<le> k"
proof -
  show "\<not> bad 0 k" by (simp add: bad_def)
  show "bad kAsanUserPoisonedMemoryMagic k" by (simp add: bad_def kAsanUserPoisonedMemoryMagic_def)
  assume n: "n < 128"
  have "(of_nat n :: u8) = 0 \<longleftrightarrow> n = 0" using n sint_small [of n] signed_eq_0_iff [of "of_nat n :: u8"] by auto
  then show "bad (of_nat n) k \<longleftrightarrow> 0 < n \<and> n \<le> k" using n by (auto simp: bad_def sint_small)
qed

lemma bad_min: "n < 128 \<Longrightarrow> 0 < n \<Longrightarrow> v \<noteq> 0 \<Longrightarrow> bad (s8_min v (of_nat n)) k \<longleftrightarrow> bad v k \<or> n \<le> k"
  using bad_simps(3) [of n k] by (auto simp: s8_min_def word_sless_alt sint_small bad_def)

lemma bad_max: "n < 128 \<Longrightarrow> 0 < n \<Longrightarrow> v \<noteq> 0 \<Longrightarrow> bad (s8_max v (of_nat n)) k \<longleftrightarrow> bad v k \<and> n \<le> k"
  using bad_simps(3) [of n k] by (auto simp: s8_max_def word_sless_alt sint_small bad_def)

section \<open>What the operations do to the addresses\<close>

lemma aligned_iff: "AddrIsAlignedByGranularity a \<longleftrightarrow> unat a mod 8 = 0"
  unfolding AddrIsAlignedByGranularity_def by (simp only: word_unat_eq_iff granule_offset unsigned_0)

lemma aligned_range:
  fixes a b x :: nat
  assumes "a mod 8 = 0" "b mod 8 = 0"
  shows "a div 8 \<le> x div 8 \<and> x div 8 < b div 8 \<longleftrightarrow> a \<le> x \<and> x < b"
proof -
  have "a = 8 * (a div 8)" "b = 8 * (b div 8)" "x = 8 * (x div 8) + x mod 8" "x mod 8 < 8" using assms by auto
  then show ?thesis by linarith
qed

text \<open>\<^verbatim>\<open>PoisonShadow\<close> gives the granules of an aligned range one value.\<close>

lemma PoisonShadow_eq:
  assumes "unat addr mod 8 = 0" "unat (addr + sz) mod 8 = 0" "AddrIsInMem addr" "AddrIsInMem (addr + sz)" "addr \<le> addr + sz"
  obtains s' where "PoisonShadow addr sz v s = Some s'"
    "\<And>a. AddrIsInMem a \<Longrightarrow> poisoned s' a \<longleftrightarrow> (if addr \<le> a \<and> a < addr + sz then bad v (unat a mod 8) else poisoned s a)"
proof -
  define s' where "s' = memset (MEM_TO_SHADOW addr) v (MEM_TO_SHADOW (addr + sz) - MEM_TO_SHADOW addr) s"
  have "PoisonShadow addr sz v s = Some s'"
    using assms by (simp add: PoisonShadow_def aligned_iff MemToShadow_def s'_def)
  moreover have "MEM_TO_SHADOW addr \<le> MEM_TO_SHADOW (addr + sz)"
    unfolding shadow_le_iff [OF assms(3,4)] using assms(5) by (simp add: word_le_nat_alt div_le_mono)
  then have "poisoned s' a \<longleftrightarrow> (if addr \<le> a \<and> a < addr + sz then bad v (unat a mod 8) else poisoned s a)" if "AddrIsInMem a" for a
    using that assms(3,4) aligned_range [OF assms(1,2), of "unat a"]
    by (simp add: s'_def memset_range poisoned_def shadow_le_iff shadow_less_iff)
      (auto simp: word_le_nat_alt word_less_nat_alt)
  ultimately show ?thesis by (rule that)
qed

text \<open>The values the region operations write, read byte by byte.\<close>

definition poison_tail :: "nat \<Rightarrow> nat \<Rightarrow> u8 \<Rightarrow> u8" where
  "poison_tail i j v =
    (if 0 <s v \<and> v \<le>s of_nat j then if 0 < i then s8_min v (of_nat i) else kAsanUserPoisonedMemoryMagic else v)"

lemma bad_poison_tail:
  assumes "i \<le> j" "j < 8"
  shows "bad (poison_tail i j v) k \<longleftrightarrow> bad v k \<or> i \<le> k \<and> k < j \<and> bad v j"
proof (cases "0 < sint v \<and> sint v \<le> int j")
  case True
  then have "v \<noteq> 0" "bad v j" by (auto simp: bad_def)
  moreover have "k < j \<or> bad v k" using True \<open>v \<noteq> 0\<close> by (simp add: bad_def) linarith
  ultimately show ?thesis
    using assms True bad_min [of i v k] bad_simps(2)
    by (cases "i = 0") (auto simp: poison_tail_def word_sless_alt word_sle_eq sint_small not_le)
next
  case False
  then have "poison_tail i j v = v" using assms by (auto simp: poison_tail_def word_sless_alt word_sle_eq sint_small)
  moreover have "bad v j \<Longrightarrow> bad v k" using False by (auto simp: bad_def)
  ultimately show ?thesis by auto
qed

definition poison_head :: "nat \<Rightarrow> u8 \<Rightarrow> u8" where
  "poison_head i v = (if v = 0 then of_nat i else s8_min v (of_nat i))"

lemma bad_poison_head: "0 < i \<Longrightarrow> i < 8 \<Longrightarrow> bad (poison_head i v) k \<longleftrightarrow> bad v k \<or> i \<le> k"
  using bad_min [of i v k] bad_simps(1) [of k] bad_simps(3) [of i k] by (auto simp: poison_head_def)

definition unpoison_head :: "nat \<Rightarrow> u8 \<Rightarrow> u8" where
  "unpoison_head j v = (if v \<noteq> 0 then s8_max v (of_nat j) else v)"

lemma bad_unpoison_head: "0 < j \<Longrightarrow> j < 8 \<Longrightarrow> bad (unpoison_head j v) k \<longleftrightarrow> bad v k \<and> j \<le> k"
  using bad_max [of j v k] bad_simps(1) [of k] by (auto simp: unpoison_head_def)

text \<open>The first and the last granule of a region and their offsets.\<close>

lemma granule_order:
  fixes x :: nat
  shows "i < 8 \<Longrightarrow> 8 * b + i \<le> x \<longleftrightarrow> b < x div 8 \<or> b = x div 8 \<and> i \<le> x mod 8"
    and "i < 8 \<Longrightarrow> x < 8 * b + i \<longleftrightarrow> x div 8 < b \<or> x div 8 = b \<and> x mod 8 < i"
proof -
  have x: "x = 8 * (x div 8) + x mod 8" "x mod 8 < 8" by simp_all
  show "i < 8 \<Longrightarrow> 8 * b + i \<le> x \<longleftrightarrow> b < x div 8 \<or> b = x div 8 \<and> i \<le> x mod 8"
    using x by (cases b "x div 8" rule: linorder_cases) linarith+
  show "i < 8 \<Longrightarrow> x < 8 * b + i \<longleftrightarrow> x div 8 < b \<or> x div 8 = b \<and> x mod 8 < i"
    using x by (cases b "x div 8" rule: linorder_cases) linarith+
qed

definition region :: "uptr \<Rightarrow> uptr \<Rightarrow> uptr \<Rightarrow> nat \<Rightarrow> nat \<Rightarrow> nat \<Rightarrow> nat \<Rightarrow> bool" where
  "region addr sz e gb i ge j \<longleftrightarrow> e = addr + sz \<and> AddrIsInMem addr \<and> AddrIsInMem e \<and> addr < e \<and>
    unat addr = 8 * gb + i \<and> i < 8 \<and> unat e = 8 * ge + j \<and> j < 8"

lemma region_facts:
  assumes "region addr sz e gb i ge j"
  shows "e = addr + sz" "AddrIsInMem addr" "AddrIsInMem e" "sz \<noteq> 0" "gb < ge \<or> gb = ge \<and> i < j"
    "unat addr div 8 = gb" "unat e div 8 = ge" "sint (of_nat i :: u8) = int i" "sint (of_nat j :: u8) = int j"
    "segment_endpoint s addr = Some \<lparr> chunk = MEM_TO_SHADOW addr, offset = of_nat i, seg_value = s (MEM_TO_SHADOW addr) \<rparr>"
    "segment_endpoint s e = Some \<lparr> chunk = MEM_TO_SHADOW e, offset = of_nat j, seg_value = s (MEM_TO_SHADOW e) \<rparr>"
    "i < 8" "j < 8" "unat addr = 8 * gb + i" "unat e = 8 * ge + j"
  using assms endpoint_eq [of addr s] endpoint_eq [of e s] by (auto simp: region_def sint_small word_less_nat_alt)

lemma region_chunks:
  assumes r: "region addr sz e gb i ge j" and a: "AddrIsInMem a"
  shows "MEM_TO_SHADOW a = MEM_TO_SHADOW addr \<longleftrightarrow> unat a div 8 = gb" "MEM_TO_SHADOW a = MEM_TO_SHADOW e \<longleftrightarrow> unat a div 8 = ge"
    "MEM_TO_SHADOW addr \<le> MEM_TO_SHADOW a \<longleftrightarrow> gb \<le> unat a div 8" "MEM_TO_SHADOW a < MEM_TO_SHADOW e \<longleftrightarrow> unat a div 8 < ge"
    "MEM_TO_SHADOW addr + 1 \<le> MEM_TO_SHADOW a \<longleftrightarrow> gb < unat a div 8"
proof -
  note f = region_facts [OF r]
  have u: "unat (MEM_TO_SHADOW addr + 1) = 2 ^ 44 + gb + 1"
  proof -
    have "gb < 2 ^ 44" using f(2,6) by (auto simp: in_mem_iff)
    then show ?thesis using unat_shadow [OF f(2)] f(6) by (subst unat_add_below) simp_all
  qed
  show "MEM_TO_SHADOW a = MEM_TO_SHADOW addr \<longleftrightarrow> unat a div 8 = gb" "MEM_TO_SHADOW a = MEM_TO_SHADOW e \<longleftrightarrow> unat a div 8 = ge"
    "MEM_TO_SHADOW addr \<le> MEM_TO_SHADOW a \<longleftrightarrow> gb \<le> unat a div 8" "MEM_TO_SHADOW a < MEM_TO_SHADOW e \<longleftrightarrow> unat a div 8 < ge"
    using a f(2,3) by (simp_all add: shadow_eq_iff shadow_le_iff shadow_less_iff f(6,7))
  show "MEM_TO_SHADOW addr + 1 \<le> MEM_TO_SHADOW a \<longleftrightarrow> gb < unat a div 8"
    unfolding word_le_nat_alt u unat_shadow [OF a] by linarith
qed

lemma region_order:
  assumes r: "region addr sz e gb i ge j"
  shows "MEM_TO_SHADOW addr = MEM_TO_SHADOW e \<longleftrightarrow> gb = ge" "gb < ge \<Longrightarrow> MEM_TO_SHADOW addr < MEM_TO_SHADOW e"
    "gb < ge \<Longrightarrow> MEM_TO_SHADOW addr + 1 \<le> MEM_TO_SHADOW e"
  using region_chunks(1,5) [OF r region_facts(3) [OF r]] region_chunks(4) [OF r region_facts(2) [OF r]]
  unfolding region_facts(6,7) [OF r] by (simp_all add: eq_commute)

lemma poison_same:
  assumes r: "region addr sz e gb i ge j" and "gb = ge"
  shows "asan_poison_memory_region True addr sz s =
    Some (s(MEM_TO_SHADOW addr := poison_tail i j (s (MEM_TO_SHADOW addr))))"
proof -
  note f = region_facts [OF r]
  have c: "MEM_TO_SHADOW e = MEM_TO_SHADOW addr" using region_order(1) [OF r] assms(2) by simp
  have "i < j" using f(5) assms by simp
  then show ?thesis using f(4,8,9)
    by (simp add: asan_poison_memory_region_def f(1) [symmetric] f(10,11) word_sless_alt Let_def poison_tail_def c)
qed

lemma unpoison_same:
  assumes r: "region addr sz e gb i ge j" and "gb = ge"
  shows "asan_unpoison_memory_region True addr sz s =
    Some (s(MEM_TO_SHADOW addr := unpoison_head j (s (MEM_TO_SHADOW addr))))"
proof -
  note f = region_facts [OF r]
  have c: "MEM_TO_SHADOW e = MEM_TO_SHADOW addr" using region_order(1) [OF r] assms(2) by simp
  have "i < j" using f(5) assms by simp
  then show ?thesis using f(4,8,9)
    by (simp add: asan_unpoison_memory_region_def f(1) [symmetric] f(10,11) word_sless_alt Let_def unpoison_head_def c fun_upd_idem)
qed

lemma memset_keeps:
  assumes r: "region addr sz e gb i ge j" and "gb < ge"
  shows "memset (MEM_TO_SHADOW addr) v (MEM_TO_SHADOW e - MEM_TO_SHADOW addr) t (MEM_TO_SHADOW e) = t (MEM_TO_SHADOW e)"
    "memset (MEM_TO_SHADOW addr + 1) v (MEM_TO_SHADOW e - (MEM_TO_SHADOW addr + 1)) t (MEM_TO_SHADOW e) = t (MEM_TO_SHADOW e)"
  using region_order(2,3) [OF assms] by (simp_all add: memset_range)

lemma poison_different:
  assumes r: "region addr sz e gb i ge j" and lt: "gb < ge"
  shows "asan_poison_memory_region True addr sz s =
    Some ((memset (if 0 < i then MEM_TO_SHADOW addr + 1 else MEM_TO_SHADOW addr) kAsanUserPoisonedMemoryMagic
        (MEM_TO_SHADOW e - (if 0 < i then MEM_TO_SHADOW addr + 1 else MEM_TO_SHADOW addr))
        (if 0 < i then s(MEM_TO_SHADOW addr := poison_head i (s (MEM_TO_SHADOW addr))) else s))
      (MEM_TO_SHADOW e := poison_tail 0 j (s (MEM_TO_SHADOW e))))"
proof -
  note f = region_facts [OF r] and c = region_order(2,3) [OF r lt]
  have ne: "MEM_TO_SHADOW addr \<noteq> MEM_TO_SHADOW e" using c by auto
  show ?thesis using f(4,8,9) c ne memset_keeps [OF r lt]
    by (cases "0 < i"; cases "0 <s s (MEM_TO_SHADOW e) \<and> s (MEM_TO_SHADOW e) \<le>s of_nat j")
      (auto simp: asan_poison_memory_region_def f(1) [symmetric] f(10,11) word_sless_alt Let_def poison_tail_def poison_head_def fun_upd_idem)
qed

lemma unpoison_different:
  assumes r: "region addr sz e gb i ge j" and lt: "gb < ge"
  shows "asan_unpoison_memory_region True addr sz s =
    Some ((memset (if 0 < i then MEM_TO_SHADOW addr + 1 else MEM_TO_SHADOW addr) 0
        (MEM_TO_SHADOW e - (if 0 < i then MEM_TO_SHADOW addr + 1 else MEM_TO_SHADOW addr))
        (if 0 < i then s(MEM_TO_SHADOW addr := 0) else s))
      (MEM_TO_SHADOW e := if 0 < j then unpoison_head j (s (MEM_TO_SHADOW e)) else s (MEM_TO_SHADOW e)))"
proof -
  note f = region_facts [OF r] and c = region_order(2,3) [OF r lt]
  have ne: "MEM_TO_SHADOW addr \<noteq> MEM_TO_SHADOW e" using c by auto
  show ?thesis using f(4,8,9) c ne memset_keeps [OF r lt]
    by (cases "0 < i"; cases "0 < j \<and> s (MEM_TO_SHADOW e) \<noteq> 0")
      (auto simp: asan_unpoison_memory_region_def f(1) [symmetric] f(10,11) word_sless_alt Let_def unpoison_head_def fun_upd_idem)
qed

text \<open>Address by address: poisoning affects the whole granules, the end of the first one, and the beginning of the last one if the
  byte after the region is poisoned; unpoisoning affects the region and the rest of its first granule before it.\<close>

lemma poison_region:
  assumes r: "region addr sz e gb i ge j"
  shows "\<exists>s'. asan_poison_memory_region True addr sz s = Some s' \<and> (\<forall>a. AddrIsInMem a \<longrightarrow>
    (poisoned s' a \<longleftrightarrow> poisoned s a \<or> addr \<le> a \<and> a < e \<and> (unat a div 8 < ge \<or> poisoned s e)))"
proof -
  note f = region_facts [OF r]
  have pe: "poisoned s e \<longleftrightarrow> bad (s (MEM_TO_SHADOW e)) j" using f(13,15) by (simp add: poisoned_def)
  have rng: "addr \<le> a \<longleftrightarrow> gb < unat a div 8 \<or> gb = unat a div 8 \<and> i \<le> unat a mod 8"
    "a < e \<longleftrightarrow> unat a div 8 < ge \<or> unat a div 8 = ge \<and> unat a mod 8 < j" for a
    using f(12-15) by (simp_all add: word_le_nat_alt word_less_nat_alt granule_order)
  show ?thesis
  proof (cases "gb = ge")
    case True
    then have "i < j" using f(5) by simp
    then have "poisoned (s(MEM_TO_SHADOW addr := poison_tail i j (s (MEM_TO_SHADOW addr)))) a \<longleftrightarrow>
      poisoned s a \<or> addr \<le> a \<and> a < e \<and> (unat a div 8 < ge \<or> poisoned s e)" if a: "AddrIsInMem a" for a
      using region_chunks(1) [OF r a] region_order(1) [OF r] True f(13) unfolding pe rng
      by (auto simp: poisoned_def bad_poison_tail)
    then show ?thesis using poison_same [OF r True] by blast
  next
    case False
    then have lt: "gb < ge" using f(5) by simp
    note c = region_order(2,3) [OF r lt]
    have "poisoned ((memset (if 0 < i then MEM_TO_SHADOW addr + 1 else MEM_TO_SHADOW addr) kAsanUserPoisonedMemoryMagic
          (MEM_TO_SHADOW e - (if 0 < i then MEM_TO_SHADOW addr + 1 else MEM_TO_SHADOW addr))
          (if 0 < i then s(MEM_TO_SHADOW addr := poison_head i (s (MEM_TO_SHADOW addr))) else s))
        (MEM_TO_SHADOW e := poison_tail 0 j (s (MEM_TO_SHADOW e)))) a \<longleftrightarrow>
      poisoned s a \<or> addr \<le> a \<and> a < e \<and> (unat a div 8 < ge \<or> poisoned s e)" if a: "AddrIsInMem a" for a
      using region_chunks [OF r a] c lt f(12,13) unfolding pe rng
      by (cases "0 < i") (auto simp: poisoned_def memset_range bad_poison_tail bad_poison_head bad_simps(2))
    then show ?thesis using poison_different [OF r lt] by blast
  qed
qed

lemma unpoison_region:
  assumes r: "region addr sz e gb i ge j"
  shows "\<exists>s'. asan_unpoison_memory_region True addr sz s = Some s' \<and> (\<forall>a. AddrIsInMem a \<longrightarrow>
    (poisoned s' a \<longleftrightarrow> poisoned s a \<and> \<not> (gb \<le> unat a div 8 \<and> a < e)))"
proof -
  note f = region_facts [OF r]
  have rng: "a < e \<longleftrightarrow> unat a div 8 < ge \<or> unat a div 8 = ge \<and> unat a mod 8 < j" for a
    using f(13,15) by (simp add: word_less_nat_alt granule_order)
  show ?thesis
  proof (cases "gb = ge")
    case True
    then have "0 < j" using f(5) by simp
    then have "poisoned (s(MEM_TO_SHADOW addr := unpoison_head j (s (MEM_TO_SHADOW addr)))) a \<longleftrightarrow>
      poisoned s a \<and> \<not> (gb \<le> unat a div 8 \<and> a < e)" if a: "AddrIsInMem a" for a
      using region_chunks(1) [OF r a] region_order(1) [OF r] True f(13) unfolding rng
      by (auto simp: poisoned_def bad_unpoison_head)
    then show ?thesis using unpoison_same [OF r True] by blast
  next
    case False
    then have lt: "gb < ge" using f(5) by simp
    note c = region_order(2,3) [OF r lt]
    have "poisoned ((memset (if 0 < i then MEM_TO_SHADOW addr + 1 else MEM_TO_SHADOW addr) 0
        (MEM_TO_SHADOW e - (if 0 < i then MEM_TO_SHADOW addr + 1 else MEM_TO_SHADOW addr))
        (if 0 < i then s(MEM_TO_SHADOW addr := 0) else s))
      (MEM_TO_SHADOW e := if 0 < j then unpoison_head j (s (MEM_TO_SHADOW e)) else s (MEM_TO_SHADOW e))) a \<longleftrightarrow>
      poisoned s a \<and> \<not> (gb \<le> unat a div 8 \<and> a < e)" if a: "AddrIsInMem a" for a
      using region_chunks [OF r a] c lt f(13) unfolding rng
      by (cases "0 < i"; cases "0 < j") (auto simp: poisoned_def memset_range bad_unpoison_head bad_simps(1))
    then show ?thesis using unpoison_different [OF r lt] by blast
  qed
qed

section \<open>The partial redzone\<close>

definition redzone_byte :: "uptr \<Rightarrow> u8 \<Rightarrow> nat \<Rightarrow> u8" where
  "redzone_byte sz v g = (if 8 * g + 8 \<le> unat sz then 0 else if unat sz \<le> 8 * g then v else of_nat (unat sz - 8 * g))"

lemma redzone_loop_eq:
  assumes n: "unat rz \<le> 8 * n" "8 * n < 2 ^ 63" "\<And>g. g < n \<Longrightarrow> 8 * g < unat rz" and k: "k \<le> n"
  shows "redzone_loop sz rz v (of_nat (8 * k)) (p + of_nat k) s =
    Some (\<lambda>q. if unat (q - p) < n \<and> k \<le> unat (q - p) then redzone_byte sz v (unat (q - p)) else s q)"
  using k
proof (induction "n - k" arbitrary: k s)
  case 0
  have u: "unat (of_nat (8 * k) :: uptr) = 8 * k" using 0 n(2) by (simp add: unsigned_of_nat take_bit_nat_eq_self del: of_nat_mult)
  have "\<not> of_nat (8 * k) < rz" unfolding word_less_nat_alt u using 0 n(1) by simp
  then show ?case using 0 by (subst redzone_loop.simps) (auto simp: fun_eq_iff)
next
  case (Suc d)
  then have kn: "k < n" by simp
  have u: "unat (of_nat (8 * k) :: uptr) = 8 * k" "unat (of_nat (8 * k + 8) :: uptr) = 8 * k + 8" "unat (of_nat k :: uptr) = k"
    using kn n(2) by (simp_all add: unsigned_of_nat take_bit_nat_eq_self del: of_nat_mult of_nat_add)
  have lt: "of_nat (8 * k) < rz" unfolding word_less_nat_alt u using n(3) kn by simp
  have i8: "of_nat (8 * k) + SHADOW_GRANULARITY = (of_nat (8 * Suc k) :: uptr)" by (simp add: mapping_numbers)
  have i8': "of_nat (8 * Suc k) = (of_nat (8 * k + 8) :: uptr)" by simp
  have p: "p + of_nat k + 1 = p + of_nat (Suc k)" by simp
  have b: "(if of_nat (8 * k) + SHADOW_GRANULARITY \<le> sz then 0
      else if sz \<le> of_nat (8 * k) then if SHADOW_GRANULARITY = 128 then 0xff else v else ucast (sz - of_nat (8 * k))) = redzone_byte sz v k"
  proof -
    have le: "(of_nat (8 * k) + SHADOW_GRANULARITY :: uptr) \<le> sz \<longleftrightarrow> 8 * k + 8 \<le> unat sz"
      unfolding i8 i8' by (simp only: word_le_nat_alt u)
    have ge: "sz \<le> of_nat (8 * k) \<longleftrightarrow> unat sz \<le> 8 * k" by (simp only: word_le_nat_alt u)
    have "(ucast (sz - of_nat (8 * k)) :: u8) = of_nat (unat sz - 8 * k)" if "\<not> unat sz \<le> 8 * k"
    proof -
      have "unat (sz - of_nat (8 * k)) = unat sz - 8 * k" using that by (simp add: unat_sub_if' u del: of_nat_mult)
      moreover have "of_nat (unat (sz - of_nat (8 * k))) = (ucast (sz - of_nat (8 * k)) :: u8)" by (rule of_nat_unat)
      ultimately show ?thesis by simp
    qed
    then show ?thesis unfolding le ge redzone_byte_def by (simp add: mapping_numbers)
  qed
  have q: "q = p + of_nat k \<longleftrightarrow> unat (q - p) = k" for q
  proof
    show "q = p + of_nat k \<Longrightarrow> unat (q - p) = k" using u(3) by simp
    assume "unat (q - p) = k"
    then have "q - p = of_nat k" using u(3) by (simp add: word_unat_eq_iff)
    then show "q = p + of_nat k" by (simp add: algebra_simps)
  qed
  have "redzone_loop sz rz v (of_nat (8 * k)) (p + of_nat k) s =
    redzone_loop sz rz v (of_nat (8 * Suc k)) (p + of_nat (Suc k)) (s(p + of_nat k := redzone_byte sz v k))"
    by (subst redzone_loop.simps) (simp only: lt if_True b p, simp only: i8)
  also have "\<dots> = Some (\<lambda>q. if unat (q - p) < n \<and> Suc k \<le> unat (q - p) then redzone_byte sz v (unat (q - p))
      else (s(p + of_nat k := redzone_byte sz v k)) q)"
    using Suc kn by (intro Suc.hyps(1)) simp_all
  also have "\<dots> = Some (\<lambda>q. if unat (q - p) < n \<and> k \<le> unat (q - p) then redzone_byte sz v (unat (q - p)) else s q)"
    using kn by (auto simp: fun_eq_iff q le_Suc_eq not_le)
  finally show ?case .
qed

text \<open>The redzone that begins in the last granules of an object of \<open>sz\<close> bytes: it poisons exactly the bytes after the object.\<close>

lemma partial_redzone:
  assumes a: "unat addr mod 8 = 0" "AddrIsInMem addr" and n: "unat rz \<le> 8 * n" "8 * n < 2 ^ 44" "\<And>g. g < n \<Longrightarrow> 8 * g < unat rz"
    and v: "v <s 0"
  obtains s' where "PoisonShadowPartialRightRedzone addr sz rz v s = Some s'"
    "\<And>a. AddrIsInMem a \<Longrightarrow> poisoned s' a \<longleftrightarrow>
      (if unat addr \<le> unat a \<and> unat a < unat addr + 8 * n then unat addr + unat sz \<le> unat a else poisoned s a)"
proof -
  define s' where "s' = (\<lambda>q. if unat (q - MEM_TO_SHADOW addr) < n \<and> 0 \<le> unat (q - MEM_TO_SHADOW addr)
    then redzone_byte sz v (unat (q - MEM_TO_SHADOW addr)) else s q)"
  have "redzone_loop sz rz v (of_nat (8 * 0)) (MEM_TO_SHADOW addr + of_nat 0) s = Some s'"
    unfolding s'_def using n by (intro redzone_loop_eq) simp_all
  then have "PoisonShadowPartialRightRedzone addr sz rz v s = Some s'"
    using a by (simp add: PoisonShadowPartialRightRedzone_def aligned_iff MemToShadow_def)
  moreover have "poisoned s' x \<longleftrightarrow>
      (if unat addr \<le> unat x \<and> unat x < unat addr + 8 * n then unat addr + unat sz \<le> unat x else poisoned s x)"
    if x: "AddrIsInMem x" for x
  proof -
    define b g k where d: "b = unat addr div 8" "g = unat x div 8" "k = unat x mod 8"
    have ab: "unat addr = 8 * b" "unat x = 8 * g + k" "k < 8" using a(1) by (auto simp: d)
    have b: "b < 2 ^ 44" "g < 2 ^ 44" using a(2) x by (auto simp: d in_mem_iff)
    have u: "unat (MEM_TO_SHADOW x - MEM_TO_SHADOW addr) = (if b \<le> g then g - b else 2 ^ 64 + g - b)"
      using unat_shadow [OF x] unat_shadow [OF a(2)] by (simp add: unat_sub_if' flip: d)
    have "unat (MEM_TO_SHADOW x - MEM_TO_SHADOW addr) < n \<longleftrightarrow> b \<le> g \<and> g - b < n"
      unfolding u using b n(2) by auto
    then have i: "unat (MEM_TO_SHADOW x - MEM_TO_SHADOW addr) < n \<longleftrightarrow> unat addr \<le> unat x \<and> unat x < unat addr + 8 * n"
      unfolding ab using ab(3) by linarith
    have "bad (redzone_byte sz v G) k \<longleftrightarrow> unat sz \<le> 8 * G + k" for G
    proof -
      have neg: "v \<noteq> 0" "sint v < 0" using v by (auto simp: word_sless_alt)
      consider "8 * G + 8 \<le> unat sz" | "unat sz \<le> 8 * G" | "8 * G < unat sz" "unat sz < 8 * G + 8" by linarith
      then show ?thesis
      proof cases
        case 1
        then show ?thesis using ab(3) bad_simps(1) by (simp add: redzone_byte_def)
      next
        case 2
        then show ?thesis using neg by (simp add: redzone_byte_def bad_def)
      next
        case 3
        then show ?thesis using bad_simps(3) [of "unat sz - 8 * G" k] by (simp add: redzone_byte_def) linarith
      qed
    qed
    from this [of "g - b"] have "b \<le> g \<Longrightarrow> bad (redzone_byte sz v (g - b)) k \<longleftrightarrow> 8 * b + unat sz \<le> 8 * g + k"
      by (simp add: diff_mult_distrib2) linarith
    then have key: "b \<le> g \<Longrightarrow> bad (redzone_byte sz v (g - b)) k \<longleftrightarrow> unat addr + unat sz \<le> unat x" unfolding ab .
    show ?thesis
    proof (cases "unat addr \<le> unat x \<and> unat x < unat addr + 8 * n")
      case True
      then have "b \<le> g" unfolding ab using ab(3) by linarith
      then show ?thesis using True i u key unfolding poisoned_def d(3) [symmetric] by (simp add: s'_def)
    next
      case False
      then show ?thesis using i unfolding poisoned_def by (auto simp: s'_def)
    qed
  qed
  ultimately show ?thesis by (rule that)
qed

section \<open>Well-formed shadow bytes\<close>

definition wf_byte :: "u8 \<Rightarrow> bool" where "wf_byte v \<longleftrightarrow> v <s 0 \<or> unat v < 8"

definition shadow_wf :: "shadow \<Rightarrow> bool" where "shadow_wf s \<longleftrightarrow> (\<forall>q. wf_byte (s q))"

lemma wf_byte_simps [simp]: "wf_byte 0" "wf_byte kAsanUserPoisonedMemoryMagic" "wf_byte (ucast (a AND (SHADOW_GRANULARITY - 1)))"
proof -
  show "wf_byte 0" "wf_byte kAsanUserPoisonedMemoryMagic" by (simp_all add: wf_byte_def kAsanUserPoisonedMemoryMagic_def word_sless_alt)
  have "unat (ucast (a AND (SHADOW_GRANULARITY - 1)) :: u8) = unat a mod 8"
    by (simp add: granule_offset unsigned_ucast_eq take_bit_nat_eq_self)
  then show "wf_byte (ucast (a AND (SHADOW_GRANULARITY - 1)))" by (simp add: wf_byte_def)
qed

lemma wf_updates:
  "shadow_wf s \<Longrightarrow> wf_byte v \<Longrightarrow> shadow_wf (s(p := v))" "shadow_wf s \<Longrightarrow> wf_byte v \<Longrightarrow> shadow_wf (memset p v n s)"
  "wf_byte v \<Longrightarrow> wf_byte w \<Longrightarrow> wf_byte (s8_min v w)" "wf_byte v \<Longrightarrow> wf_byte w \<Longrightarrow> wf_byte (s8_max v w)"
  by (auto simp: shadow_wf_def memset_def s8_min_def s8_max_def)

lemma endpoint_wf: "segment_endpoint s x = Some b \<Longrightarrow> shadow_wf s \<Longrightarrow> wf_byte (offset b) \<and> wf_byte (seg_value b)"
  by (auto simp: segment_endpoint_def MemToShadow_def shadow_wf_def split: if_splits)

lemma redzone_value_wf:
  assumes "wf_byte v"
  shows "wf_byte (if i + SHADOW_GRANULARITY \<le> sz then 0 else if sz \<le> i then if SHADOW_GRANULARITY = 128 then 0xff else v else ucast (sz - i))"
proof -
  have "unat (ucast (sz - i) :: u8) < 8" if "\<not> i + SHADOW_GRANULARITY \<le> sz" "\<not> sz \<le> i"
  proof -
    have i: "unat i < unat sz" "unat sz < 2 ^ 64" using that(2) unsigned_less [where ?'a = nat, of sz] by (simp_all add: word_le_nat_alt)
    have "unat sz < unat i + 8"
    proof (cases "unat i + 8 < 2 ^ 64")
      case True
      then have "unat (i + SHADOW_GRANULARITY) = unat i + 8" by (subst unat_add_below) (simp_all add: mapping_numbers)
      then show ?thesis using that(1) by (simp add: word_le_nat_alt)
    qed (use i in simp)
    then have "unat (sz - i) < 8" using i by (simp add: unat_sub_if')
    then show ?thesis by (simp add: unsigned_ucast_eq take_bit_nat_eq_self)
  qed
  then show ?thesis using assms by (simp add: mapping_numbers wf_byte_def [of "ucast (sz - i)"])
qed

lemma redzone_wf:
  assumes "redzone_loop sz rz v i p s = Some s'" "shadow_wf s" "wf_byte v"
  shows "shadow_wf s'"
proof -
  have "shadow_wf s \<longrightarrow> wf_byte v \<longrightarrow> shadow_wf s'"
  proof (rule redzone_loop.raw_induct [OF _ assms(1), where P = "\<lambda>sz rz v i p s s'. shadow_wf s \<longrightarrow> wf_byte v \<longrightarrow> shadow_wf s'"])
    fix loop sz rz v i p s s'
    assume IH: "\<And>(sz :: uptr) (rz :: uptr) v (i :: uptr) (p :: uptr) s s'. loop sz rz v i p s = Some s' \<Longrightarrow> shadow_wf s \<longrightarrow> wf_byte v \<longrightarrow> shadow_wf s'"
    define b :: u8 where "b = (if i + SHADOW_GRANULARITY \<le> sz then 0 else if sz \<le> i then if SHADOW_GRANULARITY = 128 then 0xff else v else ucast (sz - i))"
    assume "(if i < rz then loop sz rz v (i + SHADOW_GRANULARITY) (p + 1) (s(p := (if i + SHADOW_GRANULARITY \<le> sz then 0
                  else if sz \<le> i then (if SHADOW_GRANULARITY = 128 then 0xff else v) else ucast (sz - i)))) else Some s) = Some s'"
    then have eq: "(if i < rz then loop sz rz v (i + SHADOW_GRANULARITY) (p + 1) (s(p := b)) else Some s) = Some s'" by (simp only: b_def)
    have "wf_byte v \<Longrightarrow> wf_byte b" unfolding b_def by (rule redzone_value_wf)
    then show "shadow_wf s \<longrightarrow> wf_byte v \<longrightarrow> shadow_wf s'"
      using eq IH [of sz rz v _ _ "s(p := b)" s'] wf_updates(1) [of s b p] by (cases "i < rz") auto
  qed
  with assms show ?thesis by blast
qed

lemma poison_region_wf:
  assumes s': "asan_poison_memory_region allow addr sz s = Some s'" and wf: "shadow_wf s"
  shows "shadow_wf s'"
proof (cases "\<not> allow \<or> sz = 0")
  case True
  then show ?thesis using assms by (simp add: asan_poison_memory_region_def)
next
  case False
  then obtain b e where be: "segment_endpoint s addr = Some b" "segment_endpoint s (addr + sz) = Some e"
    using s' by (auto simp: asan_poison_memory_region_def Let_def bind_eq_Some_conv)
  note w = endpoint_wf [OF be(1) wf] endpoint_wf [OF be(2) wf]
  show ?thesis
  proof (cases "chunk b = chunk e")
    case True
    then show ?thesis using s' False be w wf
      by (simp add: asan_poison_memory_region_def Let_def split: if_splits) (auto intro: wf_updates)
  next
    case dif: False
    define s1 where "s1 = (if 0 <s offset b then
      (if seg_value b = 0 then s(chunk b := offset b) else s(chunk b := s8_min (seg_value b) (offset b))) else s)"
    have s1: "shadow_wf s1" unfolding s1_def using w wf by (auto intro: wf_updates)
    define p where "p = (if 0 <s offset b then chunk b + 1 else chunk b)"
    define s2 where "s2 = memset p kAsanUserPoisonedMemoryMagic (chunk e - p) s1"
    have "s' = (if 0 <s seg_value e \<and> seg_value e \<le>s offset e then s2(chunk e := kAsanUserPoisonedMemoryMagic) else s2)"
      using s' False be dif by (cases "0 <s offset b") (auto simp: asan_poison_memory_region_def Let_def s2_def s1_def p_def split: if_splits)
    moreover have "shadow_wf s2" unfolding s2_def using s1 by (simp add: wf_updates)
    ultimately show ?thesis by (simp add: wf_updates)
  qed
qed

lemma unpoison_region_wf:
  assumes s': "asan_unpoison_memory_region allow addr sz s = Some s'" and wf: "shadow_wf s"
  shows "shadow_wf s'"
proof (cases "\<not> allow \<or> sz = 0")
  case True
  then show ?thesis using assms by (simp add: asan_unpoison_memory_region_def)
next
  case False
  then obtain b e where be: "segment_endpoint s addr = Some b" "segment_endpoint s (addr + sz) = Some e"
    using s' by (auto simp: asan_unpoison_memory_region_def Let_def bind_eq_Some_conv)
  note w = endpoint_wf [OF be(1) wf] endpoint_wf [OF be(2) wf]
  show ?thesis
  proof (cases "chunk b = chunk e")
    case True
    then show ?thesis using s' False be w wf
      by (simp add: asan_unpoison_memory_region_def Let_def split: if_splits) (auto intro: wf_updates)
  next
    case dif: False
    define s1 where "s1 = (if 0 <s offset b then s(chunk b := 0) else s)"
    have s1: "shadow_wf s1" unfolding s1_def using wf by (auto intro: wf_updates)
    define p where "p = (if 0 <s offset b then chunk b + 1 else chunk b)"
    define s2 where "s2 = memset p 0 (chunk e - p) s1"
    have "s' = (if 0 <s offset e \<and> seg_value e \<noteq> 0 then s2(chunk e := s8_max (seg_value e) (offset e)) else s2)"
      using s' False be dif by (cases "0 <s offset b") (auto simp: asan_unpoison_memory_region_def Let_def s2_def s1_def p_def split: if_splits)
    moreover have "shadow_wf s2" unfolding s2_def using s1 by (simp add: wf_updates)
    ultimately show ?thesis using w by (simp add: wf_updates)
  qed
qed

section \<open>Properties\<close>

text \<open>C33: The regions a user poisons and unpoisons, address by address, as the comment in the source promises: poisoning affects no address outside the
  region, and every address of it but those of its last granule, which it poisons if the byte after the region is poisoned already;
  unpoisoning affects the region and the rest of its first granule before it.\<close>

theorem user_poisoning:
  assumes "AddrIsInMem addr" and "AddrIsInMem (addr + sz)" and "addr < addr + sz"
  shows "(\<exists>s'. asan_poison_memory_region True addr sz s = Some s' \<and> (\<forall>a. AddrIsInMem a \<longrightarrow>
      (asan_address_is_poisoned s' a = Some True \<longleftrightarrow> asan_address_is_poisoned s a = Some True \<or> addr \<le> a \<and> a < addr + sz \<and>
        (unat a div 8 < unat (addr + sz) div 8 \<or> asan_address_is_poisoned s (addr + sz) = Some True)))) \<and>
    (\<exists>s'. asan_unpoison_memory_region True addr sz s = Some s' \<and> (\<forall>a. AddrIsInMem a \<longrightarrow>
      (asan_address_is_poisoned s' a = Some True \<longleftrightarrow> asan_address_is_poisoned s a = Some True \<and>
        \<not> (unat addr div 8 \<le> unat a div 8 \<and> a < addr + sz))))"
proof -
  have "region addr sz (addr + sz) (unat addr div 8) (unat addr mod 8) (unat (addr + sz) div 8) (unat (addr + sz) mod 8)"
    using assms by (simp add: region_def)
  from poison_region [OF this, of s] unpoison_region [OF this, of s] show ?thesis
    using assms(2) by (simp add: asan_address_is_poisoned_def AddressIsPoisoned_eq)
qed

theorem user_poisoning_witness:
  "\<exists>s'. asan_poison_memory_region True 0x10003 10 (\<lambda>_. 0) = Some s' \<and> asan_address_is_poisoned s' 0x10007 = Some True \<and>
    asan_address_is_poisoned s' 0x10008 \<noteq> Some True"
proof -
  have m: "AddrIsInMem 0x10003" "AddrIsInMem (0x10003 + 10)" "AddrIsInMem 0x10007" "AddrIsInMem 0x10008" by (simp_all add: in_mem_iff)
  have z: "asan_address_is_poisoned (\<lambda>_. 0) a \<noteq> Some True" for a
    by (simp add: asan_address_is_poisoned_def AddressIsPoisoned_def MemToShadow_def CHECK_def)
  obtain s' where "asan_poison_memory_region True 0x10003 10 (\<lambda>_. 0) = Some s'" and s': "\<And>a. AddrIsInMem a \<Longrightarrow>
      asan_address_is_poisoned s' a = Some True \<longleftrightarrow> 0x10003 \<le> a \<and> a < 0x10003 + 10 \<and> unat a div 8 < unat (0x10003 + 10 :: uptr) div 8"
    using user_poisoning [OF m(1,2), of "\<lambda>_. 0"] z by auto
  then show ?thesis using s' [OF m(3)] s' [OF m(4)] by (intro exI [of _ s']) simp
qed

text \<open>C34: Every operation keeps the shadow bytes among those the mapping gives a meaning: zero to seven, or negative.\<close>

theorem shadow_bytes_well_formed:
  assumes "shadow_wf s" and "wf_byte v"
    and "s' \<in> set_option (PoisonShadow addr sz v s) \<union> set_option (PoisonShadowPartialRightRedzone addr sz rz v s) \<union>
      set_option (asan_poison_memory_region allow addr sz s) \<union> set_option (asan_unpoison_memory_region allow addr sz s)"
  shows "shadow_wf s'"
  using assms(3)
proof (elim UnE)
  assume "s' \<in> set_option (PoisonShadow addr sz v s)"
  then show ?thesis using assms(1,2) by (auto simp: PoisonShadow_def MemToShadow_def split: if_splits intro!: wf_updates)
next
  assume "s' \<in> set_option (PoisonShadowPartialRightRedzone addr sz rz v s)"
  then show ?thesis using assms(1,2) redzone_wf by (auto simp: PoisonShadowPartialRightRedzone_def MemToShadow_def split: if_splits)
next
  assume "s' \<in> set_option (asan_poison_memory_region allow addr sz s)"
  then show ?thesis using poison_region_wf assms(1) by simp
next
  assume "s' \<in> set_option (asan_unpoison_memory_region allow addr sz s)"
  then show ?thesis using unpoison_region_wf assms(1) by simp
qed

theorem shadow_bytes_well_formed_witness:
  "\<exists>s'. PoisonShadow 0x10000 16 (- 7) (\<lambda>_. 0) = Some s' \<and> shadow_wf s'"
proof -
  obtain s' where s': "PoisonShadow 0x10000 16 (- 7) (\<lambda>_. 0) = Some s'"
    by (simp add: PoisonShadow_def MemToShadow_def CHECK_def in_mem_iff mapping_numbers AddrIsAlignedByGranularity_def)
  then have "shadow_wf s'" using shadow_bytes_well_formed [of "\<lambda>_. 0" "- 7" s' "0x10000" 16 0 True] by (simp add: shadow_wf_def wf_byte_def word_sless_alt)
  then show ?thesis using s' by blast
qed

end
