(* ===== verification/Asan_Globals.thy ===== *)
theory Asan_Globals
  imports Asan_Shadow
begin

unbundle bit_operations_syntax

text \<open>
  The global variables of AddressSanitizer, \<^verbatim>\<open>lib/asan/asan_globals.cc\<close>: their redzones, and the check of the
  initialization order, which poisons the globals of the other translation units while the dynamic initializers of one run.
  The two linked lists are lists, newest first, as the code pushes at the front.
\<close>

section \<open>The code\<close>

record asan_global =
  beg :: uptr
  g_size :: uptr
  size_with_redzone :: uptr
  name :: string
  has_dynamic_init :: bool

record globals =
  mem_shadow :: shadow
  list_of_all_globals :: "asan_global list"
  list_of_dynamic_init_globals :: "asan_global list"

definition PoisonRedZones :: "asan_global \<Rightarrow> shadow \<Rightarrow> shadow option" where
  "PoisonRedZones g s = do {
     let shadow_rz_size = drop_bit SHADOW_SCALE kGlobalAndStackRedzone;
     CHECK (shadow_rz_size = 1 \<or> shadow_rz_size = 2 \<or> shadow_rz_size = 4);
     let g_aligned_size = kGlobalAndStackRedzone * ((g_size g + kGlobalAndStackRedzone - 1) div kGlobalAndStackRedzone);
     s \<leftarrow> PoisonShadow (beg g + g_aligned_size) kGlobalAndStackRedzone kAsanGlobalRedzoneMagic s;
     if g_size g mod kGlobalAndStackRedzone \<noteq> 0 then do {
       let g_aligned_down_size = kGlobalAndStackRedzone * (g_size g div kGlobalAndStackRedzone);
       CHECK (g_aligned_down_size = g_aligned_size - kGlobalAndStackRedzone);
       PoisonShadowPartialRightRedzone (beg g + g_aligned_down_size) (g_size g mod kGlobalAndStackRedzone)
         kGlobalAndStackRedzone kAsanGlobalRedzoneMagic s
     } else Some s
   }"

definition GetAlignedSize :: "uptr \<Rightarrow> uptr" where
  "GetAlignedSize sz = ((sz + kGlobalAndStackRedzone - 1) div kGlobalAndStackRedzone) * kGlobalAndStackRedzone"

text \<open>The checks at the beginning of every operation on one global.\<close>

definition check_global :: "bool \<Rightarrow> bool \<Rightarrow> asan_global \<Rightarrow> unit option" where
  "check_global asan_inited flag g = do {
     CHECK asan_inited;
     CHECK flag;
     CHECK (AddrIsInMem (beg g));
     CHECK (AddrIsAlignedByGranularity (beg g));
     CHECK (AddrIsAlignedByGranularity (size_with_redzone g))
   }"

definition RegisterGlobal :: "bool \<Rightarrow> bool \<Rightarrow> asan_global \<Rightarrow> globals \<Rightarrow> globals option" where
  "RegisterGlobal asan_inited report_globals g st = do {
     check_global asan_inited report_globals g;
     s \<leftarrow> PoisonRedZones g (mem_shadow st);
     let st = st\<lparr>mem_shadow := s, list_of_all_globals := g # list_of_all_globals st\<rparr>;
     Some (if has_dynamic_init g then st\<lparr>list_of_dynamic_init_globals := g # list_of_dynamic_init_globals st\<rparr> else st)
   }"




definition asan_register_global :: "bool \<Rightarrow> bool \<Rightarrow> uptr \<Rightarrow> uptr \<Rightarrow> string \<Rightarrow> globals \<Rightarrow> globals option" where
  "asan_register_global asan_inited report_globals addr sz nm st =
    (if \<not> report_globals then Some st
     else RegisterGlobal asan_inited report_globals
       \<lparr> beg = addr, g_size = sz, size_with_redzone = GetAlignedSize sz + kGlobalAndStackRedzone, name = nm, has_dynamic_init = False \<rparr> st)"









section \<open>One global\<close>

text \<open>A global in memory, with the redzone the compiler gives it; the addresses of the global and its redzone.\<close>

definition placed :: "asan_global \<Rightarrow> bool" where
  "placed g \<longleftrightarrow> unat (beg g) mod 8 = 0 \<and> size_with_redzone g = GetAlignedSize (g_size g) + kGlobalAndStackRedzone \<and>
    (unat (beg g) + unat (g_size g) + 64 < 0xfffffffffff \<or>
     0x200000000000 \<le> unat (beg g) \<and> unat (beg g) + unat (g_size g) + 64 \<le> 0x7fffffffffff)"
















section \<open>Many globals\<close>

definition apart :: "asan_global \<Rightarrow> asan_global \<Rightarrow> bool" where
  "apart g h \<longleftrightarrow> unat (beg g) + unat (size_with_redzone g) \<le> unat (beg h) \<or> unat (beg h) + unat (size_with_redzone h) \<le> unat (beg g)"

definition laid_out :: "asan_global list \<Rightarrow> bool" where
  "laid_out gs \<longleftrightarrow> list_all placed gs \<and> sorted_wrt apart gs"





lemma laid_out_append: "laid_out (gs @ hs) \<longleftrightarrow> laid_out gs \<and> laid_out hs \<and> (\<forall>g\<in>set gs. \<forall>h\<in>set hs. apart g h)"
  by (auto simp: laid_out_def sorted_wrt_append)














section \<open>Properties\<close>





end
