(* ===== verification/Tsan_Shadow.thy ===== *)
theory Tsan_Shadow
  imports Crt_Prelude
begin

unbundle bit_operations_syntax

text \<open>
  The packed words of ThreadSanitizer, \<^verbatim>\<open>lib/tsan/rtl/tsan_rtl.h\<close> and \<^verbatim>\<open>tsan_defs.h\<close>: the state of a thread
  (\<^verbatim>\<open>FastState\<close>: its id, its epoch and an ignore bit) and the shadow of a memory access (\<^verbatim>\<open>Shadow\<close>: thread, epoch,
  whether it writes, the logarithm of its size and its first byte in a cell of eight). Both classes wrap one
  64-bit word \<^verbatim>\<open>x_\<close>, which stands for the object; the methods keep their names. The assertions of debug builds
  (\<^verbatim>\<open>DCHECK\<close>) are no part of the code.
\<close>

section \<open>The words\<close>

type_synonym u64 = "64 word"
type_synonym unsigned = "32 word"

definition kTidBits :: nat where "kTidBits = 13"
definition kMaxTid :: nat where "kMaxTid = 2 ^ kTidBits"
definition kMaxTidInClock :: nat where "kMaxTidInClock = kMaxTid * 2"
definition kClkBits :: nat where "kClkBits = 43"
definition kShadowCnt :: nat where "kShadowCnt = 8"
definition kShadowCell :: u64 where "kShadowCell = 8"
definition kTidShift :: nat where "kTidShift = 64 - kTidBits - 1"
definition kClkShift :: nat where "kClkShift = kTidShift - kClkBits"
definition kIgnoreBit :: u64 where "kIgnoreBit = 1"
definition kFreedBit :: u64 where "kFreedBit = push_bit 63 1"

definition FastState :: "u64 \<Rightarrow> u64 \<Rightarrow> u64" where
  "FastState tid epoch = push_bit kTidShift tid OR push_bit kClkShift epoch"

definition tid_of :: "u64 \<Rightarrow> u64" where "tid_of x = drop_bit kTidShift x"

definition epoch_of :: "u64 \<Rightarrow> u64" where "epoch_of x = drop_bit (64 - kClkBits) (push_bit (kTidBits + 1) x)"

definition IncrementEpoch :: "u64 \<Rightarrow> u64" where "IncrementEpoch x = x + push_bit kClkShift 1"

definition SetIgnoreBit :: "u64 \<Rightarrow> u64" where "SetIgnoreBit x = x OR kIgnoreBit"
definition ClearIgnoreBit :: "u64 \<Rightarrow> u64" where "ClearIgnoreBit x = x AND NOT kIgnoreBit"
definition GetIgnoreBit :: "u64 \<Rightarrow> bool" where "GetIgnoreBit x \<longleftrightarrow> x AND kIgnoreBit \<noteq> 0"

definition SetAddr0AndSizeLog :: "u64 \<Rightarrow> u64 \<Rightarrow> unsigned \<Rightarrow> u64" where
  "SetAddr0AndSizeLog x addr0 kAccessSizeLog = x OR (ucast (push_bit 3 kAccessSizeLog) OR addr0)"

definition SetWrite :: "u64 \<Rightarrow> bool \<Rightarrow> u64" where
  "SetWrite x kAccessIsWrite = (if kAccessIsWrite then x OR 32 else x)"

definition IsZero :: "u64 \<Rightarrow> bool" where "IsZero x \<longleftrightarrow> x = 0"

definition TidsAreEqual :: "u64 \<Rightarrow> u64 \<Rightarrow> bool" where
  "TidsAreEqual s1 s2 = (let shifted_xor = drop_bit kTidShift (s1 XOR s2) in shifted_xor = 0)"

definition Addr0AndSizeAreEqual :: "u64 \<Rightarrow> u64 \<Rightarrow> bool" where
  "Addr0AndSizeAreEqual s1 s2 = (let masked_xor = (s1 XOR s2) AND 31 in masked_xor = 0)"

definition ComputeSearchOffset :: "u64 \<Rightarrow> unsigned" where "ComputeSearchOffset x = ucast (x AND 7)"

definition addr0_of :: "u64 \<Rightarrow> u64" where "addr0_of x = x AND 7"
definition size_log :: "u64 \<Rightarrow> u64" where "size_log x = drop_bit 3 x AND 3"
definition size_of :: "u64 \<Rightarrow> u64" where "size_of x = push_bit (unat (size_log x)) 1"
definition is_write :: "u64 \<Rightarrow> bool" where "is_write x \<longleftrightarrow> x AND 32 \<noteq> 0"

definition TwoRangesIntersect :: "u64 \<Rightarrow> u64 \<Rightarrow> unsigned \<Rightarrow> bool" where
  "TwoRangesIntersect s1 s2 kS2AccessSize =
    (let diff = addr0_of s1 - addr0_of s2 in
     if sint diff < 0 then size_of s1 > - diff else ucast kS2AccessSize > diff)"

definition TwoRangesIntersectSLOW :: "u64 \<Rightarrow> u64 \<Rightarrow> bool" where
  "TwoRangesIntersectSLOW s1 s2 =
    (if addr0_of s1 = addr0_of s2 then True
     else if addr0_of s1 < addr0_of s2 \<and> addr0_of s1 + size_of s1 > addr0_of s2 then True
     else if addr0_of s2 < addr0_of s1 \<and> addr0_of s2 + size_of s2 > addr0_of s1 then True
     else False)"

definition MarkAsFreed :: "u64 \<Rightarrow> u64" where "MarkAsFreed x = x OR kFreedBit"

definition GetFreedAndReset :: "u64 \<Rightarrow> bool \<times> u64" where
  "GetFreedAndReset x = (let res = (x AND kFreedBit \<noteq> 0) in (res, x AND NOT kFreedBit))"

section \<open>The fields of a word\<close>

lemmas layout_defs = kTidBits_def kMaxTid_def kMaxTidInClock_def kClkBits_def kTidShift_def kClkShift_def kIgnoreBit_def kFreedBit_def

lemma unat_tid: "unat (tid_of x) = unat x div 2 ^ 50"
  by (simp add: tid_of_def layout_defs unat_drop_bit)

lemma unat_epoch: "unat (epoch_of x) = unat x div 2 ^ 7 mod 2 ^ 43"
proof -
  have "unat (epoch_of x) = (unat x * 2 ^ 14) mod (2 ^ 14 * 2 ^ 50) div 2 ^ 21"
    by (simp add: epoch_of_def layout_defs unat_drop_bit unat_push_bit)
  also have "(unat x * 2 ^ 14) mod (2 ^ 14 * 2 ^ 50) = (unat x mod 2 ^ 50) * 2 ^ 14"
    by (simp add: mult_mod_right mult.commute)
  also have "\<dots> div 2 ^ 21 = unat x mod 2 ^ 50 div 2 ^ 7" by (simp add: div_mult2_eq [of _ "2 ^ 14" "2 ^ 7", simplified])
  also have "\<dots> = unat x div 2 ^ 7 mod 2 ^ 43" by (simp add: mod_mult2_eq [of _ "2 ^ 7" "2 ^ 43", simplified])
  finally show ?thesis .
qed

lemma unat_addr0: "unat (addr0_of x) = unat x mod 8"
  unfolding addr0_of_def using unat_and_mask [of x 3] by (simp add: mask_eq_exp_minus_1)

lemma unat_size_log: "unat (size_log x) = unat x div 8 mod 4"
  unfolding size_log_def using unat_and_mask [of "drop_bit 3 x" 2] by (simp add: mask_eq_exp_minus_1 unat_drop_bit)

lemma is_write_bit: "is_write x \<longleftrightarrow> bit x 5"
proof -
  have "x AND 32 = 0 \<longleftrightarrow> \<not> bit x 5"
    using and_exp_eq_0_iff_not_bit [of x 5] by simp
  then show ?thesis by (simp add: is_write_def)
qed

lemma is_write_nat: "is_write x \<longleftrightarrow> odd (unat x div 32)"
  unfolding is_write_bit using bit_unsigned_iff [where ?'a = nat, of x 5] by (simp add: bit_iff_odd)

lemma low_or:
  fixes x y :: "'a::len word"
  assumes "unat x mod 2 ^ n = 0" "unat y < 2 ^ n"
  shows "unat (x OR y) = unat x + unat y"
proof (rule unat_or_disjoint, rule bit_word_eqI)
  fix i
  have "take_bit n (unat x) = 0" "take_bit n (unat y) = unat y" using assms by (simp_all add: take_bit_eq_mod)
  then have "\<not> (bit (unat x) i \<and> bit (unat y) i)" by (metis bit_0_eq bit_take_bit_iff bot_apply bot_bool_def)
  then show "bit (x AND y) i = bit (0 :: 'a word) i"
    using bit_unsigned_iff [where ?'a = nat, of x i] bit_unsigned_iff [where ?'a = nat, of y i] by (simp add: bit_and_iff)
qed

text \<open>A word with thread \<open>t\<close> (with the freed bit as its highest bit), epoch \<open>e\<close>, write bit \<open>w\<close>, size \<open>2 ^ l\<close> and first byte \<open>a\<close>.\<close>

definition word_fields :: "u64 \<Rightarrow> nat \<Rightarrow> nat \<Rightarrow> bool \<Rightarrow> nat \<Rightarrow> nat \<Rightarrow> bool" where
  "word_fields x t e w l a \<longleftrightarrow> t < 2 ^ 14 \<and> e < 2 ^ 43 \<and> l < 4 \<and> a < 8 \<and>
    unat x = t * 2 ^ 50 + e * 2 ^ 7 + (if w then 32 else 0) + 8 * l + a"

lemma fields_decode:
  assumes "word_fields x t e w l a"
  shows "unat (tid_of x) = t" "unat (epoch_of x) = e" "is_write x = w" "unat (size_log x) = l" "unat (addr0_of x) = a"
    "unat (size_of x) = 2 ^ l"
proof -
  define low where "low = (if w then 32 else 0) + 8 * l + a"
  have b: "e < 2 ^ 43" "l < 4" "a < 8" and x: "unat x = t * 2 ^ 50 + (e * 2 ^ 7 + low)"
    using assms by (simp_all add: word_fields_def low_def)
  have low: "low < 64" unfolding low_def using b by simp
  have "e * 2 ^ 7 + low < 2 ^ 50" using b low by simp
  then show "unat (tid_of x) = t" unfolding unat_tid x by (subst div_mult_self3) simp_all
  have "unat x = (t * 2 ^ 43 + e) * 2 ^ 7 + low" unfolding x by simp
  moreover have "((t * 2 ^ 43 + e) * 2 ^ 7 + low) div 2 ^ 7 = t * 2 ^ 43 + e" using low by (subst div_mult_self3) simp_all
  ultimately have d7: "unat x div 2 ^ 7 = t * 2 ^ 43 + e" by simp
  show "unat (epoch_of x) = e" unfolding unat_epoch d7 using b by simp
  have "unat x = (t * 2 ^ 45 + e * 4 + (if w then 1 else 0)) * 32 + (8 * l + a)" unfolding x low_def by simp
  moreover have "8 * l + a < 32" using b by simp
  ultimately have "unat x div 32 = t * 2 ^ 45 + e * 4 + (if w then 1 else 0)" by simp
  then show "is_write x = w" unfolding is_write_nat by (simp split: if_splits)
  define K where "K = t * 2 ^ 45 + e * 4 + (if w then 1 else 0)"
  define M where "M = K * 4 + l"
  have "unat x = M * 8 + a" unfolding x low_def K_def M_def by simp
  then have d3: "unat x div 8 = K * 4 + l" and m3: "unat x mod 8 = a" using b by (simp_all add: M_def [symmetric])
  show l: "unat (size_log x) = l" unfolding unat_size_log d3 using b by simp
  show "unat (addr0_of x) = a" unfolding unat_addr0 m3 ..
  have "2 ^ l < (2 :: nat) ^ 64" using b by (intro power_strict_increasing) simp_all
  then show "unat (size_of x) = 2 ^ l" unfolding size_of_def l by (subst unat_push_below) simp_all
qed

lemma unat_FastState:
  assumes "unat t < 2 ^ 13" "unat e < 2 ^ 43"
  shows "unat (FastState t e) = unat t * 2 ^ 50 + unat e * 2 ^ 7"
proof -
  have "unat (push_bit 50 t) = unat t * 2 ^ 50" "unat (push_bit 7 e) = unat e * 2 ^ 7"
    using assms by (simp_all add: unat_push_below)
  then show ?thesis
    using low_or [of "push_bit 50 t" 50 "push_bit 7 e"] assms by (simp add: FastState_def layout_defs)
qed

lemma FastState_fields: "unat t < 2 ^ 13 \<Longrightarrow> unat e < 2 ^ 43 \<Longrightarrow> word_fields (FastState t e) (unat t) (unat e) False 0 0"
  by (simp add: word_fields_def unat_FastState)

lemma IncrementEpoch_fields:
  "word_fields x t e w l a \<Longrightarrow> e + 1 < 2 ^ 43 \<Longrightarrow> word_fields (IncrementEpoch x) t (e + 1) w l a"
proof -
  assume x: "word_fields x t e w l a" and e: "e + 1 < 2 ^ 43"
  have "unat x + 128 = t * 2 ^ 50 + (e + 1) * 2 ^ 7 + (if w then 32 else 0) + 8 * l + a" using x by (simp add: word_fields_def)
  moreover have "(if w then 32 else 0) + 8 * l + a < 64" using x by (simp add: word_fields_def)
  moreover have "t \<le> 2 ^ 14 - 1" using x by (simp add: word_fields_def)
  ultimately have "unat x + 128 < 2 ^ 64" using e by simp
  then have "unat (IncrementEpoch x) = unat x + 128"
    unfolding IncrementEpoch_def layout_defs by (subst unat_add_below) simp_all
  then show ?thesis using x e by (simp add: word_fields_def)
qed

text \<open>The shadow of an access, as \<^verbatim>\<open>MemoryAccess\<close> puts it together.\<close>

lemma access_fields:
  assumes x: "word_fields x t e False 0 0" and a: "unat a < 8" and l: "unat l < 4"
  shows "word_fields (SetWrite (SetAddr0AndSizeLog x a l) w) t e w (unat l) (unat a)"
proof -
  have "unat (push_bit 3 l) = unat l * 8" using l by (simp add: unat_push_below)
  then have p: "unat (ucast (push_bit 3 l) :: u64) = unat l * 8" using l by (simp add: unsigned_ucast_eq take_bit_nat_eq_self)
  have low: "unat (ucast (push_bit 3 l) OR a) = unat l * 8 + unat a" using low_or [of "ucast (push_bit 3 l) :: u64" 3 a] a p by simp
  have ux: "unat x = (t * 2 ^ 45 + e * 2 ^ 2) * 2 ^ 5" using x by (simp add: word_fields_def)
  have s: "unat (SetAddr0AndSizeLog x a l) = unat x + (unat l * 8 + unat a)"
    unfolding SetAddr0AndSizeLog_def low [symmetric] using low ux a l by (intro low_or [where n = 5]) simp_all
  have "unat (SetAddr0AndSizeLog x a l OR 32) = unat (SetAddr0AndSizeLog x a l) + 32"
  proof -
    define N where "N = t * 2 ^ 44 + e * 2"
    have "unat x + (unat l * 8 + unat a) = N * 2 * 2 ^ 5 + (unat l * 8 + unat a)" unfolding ux N_def by simp
    moreover have "unat l * 8 + unat a < 2 ^ 5" using a l by simp
    ultimately have "(unat x + (unat l * 8 + unat a)) div 32 = N * 2" by simp
    then have "\<not> bit (SetAddr0AndSizeLog x a l) 5" unfolding is_write_bit [symmetric] is_write_nat s by simp
    then have "SetAddr0AndSizeLog x a l AND push_bit 5 1 = 0"
      by (intro bit_word_eqI) (auto simp: bit_and_iff bit_push_bit_iff bit_1_iff simp del: push_bit_of_1)
    then show ?thesis using unat_or_disjoint [of "SetAddr0AndSizeLog x a l" 32] by simp
  qed
  then show ?thesis using x s a l by (simp add: word_fields_def SetWrite_def)
qed

section \<open>Comparing words\<close>

lemma xor_zero: "x XOR y = 0 \<longleftrightarrow> x = (y :: 'a::len word)"
proof
  assume "x XOR y = 0"
  then show "x = y" by (intro bit_word_eqI) (metis bit_0_eq bit_xor_iff bot_apply bot_bool_def impossible_bit)
qed simp

lemma TidsAreEqual_iff: "TidsAreEqual x y \<longleftrightarrow> tid_of x = tid_of y"
  by (simp add: TidsAreEqual_def Let_def tid_of_def drop_bit_xor xor_zero)

lemma Addr0AndSizeAreEqual_iff: "Addr0AndSizeAreEqual x y \<longleftrightarrow> addr0_of x = addr0_of y \<and> size_log x = size_log y"
proof -
  have m: "(v AND 31) = take_bit 5 v" for v :: u64 by (simp add: take_bit_eq_mask mask_eq_exp_minus_1)
  have "Addr0AndSizeAreEqual x y \<longleftrightarrow> take_bit 5 x = take_bit 5 y"
    unfolding Addr0AndSizeAreEqual_def Let_def m take_bit_xor xor_zero ..
  also have "\<dots> \<longleftrightarrow> unat x mod 32 = unat y mod 32" by (simp add: word_unat_eq_iff unsigned_take_bit_eq) (simp add: take_bit_eq_mod)
  also have "\<dots> \<longleftrightarrow> unat x mod 8 = unat y mod 8 \<and> unat x div 8 mod 4 = unat y div 8 mod 4"
  proof -
    have "n mod 32 = 8 * (n div 8 mod 4) + n mod 8" for n :: nat using mod_mult2_eq [of n 8 4] by simp
    moreover have "(n mod 32) mod 8 = n mod 8" "n mod 32 div 8 = n div 8 mod 4" for n :: nat
      using calculation [of n] by (simp_all add: mod_mod_cancel)
    ultimately show ?thesis by metis
  qed
  also have "\<dots> \<longleftrightarrow> addr0_of x = addr0_of y \<and> size_log x = size_log y"
    by (simp only: word_unat_eq_iff [of "addr0_of x"] word_unat_eq_iff [of "size_log x"] unat_addr0 unat_size_log)
  finally show ?thesis .
qed

text \<open>The bytes of a cell an access touches.\<close>

definition touches :: "u64 \<Rightarrow> nat \<Rightarrow> bool" where
  "touches x b \<longleftrightarrow> unat (addr0_of x) \<le> b \<and> b < unat (addr0_of x) + unat (size_of x)"

lemma small_fields: "unat (addr0_of x) < 8" "unat (size_of x) \<le> 8" "0 < unat (size_of x)"
proof -
  show "unat (addr0_of x) < 8" by (simp add: unat_addr0)
  have l: "unat (size_log x) \<le> 3" unfolding unat_size_log using mod_less_divisor [of 4 "unat x div 8"] by linarith
  then have "2 ^ unat (size_log x) \<le> (2 :: nat) ^ 3" by (intro power_increasing) simp_all
  moreover have "unat (size_of x) = 2 ^ unat (size_log x)"
    unfolding size_of_def using calculation by (subst unat_push_below) simp_all
  ultimately show "unat (size_of x) \<le> 8" "0 < unat (size_of x)" by simp_all
qed

lemma ranges_meet:
  fixes a b m n :: nat
  assumes "0 < m" "0 < n"
  shows "(\<exists>k. (a \<le> k \<and> k < a + m) \<and> b \<le> k \<and> k < b + n) \<longleftrightarrow> a < b + n \<and> b < a + m"
  using assms by (auto intro: exI [of _ "max a b"])

lemma TwoRangesIntersect_iff:
  assumes "unat kS = unat (size_of y)"
  shows "TwoRangesIntersect x y kS \<longleftrightarrow> (\<exists>b. touches x b \<and> touches y b)" "TwoRangesIntersectSLOW x y \<longleftrightarrow> (\<exists>b. touches x b \<and> touches y b)"
proof -
  let ?a = "unat (addr0_of x)" and ?b = "unat (addr0_of y)" and ?m = "unat (size_of x)" and ?n = "unat (size_of y)"
  note f = small_fields [of x] small_fields [of y]
  have t: "(\<exists>b. touches x b \<and> touches y b) \<longleftrightarrow> ?a < ?b + ?n \<and> ?b < ?a + ?m"
    unfolding touches_def using ranges_meet f(3,6) by blast
  have k: "unat (ucast kS :: u64) = ?n" using assms f by (simp add: unsigned_ucast_eq take_bit_nat_eq_self)
  define d where "d = addr0_of x - addr0_of y"
  define v where "v = int ?a - int ?b"
  have "d = word_of_int v" by (simp add: d_def v_def)
  moreover have "- 8 < v" "v < 8" using f(1,4) unfolding v_def by linarith+
  then have "sfits LENGTH(64) v" by (simp add: sfits_def)
  ultimately have d: "sint d = int ?a - int ?b" unfolding v_def [symmetric] by (simp only: sint_of_int)
  have ge: "unat d = ?a - ?b" if "?b \<le> ?a" using that unfolding d_def by (rule unat_sub_below)
  have less: "unat (- d) = ?b - ?a" if "?a < ?b" using that unfolding d_def by (simp add: unat_sub_below)
  show "TwoRangesIntersect x y kS \<longleftrightarrow> (\<exists>b. touches x b \<and> touches y b)"
  proof (cases "?a < ?b")
    case True
    then have "sint d < 0" unfolding d by linarith
    then have "TwoRangesIntersect x y kS \<longleftrightarrow> ?b - ?a < ?m"
      unfolding TwoRangesIntersect_def Let_def d_def [symmetric] word_less_nat_alt less [OF True] by simp
    then show ?thesis unfolding t using f True by linarith
  next
    case False
    then have "?b \<le> ?a" by simp
    then have "\<not> sint d < 0" unfolding d by linarith
    then have "TwoRangesIntersect x y kS \<longleftrightarrow> ?a - ?b < ?n"
      unfolding TwoRangesIntersect_def Let_def d_def [symmetric] word_less_nat_alt ge [OF \<open>?b \<le> ?a\<close>] k by simp
    then show ?thesis unfolding t using f \<open>?b \<le> ?a\<close> by linarith
  qed
  show "TwoRangesIntersectSLOW x y \<longleftrightarrow> (\<exists>b. touches x b \<and> touches y b)"
    unfolding t TwoRangesIntersectSLOW_def
    using f by (simp add: word_unat_eq_iff word_less_nat_alt unat_add_below) linarith
qed

end
