(* ===== verification/Tsan_Clock.thy ===== *)
theory Tsan_Clock
  imports Tsan_Shadow
begin

text \<open>
  The vector clocks of ThreadSanitizer: \<^verbatim>\<open>lib/tsan/rtl/tsan_vector.h\<close>, \<^verbatim>\<open>tsan_clock.h\<close> and \<^verbatim>\<open>tsan_clock.cc\<close>.
  A buffer is the list of its cells up to its capacity, and a cell that was allocated and not yet written is
  \<open>None\<close>. Sizes and thread numbers are natural numbers: a clock has at most \<^verbatim>\<open>kMaxTid\<close> entries.
\<close>

section \<open>Vectors\<close>

record 'a vec =
  buf :: "'a option list"
  cnt :: nat

definition Vector :: "'a vec" where "Vector = \<lparr> buf = [], cnt = 0 \<rparr>"

definition Vector_Size :: "'a vec \<Rightarrow> nat" where "Vector_Size v = cnt v"

definition EnsureSize :: "nat \<Rightarrow> 'a vec \<Rightarrow> 'a vec" where
  "EnsureSize sz v =
    (if sz \<le> Vector_Size v then v
     else if sz \<le> length (buf v) then v\<lparr>cnt := sz\<rparr>
     else
       let cap0 = length (buf v);
           cap = 2 * cap0;
           cap = (if cap = 0 then 16 else cap);
           cap = (if cap < sz then sz else cap);
           p = replicate cap None;
           p = (if cap0 \<noteq> 0 then take cap0 (buf v) @ drop cap0 p else p)
       in v\<lparr>buf := p, cnt := sz\<rparr>)"

definition PushBack :: "'a \<Rightarrow> 'a vec \<Rightarrow> 'a vec" where
  "PushBack x v = (let v = EnsureSize (Vector_Size v + 1) v in v\<lparr>buf := (buf v)[cnt v - 1 := Some x]\<rparr>)"

definition Resize :: "'a \<Rightarrow> nat \<Rightarrow> 'a vec \<Rightarrow> 'a vec" where
  "Resize t0 sz v =
    (let old_size = Vector_Size v;
         v = EnsureSize sz v
     in if old_size < sz then v\<lparr>buf := fold (\<lambda>i b. b[i := Some t0]) [old_size..<sz] (buf v)\<rparr> else v)"

definition Vector_Reset :: "'a vec \<Rightarrow> 'a vec" where "Vector_Reset v = v\<lparr>buf := [], cnt := 0\<rparr>"

text \<open>The elements, and the vectors whose elements are all initialized.\<close>

definition items :: "'a vec \<Rightarrow> 'a list" where "items v = map the (take (cnt v) (buf v))"

definition vec_ok :: "'a vec \<Rightarrow> bool" where
  "vec_ok v \<longleftrightarrow> cnt v \<le> length (buf v) \<and> (\<forall>i<cnt v. buf v ! i \<noteq> None)"

lemma length_items [simp]: "vec_ok v \<Longrightarrow> length (items v) = cnt v"
  by (simp add: items_def vec_ok_def)

lemma vec_nth: "vec_ok v \<Longrightarrow> i < cnt v \<Longrightarrow> buf v ! i = Some (items v ! i)"
  by (auto simp: items_def vec_ok_def)

lemma vec_okI:
  "cnt v \<le> length (buf v) \<Longrightarrow> length ys = cnt v \<Longrightarrow> (\<And>i. i < cnt v \<Longrightarrow> buf v ! i = Some (ys ! i)) \<Longrightarrow> vec_ok v \<and> items v = ys"
  by (auto simp: vec_ok_def items_def list_eq_iff_nth_eq)

lemma EnsureSize_facts:
  "vec_ok v \<Longrightarrow> cnt (EnsureSize sz v) = max sz (cnt v) \<and> cnt (EnsureSize sz v) \<le> length (buf (EnsureSize sz v)) \<and>
    (\<forall>i<cnt v. buf (EnsureSize sz v) ! i = buf v ! i)"
  by (auto simp: EnsureSize_def Let_def vec_ok_def Vector_Size_def nth_append)

lemma fold_update:
  "n \<le> length b \<Longrightarrow> length (fold (\<lambda>i b. b[i := g i]) [m..<n] b) = length b \<and>
    (\<forall>k<length b. fold (\<lambda>i b. b[i := g i]) [m..<n] b ! k = (if m \<le> k \<and> k < n then g k else b ! k))"
proof (induction n)
  case (Suc n)
  then show ?case by (cases "m \<le> n") (auto simp: nth_list_update le_Suc_eq not_le)
qed simp

lemma Resize_items:
  assumes "vec_ok v"
  shows "vec_ok (Resize t0 sz v)" "items (Resize t0 sz v) = items v @ replicate (sz - cnt v) t0"
proof -
  let ?e = "EnsureSize sz v" and ?r = "Resize t0 sz v"
  note e = EnsureSize_facts [OF assms, of sz]
  have c: "cnt ?r = max sz (cnt v)" using e by (simp add: Resize_def Let_def)
  have "vec_ok ?r \<and> items ?r = items v @ replicate (sz - cnt v) t0"
  proof (rule vec_okI)
    show "length (items v @ replicate (sz - cnt v) t0) = cnt ?r" using assms c by simp
    have "sz \<le> length (buf ?e)" using e max.bounded_iff by metis
    note f = fold_update [OF this, of "\<lambda>_. Some t0" "cnt v"]
    show "cnt ?r \<le> length (buf ?r)" using e f by (auto simp: Resize_def Let_def Vector_Size_def)
    show "buf ?r ! i = Some ((items v @ replicate (sz - cnt v) t0) ! i)" if "i < cnt ?r" for i
      using e that c f vec_nth [OF assms] assms by (auto simp: Resize_def Let_def Vector_Size_def nth_append)
  qed
  then show "vec_ok ?r" "items ?r = items v @ replicate (sz - cnt v) t0" by simp_all
qed

lemma PushBack_items:
  assumes "vec_ok v"
  shows "vec_ok (PushBack x v)" "items (PushBack x v) = items v @ [x]"
proof -
  let ?p = "PushBack x v"
  note e = EnsureSize_facts [OF assms, of "cnt v + 1"]
  have c: "cnt ?p = cnt v + 1" using e by (simp add: PushBack_def Let_def Vector_Size_def)
  have "vec_ok ?p \<and> items ?p = items v @ [x]"
  proof (rule vec_okI)
    show "length (items v @ [x]) = cnt ?p" using assms c by simp
    show "cnt ?p \<le> length (buf ?p)" using e by (simp add: PushBack_def Let_def Vector_Size_def)
    show "buf ?p ! i = Some ((items v @ [x]) ! i)" if "i < cnt ?p" for i
      using e that c vec_nth [OF assms] assms
      by (auto simp: PushBack_def Let_def Vector_Size_def nth_append nth_list_update less_Suc_eq)
  qed
  then show "vec_ok ?p" "items ?p = items v @ [x]" by simp_all
qed

section \<open>Clocks\<close>

type_synonym SyncClock = "u64 vec"

record ThreadClock =
  nclk :: nat
  clk :: "nat \<Rightarrow> u64"

definition new_ThreadClock :: ThreadClock where "new_ThreadClock = \<lparr> nclk = 0, clk = (\<lambda>_. 0) \<rparr>"
definition new_SyncClock :: SyncClock where "new_SyncClock = Vector"

definition get :: "ThreadClock \<Rightarrow> nat \<Rightarrow> u64" where "get c tid = clk c tid"

definition set_clk :: "nat \<Rightarrow> u64 \<Rightarrow> ThreadClock \<Rightarrow> ThreadClock" where
  "set_clk tid v c =
    (let c = c\<lparr>clk := (clk c)(tid := v)\<rparr> in if nclk c \<le> tid then c\<lparr>nclk := tid + 1\<rparr> else c)"

definition tick :: "nat \<Rightarrow> ThreadClock \<Rightarrow> ThreadClock" where
  "tick tid c =
    (let c = c\<lparr>clk := (clk c)(tid := clk c tid + 1)\<rparr> in if nclk c \<le> tid then c\<lparr>nclk := tid + 1\<rparr> else c)"

definition acquire :: "SyncClock \<Rightarrow> ThreadClock \<Rightarrow> ThreadClock" where
  "acquire src c =
    (let n = Vector_Size src in
     if n = 0 then c
     else c\<lparr>nclk := max (nclk c) n,
            clk := fold (\<lambda>i k. if k i < the (buf src ! i) then k(i := the (buf src ! i)) else k) [0..<n] (clk c)\<rparr>)"

definition grow :: "ThreadClock \<Rightarrow> SyncClock \<Rightarrow> SyncClock" where
  "grow c dst = (if Vector_Size dst < nclk c then Resize 0 (nclk c) dst else dst)"

definition release :: "ThreadClock \<Rightarrow> SyncClock \<Rightarrow> SyncClock" where
  "release c dst =
    (let dst = grow c dst in
     dst\<lparr>buf := fold (\<lambda>i b. if the (b ! i) < clk c i then b[i := Some (clk c i)] else b) [0..<nclk c] (buf dst)\<rparr>)"

definition ReleaseStore :: "ThreadClock \<Rightarrow> SyncClock \<Rightarrow> SyncClock" where
  "ReleaseStore c dst =
    (let dst = grow c dst;
         dst = dst\<lparr>buf := fold (\<lambda>i b. b[i := Some (clk c i)]) [0..<nclk c] (buf dst)\<rparr>
     in dst\<lparr>buf := fold (\<lambda>i b. b[i := Some 0]) [nclk c..<Vector_Size dst] (buf dst)\<rparr>)"

definition acq_rel :: "ThreadClock \<Rightarrow> SyncClock \<Rightarrow> ThreadClock \<times> SyncClock" where
  "acq_rel c dst = (let c = acquire dst c in (c, release c dst))"

section \<open>Clocks as functions\<close>

text \<open>The entry of a thread; beyond the size of a clock it is zero.\<close>

definition sync_at :: "SyncClock \<Rightarrow> nat \<Rightarrow> u64" where
  "sync_at s u = (if u < cnt s then items s ! u else 0)"

definition clock_ok :: "ThreadClock \<Rightarrow> bool" where "clock_ok c \<longleftrightarrow> (\<forall>u\<ge>nclk c. clk c u = 0)"

lemma fold_max:
  "fold (\<lambda>i k. if k i < f i then k(i := f i) else k) [0..<n] k = (\<lambda>i. if i < n then max (k i) (f i :: u64) else k i)"
  by (induction n) (auto simp: fun_eq_iff max_def less_Suc_eq)

lemma fold_max_list:
  "n \<le> length b \<Longrightarrow> length (fold (\<lambda>i b. if the (b ! i) < (f i :: u64) then b[i := Some (f i)] else b) [0..<n] b) = length b \<and>
    (\<forall>k<length b. b ! k \<noteq> None \<longrightarrow> fold (\<lambda>i b. if the (b ! i) < f i then b[i := Some (f i)] else b) [0..<n] b ! k =
      (if k < n then Some (max (the (b ! k)) (f k)) else b ! k))"
proof (induction n)
  case (Suc n)
  then show ?case by (auto simp: nth_list_update max_def less_Suc_eq)
qed simp

lemma grow_at:
  assumes "vec_ok s"
  shows "vec_ok (grow c s)" "sync_at (grow c s) = sync_at s" "nclk c \<le> cnt (grow c s)"
proof -
  show ok: "vec_ok (grow c s)" using assms by (simp add: grow_def Resize_items)
  have l: "cnt (grow c s) = max (cnt s) (nclk c)"
    using length_items [OF ok] Resize_items(2) [OF assms, of 0 "nclk c"] assms by (auto simp: grow_def Vector_Size_def)
  then show "nclk c \<le> cnt (grow c s)" by simp
  show "sync_at (grow c s) = sync_at s"
    using l Resize_items(2) [OF assms, of 0 "nclk c"] assms
    by (auto simp: fun_eq_iff sync_at_def grow_def Vector_Size_def nth_append)
qed

lemma sync_atI:
  assumes "cnt s \<le> length (buf s)" "\<And>i. i < cnt s \<Longrightarrow> buf s ! i = Some (f i)" "\<And>i. cnt s \<le> i \<Longrightarrow> f i = 0"
  shows "vec_ok s \<and> sync_at s = f"
  using vec_okI [OF assms(1), of "map f [0..<cnt s]"] assms(2,3) by (auto simp: sync_at_def fun_eq_iff not_less)

lemma release_at:
  assumes "vec_ok s" "clock_ok c"
  shows "vec_ok (release c s) \<and> sync_at (release c s) = (\<lambda>u. max (sync_at s u) (clk c u))"
proof (rule sync_atI)
  note g = grow_at [OF assms(1), of c]
  let ?g = "grow c s" and ?r = "release c s"
  have len: "nclk c \<le> length (buf ?g)" "cnt ?g \<le> length (buf ?g)" using g(1,3) by (auto simp: vec_ok_def)
  have c: "cnt ?r = cnt ?g" by (simp add: release_def Let_def)
  show "cnt ?r \<le> length (buf ?r)" using len fold_max_list [OF len(1), of "clk c"] by (simp add: release_def Let_def)
  show "buf ?r ! i = Some (max (sync_at s i) (clk c i))" if "i < cnt ?r" for i
  proof -
    have "buf ?g ! i = Some (sync_at s i)" using vec_nth [OF g(1)] that c g(2) by (metis sync_at_def)
    moreover have "\<not> i < nclk c \<Longrightarrow> clk c i = 0" using assms(2) by (simp add: clock_ok_def)
    ultimately show ?thesis using fold_max_list [OF len(1), of "clk c"] len that c by (auto simp: release_def Let_def)
  qed
  show "max (sync_at s i) (clk c i) = 0" if "cnt ?r \<le> i" for i
  proof -
    have "sync_at (grow c s) i = 0" using that c by (simp add: sync_at_def)
    then show ?thesis using that c g(2,3) assms(2) by (simp add: clock_ok_def)
  qed
qed

lemma store_at:
  assumes "vec_ok s" "clock_ok c"
  shows "vec_ok (ReleaseStore c s) \<and> sync_at (ReleaseStore c s) = clk c"
proof (rule sync_atI)
  note g = grow_at [OF assms(1), of c]
  let ?g = "grow c s" and ?r = "ReleaseStore c s"
  define b where "b = fold (\<lambda>i b. b[i := Some (clk c i)]) [0..<nclk c] (buf ?g)"
  have len: "nclk c \<le> length (buf ?g)" "cnt ?g \<le> length (buf ?g)" using g(1,3) by (auto simp: vec_ok_def)
  have b: "length b = length (buf ?g)" "\<And>k. k < length (buf ?g) \<Longrightarrow> b ! k = (if k < nclk c then Some (clk c k) else buf ?g ! k)"
    using fold_update [OF len(1), of "\<lambda>i. Some (clk c i)" 0] by (auto simp: b_def)
  have r: "?r = ?g\<lparr>buf := fold (\<lambda>i b. b[i := Some 0]) [nclk c..<cnt ?g] b\<rparr>"
    by (simp add: ReleaseStore_def Let_def Vector_Size_def b_def)
  have u: "length (buf ?r) = length b" "\<And>k. k < length b \<Longrightarrow> buf ?r ! k = (if nclk c \<le> k \<and> k < cnt ?g then Some 0 else b ! k)"
    using fold_update [of "cnt ?g" b "\<lambda>i. Some 0" "nclk c"] len(2) b(1) by (auto simp: r)
  have c: "cnt ?r = cnt ?g" by (simp add: r)
  show "cnt ?r \<le> length (buf ?r)" using len u(1) b(1) c by simp
  show "buf ?r ! i = Some (clk c i)" if "i < cnt ?r" for i
    using that c u(2) [of i] b(2) [of i] len b(1) assms(2) by (auto simp: clock_ok_def)
  show "clk c i = 0" if "cnt ?r \<le> i" for i using that c g(3) assms(2) by (simp add: clock_ok_def)
qed

lemma acquire_at:
  assumes "vec_ok s" "clock_ok c"
  shows "clock_ok (acquire s c)" "clk (acquire s c) = (\<lambda>u. max (clk c u) (sync_at s u))"
proof -
  have "the (buf s ! i) = sync_at s i" if "i < cnt s" for i using that vec_nth [OF assms(1)] by (simp add: sync_at_def)
  then have e: "clk (acquire s c) = (\<lambda>u. max (clk c u) (sync_at s u))"
    by (auto simp: acquire_def Let_def Vector_Size_def fold_max fun_eq_iff sync_at_def)
  then show "clk (acquire s c) = (\<lambda>u. max (clk c u) (sync_at s u))" .
  have "nclk (acquire s c) = max (nclk c) (cnt s)" by (simp add: acquire_def Let_def Vector_Size_def)
  then show "clock_ok (acquire s c)" using assms(2) e by (simp add: clock_ok_def sync_at_def)
qed

lemma set_at: "clock_ok c \<Longrightarrow> clock_ok (set_clk t v c)" "clk (set_clk t v c) = (clk c)(t := v)"
  by (auto simp: set_clk_def Let_def clock_ok_def)

section \<open>Properties\<close>

text \<open>The clocks implement functions from threads to epochs: acquiring and releasing take the maximum of the entries, a releasing store overwrites them all, whatever
  the sizes and the capacities of the two clocks.\<close>

theorem clocks_refine_functions:
  assumes "clock_ok c" and "vec_ok s"
  shows "get (acquire s c) = (\<lambda>u. max (get c u) (sync_at s u)) \<and> clock_ok (acquire s c) \<and>
    sync_at (release c s) = (\<lambda>u. max (sync_at s u) (get c u)) \<and> vec_ok (release c s) \<and>
    sync_at (ReleaseStore c s) = get c \<and> vec_ok (ReleaseStore c s) \<and>
    get (fst (acq_rel c s)) = (\<lambda>u. max (get c u) (sync_at s u)) \<and> sync_at (snd (acq_rel c s)) = (\<lambda>u. max (get c u) (sync_at s u)) \<and>
    get (set_clk t v c) = (get c)(t := v) \<and> get (tick t c) = (get c)(t := get c t + 1)"
  using acquire_at [OF assms(2,1)] release_at [OF assms(2,1)] store_at [OF assms(2,1)] set_at(2) [of t v c]
    release_at [OF assms(2) acquire_at(1) [OF assms(2,1)]]
  by (auto simp: get_def [abs_def] acq_rel_def tick_def Let_def fun_eq_iff max_def)

theorem clocks_refine_functions_witness:
  "get (acquire (release (set_clk 20 7 new_ThreadClock) new_SyncClock) (set_clk 3 5 new_ThreadClock)) 20 = 7"
proof -
  have z: "vec_ok new_SyncClock" "clock_ok new_ThreadClock"
    by (simp_all add: new_SyncClock_def Vector_def vec_ok_def new_ThreadClock_def clock_ok_def)
  note c = set_at(1) [OF z(2)]
  have "vec_ok (release (set_clk 20 7 new_ThreadClock) new_SyncClock)"
    "sync_at (release (set_clk 20 7 new_ThreadClock) new_SyncClock) 20 = max (sync_at new_SyncClock 20) (get (set_clk 20 7 new_ThreadClock) 20)"
    using clocks_refine_functions [OF c [of 20 7] z(1)] by simp_all
  moreover have "sync_at new_SyncClock 20 = 0" "get (set_clk 20 7 new_ThreadClock) 20 = 7" "get (set_clk 3 5 new_ThreadClock) 20 = 0"
    using clocks_refine_functions [OF z(2,1), of 20 7] clocks_refine_functions [OF z(2,1), of 3 5]
    by (simp_all add: new_SyncClock_def Vector_def sync_at_def get_def new_ThreadClock_def)
  ultimately show ?thesis using clocks_refine_functions [OF c [of 3 5], of "release (set_clk 20 7 new_ThreadClock) new_SyncClock"] by simp
qed

end
