(* ===== verification/Tsan_Hb.thy ===== *)
theory Tsan_Hb
  imports Tsan_Clock
begin

text \<open>
  What the clocks of ThreadSanitizer are for: the happens-before relation of a run. A run is the sequence of the
  actions of the threads: steps of an epoch, memory accesses, and acquiring or releasing the clock of a
  synchronization object, where a releasing store forgets what was released before. One action happens before
  another if it is before it in the same thread, or releases what the other acquires, or by a chain of these.

  The section on exactness says which entries the clocks of the threads and of the synchronization objects have to
  have, as functions from threads to epochs, and that each action keeps it so.
\<close>

section \<open>Runs and happens-before\<close>

datatype sync_id = SyncClk u64 | ReadClk u64

datatype action =
    Inc nat
  | Synch nat
  | Own nat
  | Mem nat u64 unsigned bool
  | Acq nat sync_id
  | Rel nat sync_id
  | Sto nat sync_id
  | Del nat u64

fun thr :: "action \<Rightarrow> nat" where
  "thr (Inc t) = t" | "thr (Synch t) = t" | "thr (Own t) = t" | "thr (Mem t _ _ _) = t" | "thr (Acq t _) = t" | "thr (Rel t _) = t" | "thr (Sto t _) = t" | "thr (Del t _) = t"

fun steps_epoch :: "action \<Rightarrow> bool" where
  "steps_epoch (Inc _) = True" | "steps_epoch (Mem _ _ _ _) = True" | "steps_epoch _ = False"

fun acquires :: "action \<Rightarrow> sync_id \<Rightarrow> bool" where
  "acquires (Acq _ w) v \<longleftrightarrow> w = v" | "acquires _ v \<longleftrightarrow> False"

fun stores :: "action \<Rightarrow> sync_id \<Rightarrow> bool" where
  "stores (Sto _ w) v \<longleftrightarrow> w = v" | "stores (Del _ a) v \<longleftrightarrow> v = SyncClk a \<or> v = ReadClk a" | "stores _ v \<longleftrightarrow> False"

fun releases :: "action \<Rightarrow> sync_id \<Rightarrow> bool" where
  "releases (Rel _ w) v \<longleftrightarrow> w = v" | "releases (Sto _ w) v \<longleftrightarrow> w = v" | "releases _ v \<longleftrightarrow> False"

definition hb_edge :: "action list \<Rightarrow> nat \<Rightarrow> nat \<Rightarrow> bool" where
  "hb_edge acts i j \<longleftrightarrow> i < j \<and> j < length acts \<and> (thr (acts ! i) = thr (acts ! j) \<or>
    (\<exists>v. releases (acts ! i) v \<and> acquires (acts ! j) v \<and> (\<forall>k. i < k \<and> k < j \<longrightarrow> \<not> stores (acts ! k) v)))"

definition happens_before :: "action list \<Rightarrow> nat \<Rightarrow> nat \<Rightarrow> bool" where
  "happens_before acts = (hb_edge acts)\<^sup>*\<^sup>*"

text \<open>The actions a thread knows of, and those the clock of an object holds.\<close>

definition known :: "action list \<Rightarrow> nat \<Rightarrow> nat \<Rightarrow> bool" where
  "known acts t i \<longleftrightarrow> (\<exists>j<length acts. thr (acts ! j) = t \<and> happens_before acts i j)"

definition published :: "action list \<Rightarrow> sync_id \<Rightarrow> nat \<Rightarrow> bool" where
  "published acts v i \<longleftrightarrow> (\<exists>j<length acts. releases (acts ! j) v \<and> (\<forall>k. j < k \<and> k < length acts \<longrightarrow> \<not> stores (acts ! k) v) \<and>
    happens_before acts i j)"

lemma hb_edge_snoc_less: "j < length acts \<Longrightarrow> hb_edge (acts @ [a]) i j \<longleftrightarrow> hb_edge acts i j"
  by (auto simp: hb_edge_def nth_append)

lemma hb_edge_lt: "hb_edge acts i j \<Longrightarrow> i < j \<and> j < length acts" by (simp add: hb_edge_def)

lemma hb_le: "happens_before acts i j \<Longrightarrow> i \<le> j"
  unfolding happens_before_def by (induction rule: rtranclp_induct) (auto dest: hb_edge_lt)

lemma hb_snoc_less:
  assumes "j < length acts"
  shows "happens_before (acts @ [a]) i j \<longleftrightarrow> happens_before acts i j"
proof
  assume "happens_before (acts @ [a]) i j"
  then show "happens_before acts i j" unfolding happens_before_def using assms
  proof (induction rule: rtranclp_induct)
    case (step y z)
    then show ?case using hb_edge_lt [OF step.hyps(2)] by (auto simp: hb_edge_snoc_less intro: rtranclp.rtrancl_into_rtrancl)
  qed simp
next
  assume "happens_before acts i j"
  then show "happens_before (acts @ [a]) i j" unfolding happens_before_def using assms
  proof (induction rule: rtranclp_induct)
    case (step y z)
    then show ?case using hb_edge_lt [OF step.hyps(2)] by (auto simp: hb_edge_snoc_less intro: rtranclp.rtrancl_into_rtrancl)
  qed simp
qed

lemma hb_snoc_last:
  "happens_before (acts @ [a]) i (length acts) \<longleftrightarrow>
    i = length acts \<or> (\<exists>k<length acts. hb_edge (acts @ [a]) k (length acts) \<and> happens_before acts i k)"
proof -
  have "happens_before (acts @ [a]) i (length acts) \<longleftrightarrow>
      i = length acts \<or> (\<exists>k. happens_before (acts @ [a]) i k \<and> hb_edge (acts @ [a]) k (length acts))"
    unfolding happens_before_def by (metis rtranclp.simps)
  also have "\<dots> \<longleftrightarrow> i = length acts \<or> (\<exists>k<length acts. hb_edge (acts @ [a]) k (length acts) \<and> happens_before acts i k)"
    using hb_snoc_less hb_edge_lt by blast
  finally show ?thesis .
qed

lemma edge_to_last:
  "k < length acts \<Longrightarrow> hb_edge (acts @ [a]) k (length acts) \<longleftrightarrow> thr (acts ! k) = thr a \<or>
    (\<exists>v. releases (acts ! k) v \<and> acquires a v \<and> (\<forall>l. k < l \<and> l < length acts \<longrightarrow> \<not> stores (acts ! l) v))"
  by (auto simp: hb_edge_def nth_append)

lemma hb_last:
  assumes "i < length acts"
  shows "happens_before (acts @ [a]) i (length acts) \<longleftrightarrow> known acts (thr a) i \<or> (\<exists>v. acquires a v \<and> published acts v i)"
proof -
  have "happens_before (acts @ [a]) i (length acts) \<longleftrightarrow> (\<exists>k<length acts. hb_edge (acts @ [a]) k (length acts) \<and> happens_before acts i k)"
    using assms by (simp add: hb_snoc_last)
  then show ?thesis unfolding known_def published_def using edge_to_last [of _ acts a] by blast
qed

lemma known_snoc:
  assumes "i < length acts"
  shows "known (acts @ [a]) t i \<longleftrightarrow> known acts t i \<or> thr a = t \<and> (\<exists>v. acquires a v \<and> published acts v i)"
proof -
  have "known (acts @ [a]) t i \<longleftrightarrow> (\<exists>j<length acts. thr (acts ! j) = t \<and> happens_before acts i j) \<or>
      thr a = t \<and> happens_before (acts @ [a]) i (length acts)"
    unfolding known_def using hb_snoc_less [of _ acts a i] by (auto simp: less_Suc_eq nth_append)
  then show ?thesis unfolding hb_last [OF assms] by (auto simp: known_def)
qed

lemma known_last: "known (acts @ [a]) t (length acts) \<longleftrightarrow> thr a = t"
proof -
  have "happens_before (acts @ [a]) (length acts) j \<Longrightarrow> \<not> j < length acts" for j
    using hb_le [of "acts @ [a]" "length acts" j] by simp
  moreover have "happens_before (acts @ [a]) (length acts) (length acts)" by (simp add: happens_before_def)
  ultimately show ?thesis by (auto simp: known_def nth_append less_Suc_eq)
qed

lemma published_snoc:
  assumes "i < length acts"
  shows "published (acts @ [a]) v i \<longleftrightarrow> published acts v i \<and> \<not> stores a v \<or> releases a v \<and> known acts (thr a) i"
proof -
  have "published (acts @ [a]) v i \<longleftrightarrow> published acts v i \<and> \<not> stores a v \<or>
      releases a v \<and> happens_before (acts @ [a]) i (length acts)"
    unfolding published_def using hb_snoc_less [of _ acts a i] by (auto simp: less_Suc_eq nth_append)
  moreover have "releases a v \<Longrightarrow> \<not> acquires a w" for w by (cases a) auto
  ultimately show ?thesis unfolding hb_last [OF assms] by blast
qed

lemma published_last: "published (acts @ [a]) v (length acts) \<Longrightarrow> releases a v"
  using hb_le by (fastforce simp: published_def less_Suc_eq nth_append)

section \<open>Exact clocks\<close>

text \<open>The epoch of a thread, which starts at 1, and the epoch of an action.\<close>

definition epoch_after :: "action list \<Rightarrow> nat \<Rightarrow> nat" where
  "epoch_after acts t = 1 + length (filter (\<lambda>a. steps_epoch a \<and> thr a = t) acts)"

definition epoch_at :: "action list \<Rightarrow> nat \<Rightarrow> nat" where
  "epoch_at acts i = epoch_after (take (Suc i) acts) (thr (acts ! i))"

text \<open>The entry for a thread is at least the epoch of an action of it exactly if the action is known, or published.\<close>

definition exact :: "action list \<Rightarrow> (nat \<Rightarrow> nat \<Rightarrow> nat) \<Rightarrow> (sync_id \<Rightarrow> nat \<Rightarrow> nat) \<Rightarrow> bool" where
  "exact acts T S \<longleftrightarrow>
    (\<forall>t u. T t u \<le> epoch_after acts u) \<and> (\<forall>v u. S v u \<le> epoch_after acts u) \<and>
    (\<forall>i<length acts. steps_epoch (acts ! i) \<longrightarrow>
      (\<forall>t. t \<noteq> thr (acts ! i) \<longrightarrow> (epoch_at acts i \<le> T t (thr (acts ! i)) \<longleftrightarrow> known acts t i)) \<and>
      (\<forall>v. epoch_at acts i \<le> S v (thr (acts ! i)) \<longleftrightarrow> published acts v i))"

lemma exactD:
  assumes "exact acts T S"
  shows "T t u \<le> epoch_after acts u" "S v u \<le> epoch_after acts u"
    "i < length acts \<Longrightarrow> steps_epoch (acts ! i) \<Longrightarrow> t \<noteq> thr (acts ! i) \<Longrightarrow> epoch_at acts i \<le> T t (thr (acts ! i)) \<longleftrightarrow> known acts t i"
    "i < length acts \<Longrightarrow> steps_epoch (acts ! i) \<Longrightarrow> epoch_at acts i \<le> S v (thr (acts ! i)) \<longleftrightarrow> published acts v i"
  using assms unfolding exact_def by blast+

lemma epoch_after_snoc: "epoch_after (acts @ [a]) t = epoch_after acts t + (if steps_epoch a \<and> thr a = t then 1 else 0)"
  by (simp add: epoch_after_def)

lemma epoch_at_snoc:
  "i < length acts \<Longrightarrow> epoch_at (acts @ [a]) i = epoch_at acts i"
  "epoch_at (acts @ [a]) (length acts) = epoch_after (acts @ [a]) (thr a)"
  by (simp_all add: epoch_at_def nth_append)

lemma epoch_at_le: "i < length acts \<Longrightarrow> epoch_at acts i \<le> epoch_after acts (thr (acts ! i))"
proof -
  have "epoch_after (take (Suc i) acts) t \<le> epoch_after (take (Suc i) acts @ drop (Suc i) acts) t" for t
    unfolding epoch_after_def filter_append length_append by simp
  then show ?thesis by (simp add: epoch_at_def)
qed

lemma exactI:
  assumes "\<And>t u. T t u \<le> epoch_after acts u" "\<And>v u. S v u \<le> epoch_after acts u"
    and "\<And>i t. i < length acts \<Longrightarrow> steps_epoch (acts ! i) \<Longrightarrow> t \<noteq> thr (acts ! i) \<Longrightarrow> epoch_at acts i \<le> T t (thr (acts ! i)) \<longleftrightarrow> known acts t i"
    and "\<And>i v. i < length acts \<Longrightarrow> steps_epoch (acts ! i) \<Longrightarrow> epoch_at acts i \<le> S v (thr (acts ! i)) \<longleftrightarrow> published acts v i"
  shows "exact acts T S"
  using assms unfolding exact_def by blast

lemma exact_Nil: "exact [] (\<lambda>_ _. 0) (\<lambda>_ _. 0)" by (simp add: exact_def)

lemma known_own: "i < length acts \<Longrightarrow> known acts (thr (acts ! i)) i"
  by (auto simp: known_def happens_before_def)

text \<open>A step of the epoch, and what leaves the clocks alone.\<close>

lemma exact_other:
  assumes e: "exact acts T S" and a: "\<And>v. \<not> acquires a v" "\<And>v. \<not> releases a v" and ns: "\<And>v. \<not> stores a v"
  shows "exact (acts @ [a]) T S"
proof (rule exactI)
  show "T t u \<le> epoch_after (acts @ [a]) u" "S v u \<le> epoch_after (acts @ [a]) u" for t u v
    using exactD(1,2) [OF e] by (simp_all add: epoch_after_snoc trans_le_add1)
  fix i assume i: "i < length (acts @ [a])" "steps_epoch ((acts @ [a]) ! i)"
  show "epoch_at (acts @ [a]) i \<le> T t (thr ((acts @ [a]) ! i)) \<longleftrightarrow> known (acts @ [a]) t i" if "t \<noteq> thr ((acts @ [a]) ! i)" for t
  proof (cases "i < length acts")
    case True
    then show ?thesis using i that a exactD(3) [OF e] by (simp add: nth_append epoch_at_snoc known_snoc)
  next
    case False
    then have "i = length acts" using i by simp
    then show ?thesis using i that exactD(1) [OF e, of t "thr a"] by (simp add: epoch_at_snoc known_last epoch_after_snoc)
  qed
  show "epoch_at (acts @ [a]) i \<le> S v (thr ((acts @ [a]) ! i)) \<longleftrightarrow> published (acts @ [a]) v i" for v
  proof (cases "i < length acts")
    case True
    then show ?thesis using i a ns exactD(4) [OF e] by (simp add: nth_append epoch_at_snoc published_snoc)
  next
    case False
    then have "i = length acts" using i by simp
    then show ?thesis using i a exactD(2) [OF e, of v "thr a"] published_last [of acts a v] by (auto simp: epoch_at_snoc epoch_after_snoc)
  qed
qed

text \<open>The other actions step no epoch.\<close>

lemma exact_sync:
  assumes e: "exact acts T S" and a: "\<not> steps_epoch a"
    and T: "\<And>t u. T' t u \<le> epoch_after acts u" and S: "\<And>v u. S' v u \<le> epoch_after acts u"
    and known: "\<And>i t. i < length acts \<Longrightarrow> steps_epoch (acts ! i) \<Longrightarrow> t \<noteq> thr (acts ! i) \<Longrightarrow> epoch_at acts i \<le> T' t (thr (acts ! i)) \<longleftrightarrow>
      known acts t i \<or> thr a = t \<and> (\<exists>v. acquires a v \<and> published acts v i)"
    and pub: "\<And>i v. i < length acts \<Longrightarrow> steps_epoch (acts ! i) \<Longrightarrow> epoch_at acts i \<le> S' v (thr (acts ! i)) \<longleftrightarrow>
      published acts v i \<and> \<not> stores a v \<or> releases a v \<and> known acts (thr a) i"
  shows "exact (acts @ [a]) T' S'"
proof (rule exactI)
  show "T' t u \<le> epoch_after (acts @ [a]) u" "S' v u \<le> epoch_after (acts @ [a]) u" for t u v
    using T S a by (simp_all add: epoch_after_snoc)
  fix i assume i: "i < length (acts @ [a])" "steps_epoch ((acts @ [a]) ! i)"
  then have l: "i < length acts" using a by (auto simp: nth_append less_Suc_eq)
  show "epoch_at (acts @ [a]) i \<le> T' t (thr ((acts @ [a]) ! i)) \<longleftrightarrow> known (acts @ [a]) t i" if "t \<noteq> thr ((acts @ [a]) ! i)" for t
    using known [OF l, of t] i l that by (simp add: nth_append epoch_at_snoc known_snoc)
  show "epoch_at (acts @ [a]) i \<le> S' v (thr ((acts @ [a]) ! i)) \<longleftrightarrow> published (acts @ [a]) v i" for v
    using pub [OF l, of v] i l by (simp add: nth_append epoch_at_snoc published_snoc)
qed

text \<open>A thread sets its own entry to its epoch before it acquires or releases.\<close>

definition own :: "action list \<Rightarrow> nat \<Rightarrow> (nat \<Rightarrow> nat) \<Rightarrow> nat \<Rightarrow> nat" where
  "own acts t k = k(t := epoch_after acts t)"

lemma exact_acq:
  assumes e: "exact acts T S"
  shows "exact (acts @ [Acq t v]) (T(t := \<lambda>u. max (T t u) (S v u))) S"
proof (rule exact_sync [OF e])
  show "(T(t := \<lambda>u. max (T t u) (S v u))) t' u \<le> epoch_after acts u" for t' u
    using exactD(1,2) [OF e] by auto
  show "S w u \<le> epoch_after acts u" for w u by (rule exactD(2) [OF e])
  fix i assume i: "i < length acts" "steps_epoch (acts ! i)"
  show "epoch_at acts i \<le> (T(t := \<lambda>u. max (T t u) (S v u))) t' (thr (acts ! i)) \<longleftrightarrow>
      known acts t' i \<or> thr (Acq t v) = t' \<and> (\<exists>w. acquires (Acq t v) w \<and> published acts w i)" if "t' \<noteq> thr (acts ! i)" for t'
    using exactD(3) [OF e i that] exactD(4) [OF e i] that by (auto simp: le_max_iff_disj)
  show "epoch_at acts i \<le> S w (thr (acts ! i)) \<longleftrightarrow>
      published acts w i \<and> \<not> stores (Acq t v) w \<or> releases (Acq t v) w \<and> known acts (thr (Acq t v)) i" for w
    using exactD(4) [OF e i] by simp
qed simp

lemma own_exact:
  assumes e: "exact acts T S" and i: "i < length acts" "steps_epoch (acts ! i)"
  shows "epoch_at acts i \<le> own acts t (T t) (thr (acts ! i)) \<longleftrightarrow> known acts t i"
  using exactD(3) [OF e i] epoch_at_le [OF i(1)] known_own [OF i(1)] by (cases "thr (acts ! i) = t") (auto simp: own_def)

lemma exact_own:
  assumes e: "exact acts T S"
  shows "own acts t (T t) u \<le> epoch_after acts u" "i < length acts \<Longrightarrow> steps_epoch (acts ! i) \<Longrightarrow> t' \<noteq> thr (acts ! i) \<Longrightarrow>
    epoch_at acts i \<le> (T(t := own acts t (T t))) t' (thr (acts ! i)) \<longleftrightarrow> known acts t' i"
  using exactD(1) [OF e] exactD(3) [OF e, of i t'] by (auto simp: own_def)

lemma exact_rel:
  assumes e: "exact acts T S"
  shows "exact (acts @ [Rel t v]) (T(t := own acts t (T t))) (S(v := \<lambda>u. max (S v u) (own acts t (T t) u)))"
proof (rule exact_sync [OF e])
  show "(T(t := own acts t (T t))) t' u \<le> epoch_after acts u" for t' u using exactD(1) [OF e] exact_own(1) [OF e] by simp
  show "(S(v := \<lambda>u. max (S v u) (own acts t (T t) u))) w u \<le> epoch_after acts u" for w u
    using exactD(2) [OF e] exact_own(1) [OF e] by simp
qed (use exact_own(2) [OF e] exactD(4) [OF e] own_exact [OF e] in \<open>auto simp: le_max_iff_disj\<close>)

lemma exact_sto:
  assumes e: "exact acts T S"
  shows "exact (acts @ [Sto t v]) (T(t := own acts t (T t))) (S(v := own acts t (T t)))"
proof (rule exact_sync [OF e])
  show "(T(t := own acts t (T t))) t' u \<le> epoch_after acts u" for t' u using exactD(1) [OF e] exact_own(1) [OF e] by simp
  show "(S(v := own acts t (T t))) w u \<le> epoch_after acts u" for w u
    using exactD(2) [OF e] exact_own(1) [OF e] by simp
qed (use exact_own(2) [OF e] exactD(4) [OF e] own_exact [OF e] in auto)

lemma exact_own_clock:
  assumes e: "exact acts T S"
  shows "exact (acts @ [Own t]) (T(t := own acts t (T t))) S"
proof (rule exact_sync [OF e])
  show "(T(t := own acts t (T t))) t' u \<le> epoch_after acts u" for t' u using exactD(1) [OF e] exact_own(1) [OF e] by simp
  show "S w u \<le> epoch_after acts u" for w u by (rule exactD(2) [OF e])
qed (use exact_own(2) [OF e] exactD(4) [OF e] in auto)

lemma exact_del:
  assumes e: "exact acts T S"
  shows "exact (acts @ [Del t a]) T (S(SyncClk a := \<lambda>_. 0, ReadClk a := \<lambda>_. 0))"
proof (rule exact_sync [OF e])
  show "T t' u \<le> epoch_after acts u" for t' u by (rule exactD(1) [OF e])
  show "(S(SyncClk a := \<lambda>_. 0, ReadClk a := \<lambda>_. 0)) w u \<le> epoch_after acts u" for w u using exactD(2) [OF e] by simp
  fix i w assume i: "i < length acts" "steps_epoch (acts ! i)"
  have "0 < epoch_at acts i" by (simp add: epoch_at_def epoch_after_def)
  then show "epoch_at acts i \<le> (S(SyncClk a := \<lambda>_. 0, ReadClk a := \<lambda>_. 0)) w (thr (acts ! i)) \<longleftrightarrow>
      published acts w i \<and> \<not> stores (Del t a) w \<or> releases (Del t a) w \<and> known acts (thr (Del t a)) i"
    using exactD(4) [OF e i] by auto
qed (use exactD(3) [OF e] in auto)

end
