(* ===== verification/Tsan_Race.thy ===== *)
theory Tsan_Race
  imports Tsan_Hb "HOL-Library.Monad_Syntax"
begin

unbundle bit_operations_syntax

text \<open>
  The race detector of ThreadSanitizer: the memory accesses of \<^verbatim>\<open>lib/tsan/rtl/tsan_rtl.cc\<close> with the body of their
  loop in \<^verbatim>\<open>tsan_update_shadow_word_inl.h\<close>, and the synchronization of \<^verbatim>\<open>tsan_rtl_mutex.cc\<close>. The state has the
  threads, the synchronization objects by address, the shadow memory by address, and the races reported so far.
  An operation is \<open>None\<close> if a \<^verbatim>\<open>CHECK\<close> fails. Statistics, the trace of events that reports take their stacks from, the counter
  \<^verbatim>\<open>in_rtl\<close>, the locks of the objects and printed warnings are left out: an operation is one step.
\<close>

section \<open>State\<close>

record thread_state =
  fast_state :: u64
  fast_synch_epoch :: u64
  clock :: ThreadClock
  tid :: nat

record SyncVar =
  sync_clock :: SyncClock
  read_clock :: SyncClock
  owner_tid :: int
  last_lock :: u64
  recursion :: int
  is_rw :: bool
  is_recursive :: bool
  is_broken :: bool
  is_linker_init :: bool

record race =
  racy_cur :: u64
  racy_old :: u64
  racy_shadow_addr :: u64

record detector =
  threads :: "nat \<Rightarrow> thread_state"
  synctab :: "u64 \<rightharpoonup> SyncVar"
  shadow :: "u64 \<Rightarrow> u64"
  races :: "race list"

definition kInvalidTid :: int where "kInvalidTid = - 1"

definition new_SyncVar :: SyncVar where
  "new_SyncVar = \<lparr> sync_clock = new_SyncClock, read_clock = new_SyncClock, owner_tid = kInvalidTid, last_lock = 0, recursion = 0,
     is_rw = False, is_recursive = False, is_broken = False, is_linker_init = False \<rparr>"

text \<open>A thread when it starts running, with the epoch its context gives it.\<close>

definition start_thread :: "nat \<Rightarrow> u64 \<Rightarrow> thread_state" where
  "start_thread t epoch0 =
    \<lparr> fast_state = FastState (of_nat t) epoch0, fast_synch_epoch = epoch0, clock = set_clk t epoch0 new_ThreadClock, tid = t \<rparr>"

definition check :: "bool \<Rightarrow> unit option" where "check b = (if b then Some () else None)"

section \<open>Memory\<close>

definition kLinuxAppMemBeg :: u64 where "kLinuxAppMemBeg = 0x7cf000000000"
definition kLinuxAppMemEnd :: u64 where "kLinuxAppMemEnd = 0x7fffffffffff"
definition kLinuxAppMemMsk :: u64 where "kLinuxAppMemMsk = 0x7c0000000000"

definition mem_to_shadow :: "u64 \<Rightarrow> u64" where
  "mem_to_shadow addr = (addr AND NOT (kLinuxAppMemMsk OR (kShadowCell - 1))) * of_nat kShadowCnt"

definition IsAppMem :: "u64 \<Rightarrow> bool" where "IsAppMem mem \<longleftrightarrow> mem \<ge> kLinuxAppMemBeg \<and> mem \<le> kLinuxAppMemEnd"

definition BothReads :: "u64 \<Rightarrow> bool \<Rightarrow> bool" where "BothReads s kAccessIsWrite \<longleftrightarrow> \<not> kAccessIsWrite \<and> \<not> is_write s"
definition OldIsRWStronger :: "u64 \<Rightarrow> bool \<Rightarrow> bool" where "OldIsRWStronger old kAccessIsWrite \<longleftrightarrow> is_write old \<or> \<not> kAccessIsWrite"
definition OldIsRWWeaker :: "u64 \<Rightarrow> bool \<Rightarrow> bool" where "OldIsRWWeaker old kAccessIsWrite \<longleftrightarrow> \<not> is_write old \<or> kAccessIsWrite"
definition OldIsInSameSynchEpoch :: "u64 \<Rightarrow> thread_state \<Rightarrow> bool" where
  "OldIsInSameSynchEpoch old t \<longleftrightarrow> epoch_of old \<ge> fast_synch_epoch t"
definition HappensBefore :: "u64 \<Rightarrow> thread_state \<Rightarrow> bool" where
  "HappensBefore old t \<longleftrightarrow> get (clock t) (unat (tid_of old)) \<ge> epoch_of old"

text \<open>The shadow memory together with the word to store, which is zero once it has been stored.\<close>

definition StoreIfNotYetStored :: "u64 \<Rightarrow> (u64 \<Rightarrow> u64) \<times> u64 \<Rightarrow> (u64 \<Rightarrow> u64) \<times> u64" where
  "StoreIfNotYetStored sp = (\<lambda>(m, s). (m(sp := s), 0))"

text \<open>How the loop goes on after a slot: with the next one, to the end since the same access is already stored, or to a race with the word in the slot.\<close>

datatype slot_outcome = Next | Same | Race u64

definition update_shadow_word ::
    "thread_state \<Rightarrow> unsigned \<Rightarrow> bool \<Rightarrow> u64 \<Rightarrow> u64 \<Rightarrow> nat \<Rightarrow> (u64 \<Rightarrow> u64) \<times> u64 \<Rightarrow> slot_outcome \<times> (u64 \<Rightarrow> u64) \<times> u64" where
  "update_shadow_word t kAccessSizeLog kAccessIsWrite cur shadow_mem idx st =
    (let kAccessSize = push_bit (unat kAccessSizeLog) 1 :: unsigned;
         off = ComputeSearchOffset cur;
         sp = shadow_mem + 8 * of_nat ((idx + unat off) mod kShadowCnt);
         old = fst st sp
     in
     if IsZero old then (Next, if snd st \<noteq> 0 then StoreIfNotYetStored sp st else st)
     else if Addr0AndSizeAreEqual cur old then
       if TidsAreEqual old cur then
         if OldIsInSameSynchEpoch old t then
           if OldIsRWStronger old kAccessIsWrite then (Same, st) else (Next, StoreIfNotYetStored sp st)
         else if OldIsRWWeaker old kAccessIsWrite then (Next, StoreIfNotYetStored sp st)
         else (Next, st)
       else if HappensBefore old t then (Next, StoreIfNotYetStored sp st)
       else if BothReads old kAccessIsWrite then (Next, st)
       else (Race old, st)
     else if TwoRangesIntersect old cur kAccessSize then
       if TidsAreEqual old cur then (Next, st)
       else if HappensBefore old t then (Next, st)
       else if BothReads old kAccessIsWrite then (Next, st)
       else (Race old, st)
     else (Next, st))"

primrec scan_slots ::
    "thread_state \<Rightarrow> unsigned \<Rightarrow> bool \<Rightarrow> u64 \<Rightarrow> u64 \<Rightarrow> nat list \<Rightarrow> (u64 \<Rightarrow> u64) \<times> u64 \<Rightarrow> slot_outcome \<times> (u64 \<Rightarrow> u64) \<times> u64" where
  "scan_slots t kAccessSizeLog kAccessIsWrite cur shadow_mem [] st = (Next, st)"
| "scan_slots t kAccessSizeLog kAccessIsWrite cur shadow_mem (idx # idxs) st =
    (let (r, st) = update_shadow_word t kAccessSizeLog kAccessIsWrite cur shadow_mem idx st in
     if r = Next then scan_slots t kAccessSizeLog kAccessIsWrite cur shadow_mem idxs st else (r, st))"

definition MemoryAccessImpl ::
    "thread_state \<Rightarrow> unsigned \<Rightarrow> bool \<Rightarrow> u64 \<Rightarrow> u64 \<Rightarrow> (u64 \<Rightarrow> u64) \<Rightarrow> (u64 \<Rightarrow> u64) \<times> race option" where
  "MemoryAccessImpl t kAccessSizeLog kAccessIsWrite shadow_mem cur m =
    (let store_word = cur;
         (r, m, store_word) = scan_slots t kAccessSizeLog kAccessIsWrite cur shadow_mem [0..<kShadowCnt] (m, store_word)
     in case r of
          Next \<Rightarrow> if store_word = 0 then (m, None) else (m(shadow_mem + 8 * (epoch_of cur mod of_nat kShadowCnt) := store_word), None)
        | Same \<Rightarrow> (m, None)
        | Race old \<Rightarrow> (m, Some \<lparr> racy_cur = cur, racy_old = old, racy_shadow_addr = shadow_mem \<rparr>))"

definition upd_thread :: "nat \<Rightarrow> (thread_state \<Rightarrow> thread_state) \<Rightarrow> detector \<Rightarrow> detector" where
  "upd_thread t f d = d\<lparr>threads := (threads d)(t := f (threads d t))\<rparr>"

definition MemoryAccess :: "nat \<Rightarrow> u64 \<Rightarrow> unsigned \<Rightarrow> bool \<Rightarrow> detector \<Rightarrow> detector" where
  "MemoryAccess t addr kAccessSizeLog kAccessIsWrite d =
    (let shadow_mem = mem_to_shadow addr;
         fs = fast_state (threads d t)
     in
     if GetIgnoreBit fs then d
     else
       let fs = IncrementEpoch fs;
           d = upd_thread t (\<lambda>thr. thr\<lparr>fast_state := fs\<rparr>) d;
           cur = SetAddr0AndSizeLog fs (addr AND 7) kAccessSizeLog;
           cur = SetWrite cur kAccessIsWrite;
           (m, r) = MemoryAccessImpl (threads d t) kAccessSizeLog kAccessIsWrite shadow_mem cur (shadow d)
       in d\<lparr>shadow := m, races := races d @ (case r of None \<Rightarrow> [] | Some r \<Rightarrow> [r])\<rparr>)"

definition MemoryRead1Byte :: "nat \<Rightarrow> u64 \<Rightarrow> detector \<Rightarrow> detector" where "MemoryRead1Byte t addr d = MemoryAccess t addr 0 False d"
definition MemoryWrite1Byte :: "nat \<Rightarrow> u64 \<Rightarrow> detector \<Rightarrow> detector" where "MemoryWrite1Byte t addr d = MemoryAccess t addr 0 True d"

section \<open>Synchronization\<close>

text \<open>The statements on clocks the operations are made of.\<close>

definition increment_epoch :: "nat \<Rightarrow> detector \<Rightarrow> detector" where
  "increment_epoch t d = upd_thread t (\<lambda>thr. thr\<lparr>fast_state := IncrementEpoch (fast_state thr)\<rparr>) d"

definition set_own_clock :: "nat \<Rightarrow> detector \<Rightarrow> detector" where
  "set_own_clock t d = upd_thread t (\<lambda>thr. thr\<lparr>clock := set_clk (tid thr) (epoch_of (fast_state thr)) (clock thr)\<rparr>) d"

definition start_synch_epoch :: "nat \<Rightarrow> detector \<Rightarrow> detector" where
  "start_synch_epoch t d = upd_thread t (\<lambda>thr. thr\<lparr>fast_synch_epoch := epoch_of (fast_state thr)\<rparr>) d"

definition sync_var :: "u64 \<Rightarrow> detector \<Rightarrow> SyncVar" where
  "sync_var addr d = (case synctab d addr of None \<Rightarrow> new_SyncVar | Some s \<Rightarrow> s)"

definition put_sync :: "u64 \<Rightarrow> SyncVar \<Rightarrow> detector \<Rightarrow> detector" where
  "put_sync addr s d = d\<lparr>synctab := (synctab d)(addr \<mapsto> s)\<rparr>"

definition acquire_clock :: "nat \<Rightarrow> SyncClock \<Rightarrow> detector \<Rightarrow> detector" where
  "acquire_clock t c d = upd_thread t (\<lambda>thr. thr\<lparr>clock := acquire c (clock thr)\<rparr>) d"

definition MutexCreate :: "nat \<Rightarrow> u64 \<Rightarrow> bool \<Rightarrow> bool \<Rightarrow> bool \<Rightarrow> detector \<Rightarrow> detector" where
  "MutexCreate t addr rw recursive linker_init d =
    (let d = (if \<not> linker_init \<and> IsAppMem addr then MemoryWrite1Byte t addr d else d);
         s = sync_var addr d
     in put_sync addr (s\<lparr>is_rw := rw, is_recursive := recursive, is_linker_init := linker_init\<rparr>) d)"

definition MutexDestroy :: "(u64 \<Rightarrow> bool) \<Rightarrow> nat \<Rightarrow> u64 \<Rightarrow> detector \<Rightarrow> detector" where
  "MutexDestroy IsGlobalVar t addr d =
    (if IsGlobalVar addr then d
     else case synctab d addr of
       None \<Rightarrow> d
     | Some s \<Rightarrow>
         if is_linker_init s then d
         else
           let d = d\<lparr>synctab := (synctab d)(addr := None)\<rparr>
           in if IsAppMem addr then MemoryWrite1Byte t addr d else d)"

definition MutexLock :: "nat \<Rightarrow> u64 \<Rightarrow> detector \<Rightarrow> detector option" where
  "MutexLock t addr d = do {
     let d = (if IsAppMem addr then MemoryRead1Byte t addr d else d);
     let d = increment_epoch t d;
     let s = sync_var addr d;
     s \<leftarrow> (if owner_tid s = kInvalidTid then do {
            check (recursion s = 0);
            Some (s\<lparr>owner_tid := int (tid (threads d t)), last_lock := fast_state (threads d t)\<rparr>)
          } else if owner_tid s = int (tid (threads d t)) then do {
            check (recursion s > 0);
            Some s
          } else Some s);
     let d = (if recursion s = 0 then acquire_clock t (read_clock s) (acquire_clock t (sync_clock s) (set_own_clock t d)) else d);
     Some (put_sync addr (s\<lparr>recursion := recursion s + 1\<rparr>) d)
   }"

definition MutexUnlock :: "nat \<Rightarrow> u64 \<Rightarrow> detector \<Rightarrow> detector" where
  "MutexUnlock t addr d =
    (let d = (if IsAppMem addr then MemoryRead1Byte t addr d else d);
         d = increment_epoch t d;
         s = sync_var addr d
     in
     if recursion s = 0 then put_sync addr (if \<not> is_broken s then s\<lparr>is_broken := True\<rparr> else s) d
     else if owner_tid s \<noteq> int (tid (threads d t)) then put_sync addr (if \<not> is_broken s then s\<lparr>is_broken := True\<rparr> else s) d
     else
       let s = s\<lparr>recursion := recursion s - 1\<rparr> in
       if recursion s = 0 then
         let s = s\<lparr>owner_tid := kInvalidTid\<rparr>;
             d = start_synch_epoch t (set_own_clock t d)
         in put_sync addr (s\<lparr>sync_clock := ReleaseStore (clock (threads d t)) (sync_clock s)\<rparr>) d
       else put_sync addr s d)"

definition MutexReadLock :: "nat \<Rightarrow> u64 \<Rightarrow> detector \<Rightarrow> detector" where
  "MutexReadLock t addr d =
    (let d = (if IsAppMem addr then MemoryRead1Byte t addr d else d);
         d = increment_epoch t d;
         s = sync_var addr d;
         d = acquire_clock t (sync_clock s) (set_own_clock t d)
     in put_sync addr (s\<lparr>last_lock := fast_state (threads d t)\<rparr>) d)"

definition MutexReadUnlock :: "nat \<Rightarrow> u64 \<Rightarrow> detector \<Rightarrow> detector" where
  "MutexReadUnlock t addr d =
    (let d = (if IsAppMem addr then MemoryRead1Byte t addr d else d);
         d = increment_epoch t d;
         s = sync_var addr d;
         d = start_synch_epoch t (set_own_clock t d)
     in put_sync addr (s\<lparr>read_clock := release (clock (threads d t)) (read_clock s)\<rparr>) d)"

definition MutexReadOrWriteUnlock :: "nat \<Rightarrow> u64 \<Rightarrow> detector \<Rightarrow> detector option" where
  "MutexReadOrWriteUnlock t addr d =
    (let d = (if IsAppMem addr then MemoryRead1Byte t addr d else d);
         s = sync_var addr d
     in
     if owner_tid s = kInvalidTid then
       let d = start_synch_epoch t (set_own_clock t (increment_epoch t d))
       in Some (put_sync addr (s\<lparr>read_clock := release (clock (threads d t)) (read_clock s)\<rparr>) d)
     else if owner_tid s = int (tid (threads d t)) then do {
       check (recursion s > 0);
       let s = s\<lparr>recursion := recursion s - 1\<rparr>;
       if recursion s = 0 then do {
         let s = s\<lparr>owner_tid := kInvalidTid\<rparr>;
         let d = start_synch_epoch t (set_own_clock t (increment_epoch t d));
         Some (put_sync addr (s\<lparr>sync_clock := ReleaseStore (clock (threads d t)) (sync_clock s)\<rparr>) d)
       } else Some (put_sync addr s d)
     }
     else Some (put_sync addr (if \<not> is_broken s then s\<lparr>is_broken := True\<rparr> else s) d))"

definition Acquire :: "nat \<Rightarrow> u64 \<Rightarrow> detector \<Rightarrow> detector" where
  "Acquire t addr d =
    (let s = sync_var addr d
     in put_sync addr s (acquire_clock t (sync_clock s) (set_own_clock t d)))"

definition Release :: "nat \<Rightarrow> u64 \<Rightarrow> detector \<Rightarrow> detector" where
  "Release t addr d =
    (let s = sync_var addr d;
         d = set_own_clock t d
     in put_sync addr (s\<lparr>sync_clock := release (clock (threads d t)) (sync_clock s)\<rparr>) d)"

definition ReleaseStore_op :: "nat \<Rightarrow> u64 \<Rightarrow> detector \<Rightarrow> detector" where
  "ReleaseStore_op t addr d =
    (let s = sync_var addr d;
         d = set_own_clock t d
     in put_sync addr (s\<lparr>sync_clock := ReleaseStore (clock (threads d t)) (sync_clock s)\<rparr>) d)"

section \<open>Programs\<close>

datatype operation =
    OAccess nat u64 unsigned bool
  | OCreate nat u64 bool bool bool
  | ODestroy nat u64
  | OLock nat u64
  | OUnlock nat u64
  | OReadLock nat u64
  | OReadUnlock nat u64
  | OReadOrWriteUnlock nat u64
  | OAcquire nat u64
  | ORelease nat u64
  | OReleaseStore nat u64

fun run_operation :: "(u64 \<Rightarrow> bool) \<Rightarrow> operation \<Rightarrow> detector \<Rightarrow> detector option" where
  "run_operation g (OAccess t a l w) d = Some (MemoryAccess t a l w d)"
| "run_operation g (OCreate t a rw rec li) d = Some (MutexCreate t a rw rec li d)"
| "run_operation g (ODestroy t a) d = Some (MutexDestroy g t a d)"
| "run_operation g (OLock t a) d = MutexLock t a d"
| "run_operation g (OUnlock t a) d = Some (MutexUnlock t a d)"
| "run_operation g (OReadLock t a) d = Some (MutexReadLock t a d)"
| "run_operation g (OReadUnlock t a) d = Some (MutexReadUnlock t a d)"
| "run_operation g (OReadOrWriteUnlock t a) d = MutexReadOrWriteUnlock t a d"
| "run_operation g (OAcquire t a) d = Some (Acquire t a d)"
| "run_operation g (ORelease t a) d = Some (Release t a d)"
| "run_operation g (OReleaseStore t a) d = Some (ReleaseStore_op t a d)"

definition initial :: detector where
  "initial = \<lparr> threads = (\<lambda>t. start_thread t 1), synctab = Map.empty, shadow = (\<lambda>_. 0), races = [] \<rparr>"

end
