(* ===== verification/Tsan_Sound.thy ===== *)
theory Tsan_Sound
  imports Tsan_Race
begin

unbundle bit_operations_syntax

text \<open>
  The detector against happens-before: the actions every operation takes, and that in every run of operations the
  clocks are exact, every word of the shadow memory describes an access of the run, and every race reported is one.
\<close>

section \<open>Operations as actions\<close>

fun clock_of :: "sync_id \<Rightarrow> detector \<Rightarrow> SyncClock" where
  "clock_of (SyncClk a) d = sync_clock (sync_var a d)"
| "clock_of (ReadClk a) d = read_clock (sync_var a d)"

fun put_clock :: "sync_id \<Rightarrow> SyncClock \<Rightarrow> detector \<Rightarrow> detector" where
  "put_clock (SyncClk a) c d = put_sync a ((sync_var a d)\<lparr>sync_clock := c\<rparr>) d"
| "put_clock (ReadClk a) c d = put_sync a ((sync_var a d)\<lparr>read_clock := c\<rparr>) d"

fun do_action :: "action \<Rightarrow> detector \<Rightarrow> detector" where
  "do_action (Inc t) d = increment_epoch t d"
| "do_action (Synch t) d = start_synch_epoch t d"
| "do_action (Own t) d = set_own_clock t d"
| "do_action (Mem t a l w) d = MemoryAccess t a l w d"
| "do_action (Acq t v) d = acquire_clock t (clock_of v d) d"
| "do_action (Rel t v) d = (let d = set_own_clock t d in put_clock v (release (clock (threads d t)) (clock_of v d)) d)"
| "do_action (Sto t v) d = (let d = set_own_clock t d in put_clock v (ReleaseStore (clock (threads d t)) (clock_of v d)) d)"
| "do_action (Del t a) d = d\<lparr>synctab := (synctab d)(a := None)\<rparr>"

definition probe :: "nat \<Rightarrow> u64 \<Rightarrow> bool \<Rightarrow> action list" where
  "probe t a w = (if IsAppMem a then [Mem t a 0 w] else [])"

fun actions_of :: "(u64 \<Rightarrow> bool) \<Rightarrow> operation \<Rightarrow> detector \<Rightarrow> action list" where
  "actions_of g (OAccess t a l w) d = [Mem t a l w]"
| "actions_of g (OCreate t a rw rec li) d = (if li then [] else probe t a True)"
| "actions_of g (ODestroy t a) d =
    (if g a then [] else case synctab d a of None \<Rightarrow> [] | Some s \<Rightarrow> if is_linker_init s then [] else Del t a # probe t a True)"
| "actions_of g (OLock t a) d =
    probe t a False @ Inc t # (if recursion (sync_var a d) = 0 then [Own t, Acq t (SyncClk a), Acq t (ReadClk a)] else [])"
| "actions_of g (OUnlock t a) d =
    probe t a False @ Inc t # (if recursion (sync_var a d) = 1 \<and> owner_tid (sync_var a d) = int t then [Synch t, Sto t (SyncClk a)] else [])"
| "actions_of g (OReadLock t a) d = probe t a False @ [Inc t, Own t, Acq t (SyncClk a)]"
| "actions_of g (OReadUnlock t a) d = probe t a False @ [Inc t, Synch t, Rel t (ReadClk a)]"
| "actions_of g (OReadOrWriteUnlock t a) d = probe t a False @
    (if owner_tid (sync_var a d) = kInvalidTid then [Inc t, Synch t, Rel t (ReadClk a)]
     else if owner_tid (sync_var a d) = int t \<and> recursion (sync_var a d) = 1 then [Inc t, Synch t, Sto t (SyncClk a)] else [])"
| "actions_of g (OAcquire t a) d = [Own t, Acq t (SyncClk a)]"
| "actions_of g (ORelease t a) d = [Rel t (SyncClk a)]"
| "actions_of g (OReleaseStore t a) d = [Sto t (SyncClk a)]"

text \<open>Two states with the same threads, clocks, shadow memory and races; they may differ in the other fields of the synchronization objects.\<close>

definition same_detector :: "detector \<Rightarrow> detector \<Rightarrow> bool" where
  "same_detector d d' \<longleftrightarrow> threads d = threads d' \<and> shadow d = shadow d' \<and> races d = races d' \<and> (\<forall>v. clock_of v d = clock_of v d')"

lemma same_detectorI:
  assumes "threads d = threads d'" "shadow d = shadow d'" "races d = races d'"
    and "\<And>a. sync_clock (sync_var a d) = sync_clock (sync_var a d')" "\<And>a. read_clock (sync_var a d) = read_clock (sync_var a d')"
  shows "same_detector d d'"
proof -
  have "clock_of v d = clock_of v d'" for v using assms(4,5) by (cases v) simp_all
  then show ?thesis using assms(1-3) by (simp add: same_detector_def)
qed

lemma upd_thread_simps [simp]:
  "threads (upd_thread t f d) = (threads d)(t := f (threads d t))" "synctab (upd_thread t f d) = synctab d"
  "shadow (upd_thread t f d) = shadow d" "races (upd_thread t f d) = races d" "sync_var a (upd_thread t f d) = sync_var a d"
  by (simp_all add: upd_thread_def sync_var_def)

lemma put_sync_simps [simp]:
  "threads (put_sync a s d) = threads d" "shadow (put_sync a s d) = shadow d" "races (put_sync a s d) = races d"
  "sync_var b (put_sync a s d) = (if b = a then s else sync_var b d)"
  by (simp_all add: put_sync_def sync_var_def)

lemma access_sync [simp]: "synctab (MemoryAccess t a l w d) = synctab d" "sync_var b (MemoryAccess t a l w d) = sync_var b d"
  by (simp_all add: MemoryAccess_def Let_def sync_var_def split: prod.split)

lemma access_tid [simp]: "tid (threads (MemoryAccess t a l w d) u) = tid (threads d u)"
  by (simp add: MemoryAccess_def Let_def split: prod.split)

lemmas clock_statements = increment_epoch_def set_own_clock_def start_synch_epoch_def acquire_clock_def

lemma run_operation_actions:
  assumes "run_operation g opn d = Some d'" "\<forall>t. tid (threads d t) = t"
  shows "same_detector d' (fold do_action (actions_of g opn d) d)"
proof (cases opn)
  case (OLock t a)
  then show ?thesis using assms
    by (auto simp: clock_statements MutexLock_def probe_def MemoryRead1Byte_def check_def Let_def bind_eq_Some_conv split: if_splits intro!: same_detectorI)
next
  case (ODestroy t a)
  then show ?thesis using assms
    by (auto simp: MutexDestroy_def probe_def MemoryWrite1Byte_def Let_def split: option.splits if_splits intro!: same_detectorI)
qed (use assms in \<open>auto simp: clock_statements MutexCreate_def MutexUnlock_def MutexReadLock_def MutexReadUnlock_def MutexReadOrWriteUnlock_def
   probe_def Acquire_def Release_def ReleaseStore_op_def MemoryRead1Byte_def MemoryWrite1Byte_def check_def
   Let_def split: if_splits intro!: same_detectorI\<close>)

section \<open>The invariant\<close>

text \<open>The cell of shadow words of an address, and the words that describe an access of the run.\<close>

definition in_cell :: "u64 \<Rightarrow> u64 \<Rightarrow> bool" where
  "in_cell a p \<longleftrightarrow> (\<exists>k<kShadowCnt. p = mem_to_shadow a + 8 * of_nat k)"

definition describes :: "action list \<Rightarrow> u64 \<Rightarrow> u64 \<Rightarrow> nat \<Rightarrow> bool" where
  "describes acts p x i \<longleftrightarrow> (\<exists>u a l w. i < length acts \<and> acts ! i = Mem u a l w \<and> u < kMaxTid \<and> IsAppMem a \<and> unat l < 4 \<and> in_cell a p \<and>
    word_fields x u (epoch_at acts i) w (unat l) (unat a mod 8))"

text \<open>The addresses of an access, and two actions that race: conflicting accesses of different threads, not ordered.\<close>

fun accesses :: "action \<Rightarrow> nat \<Rightarrow> bool" where
  "accesses (Mem t a l w) x \<longleftrightarrow> unat a \<le> x \<and> x < unat a + 2 ^ unat l" | "accesses _ x \<longleftrightarrow> False"

fun writes :: "action \<Rightarrow> bool" where
  "writes (Mem t a l w) = w" | "writes _ = False"

definition data_race :: "action list \<Rightarrow> nat \<Rightarrow> nat \<Rightarrow> bool" where
  "data_race acts i j \<longleftrightarrow> i < j \<and> j < length acts \<and> thr (acts ! i) \<noteq> thr (acts ! j) \<and>
    (\<exists>x. accesses (acts ! i) x \<and> accesses (acts ! j) x) \<and> (writes (acts ! i) \<or> writes (acts ! j)) \<and>
    \<not> happens_before acts i j"

definition true_race :: "action list \<Rightarrow> race \<Rightarrow> bool" where
  "true_race acts r \<longleftrightarrow> (\<exists>i j. data_race acts i j \<and>
    tid_of (racy_old r) = of_nat (thr (acts ! i)) \<and> tid_of (racy_cur r) = of_nat (thr (acts ! j)))"

definition T_view :: "detector \<Rightarrow> nat \<Rightarrow> nat \<Rightarrow> nat" where "T_view d t u = unat (clk (clock (threads d t)) u)"
definition S_view :: "detector \<Rightarrow> sync_id \<Rightarrow> nat \<Rightarrow> nat" where "S_view d v u = unat (sync_at (clock_of v d) u)"

definition inv :: "action list \<Rightarrow> detector \<Rightarrow> bool" where
  "inv acts d \<longleftrightarrow> (\<forall>t. tid (threads d t) = t \<and> clock_ok (clock (threads d t))) \<and> (\<forall>v. vec_ok (clock_of v d)) \<and>
    (\<forall>t<kMaxTid. word_fields (fast_state (threads d t)) t (epoch_after acts t) False 0 0) \<and> exact acts (T_view d) (S_view d) \<and>
    (\<forall>p. shadow d p = 0 \<or> (\<exists>i. describes acts p (shadow d p) i)) \<and> (\<forall>r\<in>set (races d). true_race acts r)"

lemma inv_same: "inv acts d \<Longrightarrow> same_detector d' d \<Longrightarrow> inv acts d'"
  by (simp add: inv_def same_detector_def T_view_def [abs_def] S_view_def [abs_def])

text \<open>Longer runs.\<close>

lemma describes_snoc: "describes acts p x i \<Longrightarrow> describes (acts @ [a]) p x i"
  by (auto simp: describes_def nth_append epoch_at_snoc)

lemma true_race_snoc: "true_race acts r \<Longrightarrow> true_race (acts @ [a]) r"
  unfolding true_race_def data_race_def by (elim exE conjE) (rule exI, rule exI, auto simp: nth_append hb_snoc_less)

lemma invI:
  assumes "inv acts d" "\<forall>t. tid (threads d' t) = t \<and> clock_ok (clock (threads d' t))" "\<forall>v. vec_ok (clock_of v d')"
    "\<forall>t<kMaxTid. word_fields (fast_state (threads d' t)) t (epoch_after (acts @ [a]) t) False 0 0"
    "exact (acts @ [a]) (T_view d') (S_view d')" "shadow d' = shadow d" "races d' = races d"
  shows "inv (acts @ [a]) d'"
  using assms describes_snoc [of acts _ _ _ a] true_race_snoc [of acts _ a] unfolding inv_def by metis

lemma clock_of_upd [simp]: "clock_of v (upd_thread t f d) = clock_of v d" by (cases v) simp_all

lemma clock_of_put [simp]: "clock_of w (put_clock v c d) = (if w = v then c else clock_of w d)"
  by (cases v; cases w) simp_all

lemma put_clock_simps [simp]: "threads (put_clock v c d) = threads d" "shadow (put_clock v c d) = shadow d" "races (put_clock v c d) = races d"
  by (cases v; simp)+

lemma inv_facts:
  assumes "inv acts d"
  shows "tid (threads d t) = t" "clock_ok (clock (threads d t))" "vec_ok (clock_of v d)"
    "t < kMaxTid \<Longrightarrow> word_fields (fast_state (threads d t)) t (epoch_after acts t) False 0 0" "exact acts (T_view d) (S_view d)"
    "shadow d p = 0 \<or> (\<exists>i. describes acts p (shadow d p) i)" "r \<in> set (races d) \<Longrightarrow> true_race acts r"
    "t < kMaxTid \<Longrightarrow> unat (epoch_of (fast_state (threads d t))) = epoch_after acts t"
  using assms fields_decode(2) unfolding inv_def by blast+

text \<open>The thread sets its own entry.\<close>

lemma own_view:
  assumes "inv acts d" "t < kMaxTid"
  shows "T_view (set_own_clock t d) = (T_view d)(t := own acts t (T_view d t))" "S_view (set_own_clock t d) = S_view d"
    "clock_ok (clock (threads (set_own_clock t d) u))" "tid (threads (set_own_clock t d) u) = u"
    "fast_state (threads (set_own_clock t d) u) = fast_state (threads d u)"
  using inv_facts(1,2) [OF assms(1)] inv_facts(8) [OF assms] set_at
  by (auto simp: T_view_def S_view_def set_own_clock_def own_def fun_eq_iff)

lemma epoch_after_same: "\<not> steps_epoch a \<Longrightarrow> epoch_after (acts @ [a]) t = epoch_after acts t"
  by (simp add: epoch_after_snoc)

lemma inv_Own: "inv acts d \<Longrightarrow> t < kMaxTid \<Longrightarrow> inv (acts @ [Own t]) (set_own_clock t d)"
proof (rule invI, assumption)
  assume i: "inv acts d" "t < kMaxTid"
  show "exact (acts @ [Own t]) (T_view (set_own_clock t d)) (S_view (set_own_clock t d))"
    unfolding own_view(1,2) [OF i] by (rule exact_own_clock [OF inv_facts(5) [OF i(1)]])
  show "\<forall>v. vec_ok (clock_of v (set_own_clock t d))" using inv_facts(3) [OF i(1)] by (simp add: set_own_clock_def)
qed (use own_view inv_facts(4) in \<open>simp_all add: epoch_after_same, simp_all add: set_own_clock_def\<close>)

lemma inv_Acq: "inv acts d \<Longrightarrow> t < kMaxTid \<Longrightarrow> inv (acts @ [Acq t v]) (acquire_clock t (clock_of v d) d)"
proof (rule invI, assumption)
  assume i: "inv acts d" "t < kMaxTid"
  note a = acquire_at [OF inv_facts(3,2) [OF i(1)]]
  have "T_view (acquire_clock t (clock_of v d) d) = (T_view d)(t := \<lambda>u. max (T_view d t u) (S_view d v u))"
    by (auto simp: fun_eq_iff T_view_def S_view_def acquire_clock_def a max_def word_le_nat_alt)
  moreover have "S_view (acquire_clock t (clock_of v d) d) = S_view d" by (simp add: S_view_def [abs_def] acquire_clock_def)
  ultimately show "exact (acts @ [Acq t v]) (T_view (acquire_clock t (clock_of v d) d)) (S_view (acquire_clock t (clock_of v d) d))"
    using exact_acq [OF inv_facts(5) [OF i(1)]] by simp
  show "\<forall>u. tid (threads (acquire_clock t (clock_of v d) d) u) = u \<and> clock_ok (clock (threads (acquire_clock t (clock_of v d) d) u))"
    using a(1) inv_facts(1,2) [OF i(1)] by (simp add: acquire_clock_def)
qed (use inv_facts(3,4) in \<open>simp_all add: epoch_after_same acquire_clock_def\<close>)

lemma max_unat: "unat (max a b) = max (unat a) (unat (b :: u64))"
  by (simp add: max_def word_le_nat_alt)

lemma put_view: "S_view (put_clock v c d) = (S_view d)(v := \<lambda>u. unat (sync_at c u))" "T_view (put_clock v c d) = T_view d"
  by (auto simp: S_view_def T_view_def fun_eq_iff)

lemma inv_release:
  assumes i: "inv acts d" and t: "t < kMaxTid" and a: "a = Rel t v \<or> a = Sto t v"
  shows "inv (acts @ [a]) (do_action a d)"
proof -
  let ?o = "set_own_clock t d"
  have c: "clock_ok (clock (threads ?o t))" by (rule own_view(3) [OF i t])
  have w: "vec_ok (clock_of v ?o)" using inv_facts(3) [OF i] by (simp add: set_own_clock_def)
  note r = release_at [OF w c] store_at [OF w c]
  have k: "unat (clk (clock (threads ?o t)) u) = own acts t (T_view d t) u" for u
    using own_view(1) [OF i t] by (simp add: T_view_def [symmetric])
  have s: "unat (sync_at (clock_of v ?o) u) = S_view d v u" for u using own_view(2) [OF i t] by (simp add: S_view_def [symmetric])
  have e: "exact (acts @ [a]) (T_view (do_action a d)) (S_view (do_action a d))"
    using a exact_rel [OF inv_facts(5) [OF i], of t v] exact_sto [OF inv_facts(5) [OF i], of t v]
    by (auto simp: Let_def put_view own_view(1,2) [OF i t] r max_unat k s)
  have se: "\<not> steps_epoch a" using a by auto
  show ?thesis
  proof (rule invI [OF i])
    show "\<forall>w. vec_ok (clock_of w (do_action a d))" using a r inv_facts(3) [OF i] by (auto simp: Let_def set_own_clock_def)
    show "\<forall>u. tid (threads (do_action a d) u) = u \<and> clock_ok (clock (threads (do_action a d) u))" using a own_view(3,4) [OF i t] by (auto simp: Let_def)
    show "\<forall>u<kMaxTid. word_fields (fast_state (threads (do_action a d) u)) u (epoch_after (acts @ [a]) u) False 0 0"
      using a own_view(5) [OF i t] inv_facts(4) [OF i] by (auto simp: Let_def epoch_after_same)
    show "shadow (do_action a d) = shadow d" "races (do_action a d) = races d" using a by (auto simp: Let_def set_own_clock_def)
  qed (rule e)
qed

lemma inv_Del: "inv acts d \<Longrightarrow> inv (acts @ [Del t a]) (do_action (Del t a) d)"
proof (rule invI, assumption)
  assume i: "inv acts d"
  define d' where "d' = do_action (Del t a) d"
  have c: "clock_of v d' = (if v = SyncClk a \<or> v = ReadClk a then new_SyncClock else clock_of v d)" for v
    by (cases v) (auto simp: sync_var_def new_SyncVar_def d'_def)
  have z: "vec_ok new_SyncClock" "sync_at new_SyncClock u = 0" for u by (simp_all add: new_SyncClock_def Vector_def vec_ok_def sync_at_def)
  show "\<forall>v. vec_ok (clock_of v (do_action (Del t a) d))" unfolding d'_def [symmetric] c using z inv_facts(3) [OF i] by simp
  have "S_view d' = (S_view d)(SyncClk a := \<lambda>_. 0, ReadClk a := \<lambda>_. 0)" unfolding S_view_def [abs_def] c by (auto simp: fun_eq_iff z)
  moreover have "T_view d' = T_view d" by (simp add: T_view_def [abs_def] d'_def)
  ultimately show "exact (acts @ [Del t a]) (T_view (do_action (Del t a) d)) (S_view (do_action (Del t a) d))"
    using exact_del [OF inv_facts(5) [OF i], of t a] by (simp only: d'_def)
qed (use inv_facts(1,2,4) in \<open>simp_all add: epoch_after_same\<close>)

text \<open>The epoch of a thread goes on.\<close>

lemma epoch_bound: "epoch_after acts t \<le> length acts + 1" by (simp add: epoch_after_def)

lemma inv_Synch: "inv acts d \<Longrightarrow> inv (acts @ [Synch t]) (start_synch_epoch t d)"
proof (rule invI, assumption)
  assume i: "inv acts d"
  have "T_view (start_synch_epoch t d) = T_view d" "S_view (start_synch_epoch t d) = S_view d"
    by (auto simp: fun_eq_iff T_view_def S_view_def start_synch_epoch_def)
  then show "exact (acts @ [Synch t]) (T_view (start_synch_epoch t d)) (S_view (start_synch_epoch t d))"
    using exact_other [OF inv_facts(5) [OF i], of "Synch t"] by simp
qed (use inv_facts(1-4) in \<open>auto simp: epoch_after_same start_synch_epoch_def\<close>)

lemma step_fields:
  assumes i: "inv acts d" and l: "length acts + 3 < 2 ^ 43" and a: "steps_epoch a" and t: "u < kMaxTid"
    and fs: "thr a = u \<Longrightarrow> fs = IncrementEpoch (fast_state (threads d u))" "thr a \<noteq> u \<Longrightarrow> fs = fast_state (threads d u)"
  shows "word_fields fs u (epoch_after (acts @ [a]) u) False 0 0"
  using inv_facts(4) [OF i t] IncrementEpoch_fields epoch_bound [of acts u] l a fs by (cases "thr a = u") (simp_all add: epoch_after_snoc)

lemma inv_Inc: "inv acts d \<Longrightarrow> length acts + 3 < 2 ^ 43 \<Longrightarrow> inv (acts @ [Inc t]) (increment_epoch t d)"
proof (rule invI, assumption)
  assume i: "inv acts d" and l: "length acts + 3 < 2 ^ 43"
  have "T_view (increment_epoch t d) = T_view d" "S_view (increment_epoch t d) = S_view d"
    by (auto simp: fun_eq_iff T_view_def S_view_def increment_epoch_def)
  then show "exact (acts @ [Inc t]) (T_view (increment_epoch t d)) (S_view (increment_epoch t d))"
    using exact_other [OF inv_facts(5) [OF i], of "Inc t"] by simp
  show "\<forall>u<kMaxTid. word_fields (fast_state (threads (increment_epoch t d) u)) u (epoch_after (acts @ [Inc t]) u) False 0 0"
    using step_fields [OF i l, of "Inc t"] by (auto simp: increment_epoch_def)
qed (use inv_facts(1-3) in \<open>auto simp: increment_epoch_def\<close>)

end
