(* ===== verification/Tsan_Mem.thy ===== *)
theory Tsan_Mem
  imports Tsan_Sound
begin

unbundle bit_operations_syntax

text \<open>Memory accesses keep the invariant: the slots of a cell, one by one, and the race that the loop reports.\<close>

section \<open>Cells\<close>

lemma app_mem: "IsAppMem a \<longleftrightarrow> 0x7cf000000000 \<le> unat a \<and> unat a \<le> 0x7fffffffffff"
  by (simp add: IsAppMem_def kLinuxAppMemBeg_def kLinuxAppMemEnd_def word_le_nat_alt)

lemma unat_mem_to_shadow:
  assumes "IsAppMem a"
  shows "unat (mem_to_shadow a) = 64 * (unat a mod 2 ^ 42 div 8)"
proof -
  have b: "unat a < 2 ^ 47" using assms by (simp add: app_mem)
  have "a AND NOT (kLinuxAppMemMsk OR (kShadowCell - 1)) = push_bit 3 (drop_bit 3 (take_bit 42 a))"
  proof (rule bit_word_eqI)
    fix i assume i: "i < LENGTH(64)"
    have hi: "47 \<le> i \<Longrightarrow> \<not> bit a i"
    proof
      assume "47 \<le> i" "bit a i"
      then have "2 ^ i \<le> unat a" by (intro bit_imp_unat_ge)
      moreover have "(2 :: nat) ^ 47 \<le> 2 ^ i" using \<open>47 \<le> i\<close> by (intro power_increasing) simp_all
      ultimately show False using b by linarith
    qed
    have msk: "kLinuxAppMemMsk OR (kShadowCell - 1) = push_bit 42 (mask 5) OR mask 3"
      by (simp add: kLinuxAppMemMsk_def kShadowCell_def mask_eq_exp_minus_1)
    show "bit (a AND NOT (kLinuxAppMemMsk OR (kShadowCell - 1))) i = bit (push_bit 3 (drop_bit 3 (take_bit 42 a))) i"
      unfolding msk using i hi
      by (cases "47 \<le> i") (auto simp: bit_and_iff bit_not_iff bit_or_iff bit_push_bit_iff bit_mask_iff bit_drop_bit_eq bit_take_bit_iff)
  qed
  moreover have "unat (drop_bit 3 (take_bit 42 a)) = unat a mod 2 ^ 42 div 8"
    by (simp add: unat_drop_bit unsigned_take_bit_eq) (simp add: take_bit_eq_mod)
  moreover have "unat a mod 2 ^ 42 div 8 < 2 ^ 42" using le_less_trans [OF div_le_dividend] by simp
  ultimately have "unat (a AND NOT (kLinuxAppMemMsk OR (kShadowCell - 1))) = 8 * (unat a mod 2 ^ 42 div 8)"
    by (simp add: unat_push_below)
  then show ?thesis
    unfolding mem_to_shadow_def kShadowCnt_def using \<open>unat a mod 2 ^ 42 div 8 < 2 ^ 42\<close> by (subst unat_mult_below) simp_all
qed

lemma cell_eq:
  assumes "IsAppMem a" "IsAppMem b" "in_cell a p" "in_cell b p"
  shows "unat a div 8 = unat b div 8"
proof -
  have u: "unat p div 64 = unat c mod 2 ^ 42 div 8" if c: "IsAppMem c" "in_cell c p" for c
  proof -
    obtain k where k: "k < 8" "p = mem_to_shadow c + 8 * of_nat k" using c(2) by (auto simp: in_cell_def kShadowCnt_def)
    have "unat c mod 2 ^ 42 div 8 < 2 ^ 42" using le_less_trans [OF div_le_dividend] by simp
    moreover have "unat (8 * of_nat k :: u64) = 8 * k" using k(1) by (simp add: unat_mult_below unsigned_of_nat take_bit_nat_eq_self)
    ultimately have "unat p = 64 * (unat c mod 2 ^ 42 div 8) + 8 * k"
      unfolding k(2) using unat_mem_to_shadow [OF c(1)] k(1) by (subst unat_add_below) simp_all
    then show ?thesis using k(1) by simp
  qed
  have top: "unat c = 31 * 2 ^ 42 + unat c mod 2 ^ 42" if "IsAppMem c" for c
  proof -
    have "unat c div 2 ^ 42 = 31" using that by (auto simp: app_mem intro: div_nat_eqI)
    then show ?thesis by (metis div_mult_mod_eq)
  qed
  have "unat c div 8 = 31 * 2 ^ 39 + unat c mod 2 ^ 42 div 8" if "IsAppMem c" for c
    using top [OF that] by (subst top [OF that]) (simp add: div_add1_eq)
  then show ?thesis using u assms by metis
qed

lemma in_cell_slot: "in_cell a (mem_to_shadow a + 8 * of_nat (n mod kShadowCnt))"
  by (auto simp: in_cell_def kShadowCnt_def intro!: exI [of _ "n mod 8"])

section \<open>One slot\<close>

text \<open>When the loop reports the word of a slot: it is of another thread, not known to have happened before, one of the two writes, and
  they share a byte.\<close>

definition conflicts :: "thread_state \<Rightarrow> bool \<Rightarrow> u64 \<Rightarrow> u64 \<Rightarrow> bool" where
  "conflicts t w cur old \<longleftrightarrow> old \<noteq> 0 \<and> tid_of old \<noteq> tid_of cur \<and> \<not> HappensBefore old t \<and> (w \<or> is_write old) \<and>
    (\<exists>b. touches old b \<and> touches cur b)"

lemma conflicts_code [code]:
  "conflicts t w cur old \<longleftrightarrow> old \<noteq> 0 \<and> tid_of old \<noteq> tid_of cur \<and> \<not> HappensBefore old t \<and> (w \<or> is_write old) \<and>
    TwoRangesIntersectSLOW old cur"
proof -
  have "unat (ucast (size_of cur) :: unsigned) = unat (size_of cur)"
    using small_fields(2) [of cur] by (simp add: unsigned_ucast_eq take_bit_nat_eq_self)
  from TwoRangesIntersect_iff(2) [OF this] show ?thesis by (simp add: conflicts_def)
qed

text \<open>When it stops at a slot, as the same or a stronger access of the thread since its last synchronization is already there.\<close>

definition same_access :: "thread_state \<Rightarrow> bool \<Rightarrow> u64 \<Rightarrow> u64 \<Rightarrow> bool" where
  "same_access t w cur old \<longleftrightarrow> old \<noteq> 0 \<and> Addr0AndSizeAreEqual cur old \<and> tid_of old = tid_of cur \<and>
    OldIsInSameSynchEpoch old t \<and> OldIsRWStronger old w"

definition slot_address :: "u64 \<Rightarrow> u64 \<Rightarrow> nat \<Rightarrow> u64" where
  "slot_address shadow_mem cur idx = shadow_mem + 8 * of_nat ((idx + unat (ComputeSearchOffset cur)) mod kShadowCnt)"

lemma same_bytes: "Addr0AndSizeAreEqual x y \<Longrightarrow> touches y b \<longleftrightarrow> touches x b"
  by (simp add: Addr0AndSizeAreEqual_iff touches_def size_of_def)

lemma touches_first: "touches x (unat (addr0_of x))"
  using small_fields(3) [of x] by (simp add: touches_def)

lemma slot_outcome:
  assumes cur: "word_fields cur u e w (unat l) a0"
  shows "fst (update_shadow_word t l w cur base idx st) =
    (let old = fst st (slot_address base cur idx) in
     if same_access t w cur old then Same else if conflicts t w cur old then Race old else Next)"
proof -
  have "unat l < 4" using cur by (simp add: word_fields_def)
  then have "2 ^ unat l < (2 :: nat) ^ 32" by (intro power_strict_increasing) simp_all
  then have s: "unat (push_bit (unat l) 1 :: unsigned) = unat (size_of cur)"
    using fields_decode(6) [OF cur] by (subst unat_push_below) simp_all
  have ex: "Ex (touches cur)" by (rule exI, rule touches_first)
  show ?thesis
    using TwoRangesIntersect_iff(1) [OF s] same_bytes ex
    by (auto simp: update_shadow_word_def slot_address_def Let_def IsZero_def TidsAreEqual_iff same_access_def conflicts_def BothReads_def)
qed

lemma slot_state:
  "snd (update_shadow_word t l w cur base idx st) \<in>
    {st, ((fst st)(slot_address base cur idx := snd st), 0)}"
  by (cases st) (auto simp: update_shadow_word_def slot_address_def Let_def StoreIfNotYetStored_def)

section \<open>The loop\<close>

text \<open>The loop reports the first slot that decides.\<close>

primrec first_decisive :: "thread_state \<Rightarrow> bool \<Rightarrow> u64 \<Rightarrow> u64 list \<Rightarrow> slot_outcome" where
  "first_decisive t w cur [] = Next"
| "first_decisive t w cur (old # olds) =
    (if same_access t w cur old then Same else if conflicts t w cur old then Race old else first_decisive t w cur olds)"

lemma slot_address_inj:
  assumes "i < kShadowCnt" "j < kShadowCnt" "slot_address base cur i = slot_address base cur j"
  shows "i = j"
proof -
  define o' where "o' = unat (ComputeSearchOffset cur)"
  have m: "unat (8 * of_nat ((k + o') mod 8) :: u64) = 8 * ((k + o') mod 8)" for k
  proof -
    have "(k + o') mod 8 < 8" by simp
    then show ?thesis by (simp add: unat_mult_below unsigned_of_nat take_bit_nat_eq_self)
  qed
  have "(i + o') mod 8 = (j + o') mod 8"
    using assms(3) m [of i] m [of j] by (simp add: slot_address_def kShadowCnt_def o'_def)
  then have "8 dvd (i + o') - (j + o')" "8 dvd (j + o') - (i + o')"
    by (metis diff_is_0_eq dvd_0_right mod_eq_dvd_iff_nat nat_le_linear)+
  then have "8 dvd i - j" "8 dvd j - i" by simp_all
  then have "i - j = 0 \<and> j - i = 0" using assms(1,2) unfolding kShadowCnt_def by (auto dest: dvd_imp_le)
  then show ?thesis by simp
qed

lemma scan_outcome:
  assumes cur: "word_fields cur u e w (unat l) a0" and "distinct idxs" "set idxs \<subseteq> {..<kShadowCnt}"
  shows "fst (scan_slots t l w cur base idxs st) = first_decisive t w cur (map (\<lambda>i. fst st (slot_address base cur i)) idxs)"
  using assms(2,3)
proof (induction idxs arbitrary: st)
  case (Cons i idxs)
  obtain r m sw where u: "update_shadow_word t l w cur base i st = (r, m, sw)" by (metis prod_cases3)
  have "m = fst st \<or> m = (fst st)(slot_address base cur i := snd st)" using slot_state [of t l w cur base i st] u by auto
  then have keep: "map (\<lambda>k. m (slot_address base cur k)) idxs = map (\<lambda>k. fst st (slot_address base cur k)) idxs"
    using Cons.prems slot_address_inj [of i _ base cur] by fastforce
  have r: "r = (let old = fst st (slot_address base cur i) in if same_access t w cur old then Same else if conflicts t w cur old then Race old else Next)"
    using slot_outcome [OF cur, of t base i st] u by simp
  have "fst (scan_slots t l w cur base idxs (m, sw)) = first_decisive t w cur (map (\<lambda>k. fst st (slot_address base cur k)) idxs)"
    unfolding keep [symmetric] using Cons.IH [of "(m, sw)"] Cons.prems by simp
  then show ?case using u r by (simp add: Let_def)
qed simp

lemma first_decisive_race: "first_decisive t w cur olds = Race old \<Longrightarrow> old \<in> set olds \<and> conflicts t w cur old"
  by (induction olds) (auto split: if_splits)

text \<open>The loop writes the word of the access, or zero.\<close>

lemma scan_state:
  assumes "snd st = cur \<or> snd st = 0" "snd (scan_slots t l w cur base idxs st) = (m, sw)"
  shows "(sw = cur \<or> sw = 0) \<and> (\<forall>p. m p = fst st p \<or> m p = 0 \<or> m p = cur \<and> (\<exists>i. p = slot_address base cur i))"
  using assms
proof (induction idxs arbitrary: st)
  case (Cons i idxs)
  obtain r m1 s1 where u: "update_shadow_word t l w cur base i st = (r, m1, s1)" by (metis prod_cases3)
  have st1: "(m1, s1) = st \<or> (m1, s1) = ((fst st)(slot_address base cur i := snd st), 0)" using slot_state [of t l w cur base i st] u by auto
  then have m1: "m1 p = fst st p \<or> m1 p = 0 \<or> m1 p = cur \<and> (\<exists>i. p = slot_address base cur i)" and s1: "s1 = cur \<or> s1 = 0" for p
    using Cons.prems(1) by (auto split: if_splits)
  show ?case
  proof (cases "r = Next")
    case True
    then have "(sw = cur \<or> sw = 0) \<and> (\<forall>p. m p = m1 p \<or> m p = 0 \<or> m p = cur \<and> (\<exists>i. p = slot_address base cur i))"
      using Cons.IH [of "(m1, s1)"] s1 Cons.prems(2) u by simp
    then show ?thesis using m1 by metis
  next
    case False
    then show ?thesis using Cons.prems(2) u m1 s1 by simp
  qed
qed simp

text \<open>\<^verbatim>\<open>MemoryAccessImpl\<close> reports a race with the first slot that decides, if that conflicts.\<close>

lemma access_race:
  assumes cur: "word_fields cur u e w (unat l) a0"
  shows "snd (MemoryAccessImpl t l w base cur m) =
    (case first_decisive t w cur (map (\<lambda>i. m (slot_address base cur i)) [0..<kShadowCnt]) of
       Race old \<Rightarrow> Some \<lparr> racy_cur = cur, racy_old = old, racy_shadow_addr = base \<rparr> | _ \<Rightarrow> None)"
proof -
  have "fst (scan_slots t l w cur base [0..<kShadowCnt] (m, cur)) = first_decisive t w cur (map (\<lambda>i. m (slot_address base cur i)) [0..<kShadowCnt])"
    using scan_outcome [OF cur, of "[0..<kShadowCnt]" t base "(m, cur)"] by (simp add: lessThan_atLeast0)
  then show ?thesis
    by (auto simp: MemoryAccessImpl_def Let_def split: prod.split slot_outcome.split)
qed

lemma access_memory:
  assumes "mem_to_shadow a = base"
  shows "fst (MemoryAccessImpl t l w base cur m) p = m p \<or> fst (MemoryAccessImpl t l w base cur m) p = 0 \<or>
    fst (MemoryAccessImpl t l w base cur m) p = cur \<and> in_cell a p"
proof -
  obtain r m1 s1 where u: "scan_slots t l w cur base [0..<kShadowCnt] (m, cur) = (r, m1, s1)" by (metis prod_cases3)
  have sc: "s1 = cur \<or> s1 = 0" "m1 p = m p \<or> m1 p = 0 \<or> m1 p = cur \<and> (\<exists>i. p = slot_address base cur i)"
    using scan_state [of "(m, cur)" cur t l w base "[0..<kShadowCnt]" m1 s1] u by auto
  have "in_cell a (slot_address base cur i)" for i unfolding slot_address_def assms [symmetric] by (rule in_cell_slot)
  then have m1: "m1 p = m p \<or> m1 p = 0 \<or> m1 p = cur \<and> in_cell a p" using sc(2) by metis
  define n where "n = unat (epoch_of cur mod 8)"
  have "n < 8" unfolding n_def using unat_mod_distrib [of "epoch_of cur" 8] by simp
  then have "in_cell a (base + 8 * of_nat n)" unfolding in_cell_def kShadowCnt_def assms by blast
  moreover have "of_nat n = epoch_of cur mod of_nat kShadowCnt" by (simp add: n_def kShadowCnt_def)
  ultimately have "in_cell a (base + 8 * (epoch_of cur mod of_nat kShadowCnt))" by simp
  then show ?thesis using u sc(1) m1 by (auto simp: MemoryAccessImpl_def Let_def split: slot_outcome.split)
qed

section \<open>Accesses keep the invariant\<close>

lemma not_ignored: "word_fields x t e False 0 0 \<Longrightarrow> \<not> GetIgnoreBit x"
proof -
  assume "word_fields x t e False 0 0"
  then have "even (unat x)" by (simp add: word_fields_def)
  then have "\<not> bit x 0" using bit_unsigned_iff [where ?'a = nat, of x 0] by (simp add: bit_0)
  then show ?thesis using and_exp_eq_0_iff_not_bit [of x 0] by (simp add: GetIgnoreBit_def layout_defs)
qed

lemma conflict_race:
  assumes i: "inv acts d" and t: "t < kMaxTid" and a: "IsAppMem a" and l: "unat l < 4"
    and cur: "word_fields cur t (epoch_after (acts @ [Mem t a l w]) t) w (unat l) (unat a mod 8)"
    and p: "in_cell a p" "old = shadow d p" and c: "conflicts thr' w cur old" "clock thr' = clock (threads d t)"
  shows "true_race (acts @ [Mem t a l w]) \<lparr> racy_cur = cur, racy_old = old, racy_shadow_addr = base \<rparr>"
proof -
  let ?acts = "acts @ [Mem t a l w]" and ?n = "length acts"
  obtain k u b l' w' where k: "k < ?n" "acts ! k = Mem u b l' w'" "u < kMaxTid" "IsAppMem b" "unat l' < 4" "in_cell b p"
      "word_fields old u (epoch_at acts k) w' (unat l') (unat b mod 8)"
    using inv_facts(6) [OF i, of p] p(2) c(1) by (auto simp: describes_def conflicts_def)
  note f = fields_decode [OF k(7)] fields_decode [OF cur]
  have ut: "u \<noteq> t" using c(1) f(1,7) by (auto simp: conflicts_def word_unat_eq_iff)
  have "\<not> epoch_at acts k \<le> T_view d t u"
    using c f(1,2) by (simp add: conflicts_def HappensBefore_def get_def T_view_def word_le_nat_alt)
  then have "\<not> known acts t k" using exactD(3) [OF inv_facts(5) [OF i] k(1), of t] k(2) ut by auto
  then have nhb: "\<not> happens_before ?acts k ?n" using hb_last [OF k(1), of "Mem t a l w"] by simp
  obtain x where x: "touches old x" "touches cur x" using c(1) by (auto simp: conflicts_def)
  have "unat b div 8 = unat a div 8" by (rule cell_eq [OF k(4) a k(6) p(1)])
  moreover have "unat b = 8 * (unat b div 8) + unat b mod 8" "unat a = 8 * (unat a div 8) + unat a mod 8" by simp_all
  ultimately have "accesses (Mem u b l' w') (8 * (unat a div 8) + x)" "accesses (Mem t a l w) (8 * (unat a div 8) + x)"
    using x unfolding touches_def f accesses.simps by linarith+
  then have "data_race ?acts k ?n"
    unfolding data_race_def using k(1,2) ut nhb c(1) f(3) by (auto simp: nth_append conflicts_def)
  moreover have "tid_of old = of_nat (unat (tid_of old))" "tid_of cur = of_nat (unat (tid_of cur))" by simp_all
  then have "tid_of old = of_nat (thr (?acts ! k))" "tid_of cur = of_nat (thr (?acts ! ?n))"
    unfolding f(1) f(7) using k(1,2) by (simp_all add: nth_append)
  ultimately show ?thesis unfolding true_race_def by (intro exI [of _ k] exI [of _ ?n]) simp
qed

lemma clock_of_access: "clock_of v (MemoryAccess t a l w d) = clock_of v d"
  by (cases v) simp_all

text \<open>The state after an access, in terms of the shadow of the access.\<close>

lemma access_step:
  assumes i: "inv acts d" and t: "t < kMaxTid" and a: "unat l < 4" and b: "length acts + 3 < 2 ^ 43"
  obtains thr' cur where "threads (MemoryAccess t a l w d) = (threads d)(t := thr')" "clock thr' = clock (threads d t)" "tid thr' = t"
    "\<And>u. u < kMaxTid \<Longrightarrow> word_fields (fast_state (threads (MemoryAccess t a l w d) u)) u (epoch_after (acts @ [Mem t a l w]) u) False 0 0"
    "word_fields cur t (epoch_after (acts @ [Mem t a l w]) t) w (unat l) (unat a mod 8)"
    "shadow (MemoryAccess t a l w d) = fst (MemoryAccessImpl thr' l w (mem_to_shadow a) cur (shadow d))"
    "races (MemoryAccess t a l w d) = races d @
      (case snd (MemoryAccessImpl thr' l w (mem_to_shadow a) cur (shadow d)) of None \<Rightarrow> [] | Some r \<Rightarrow> [r])"
proof -
  let ?acts = "acts @ [Mem t a l w]" and ?d = "MemoryAccess t a l w d"
  define fs where "fs = IncrementEpoch (fast_state (threads d t))"
  define thr' where "thr' = (threads d t)\<lparr>fast_state := fs\<rparr>"
  define cur where "cur = SetWrite (SetAddr0AndSizeLog fs (a AND 7) l) w"
  define res where "res = MemoryAccessImpl thr' l w (mem_to_shadow a) cur (shadow d)"
  have ep: "word_fields (if u = t then fs else fast_state (threads d u)) u (epoch_after ?acts u) False 0 0" if "u < kMaxTid" for u
    using step_fields [OF i b, of "Mem t a l w" u] that by (auto simp: fs_def)
  have "unat (a AND 7) = unat a mod 8" using unat_addr0 [of a] by (simp add: addr0_of_def)
  then have cur: "word_fields cur t (epoch_after ?acts t) w (unat l) (unat a mod 8)"
    using access_fields [OF _ _ a, of fs t "epoch_after ?acts t" "a AND 7" w] ep [OF t] by (simp add: cur_def)
  have "?d = (upd_thread t (\<lambda>thr. thr\<lparr>fast_state := fs\<rparr>) d)\<lparr>shadow := fst res, races := races d @ (case snd res of None \<Rightarrow> [] | Some r \<Rightarrow> [r])\<rparr>"
    using not_ignored [OF inv_facts(4) [OF i t]]
    by (simp add: MemoryAccess_def Let_def fs_def cur_def res_def thr'_def split: prod.split)
  then have d: "threads ?d = (threads d)(t := thr')" "shadow ?d = fst res" "races ?d = races d @ (case snd res of None \<Rightarrow> [] | Some r \<Rightarrow> [r])"
    by (simp_all add: thr'_def upd_thread_def)
  have "word_fields (fast_state (threads ?d u)) u (epoch_after ?acts u) False 0 0" if "u < kMaxTid" for u
    using ep [OF that] d(1) by (simp add: thr'_def split: if_splits)
  then show ?thesis using that [of thr' cur] d cur inv_facts(1) [OF i] by (simp add: thr'_def res_def)
qed

lemma inv_Mem:
  assumes i: "inv acts d" and t: "t < kMaxTid" and a: "IsAppMem a" "unat l < 4" and b: "length acts + 3 < 2 ^ 43"
  shows "inv (acts @ [Mem t a l w]) (MemoryAccess t a l w d)"
proof -
  let ?acts = "acts @ [Mem t a l w]" and ?d = "MemoryAccess t a l w d"
  obtain thr' cur where d: "threads ?d = (threads d)(t := thr')" "clock thr' = clock (threads d t)" "tid thr' = t"
      "\<And>u. u < kMaxTid \<Longrightarrow> word_fields (fast_state (threads ?d u)) u (epoch_after ?acts u) False 0 0"
      "word_fields cur t (epoch_after ?acts t) w (unat l) (unat a mod 8)"
      "shadow ?d = fst (MemoryAccessImpl thr' l w (mem_to_shadow a) cur (shadow d))"
      "races ?d = races d @ (case snd (MemoryAccessImpl thr' l w (mem_to_shadow a) cur (shadow d)) of None \<Rightarrow> [] | Some r \<Rightarrow> [r])"
    using access_step [OF i t a(2) b] by metis
  have ck: "clock (threads ?d u) = clock (threads d u)" "tid (threads ?d u) = u" for u using d(1-3) inv_facts(1) [OF i] by simp_all
  have races: "true_race ?acts r" if "r \<in> set (races ?d)" for r
  proof (cases "r \<in> set (races d)")
    case True
    then show ?thesis using inv_facts(7) [OF i] true_race_snoc by blast
  next
    case False
    then have "snd (MemoryAccessImpl thr' l w (mem_to_shadow a) cur (shadow d)) = Some r" using that d(7) by (auto split: option.splits)
    then obtain old where old: "first_decisive thr' w cur (map (\<lambda>i. shadow d (slot_address (mem_to_shadow a) cur i)) [0..<kShadowCnt]) = Race old"
        "r = \<lparr> racy_cur = cur, racy_old = old, racy_shadow_addr = mem_to_shadow a \<rparr>"
      unfolding access_race [OF d(5)] by (auto split: slot_outcome.splits)
    then obtain k where "old = shadow d (slot_address (mem_to_shadow a) cur k)" "conflicts thr' w cur old"
      using first_decisive_race [OF old(1)] by auto
    moreover have "in_cell a (slot_address (mem_to_shadow a) cur k)" unfolding slot_address_def by (rule in_cell_slot)
    ultimately show ?thesis using conflict_race [OF i t a d(5)] old(2) d(2) by simp
  qed
  have shadow: "shadow ?d p = 0 \<or> (\<exists>k. describes ?acts p (shadow ?d p) k)" for p
  proof -
    have "in_cell a p \<Longrightarrow> describes ?acts p cur (length acts)"
      using d(5) t a by (auto simp: describes_def nth_append epoch_at_snoc)
    then show ?thesis
      using access_memory [of a "mem_to_shadow a" thr' l w cur "shadow d" p] inv_facts(6) [OF i, of p] describes_snoc
      unfolding d(6) by metis
  qed
  have "T_view ?d = T_view d" "S_view ?d = S_view d" by (auto simp: fun_eq_iff T_view_def S_view_def ck clock_of_access)
  then have "exact ?acts (T_view ?d) (S_view ?d)" using exact_other [OF inv_facts(5) [OF i], of "Mem t a l w"] by simp
  then show ?thesis unfolding inv_def using ck inv_facts(2,3) [OF i] races shadow d(4) by (simp add: clock_of_access)
qed

section \<open>Runs of operations\<close>

fun valid_action :: "action \<Rightarrow> bool" where
  "valid_action (Mem t a l w) \<longleftrightarrow> t < kMaxTid \<and> IsAppMem a \<and> unat l < 4" | "valid_action a \<longleftrightarrow> thr a < kMaxTid"

lemma inv_action:
  assumes "inv acts d" "valid_action a" "length acts + 3 < 2 ^ 43"
  shows "inv (acts @ [a]) (do_action a d)"
proof (cases a)
  case (Inc t)
  then show ?thesis using inv_Inc [OF assms(1,3)] by simp
next
  case (Synch t)
  then show ?thesis using inv_Synch [OF assms(1)] by simp
next
  case (Own t)
  then show ?thesis using inv_Own [OF assms(1)] assms(2) by simp
next
  case (Mem t b l w)
  then show ?thesis using inv_Mem [OF assms(1) _ _ _ assms(3)] assms(2) by simp
next
  case (Acq t v)
  then show ?thesis using inv_Acq [OF assms(1)] assms(2) by simp
next
  case (Rel t v)
  then have "t < kMaxTid" "a = Rel t v \<or> a = Sto t v" using assms(2) by simp_all
  then show ?thesis by (rule inv_release [OF assms(1)])
next
  case (Sto t v)
  then have "t < kMaxTid" "a = Rel t v \<or> a = Sto t v" using assms(2) by simp_all
  then show ?thesis by (rule inv_release [OF assms(1)])
next
  case (Del t v)
  then show ?thesis using inv_Del [OF assms(1)] by simp
qed

lemma inv_actions:
  "inv acts d \<Longrightarrow> list_all valid_action bs \<Longrightarrow> length acts + length bs + 3 < 2 ^ 43 \<Longrightarrow> inv (acts @ bs) (fold do_action bs d)"
proof (induction bs arbitrary: acts d)
  case (Cons b bs)
  then have "inv (acts @ [b]) (do_action b d)" by (intro inv_action) simp_all
  then show ?case using Cons.IH [of "acts @ [b]" "do_action b d"] Cons.prems(2,3) by simp
qed simp

fun valid_operation :: "operation \<Rightarrow> bool" where
  "valid_operation (OAccess t a l w) \<longleftrightarrow> t < kMaxTid \<and> IsAppMem a \<and> unat l < 4"
| "valid_operation (OCreate t a rw rec li) \<longleftrightarrow> t < kMaxTid"
| "valid_operation (ODestroy t a) \<longleftrightarrow> t < kMaxTid"
| "valid_operation (OLock t a) \<longleftrightarrow> t < kMaxTid"
| "valid_operation (OUnlock t a) \<longleftrightarrow> t < kMaxTid"
| "valid_operation (OReadLock t a) \<longleftrightarrow> t < kMaxTid"
| "valid_operation (OReadUnlock t a) \<longleftrightarrow> t < kMaxTid"
| "valid_operation (OReadOrWriteUnlock t a) \<longleftrightarrow> t < kMaxTid"
| "valid_operation (OAcquire t a) \<longleftrightarrow> t < kMaxTid"
| "valid_operation (ORelease t a) \<longleftrightarrow> t < kMaxTid"
| "valid_operation (OReleaseStore t a) \<longleftrightarrow> t < kMaxTid"

primrec run_program :: "(u64 \<Rightarrow> bool) \<Rightarrow> operation list \<Rightarrow> detector \<Rightarrow> detector option" where
  "run_program g [] d = Some d"
| "run_program g (x # xs) d = do { d \<leftarrow> run_operation g x d; run_program g xs d }"

text \<open>The actions of the operations of a run, in order.\<close>

primrec program_actions :: "(u64 \<Rightarrow> bool) \<Rightarrow> operation list \<Rightarrow> detector \<Rightarrow> action list" where
  "program_actions g [] d = []"
| "program_actions g (x # xs) d =
    actions_of g x d @ (case run_operation g x d of None \<Rightarrow> [] | Some d' \<Rightarrow> program_actions g xs d')"

lemma valid_probe: "t < kMaxTid \<Longrightarrow> list_all valid_action (probe t a w)"
  by (simp add: probe_def)

lemma operation_actions: "valid_operation x \<Longrightarrow> list_all valid_action (actions_of g x d) \<and> length (actions_of g x d) \<le> 5"
  by (cases x) (auto simp: valid_probe, auto simp: probe_def split: option.splits)

lemma inv_program:
  assumes "inv acts d" "list_all valid_operation xs" "length acts + 5 * length xs + 3 < 2 ^ 43" "run_program g xs d = Some d'"
  shows "inv (acts @ program_actions g xs d) d'"
  using assms
proof (induction xs arbitrary: acts d)
  case (Cons x xs)
  obtain d1 where d1: "run_operation g x d = Some d1" "run_program g xs d1 = Some d'"
    using Cons.prems(4) by (auto simp: bind_eq_Some_conv)
  have ops: "list_all valid_action (actions_of g x d)" "length (actions_of g x d) \<le> 5" using operation_actions Cons.prems(2) by simp_all
  have "inv (acts @ actions_of g x d) (fold do_action (actions_of g x d) d)"
    using Cons.prems(3) ops by (intro inv_actions [OF Cons.prems(1)]) simp_all
  then have "inv (acts @ actions_of g x d) d1"
    using run_operation_actions [OF d1(1)] inv_facts(1) [OF Cons.prems(1)] inv_same by blast
  then show ?case using Cons.IH [of "acts @ actions_of g x d" d1] Cons.prems(2,3) ops d1 by simp
qed simp

lemma program_actions_length: "list_all valid_operation xs \<Longrightarrow> length (program_actions g xs d) \<le> 5 * length xs"
proof (induction xs arbitrary: d)
  case (Cons x xs)
  then have "length (actions_of g x d) \<le> 5" "\<And>d. length (program_actions g xs d) \<le> 5 * length xs" using operation_actions by simp_all
  then show ?case by (auto split: option.split intro: add_mono)
qed simp

end
