(* ===== verification/Tsan_Detector.thy ===== *)
theory Tsan_Detector
  imports Tsan_Mem
begin

unbundle bit_operations_syntax

text \<open>What the race detector promises, for every run of operations from the start of the threads.\<close>

section \<open>The start\<close>

lemma inv_initial: "inv [] initial"
proof -
  have f: "word_fields (FastState (of_nat t) 1) t 1 False 0 0" if "t < kMaxTid" for t
  proof -
    have "unat (of_nat t :: u64) = t" using that by (simp add: layout_defs unsigned_of_nat take_bit_nat_eq_self)
    then show ?thesis using FastState_fields [of "of_nat t" 1] that by (simp add: layout_defs)
  qed
  have "exact [] (T_view initial) (S_view initial)"
  proof (rule exactI)
    show "T_view initial t u \<le> epoch_after [] u" for t u
      by (simp add: T_view_def initial_def start_thread_def epoch_after_def set_clk_def new_ThreadClock_def Let_def)
    have "clock_of v initial = Vector" for v by (cases v) (simp_all add: initial_def sync_var_def new_SyncVar_def new_SyncClock_def)
    then show "S_view initial v u \<le> epoch_after [] u" for v u by (simp add: S_view_def sync_at_def Vector_def)
  qed simp_all
  moreover have "vec_ok (clock_of v initial)" for v
    by (cases v) (simp_all add: initial_def sync_var_def new_SyncVar_def new_SyncClock_def vec_ok_def Vector_def)
  moreover have "clock_ok new_ThreadClock" by (simp add: new_ThreadClock_def clock_ok_def)
  then have "clock_ok (clock (start_thread t 1))" for t using set_at(1) by (simp add: start_thread_def)
  ultimately show ?thesis unfolding inv_def using f by (simp add: initial_def start_thread_def epoch_after_def)
qed

lemma inv_run:
  assumes "list_all valid_operation xs" "length xs \<le> 2 ^ 40" "run_program g xs initial = Some d"
  shows "inv (program_actions g xs initial) d"
  using inv_program [OF inv_initial assms(1) _ assms(3)] assms(2) by simp

section \<open>Two runs\<close>

text \<open>A thread writes, releases, and writes again; another acquires and writes. In the second run the release is the unlocking of a mutex.\<close>

definition release_run :: "operation list" where
  "release_run = [OAccess 1 0x7cf000000000 3 True, ORelease 1 8, OAccess 1 0x7cf000000000 3 True, OAcquire 2 8, OAccess 2 0x7cf000000000 3 True]"

definition unlock_run :: "operation list" where
  "unlock_run = [OLock 1 8, OAccess 1 0x7cf000000000 3 True, OUnlock 1 8, OAccess 1 0x7cf000000000 3 True, OLock 2 8, OAccess 2 0x7cf000000000 3 True]"

lemma release_run_races: "map_option races (run_program (\<lambda>_. False) release_run initial) = Some []"
  by code_simp

lemma unlock_run_races: "map_option (length \<circ> races) (run_program (\<lambda>_. False) unlock_run initial) = Some 1"
  by code_simp

lemma release_run_actions: "program_actions (\<lambda>_. False) release_run initial =
  [Mem 1 0x7cf000000000 3 True, Rel 1 (SyncClk 8), Mem 1 0x7cf000000000 3 True, Own 2, Acq 2 (SyncClk 8), Mem 2 0x7cf000000000 3 True]"
  by code_simp


section \<open>Properties\<close>

text \<open>C37: Every race that is reported is one: of the two accesses the report names, one writes, they are by different threads and share an address, and
  neither happens before the other in the run.\<close>

theorem reported_races_are_races:
  assumes "list_all valid_operation xs" and "length xs \<le> 2 ^ 40" and "run_program g xs initial = Some d" and "r \<in> set (races d)"
  shows "\<exists>i j. data_race (program_actions g xs initial) i j \<and> tid_of (racy_old r) = of_nat (thr (program_actions g xs initial ! i)) \<and>
    tid_of (racy_cur r) = of_nat (thr (program_actions g xs initial ! j))"
  using inv_facts(7) [OF inv_run [OF assms(1-3)] assms(4)] by (simp add: true_race_def)

text \<open>C38: The clocks decide happens-before: at any time, the entry of a thread for another is at least the epoch of an access exactly if the access happens before
  something the thread has done.\<close>

theorem clocks_decide_happens_before:
  assumes "list_all valid_operation xs" and "length xs \<le> 2 ^ 40" and "run_program g xs initial = Some d"
    and "i < length (program_actions g xs initial)" and "program_actions g xs initial ! i = Mem u a l w" and "t \<noteq> u"
  shows "epoch_at (program_actions g xs initial) i \<le> unat (get (clock (threads d t)) u) \<longleftrightarrow>
    (\<exists>j<length (program_actions g xs initial). thr (program_actions g xs initial ! j) = t \<and> happens_before (program_actions g xs initial) i j)"
  using exactD(3) [OF inv_facts(5) [OF inv_run [OF assms(1-3)]] assms(4), of t] assms(5,6)
  by (simp add: T_view_def get_def known_def)

theorem reported_races_are_races_witness:
  "\<exists>i j. data_race (program_actions (\<lambda>_. False) unlock_run initial) i j"
proof -
  obtain d where d: "run_program (\<lambda>_. False) unlock_run initial = Some d" "length (races d) = 1"
    using unlock_run_races by auto
  then obtain r where "r \<in> set (races d)" by (cases "races d") auto
  moreover have "list_all valid_operation unlock_run" by code_simp
  moreover have "length unlock_run \<le> 2 ^ 40" by (simp add: unlock_run_def)
  ultimately show ?thesis using reported_races_are_races [of unlock_run "\<lambda>_. False" d r] d(1) by blast
qed

theorem clocks_decide_happens_before_witness:
  "\<exists>d. run_program (\<lambda>_. False) release_run initial = Some d \<and> unat (get (clock (threads d 2)) 1) \<ge> 2"
proof -
  let ?acts = "program_actions (\<lambda>_. False) release_run initial"
  obtain d where d: "run_program (\<lambda>_. False) release_run initial = Some d" using release_run_races by auto
  have v: "list_all valid_operation release_run" by code_simp
  have l: "length release_run \<le> 2 ^ 40" by (simp add: release_run_def)
  have a: "0 < length ?acts" "?acts ! 0 = Mem 1 0x7cf000000000 3 True" "epoch_at ?acts 0 = 2"
    unfolding release_run_actions by (simp_all add: epoch_at_def epoch_after_def)
  have e: "hb_edge ?acts 0 1" "hb_edge ?acts 1 4" unfolding hb_edge_def release_run_actions by (auto simp: less_Suc_eq numeral_eq_Suc)
  then have "happens_before ?acts 0 4" unfolding happens_before_def by (auto intro: rtranclp_trans)
  moreover have "4 < length ?acts" "thr (?acts ! 4) = 2" unfolding release_run_actions by simp_all
  ultimately have "\<exists>j<length ?acts. thr (?acts ! j) = 2 \<and> happens_before ?acts 0 j" by blast
  then have "2 \<le> unat (get (clock (threads d 2)) 1)"
    using clocks_decide_happens_before [OF v l d a(1,2), of 2] unfolding a(3) by simp
  with d show ?thesis by blast
qed

text \<open>C39: An access reports the first slot of its cell, in the order of the search, that decides: one with the same access since the last synchronization of the thread
  ends the search, and one with a conflicting access not known to have happened before is a race.\<close>

theorem access_reports_first_conflict:
  assumes "list_all valid_operation xs" and "length xs \<le> 2 ^ 40" and "run_program g xs initial = Some d"
    and "t < kMaxTid" and "IsAppMem a" and "unat l < 4"
    and "thr' = (threads d t)\<lparr>fast_state := IncrementEpoch (fast_state (threads d t))\<rparr>"
    and "cur = SetWrite (SetAddr0AndSizeLog (fast_state thr') (a AND 7) l) w"
  shows "races (MemoryAccess t a l w d) = races d @
    (case first_decisive thr' w cur (map (\<lambda>i. shadow d (slot_address (mem_to_shadow a) cur i)) [0..<kShadowCnt]) of
       Race old \<Rightarrow> [\<lparr> racy_cur = cur, racy_old = old, racy_shadow_addr = mem_to_shadow a \<rparr>] | _ \<Rightarrow> [])"
proof -
  note i = inv_run [OF assms(1-3)]
  have b: "length (program_actions g xs initial) + 3 < 2 ^ 43"
    using program_actions_length [OF assms(1), of g initial] assms(2) by simp
  have "word_fields (fast_state thr') t (epoch_after (program_actions g xs initial @ [Mem t a l w]) t) False 0 0"
    using step_fields [OF i b, of "Mem t a l w" t] assms(4,7) by simp
  moreover have "unat (a AND 7) = unat a mod 8" using unat_addr0 [of a] by (simp add: addr0_of_def)
  ultimately have "word_fields cur t (epoch_after (program_actions g xs initial @ [Mem t a l w]) t) w (unat l) (unat a mod 8)"
    using access_fields [of "fast_state thr'" t _ "a AND 7" l w] assms(6,8) by simp
  from access_race [OF this, of thr' "mem_to_shadow a" "shadow d"] show ?thesis
    using not_ignored [OF inv_facts(4) [OF i assms(4)]] assms(7,8)
    by (auto simp: MemoryAccess_def Let_def upd_thread_def split: prod.split slot_outcome.splits)
qed

theorem access_reports_first_conflict_witness:
  "\<exists>d. run_program (\<lambda>_. False) [OAccess 1 0x7cf000000000 3 True] initial = Some d \<and> races (MemoryAccess 2 0x7cf000000000 3 False d) \<noteq> []"
proof -
  let ?d = "MemoryAccess 1 0x7cf000000000 3 True initial"
  have r: "run_program (\<lambda>_. False) [OAccess 1 0x7cf000000000 3 True] initial = Some ?d" by simp
  have v: "list_all valid_operation [OAccess 1 0x7cf000000000 3 True]" "2 < kMaxTid" "IsAppMem 0x7cf000000000" by code_simp+
  have "(\<lambda>thr'. (\<lambda>cur. first_decisive thr' False cur (map (\<lambda>i. shadow ?d (slot_address (mem_to_shadow 0x7cf000000000) cur i)) [0..<kShadowCnt]))
      (SetWrite (SetAddr0AndSizeLog (fast_state thr') (0x7cf000000000 AND 7) 3) False))
      ((threads ?d 2)\<lparr>fast_state := IncrementEpoch (fast_state (threads ?d 2))\<rparr>) = Race 0x4000000000138" by code_simp
  from access_reports_first_conflict [OF v(1) _ r v(2,3) _ refl refl, of 3 False] this r show ?thesis by simp
qed


end
