(* ===== verification/Spec2Isabelle.thy ===== *)
theory Spec2Isabelle
  imports Shifts BitCount Overflow Multiply Compare_Int Divide Divide_Wide Divide_Signed Fp_Compare Fp_Mul Fp_Convert Fp_ToInt Fp_FromInt Fp_Div Popcount Blocks_Client Blocks_Byref Blocks_Latch Atomic_Threads Gcda Personality Fp_X87 Complex_Arith Powi Asan_Globals Tsan_Detector
begin

text \<open>
  Verification of the compiler runtime library \<^verbatim>\<open>compiler-rt\<close> in its Patmos fork.
\<close>

end
